(* ===== verification/Prelude.thy ===== *)
theory Prelude
  imports Main "HOL-Library.List_Lexorder" "HOL-Library.Char_ord"
begin

text \<open>
  What every component of the development shares: the collections of hints, the model of the
  C++ containers (\<open>std::map\<close> as a list sorted by key, \<open>std::string::rfind\<close>), decimal
  printing of integers, and the combinator for calls that may throw.

  Strings are \<^typ>\<open>string\<close>: a \<open>std::string\<close> is a sequence of bytes. They are ordered
  lexicographically by byte value, which is what \<open>std::string::operator<\<close> does.
\<close>

named_theorems smap_simps \<open>facts about the operations on \<open>std::map\<close>\<close>

section \<open>Calls that may throw\<close>

text \<open>
  A call that may throw returns \<open>'e + 'a\<close>: \<^const>\<open>Inl\<close> is the exception, \<^const>\<open>Inr\<close> the
  value. \<open>bindE\<close> runs the rest only when nothing was thrown.
\<close>

definition bindE :: "'e + 'a \<Rightarrow> ('a \<Rightarrow> 'e + 'b) \<Rightarrow> 'e + 'b" where
  "bindE x f = (case x of Inl e \<Rightarrow> Inl e | Inr a \<Rightarrow> f a)"

lemma bindE_Inl [simp]: "bindE (Inl e) f = Inl e"
  by (simp add: bindE_def)

lemma bindE_Inr [simp]: "bindE (Inr a) f = f a"
  by (simp add: bindE_def)

lemma bindE_eq_Inr: "bindE x f = Inr b \<longleftrightarrow> (\<exists>a. x = Inr a \<and> f a = Inr b)"
  by (cases x) auto

section \<open>\<open>std::map\<close>\<close>

text \<open>
  A \<open>std::map<K,V>\<close> is the list of its entries in iteration order, which is the order of the
  keys. \<open>find\<close> is \<^const>\<open>map_of\<close>.
\<close>

type_synonym ('k, 'v) stdmap = "('k \<times> 'v) list"

definition smap_wf :: "('k::linorder, 'v) stdmap \<Rightarrow> bool" where
  "smap_wf m \<longleftrightarrow> sorted_wrt (<) (map fst m)"

text \<open>\<open>m[k] = v\<close>: overwrite the value at \<open>k\<close>, or insert one.\<close>

fun smap_assign :: "'k::linorder \<Rightarrow> 'v \<Rightarrow> ('k, 'v) stdmap \<Rightarrow> ('k, 'v) stdmap" where
  "smap_assign k v [] = [(k, v)]"
| "smap_assign k v ((k', v') # m) =
     (if k < k' then (k, v) # (k', v') # m
      else if k = k' then (k, v) # m
      else (k', v') # smap_assign k v m)"

text \<open>\<open>m.insert({k, v})\<close>: no effect when \<open>k\<close> is already a key.\<close>

definition smap_insert :: "'k::linorder \<Rightarrow> 'v \<Rightarrow> ('k, 'v) stdmap \<Rightarrow> ('k, 'v) stdmap" where
  "smap_insert k v m = (case map_of m k of None \<Rightarrow> smap_assign k v m | Some _ \<Rightarrow> m)"

text \<open>\<open>m.erase(k)\<close>.\<close>

definition smap_erase :: "'k::linorder \<Rightarrow> ('k, 'v) stdmap \<Rightarrow> ('k, 'v) stdmap" where
  "smap_erase k m = filter (\<lambda>e. fst e \<noteq> k) m"

lemma smap_wf_Nil [simp]: "smap_wf []"
  by (simp add: smap_wf_def)

lemma smap_wf_Cons: "smap_wf (e # m) \<longleftrightarrow> (\<forall>k \<in> fst ` set m. fst e < k) \<and> smap_wf m"
  by (auto simp: smap_wf_def)

lemma smap_wf_distinct: "smap_wf m \<Longrightarrow> distinct (map fst m)"
  unfolding smap_wf_def by (metis strict_sorted_iff)

lemma keys_smap_assign [smap_simps]: "fst ` set (smap_assign k v m) = insert k (fst ` set m)"
  by (induction m rule: smap_assign.induct) auto

lemma set_smap_assign: "set (smap_assign k v m) \<subseteq> insert (k, v) (set m)"
proof (induction m)
  case (Cons e m)
  then show ?case by (cases e) auto
qed simp

lemma length_smap_assign: "map_of m k = None \<Longrightarrow> length (smap_assign k v m) = Suc (length m)"
  by (induction m) (auto split: if_splits)

lemma map_of_smap_assign [smap_simps]:
  "smap_wf m \<Longrightarrow> map_of (smap_assign k v m) = (map_of m)(k \<mapsto> v)"
  by (induction m) (auto simp: smap_wf_Cons fun_eq_iff)

lemma smap_wf_assign: "smap_wf m \<Longrightarrow> smap_wf (smap_assign k v m)"
  by (induction m) (force simp: smap_wf_Cons keys_smap_assign)+

lemma smap_wf_insert: "smap_wf m \<Longrightarrow> smap_wf (smap_insert k v m)"
  by (simp add: smap_insert_def smap_wf_assign split: option.split)

lemma map_of_smap_insert [smap_simps]:
  "smap_wf m \<Longrightarrow> map_of (smap_insert k v m) k' =
     (if k' = k \<and> map_of m k = None then Some v else map_of m k')"
  by (auto simp: smap_insert_def map_of_smap_assign split: option.split)

lemma smap_wf_erase: "smap_wf m \<Longrightarrow> smap_wf (smap_erase k m)"
  by (induction m) (auto simp: smap_wf_Cons smap_erase_def)

lemma map_of_smap_erase [smap_simps]: "map_of (smap_erase k m) = (map_of m)(k := None)"
  by (induction m) (auto simp: smap_erase_def fun_eq_iff)

text \<open>Inserting a key above all others appends it, so re-inserting the entries in order rebuilds the map.\<close>

lemma smap_assign_snoc: "\<forall>k' \<in> fst ` set m. k' < k \<Longrightarrow> smap_assign k v m = m @ [(k, v)]"
  by (induction m) auto

lemma alist_of_keys: "distinct (map fst m) \<Longrightarrow> m = map (\<lambda>k. (k, the (map_of m k))) (map fst m)"
  unfolding map_map by (rule map_idI [symmetric]) auto

lemma map_of_eq_of_keys:
  "distinct (map fst m) \<Longrightarrow> map fst m = map fst m' \<Longrightarrow> map_of m = map_of m' \<Longrightarrow> m = m'"
  by (metis alist_of_keys)

text \<open>Two maps with the same lookups are the same map.\<close>

lemma smap_ext:
  assumes "smap_wf m" "smap_wf m'" "map_of m = map_of m'"
  shows "m = m'"
proof -
  have d: "distinct (map fst m)" "distinct (map fst m')"
    using assms by (auto intro: smap_wf_distinct)
  have "set (map fst m) = set (map fst m')"
    using assms(3) by (metis dom_map_of_conv_image_fst list.set_map)
  moreover have "sorted (map fst m)" "sorted (map fst m')"
    using assms(1,2) by (auto simp: smap_wf_def strict_sorted_iff)
  ultimately have k: "map fst m = map fst m'"
    using d by (intro sorted_distinct_set_unique) auto
  show ?thesis
    using d k assms(3) by (metis map_of_eq_of_keys)
qed

section \<open>Calls that change state and may throw\<close>

text \<open>
  Such a call takes the state and returns its outcome with the new state; what was changed before an
  exception stays changed.
\<close>

type_synonym ('s, 'e, 'a) call = "'s \<Rightarrow> ('e + 'a) \<times> 's"

definition returnS :: "'a \<Rightarrow> ('s, 'e, 'a) call" where
  "returnS a s = (Inr a, s)"

definition throwS :: "'e \<Rightarrow> ('s, 'e, 'a) call" where
  "throwS e s = (Inl e, s)"

definition bindS :: "('s, 'e, 'a) call \<Rightarrow> ('a \<Rightarrow> ('s, 'e, 'b) call) \<Rightarrow> ('s, 'e, 'b) call" where
  "bindS m f s = (case m s of (Inl e, s') \<Rightarrow> (Inl e, s') | (Inr a, s') \<Rightarrow> f a s')"

named_theorems call_simps \<open>evaluation of calls\<close>

lemma returnS_apply [call_simps]: "returnS a s = (Inr a, s)"
  by (simp add: returnS_def)

lemma throwS_apply [call_simps]: "throwS e s = (Inl e, s)"
  by (simp add: throwS_def)

lemma bindS_Inr [call_simps]: "m s = (Inr a, s') \<Longrightarrow> bindS m f s = f a s'"
  by (simp add: bindS_def)

lemma bindS_Inl [call_simps]: "m s = (Inl e, s') \<Longrightarrow> bindS m f s = (Inl e, s')"
  by (simp add: bindS_def)

text \<open>The two ways a sequence of two calls can go.\<close>

lemma bindS_cases:
  assumes "bindS m f s = (r, s')"
  obtains (throw) e where "m s = (Inl e, s')" "r = Inl e"
    | (go) a t where "m s = (Inr a, t)" "f a t = (r, s')"
  using assms by (cases "m s"; cases "fst (m s)") (auto simp: bindS_def)

text \<open>The results of a list of calls and the state after them; an exception ends one call only.\<close>

fun run_calls :: "('x \<Rightarrow> 's \<Rightarrow> 'r \<times> 's) \<Rightarrow> 'x list \<Rightarrow> 's \<Rightarrow> 'r list \<times> 's" where
  "run_calls f [] s = ([], s)"
| "run_calls f (x # xs) s = (let (r, s') = f x s; (rs, s'') = run_calls f xs s' in (r # rs, s''))"

section \<open>C strings and keys\<close>

text \<open>A \<open>std::string\<close> passed as \<open>c_str()\<close> ends at its first zero byte.\<close>

definition c_str :: "string \<Rightarrow> string" where
  "c_str s = takeWhile (\<lambda>c. c \<noteq> CHR 0x00) s"

definition nul_free :: "string \<Rightarrow> bool" where
  "nul_free s \<longleftrightarrow> CHR 0x00 \<notin> set s"

lemma c_str_nul_free [simp]: "nul_free s \<Longrightarrow> c_str s = s"
  by (auto simp: c_str_def nul_free_def takeWhile_eq_all_conv)

lemma nul_free_append [simp]: "nul_free (s @ t) \<longleftrightarrow> nul_free s \<and> nul_free t"
  by (auto simp: nul_free_def)

lemma nul_free_Nil [simp]: "nul_free []"
  by (simp add: nul_free_def)

lemma nul_free_Cons [simp]: "nul_free (c # s) \<longleftrightarrow> c \<noteq> CHR 0x00 \<and> nul_free s"
  by (auto simp: nul_free_def)

text \<open>Two key prefixes that never give the same key.\<close>

definition apart :: "string \<Rightarrow> string \<Rightarrow> bool" where
  "apart p q \<longleftrightarrow> take (length q) p \<noteq> q \<and> take (length p) q \<noteq> p"

lemma apart_append: "apart p q \<Longrightarrow> p @ x \<noteq> q @ y"
proof
  assume "apart p q" and e: "p @ x = q @ y"
  consider "length q \<le> length p" | "length p \<le> length q" by linarith
  then have "take (length q) p = q \<or> take (length p) q = p"
  proof cases
    case 1
    then show ?thesis using arg_cong [OF e, of "take (length q)"] by simp
  next
    case 2
    then show ?thesis using arg_cong [OF e, of "take (length p)"] by simp
  qed
  then show False using \<open>apart p q\<close> by (auto simp: apart_def)
qed

lemma apart_sym: "apart p q \<Longrightarrow> apart q p"
  by (simp add: apart_def)

section \<open>Integers in memory\<close>

text \<open>The bytes of an unsigned integer that takes \<open>k\<close> bytes, least significant first, as \<open>memcpy\<close> sees them on the platforms in use.\<close>

fun bytes_of_nat :: "nat \<Rightarrow> nat \<Rightarrow> string" where
  "bytes_of_nat 0 n = []"
| "bytes_of_nat (Suc k) n = char_of (n mod 256) # bytes_of_nat k (n div 256)"

fun nat_of_bytes :: "string \<Rightarrow> nat" where
  "nat_of_bytes [] = 0"
| "nat_of_bytes (c # cs) = of_char c + 256 * nat_of_bytes cs"

lemma length_bytes_of_nat [simp]: "length (bytes_of_nat k n) = k"
  by (induction k arbitrary: n) auto

lemma nat_of_bytes_of_nat: "nat_of_bytes (bytes_of_nat k n) = n mod 256 ^ k"
proof (induction k arbitrary: n)
  case (Suc k)
  have "n mod (256 * 256 ^ k) = n mod 256 + 256 * (n div 256 mod 256 ^ k)"
    by (simp add: mod_mult2_eq)
  then show ?case
    by (simp add: Suc of_char_of)
qed simp

lemma nat_bytes_roundtrip: "n < 256 ^ k \<Longrightarrow> nat_of_bytes (bytes_of_nat k n) = n"
  by (simp add: nat_of_bytes_of_nat)

lemma nat_of_bytes_less: "nat_of_bytes s < 256 ^ length s"
proof (induction s)
  case (Cons c cs)
  have "(of_char c :: nat) < 256"
    using of_char_mod_256 [of c, where 'a = nat] by (metis mod_less_divisor zero_less_numeral)
  then have "of_char c + 256 * nat_of_bytes cs < 256 * (nat_of_bytes cs + 1)"
    by simp
  also have "\<dots> \<le> 256 * 256 ^ length cs"
    using Cons by (intro mult_left_mono) simp_all
  finally show ?case
    by simp
qed simp

lemma bytes_of_nat_of_bytes: "bytes_of_nat (length s) (nat_of_bytes s) = s"
  by (induction s) simp_all

end
