(* ===== verification/CppStrings.thy ===== *)
theory CppStrings
  imports Prelude
begin

text \<open>
  The string functions the sources use. What comes from the C++ standard library is defined here
  (\<open>std::string::rfind\<close>, printing an \<open>int\<close> on an \<open>std::ostream\<close>). What comes from Boost
  (\<open>boost/algorithm/string.hpp\<close>, \<open>boost/lexical_cast.hpp\<close>) is not part of the repository: it is a
  parameter of the model, the record \<open>boost\<close>, and the locale \<open>boost_strings\<close> states the
  documented behaviour the sources rely on, against the reference functions \<open>strip\<close>,
  \<open>split_on\<close> and so on. \<open>boost_ref\<close> is an instance, so the assumptions can be met.
\<close>

named_theorems boost_simps \<open>documented behaviour of the Boost string functions\<close>

section \<open>Standard library\<close>

text \<open>\<open>s.rfind(c)\<close>: position of the last occurrence, \<^const>\<open>None\<close> for \<open>npos\<close>.\<close>

fun rfind :: "char \<Rightarrow> string \<Rightarrow> nat option" where
  "rfind c [] = None"
| "rfind c (x # xs) =
     (case rfind c xs of Some i \<Rightarrow> Some (Suc i) | None \<Rightarrow> if x = c then Some 0 else None)"

text \<open>\<open>os << n\<close> for an \<open>int\<close>.\<close>

definition digit :: "nat \<Rightarrow> char" where
  "digit d = char_of (48 + d)"

fun show_nat :: "nat \<Rightarrow> string" where
  "show_nat n = (if n < 10 then [digit n] else show_nat (n div 10) @ [digit (n mod 10)])"

declare show_nat.simps [simp del]

definition show_int :: "int \<Rightarrow> string" where
  "show_int i = (if i < 0 then CHR ''-'' # show_nat (nat (- i)) else show_nat (nat i))"

definition in_int32 :: "int \<Rightarrow> bool" where
  "in_int32 i \<longleftrightarrow> - (2 ^ 31) \<le> i \<and> i < 2 ^ 31"

section \<open>Reference functions for Boost\<close>

text \<open>\<open>std::isspace\<close> in the classic locale.\<close>

definition is_space :: "char \<Rightarrow> bool" where
  "is_space c \<longleftrightarrow> c = CHR '' '' \<or> (9 \<le> (of_char c :: nat) \<and> (of_char c :: nat) \<le> 13)"

definition strip :: "string \<Rightarrow> string" where
  "strip s = rev (dropWhile is_space (rev (dropWhile is_space s)))"

fun split_on :: "(char \<Rightarrow> bool) \<Rightarrow> string \<Rightarrow> string list" where
  "split_on p [] = [[]]"
| "split_on p (c # cs) =
     (if p c then [] # split_on p cs
      else (case split_on p cs of [] \<Rightarrow> [[c]] | w # ws \<Rightarrow> (c # w) # ws))"

definition upper :: "char \<Rightarrow> char" where
  "upper c = (if 97 \<le> (of_char c :: nat) \<and> (of_char c :: nat) \<le> 122 then char_of (of_char c - (32 :: nat)) else c)"

definition undigit :: "char \<Rightarrow> nat option" where
  "undigit c = (if 48 \<le> (of_char c :: nat) \<and> (of_char c :: nat) \<le> 57 then Some (of_char c - 48) else None)"

fun read_digits :: "nat \<Rightarrow> string \<Rightarrow> nat option" where
  "read_digits acc [] = Some acc"
| "read_digits acc (c # cs) =
     (case undigit c of None \<Rightarrow> None | Some d \<Rightarrow> read_digits (10 * acc + d) cs)"

definition read_signed :: "string \<Rightarrow> int option" where
  "read_signed s = (case s of
       [] \<Rightarrow> None
     | c # cs \<Rightarrow>
         if c = CHR ''-'' then if cs = [] then None else map_option (\<lambda>n. - int n) (read_digits 0 cs)
         else map_option int (read_digits 0 s))"

definition read_int :: "string \<Rightarrow> int option" where
  "read_int s = (case read_signed s of None \<Rightarrow> None | Some i \<Rightarrow> if in_int32 i then Some i else None)"

section \<open>Facts about the reference functions\<close>

lemma rfind_None: "rfind c xs = None \<longleftrightarrow> c \<notin> set xs"
  by (induction xs) (auto split: option.splits)

lemma rfind_last: "c \<notin> set ys \<Longrightarrow> rfind c (xs @ c # ys) = Some (length xs)"
  by (induction xs) (auto simp: rfind_None [symmetric] split: option.splits)

lemma of_char_digit: "d < 10 \<Longrightarrow> of_char (digit d) = 48 + d"
  by (simp add: digit_def of_char_of)

lemma undigit_digit: "d < 10 \<Longrightarrow> undigit (digit d) = Some d"
  by (simp add: undigit_def of_char_digit)

lemma digit_not_sep: "d < 10 \<Longrightarrow> \<not> is_space (digit d) \<and> digit d \<noteq> CHR '':'' \<and> digit d \<noteq> CHR ''-''
    \<and> digit d \<noteq> CHR ''['' \<and> digit d \<noteq> CHR '']''"
  by (auto simp: is_space_def of_char_digit dest!: arg_cong [of _ _ "of_char :: char \<Rightarrow> nat"])

lemma show_nat_nonempty: "show_nat n \<noteq> []"
  by (subst show_nat.simps) simp

lemma show_nat_chars: "c \<in> set (show_nat n) \<Longrightarrow> \<exists>d < 10. c = digit d"
proof (induction n rule: show_nat.induct)
  case (1 n)
  then show ?case
    by (cases "n < 10") (auto simp: show_nat.simps [of n] intro: exI [of _ "n mod 10"])
qed

lemma read_digits_append:
  "read_digits acc (xs @ ys) = (case read_digits acc xs of None \<Rightarrow> None | Some a \<Rightarrow> read_digits a ys)"
  by (induction xs arbitrary: acc) (auto split: option.splits)

lemma read_show_nat: "read_digits 0 (show_nat n) = Some n"
proof (induction n rule: show_nat.induct)
  case (1 n)
  then show ?case
    by (cases "n < 10") (simp_all add: show_nat.simps [of n] undigit_digit read_digits_append)
qed

lemma read_show_signed: "read_signed (show_int i) = Some i"
proof (cases "i < 0")
  case True
  then show ?thesis
    by (simp add: show_int_def read_signed_def show_nat_nonempty read_show_nat)
next
  case False
  obtain c cs where c: "show_nat (nat i) = c # cs"
    using show_nat_nonempty by (cases "show_nat (nat i)") auto
  have "c \<noteq> CHR ''-''"
    using show_nat_chars [of c "nat i"] digit_not_sep c by auto
  then show ?thesis
    using False read_show_nat [of "nat i"] c by (simp add: show_int_def read_signed_def)
qed

lemma read_show_int: "in_int32 i \<Longrightarrow> read_int (show_int i) = Some i"
  by (simp add: read_int_def read_show_signed)

lemma read_int_range: "read_int s = Some i \<Longrightarrow> in_int32 i"
  by (auto simp: read_int_def split: option.splits if_splits)

lemma show_int_chars: "c \<in> set (show_int i) \<Longrightarrow> c = CHR ''-'' \<or> (\<exists>d < 10. c = digit d)"
  by (auto simp: show_int_def dest: show_nat_chars split: if_splits)

lemma show_int_nonempty: "show_int i \<noteq> []"
  by (simp add: show_int_def show_nat_nonempty)

lemma show_int_no_sep: "c \<in> {CHR '':'', CHR ''['', CHR '']''} \<Longrightarrow> c \<notin> set (show_int i)"
proof
  assume c: "c \<in> {CHR '':'', CHR ''['', CHR '']''}" and "c \<in> set (show_int i)"
  from show_int_chars [OF this(2)] consider "c = CHR ''-''" | d where "d < 10" "c = digit d"
    by blast
  then show False
    using c by cases (simp, metis digit_not_sep empty_iff insert_iff)
qed

lemma show_int_no_space: "c \<in> set (show_int i) \<Longrightarrow> \<not> is_space c"
proof -
  assume "c \<in> set (show_int i)"
  from show_int_chars [OF this] consider "c = CHR ''-''" | d where "d < 10" "c = digit d"
    by blast
  then show ?thesis
    by cases (simp_all add: digit_not_sep, simp add: is_space_def)
qed

lemma split_on_nonempty: "split_on p s \<noteq> []"
  by (induction s) (auto split: list.splits)

lemma split_on_none: "\<forall>c \<in> set s. \<not> p c \<Longrightarrow> split_on p s = [s]"
  by (induction s) auto

lemma split_on_first: "\<forall>c \<in> set h. \<not> p c \<Longrightarrow> p d \<Longrightarrow> split_on p (h @ d # t) = h # split_on p t"
  by (induction h) auto

lemma split_char_first: "d \<notin> set h \<Longrightarrow> split_on (\<lambda>c. c = d) (h @ d # t) = h # split_on (\<lambda>c. c = d) t"
  by (rule split_on_first) auto

lemma split_char_none: "d \<notin> set s \<Longrightarrow> split_on (\<lambda>c. c = d) s = [s]"
  by (rule split_on_none) auto

lemma split_on_join:
  "split_on (\<lambda>c. c = d) s = w # ws \<Longrightarrow> s = w @ concat (map (\<lambda>x. d # x) ws)"
proof (induction s arbitrary: w ws)
  case Nil
  then show ?case by simp
next
  case (Cons c cs)
  obtain w' ws' where w': "split_on (\<lambda>c. c = d) cs = w' # ws'"
    using split_on_nonempty by (meson list.exhaust)
  have cs: "cs = w' @ concat (map (\<lambda>x. d # x) ws')"
    by (rule Cons.IH [OF w'])
  have "w = [] \<and> ws = w' # ws' \<and> c = d \<or> w = c # w' \<and> ws = ws'"
    using Cons.prems w' by (auto split: if_splits)
  then show ?case
    using cs by auto
qed

lemma split_on_free: "w \<in> set (split_on p s) \<Longrightarrow> \<forall>c \<in> set w. \<not> p c"
proof (induction s arbitrary: w)
  case Nil
  then show ?case by simp
next
  case (Cons c cs)
  obtain w' ws' where w': "split_on p cs = w' # ws'"
    using split_on_nonempty by (meson list.exhaust)
  then show ?case
    using Cons by (fastforce split: if_splits)
qed

text \<open>A string is trimmed when neither end is white space.\<close>

definition trimmed :: "string \<Rightarrow> bool" where
  "trimmed s \<longleftrightarrow> s = [] \<or> (\<not> is_space (hd s) \<and> \<not> is_space (last s))"

lemma strip_trimmed: "trimmed s \<Longrightarrow> strip s = s"
proof (cases s rule: rev_cases)
  case Nil
  then show ?thesis by (simp add: strip_def)
next
  case (snoc xs x)
  assume t: "trimmed s"
  then have "dropWhile is_space s = s"
    by (cases s) (auto simp: trimmed_def)
  moreover have "\<not> is_space x"
    using t snoc by (simp add: trimmed_def)
  ultimately show ?thesis
    using snoc by (simp add: strip_def)
qed

lemma trimmedI: "(s \<noteq> [] \<Longrightarrow> \<not> is_space (hd s)) \<Longrightarrow> (s \<noteq> [] \<Longrightarrow> \<not> is_space (last s)) \<Longrightarrow> trimmed s"
  by (auto simp: trimmed_def)

lemma trimmed_hd: "trimmed s \<Longrightarrow> s \<noteq> [] \<Longrightarrow> \<not> is_space (hd s)"
  and trimmed_last: "trimmed s \<Longrightarrow> s \<noteq> [] \<Longrightarrow> \<not> is_space (last s)"
  by (auto simp: trimmed_def)

lemma not_space [simp]: "\<not> is_space CHR '':''" "\<not> is_space CHR ''=''" "\<not> is_space CHR ''[''"
    "\<not> is_space CHR '']''" "\<not> is_space CHR '',''"
  by (simp_all add: is_space_def)

lemma show_int_trimmed: "trimmed (show_int i)"
  by (simp add: trimmed_def show_int_no_space [of _ i] show_int_nonempty)

lemma hd_append_sep: "\<not> is_space c \<Longrightarrow> trimmed x \<Longrightarrow> \<not> is_space (hd (x @ c # y))"
  by (cases x) (auto simp: trimmed_def)

lemma last_append_sep: "\<not> is_space c \<Longrightarrow> trimmed y \<Longrightarrow> \<not> is_space (last (x @ c # y))"
  by (auto simp: trimmed_def)

lemma last_dropWhile: "dropWhile p xs \<noteq> [] \<Longrightarrow> last (dropWhile p xs) = last xs"
  by (metis dropWhile_eq_drop last_drop length_drop length_greater_0_conv zero_less_diff)

lemma trimmed_strip: "trimmed (strip s)"
proof -
  define D where "D = dropWhile is_space s"
  define X where "X = dropWhile is_space (rev D)"
  have s: "strip s = rev X"
    by (simp add: strip_def D_def X_def)
  show ?thesis
  proof (cases "X = []")
    case True
    then show ?thesis by (simp add: s trimmed_def)
  next
    case False
    then have D: "D \<noteq> []" by (auto simp: X_def)
    have "\<not> is_space (hd D)"
      using D unfolding D_def by (rule hd_dropWhile)
    moreover have "\<not> is_space (hd X)"
      using False unfolding X_def by (rule hd_dropWhile)
    moreover have "last X = hd D"
      using False D unfolding X_def by (simp add: last_dropWhile last_rev)
    ultimately show ?thesis
      using False by (simp add: s trimmed_def hd_rev last_rev)
  qed
qed

lemma set_strip: "set (strip s) \<subseteq> set s"
  by (auto simp: strip_def dest!: set_dropWhileD)

lemma set_split_on: "w \<in> set (split_on p s) \<Longrightarrow> set w \<subseteq> set s"
proof (induction s arbitrary: w)
  case (Cons c cs)
  obtain w' ws' where w': "split_on p cs = w' # ws'"
    using split_on_nonempty by (meson list.exhaust)
  then show ?case
    using Cons.IH [of w'] Cons.IH [of w] Cons.prems by (auto split: if_splits)
qed simp

lemma rfind_Some_free: "rfind c xs = Some i \<Longrightarrow> i < length xs \<and> xs ! i = c \<and> c \<notin> set (drop (Suc i) xs)"
  by (induction xs arbitrary: i) (auto simp: rfind_None split: option.splits if_splits)

section \<open>Boost as a parameter\<close>

record boost =
  trim_copy :: "string \<Rightarrow> string"
  split_any :: "string \<Rightarrow> string \<Rightarrow> string list"
  to_upper_copy :: "string \<Rightarrow> string"
  starts_with :: "string \<Rightarrow> string \<Rightarrow> bool"
  ends_with :: "string \<Rightarrow> string \<Rightarrow> bool"
  lexical_cast_int :: "string \<Rightarrow> int option"
  lexical_cast_str :: "int \<Rightarrow> string"

locale boost_strings =
  fixes b :: boost
  assumes trim_copy: "trim_copy b s = strip s"
    and split_any: "split_any b s seps = split_on (\<lambda>c. c \<in> set seps) s"
    and to_upper_copy: "to_upper_copy b s = map upper s"
    and starts_with: "starts_with b s p \<longleftrightarrow> take (length p) s = p"
    and ends_with: "ends_with b s p \<longleftrightarrow> take (length p) (rev s) = rev p"
    and lexical_cast_int_show: "in_int32 i \<Longrightarrow> lexical_cast_int b (show_int i) = Some i"
    and lexical_cast_int_range: "lexical_cast_int b s = Some i \<Longrightarrow> in_int32 i"
    and lexical_cast_str: "lexical_cast_str b i = show_int i"
begin

lemmas boost_laws = trim_copy split_any to_upper_copy starts_with ends_with lexical_cast_str

lemma split_char: "split_any b s [d] = split_on (\<lambda>c. c = d) s"
  by (simp add: split_any)

lemma trim_idem: "trim_copy b (trim_copy b s) = trim_copy b s"
  by (simp add: trim_copy strip_trimmed trimmed_strip)

end

definition boost_ref :: boost where
  "boost_ref = \<lparr>trim_copy = strip, split_any = (\<lambda>s seps. split_on (\<lambda>c. c \<in> set seps) s),
     to_upper_copy = map upper, starts_with = (\<lambda>s p. take (length p) s = p),
     ends_with = (\<lambda>s p. take (length p) (rev s) = rev p),
     lexical_cast_int = read_int, lexical_cast_str = show_int\<rparr>"

interpretation boost_ref: boost_strings boost_ref
  by unfold_locales (auto simp: boost_ref_def read_show_int dest: read_int_range)

lemmas boost_ref_simps [boost_simps] = boost_ref.boost_laws boost_ref.split_char

end
