(* ===== verification/Wire.thy ===== *)
theory Wire
  imports Prelude
begin

text \<open>
  What goes over the wire: the byte data hooks (tm_kit/transport/ByteDataHook.hpp) and the
  serializers. A \<open>basic::ByteData\<close> is its content, a \<^typ>\<open>string\<close>.

  The serializers \<open>RunSerializer\<close>, \<open>RunCBORSerializer\<close> and their deserializers belong to the package
  tm_basic, which is not in this repository: they are parameters. The two locales
  state what the sources rely on, that decoding undoes encoding. \<open>decode_at\<close> reads at an offset and
  also returns the number of bytes it used.
\<close>

section \<open>Serializers of tm\_basic\<close>

record 'a serializer =
  encode :: "'a \<Rightarrow> string"
  decode :: "string \<Rightarrow> 'a option"

locale serializer_law =
  fixes c :: "'a serializer"
  assumes decode_encode: "decode c (encode c x) = Some x"

record 'a cbor =
  encode_cbor :: "'a \<Rightarrow> string"
  decode_at :: "string \<Rightarrow> nat \<Rightarrow> ('a \<times> nat) option"

locale cbor_law =
  fixes c :: "'a cbor"
  assumes decode_at_encode:
    "decode_at c (pre @ encode_cbor c x @ post) (length pre) = Some (x, length (encode_cbor c x))"
begin

lemma decode_whole: "decode_at c (encode_cbor c x) 0 = Some (x, length (encode_cbor c x))"
  using decode_at_encode [of "[]" x "[]"] by simp

text \<open>A deserializer that must use up the whole message gives a serializer in the first sense.\<close>

sublocale whole: serializer_law
  "\<lparr>encode = encode_cbor c,
    decode = (\<lambda>s. case decode_at c s 0 of None \<Rightarrow> None | Some (x, n) \<Rightarrow> if n = length s then Some x else None)\<rparr>"
  by unfold_locales (simp add: decode_whole)

end

section \<open>Byte data hooks\<close>

type_synonym UserToWireHook = "string \<Rightarrow> string"
type_synonym WireToUserHook = "string \<Rightarrow> string option"

record ByteDataHookPair =
  userToWire :: "UserToWireHook option"
  wireToUser :: "WireToUserHook option"

text \<open>The data flows through \<open>h1\<close> first, then \<open>h2\<close>.\<close>

definition composeUserToWire :: "UserToWireHook \<Rightarrow> UserToWireHook \<Rightarrow> UserToWireHook" where
  "composeUserToWire h1 h2 = (\<lambda>b. h2 (h1 b))"

definition composeWireToUser :: "WireToUserHook \<Rightarrow> WireToUserHook \<Rightarrow> WireToUserHook" where
  "composeWireToUser h1 h2 = (\<lambda>b. case h1 b of Some x \<Rightarrow> h2 x | None \<Rightarrow> None)"

definition composeUserToWireHook :: "UserToWireHook option \<Rightarrow> UserToWireHook option \<Rightarrow> UserToWireHook option" where
  "composeUserToWireHook h1 h2 =
     (case h1 of None \<Rightarrow> h2
      | Some f1 \<Rightarrow> (case h2 of None \<Rightarrow> h1 | Some f2 \<Rightarrow> Some (\<lambda>b. f2 (f1 b))))"

definition composeWireToUserHook :: "WireToUserHook option \<Rightarrow> WireToUserHook option \<Rightarrow> WireToUserHook option" where
  "composeWireToUserHook h1 h2 =
     (case h1 of None \<Rightarrow> h2
      | Some f1 \<Rightarrow> (case h2 of None \<Rightarrow> h1
          | Some f2 \<Rightarrow> Some (\<lambda>b. case f1 b of Some x \<Rightarrow> f2 x | None \<Rightarrow> None)))"

text \<open>Outgoing data goes through \<open>h1\<close> then \<open>h2\<close>, incoming data through \<open>h2\<close> then \<open>h1\<close>.\<close>

definition composeByteDataHookPair :: "ByteDataHookPair \<Rightarrow> ByteDataHookPair \<Rightarrow> ByteDataHookPair" where
  "composeByteDataHookPair h1 h2 =
     \<lparr>userToWire = composeUserToWireHook (userToWire h1) (userToWire h2),
      wireToUser = composeWireToUserHook (wireToUser h2) (wireToUser h1)\<rparr>"

text \<open>What an absent hook does: nothing.\<close>

definition run_out :: "UserToWireHook option \<Rightarrow> string \<Rightarrow> string" where
  "run_out h s = (case h of None \<Rightarrow> s | Some f \<Rightarrow> f s)"

definition run_in :: "WireToUserHook option \<Rightarrow> string \<Rightarrow> string option" where
  "run_in h s = (case h of None \<Rightarrow> Some s | Some f \<Rightarrow> f s)"

lemma run_out_compose: "run_out (composeUserToWireHook h1 h2) s = run_out h2 (run_out h1 s)"
  by (simp add: run_out_def composeUserToWireHook_def split: option.split)

lemma run_in_compose: "run_in (composeWireToUserHook h1 h2) s = Option.bind (run_in h1 s) (run_in h2)"
proof -
  have "run_in None = Some"
    by (simp add: run_in_def fun_eq_iff)
  then show ?thesis
    by (cases "run_in h1 s") (auto simp: run_in_def composeWireToUserHook_def split: option.splits)
qed

text \<open>The interface a user of a hook pair needs: incoming undoes outgoing.\<close>

locale hook_pair =
  fixes h :: ByteDataHookPair
  assumes undo: "run_in (wireToUser h) (run_out (userToWire h) s) = Some s"

text \<open>
  How a store or a transport writes a value (serialize, then the outgoing hook if there is a pair that
  has one) and reads it back.
\<close>

definition hook_serialize :: "ByteDataHookPair option \<Rightarrow> 'a serializer \<Rightarrow> 'a \<Rightarrow> string" where
  "hook_serialize hp c x =
     (case hp of
        None \<Rightarrow> encode c x
      | Some h \<Rightarrow> (case userToWire h of None \<Rightarrow> encode c x | Some f \<Rightarrow> f (encode c x)))"

definition hook_parse :: "ByteDataHookPair option \<Rightarrow> 'a serializer \<Rightarrow> string \<Rightarrow> 'a option" where
  "hook_parse hp c s =
     (case hp of
        None \<Rightarrow> decode c s
      | Some h \<Rightarrow> (case wireToUser h of None \<Rightarrow> decode c s
          | Some f \<Rightarrow> (case f s of None \<Rightarrow> None | Some parsed \<Rightarrow> decode c parsed)))"

text \<open>A serializer behind an invertible pair of hooks is a serializer again.\<close>

locale hooked = serializer_law c for c :: "'a serializer" +
  fixes hp :: "ByteDataHookPair option"
  assumes hooks_undo: "hp = Some h \<Longrightarrow> hook_pair h"
begin

lemma hook_roundtrip: "hook_parse hp c (hook_serialize hp c x) = Some x"
proof (cases hp)
  case None
  then show ?thesis by (simp add: hook_parse_def hook_serialize_def decode_encode)
next
  case (Some h)
  then have u: "run_in (wireToUser h) (run_out (userToWire h) s) = Some s" for s
    using hooks_undo hook_pair.undo by blast
  show ?thesis
    using Some u [of "encode c x"]
    by (auto simp: hook_parse_def hook_serialize_def decode_encode run_in_def run_out_def split: option.splits)
qed

sublocale through: serializer_law "\<lparr>encode = hook_serialize hp c, decode = hook_parse hp c\<rparr>"
  by unfold_locales (simp add: hook_roundtrip)

end

text \<open>composing two invertible hook pairs gives an invertible pair: the second pair, which is
  outermost on the wire, is undone first. An absent half counts as the identity.\<close>

theorem composed_hooks_undo:
  assumes "hook_pair h1" and "hook_pair h2"
  shows "hook_pair (composeByteDataHookPair h1 h2)"
proof
  fix s
  show "run_in (wireToUser (composeByteDataHookPair h1 h2))
      (run_out (userToWire (composeByteDataHookPair h1 h2)) s) = Some s"
    using hook_pair.undo [OF assms(1)] hook_pair.undo [OF assms(2)]
    by (simp add: composeByteDataHookPair_def run_in_compose run_out_compose)
qed

text \<open>Two concrete hook pairs that do not commute: one reverses the data, one tags it.\<close>

definition reverse_hooks :: ByteDataHookPair where
  "reverse_hooks = \<lparr>userToWire = Some rev, wireToUser = Some (\<lambda>s. Some (rev s))\<rparr>"

definition tag_hooks :: ByteDataHookPair where
  "tag_hooks = \<lparr>userToWire = Some (\<lambda>s. CHR ''t'' # s),
     wireToUser = Some (\<lambda>s. case s of [] \<Rightarrow> None | c # cs \<Rightarrow> if c = CHR ''t'' then Some cs else None)\<rparr>"

interpretation reverse_hooks: hook_pair reverse_hooks
  by unfold_locales (simp add: reverse_hooks_def run_in_def run_out_def)

interpretation tag_hooks: hook_pair tag_hooks
  by unfold_locales (simp add: tag_hooks_def run_in_def run_out_def)

theorem composed_hooks_undo_witness: "hook_pair (composeByteDataHookPair reverse_hooks tag_hooks)"
  by (rule composed_hooks_undo [OF reverse_hooks.hook_pair_axioms tag_hooks.hook_pair_axioms])

section \<open>A reference serializer for strings\<close>

text \<open>An instance of both parameters: the length in unary, then the bytes.\<close>

definition unary :: "nat \<Rightarrow> string" where
  "unary n = replicate n (CHR ''1'') @ ''0''"

fun take_unary :: "string \<Rightarrow> nat option" where
  "take_unary [] = None"
| "take_unary (c # cs) = (if c = CHR ''1'' then map_option Suc (take_unary cs) else Some 0)"

definition string_cbor :: "string cbor" where
  "string_cbor = \<lparr>encode_cbor = (\<lambda>s. unary (length s) @ s),
     decode_at = (\<lambda>d i. let t = drop i d in
        case take_unary t of None \<Rightarrow> None
        | Some n \<Rightarrow> if length t < 2 * n + 1 then None else Some (take n (drop (n + 1) t), 2 * n + 1))\<rparr>"

definition string_serializer :: "string serializer" where
  "string_serializer = \<lparr>encode = (\<lambda>s. CHR ''s'' # s),
     decode = (\<lambda>d. case d of [] \<Rightarrow> None | c # s \<Rightarrow> if c = CHR ''s'' then Some s else None)\<rparr>"

lemma take_unary_replicate: "take_unary (replicate n (CHR ''1'') @ CHR ''0'' # s) = Some n"
  by (induction n) auto

interpretation string_cbor: cbor_law string_cbor
  by unfold_locales (simp add: string_cbor_def unary_def take_unary_replicate)

interpretation string_serializer: serializer_law string_serializer
  by unfold_locales (simp add: string_serializer_def)

interpretation tagged_string: hooked string_serializer "Some tag_hooks"
  by unfold_locales (auto simp: tag_hooks_def run_in_def run_out_def)

end
