(* ===== verification/Locator.thy ===== *)
theory Locator
  imports CppStrings Wire "HOL-Library.Product_Lexorder" "HOL-Library.Word"
begin

text \<open>
  \<open>ConnectionLocator\<close> (src/ConnectionLocator.cpp, tm_kit/transport/ConnectionLocator.hpp): the
  address of a remote resource, \<open>host:port:user:password:identifier[name=value,...]\<close>. The class is
  the record \<open>ConnectionLocator\<close> (its fields are named after the accessors, \<open>ident\<close> for \<open>identifier\<close>) and its
  \<open>properties_\<close> a \<open>std::map\<close>. A \<open>ConnectionLocatorParseError\<close> is a value that carries the message.
\<close>

record ConnectionLocator =
  host :: string
  port :: int
  userName :: string
  password :: string
  ident :: string
  properties :: "(string, string) stdmap"

text \<open>A value-initialised locator.\<close>

definition default_locator :: ConnectionLocator where
  "default_locator = \<lparr>host = '''', port = 0, userName = '''', password = '''', ident = '''', properties = []\<rparr>"

datatype ConnectionLocatorParseError = ConnectionLocatorParseError string

section \<open>Operations\<close>

definition quoted :: "string \<Rightarrow> string" where
  "quoted s = CHR 0x27 # s @ [CHR 0x27]"

definition descriptor_error :: "string \<Rightarrow> string \<Rightarrow> ConnectionLocatorParseError" where
  "descriptor_error input why =
     ConnectionLocatorParseError (quoted input @ '' is not a valid remote resource descriptor, '' @ why)"

text \<open>\<open>parse\<close>: the main portion and the property portion.\<close>

definition parse_portions :: "boost \<Rightarrow> string \<Rightarrow> ConnectionLocatorParseError + string \<times> string" where
  "parse_portions b input =
     (let x = trim_copy b input in
      if ends_with b x '']'' then
        (case rfind (CHR ''['') x of
           None \<Rightarrow> Inl (descriptor_error input
                     (''it ends with '' @ quoted '']'' @ '' but there is no '' @ quoted ''[''))
         | Some propStart \<Rightarrow>
             Inr (trim_copy b (take propStart x),
                  trim_copy b (take (length x - propStart - 2) (drop (propStart + 1) x))))
      else Inr (x, ''''))"

text \<open>Parts after the fifth are put back into the identifier, with their colons.\<close>

definition parse_parts :: "boost \<Rightarrow> string \<Rightarrow> string \<Rightarrow> ConnectionLocatorParseError + string list" where
  "parse_parts b input mainPortion =
     (let parts = split_any b mainPortion '':'' in
      if length parts < 1 then Inl (descriptor_error input ''there are too few parts'')
      else if length parts > 5 then
        Inr (take 4 parts @ [parts ! 4 @ concat (map (\<lambda>p. CHR '':'' # p) (drop 5 parts))])
      else Inr parts)"

definition parse_port :: "boost \<Rightarrow> string \<Rightarrow> string list \<Rightarrow> ConnectionLocatorParseError + int" where
  "parse_port b input parts =
     (if length parts \<ge> 2 then
        (let x = trim_copy b (parts ! 1) in
         if x = '''' then Inr 0
         else (case lexical_cast_int b x of
                 Some p \<Rightarrow> Inr p
               | None \<Rightarrow> Inl (descriptor_error input (quoted (parts ! 1) @ '' is not a valid port''))))
      else Inr 0)"

definition parse_basic :: "boost \<Rightarrow> string \<Rightarrow> string list \<Rightarrow> ConnectionLocatorParseError + ConnectionLocator" where
  "parse_basic b input parts =
     bindE (parse_port b input parts) (\<lambda>p.
       Inr \<lparr>host = trim_copy b (parts ! 0), port = p,
            userName = (if length parts \<ge> 3 then trim_copy b (parts ! 2) else ''''),
            password = (if length parts \<ge> 4 then parts ! 3 else ''''),
            ident = (if length parts \<ge> 5 then trim_copy b (parts ! 4) else ''''),
            properties = []\<rparr>)"

definition reserved_names :: "string list" where
  "reserved_names = [''HOST'', ''PORT'', ''USERNAME'', ''USER'', ''PASSWORD'', ''PASSWD'', ''IDENTIFIER'']"

text \<open>One property definition \<open>name=value\<close>, or a bare \<open>name\<close>.\<close>

definition parse_property :: "boost \<Rightarrow> string \<Rightarrow> string \<Rightarrow> (string, string) stdmap
    \<Rightarrow> ConnectionLocatorParseError + (string, string) stdmap" where
  "parse_property b input p props =
     (let nameAndValue = split_any b p ''='' in
      if length nameAndValue > 2
      then Inl (descriptor_error input (quoted p @ '' is not a valid property definition''))
      else
        (let name = trim_copy b (nameAndValue ! 0);
             value = (if length nameAndValue > 1 then trim_copy b (nameAndValue ! 1) else '''');
             nameUC = to_upper_copy b name in
         if nameUC \<in> set reserved_names
         then Inl (descriptor_error input (''trying to specify a property with reserved name '' @ quoted name))
         else if map_of props name \<noteq> None
         then Inl (descriptor_error input (''trying to specify duplicate property '' @ quoted name))
         else Inr (smap_insert name value props)))"

fun parse_properties :: "boost \<Rightarrow> string \<Rightarrow> string list \<Rightarrow> (string, string) stdmap
    \<Rightarrow> ConnectionLocatorParseError + (string, string) stdmap" where
  "parse_properties b input [] props = Inr props"
| "parse_properties b input (p # ps) props =
     bindE (parse_property b input p props) (parse_properties b input ps)"

definition parse :: "boost \<Rightarrow> string \<Rightarrow> ConnectionLocatorParseError + ConnectionLocator" where
  "parse b input =
     bindE (parse_portions b input) (\<lambda>(mainPortion, propertyPortion).
     bindE (parse_parts b input mainPortion) (\<lambda>parts.
     bindE (parse_basic b input parts) (\<lambda>ret.
       if propertyPortion \<noteq> '''' then
         bindE (parse_properties b input (split_any b propertyPortion '','') [])
           (\<lambda>props. Inr (ret\<lparr>properties := props\<rparr>))
       else Inr ret)))"

text \<open>The three partial copies; a field that is not copied keeps its default.\<close>

definition copyOfBasicPortionWithProperties :: "ConnectionLocator \<Rightarrow> ConnectionLocator" where
  "copyOfBasicPortionWithProperties l =
     \<lparr>host = host l, port = port l, userName = userName l, password = password l,
      ident = '''', properties = properties l\<rparr>"

definition copyOfBasicPortionWithoutProperties :: "ConnectionLocator \<Rightarrow> ConnectionLocator" where
  "copyOfBasicPortionWithoutProperties l =
     \<lparr>host = host l, port = port l, userName = userName l, password = password l,
      ident = '''', properties = []\<rparr>"

definition copyWithoutProperties :: "ConnectionLocator \<Rightarrow> ConnectionLocator" where
  "copyWithoutProperties l =
     \<lparr>host = host l, port = port l, userName = userName l, password = password l,
      ident = ident l, properties = []\<rparr>"

definition query :: "boost \<Rightarrow> ConnectionLocator \<Rightarrow> string \<Rightarrow> string \<Rightarrow> string" where
  "query b l field defaultValue =
     (case map_of (properties l) field of
        Some v \<Rightarrow> v
      | None \<Rightarrow>
          if field = ''HOST'' then host l
          else if field = ''PORT'' then lexical_cast_str b (port l)
          else if field = ''USERNAME'' \<or> field = ''USER'' then userName l
          else if field = ''PASSWORD'' \<or> field = ''PASSWD'' then password l
          else if field = ''IDENTIFIER'' then ident l
          else defaultValue)"

text \<open>The loop that prints the properties, \<open>first\<close> saying whether a comma is due.\<close>

fun print_properties :: "bool \<Rightarrow> (string, string) stdmap \<Rightarrow> string" where
  "print_properties first [] = ''''"
| "print_properties first ((n, v) # ps) =
     (if first then '''' else '','') @ n @ ''='' @ v @ print_properties False ps"

definition toSerializationFormat :: "ConnectionLocator \<Rightarrow> string" where
  "toSerializationFormat l =
     host l @ '':'' @ show_int (port l) @ '':'' @ userName l @ '':'' @ password l @ '':'' @ ident l @
     (if properties l \<noteq> [] then ''['' @ print_properties True (properties l) @ '']'' else '''')"

definition toPrintFormat :: "ConnectionLocator \<Rightarrow> string" where
  "toPrintFormat l =
     ''{host='' @ host l @ '',port='' @ show_int (port l) @ '',userName='' @ userName l @
     '',password='' @ password l @ '',identifier='' @ ident l @
     (if properties l \<noteq> [] then '',properties={'' @ print_properties True (properties l) @ ''}'' else '''') @
     ''}''"

definition locator_eq :: "ConnectionLocator \<Rightarrow> ConnectionLocator \<Rightarrow> bool" where
  "locator_eq x l \<longleftrightarrow> host x = host l \<and> port x = port l \<and> userName x = userName l \<and>
     password x = password l \<and> ident x = ident l \<and> properties x = properties l"

text \<open>\<open>operator<\<close> of \<open>std::pair\<close> and of \<open>std::map\<close> (lexicographic over the entries).\<close>

definition pair_less :: "string \<times> string \<Rightarrow> string \<times> string \<Rightarrow> bool" where
  "pair_less e f \<longleftrightarrow> fst e < fst f \<or> (\<not> fst f < fst e \<and> snd e < snd f)"

fun entries_less :: "(string, string) stdmap \<Rightarrow> (string, string) stdmap \<Rightarrow> bool" where
  "entries_less es [] = False"
| "entries_less [] (f # fs) = True"
| "entries_less (e # es) (f # fs) =
     (if pair_less e f then True else if pair_less f e then False else entries_less es fs)"

text \<open>\<open>operator<\<close>: field by field; \<open>identifier_\<close> takes no part.\<close>

definition locator_less :: "ConnectionLocator \<Rightarrow> ConnectionLocator \<Rightarrow> bool" where
  "locator_less x l =
     (if host x < host l then True
      else if host x > host l then False
      else if port x < port l then True
      else if port x > port l then False
      else if userName x < userName l then True
      else if userName x > userName l then False
      else if password x < password l then True
      else if password x > password l then False
      else entries_less (properties x) (properties l))"

definition modifyHost :: "ConnectionLocator \<Rightarrow> string \<Rightarrow> ConnectionLocator" where
  "modifyHost l h = l\<lparr>host := h\<rparr>"

definition modifyPort :: "ConnectionLocator \<Rightarrow> int \<Rightarrow> ConnectionLocator" where
  "modifyPort l p = l\<lparr>port := p\<rparr>"

definition modifyUserName :: "ConnectionLocator \<Rightarrow> string \<Rightarrow> ConnectionLocator" where
  "modifyUserName l u = l\<lparr>userName := u\<rparr>"

definition modifyPassword :: "ConnectionLocator \<Rightarrow> string \<Rightarrow> ConnectionLocator" where
  "modifyPassword l p = l\<lparr>password := p\<rparr>"

definition modifyIdentifier :: "ConnectionLocator \<Rightarrow> string \<Rightarrow> ConnectionLocator" where
  "modifyIdentifier l s = l\<lparr>ident := s\<rparr>"

definition clearProperties :: "ConnectionLocator \<Rightarrow> ConnectionLocator" where
  "clearProperties l = l\<lparr>properties := []\<rparr>"

definition removeProperty :: "ConnectionLocator \<Rightarrow> string \<Rightarrow> ConnectionLocator" where
  "removeProperty l n = l\<lparr>properties := smap_erase n (properties l)\<rparr>"

definition addProperty :: "ConnectionLocator \<Rightarrow> string \<Rightarrow> string \<Rightarrow> ConnectionLocator" where
  "addProperty l n v = l\<lparr>properties := smap_assign n v (properties l)\<rparr>"

text \<open>\<open>addProperties\<close> takes an \<open>unordered_map\<close>: the list is its entries in whatever order it iterates.\<close>

definition addProperties :: "ConnectionLocator \<Rightarrow> (string \<times> string) list \<Rightarrow> ConnectionLocator" where
  "addProperties l prop =
     l\<lparr>properties := fold (\<lambda>item m. smap_assign (fst item) (snd item) m) prop (properties l)\<rparr>"

section \<open>What is printed can be parsed back\<close>

definition free_of :: "string \<Rightarrow> string \<Rightarrow> bool" where
  "free_of seps s \<longleftrightarrow> (\<forall>c \<in> set s. c \<notin> set seps)"

definition property_ok :: "string \<times> string \<Rightarrow> bool" where
  "property_ok e \<longleftrightarrow> free_of ''=,['' (fst e) \<and> free_of ''=,['' (snd e) \<and> trimmed (fst e) \<and> trimmed (snd e)
     \<and> map upper (fst e) \<notin> set reserved_names"

text \<open>The fields but the password are trimmed.\<close>

definition basic_ok :: "ConnectionLocator \<Rightarrow> bool" where
  "basic_ok l \<longleftrightarrow> in_int32 (port l) \<and> trimmed (host l) \<and> trimmed (userName l) \<and> trimmed (ident l)
     \<and> free_of '':'' (host l) \<and> free_of '':'' (userName l) \<and> free_of '':'' (password l)"

definition properties_ok :: "ConnectionLocator \<Rightarrow> bool" where
  "properties_ok l \<longleftrightarrow> smap_wf (properties l) \<and> (\<forall>e \<in> set (properties l). property_ok e)"

definition ends_bracket :: "string \<Rightarrow> bool" where
  "ends_bracket s \<longleftrightarrow> s \<noteq> [] \<and> last s = CHR '']''"

definition main_text :: "ConnectionLocator \<Rightarrow> string" where
  "main_text l = host l @ '':'' @ show_int (port l) @ '':'' @ userName l @ '':'' @ password l @ '':'' @ ident l"

definition entry_text :: "string \<times> string \<Rightarrow> string" where
  "entry_text e = fst e @ ''='' @ snd e"

lemma trimmed_main: "basic_ok l \<Longrightarrow> trimmed (main_text l)"
  by (rule trimmedI) (simp_all add: basic_ok_def main_text_def hd_append_sep last_append_sep
      trimmed_last)

lemma toSerializationFormat_text:
  "toSerializationFormat l = main_text l @
     (if properties l \<noteq> [] then ''['' @ print_properties True (properties l) @ '']'' else '''')"
  by (simp add: toSerializationFormat_def main_text_def)

lemma trimmed_format: "basic_ok l \<Longrightarrow> trimmed (toSerializationFormat l)"
proof -
  assume b: "basic_ok l"
  have "main_text l \<noteq> []" and "trimmed (main_text l)"
    using trimmed_main [OF b] by (auto simp: main_text_def)
  then show ?thesis
    by (auto simp: toSerializationFormat_text trimmed_def is_space_def)
qed

lemma main_text_last: "\<not> ends_bracket (ident l) \<Longrightarrow> last (main_text l) \<noteq> CHR '']''"
  by (cases "ident l" rule: rev_cases) (auto simp: main_text_def ends_bracket_def)

lemma free_of_notin: "free_of seps s \<Longrightarrow> d \<in> set seps \<Longrightarrow> d \<notin> set s"
  by (auto simp: free_of_def)

lemma property_okD:
  assumes "property_ok e"
  shows "CHR ''='' \<notin> set (fst e)" "CHR ''='' \<notin> set (snd e)" "CHR '','' \<notin> set (fst e)" "CHR '','' \<notin> set (snd e)"
    "CHR ''['' \<notin> set (fst e)" "CHR ''['' \<notin> set (snd e)" "trimmed (fst e)" "trimmed (snd e)"
    "map upper (fst e) \<notin> set reserved_names"
  using assms by (auto simp: property_ok_def free_of_notin)

lemma print_Cons: "print_properties f (e # ps) = (if f then [] else '','') @ entry_text e @ print_properties False ps"
  by (cases e) (simp add: entry_text_def)

lemma free_print: "\<forall>e \<in> set ps. property_ok e \<Longrightarrow> CHR ''['' \<notin> set (print_properties f ps)"
proof (induction ps arbitrary: f)
  case (Cons e ps)
  then have "CHR ''['' \<notin> set (entry_text e)" "CHR ''['' \<notin> set (print_properties False ps)"
    using property_okD [of e] by (simp_all add: entry_text_def)
  then show ?case
    by (simp add: print_Cons)
qed simp

lemma split_print:
  assumes "\<forall>e \<in> set ps. property_ok e" "ps \<noteq> []"
  shows "split_on (\<lambda>c. c = CHR '','') (print_properties True ps) = map entry_text ps"
  using assms
proof (induction ps)
  case Nil
  then show ?case by simp
next
  case (Cons e ps)
  have free: "CHR '','' \<notin> set (entry_text e)"
    using Cons.prems property_okD [of e] by (simp add: entry_text_def)
  show ?case
  proof (cases ps)
    case Nil
    then show ?thesis
      using split_char_none [OF free] by (simp add: print_Cons)
  next
    case (Cons e' ps')
    then have "print_properties True (e # ps) = entry_text e @ CHR '','' # print_properties True ps"
      by (simp add: print_Cons)
    then show ?thesis
      using split_char_first [OF free] Cons.IH Cons.prems Cons by simp
  qed
qed

lemma print_last: "\<forall>e \<in> set ps. property_ok e \<Longrightarrow> ps \<noteq> [] \<Longrightarrow> \<not> is_space (last (print_properties f ps))"
proof (induction ps arbitrary: f)
  case (Cons e ps)
  have "\<not> is_space (last (entry_text e))" "entry_text e \<noteq> []"
    using Cons.prems property_okD [of e] by (simp_all add: entry_text_def trimmed_last)
  then show ?case
    using Cons.IH [of False] Cons.prems by (cases ps) (simp_all add: print_Cons)
qed simp

lemma trimmed_print:
  assumes "\<forall>e \<in> set ps. property_ok e" "ps \<noteq> []"
  shows "trimmed (print_properties True ps)"
proof (rule trimmedI)
  obtain e ps' where ps: "ps = e # ps'"
    using assms(2) by (cases ps) auto
  have "\<not> is_space (hd (entry_text e))" "entry_text e \<noteq> []"
    using assms ps property_okD [of e] by (simp_all add: entry_text_def hd_append_sep)
  then show "\<not> is_space (hd (print_properties True ps))"
    using ps by (simp add: print_Cons)
qed (rule print_last [OF assms])

text \<open>The main portion splits into its five parts, the identifier with its own colons.\<close>

lemma split_main:
  assumes "basic_ok l"
  shows "split_on (\<lambda>c. c = CHR '':'') (main_text l) =
    host l # show_int (port l) # userName l # password l # split_on (\<lambda>c. c = CHR '':'') (ident l)"
proof -
  have "CHR '':'' \<notin> set (show_int (port l))"
    by (rule show_int_no_sep) simp
  moreover have "CHR '':'' \<notin> set (host l)" "CHR '':'' \<notin> set (userName l)" "CHR '':'' \<notin> set (password l)"
    using assms by (auto simp: basic_ok_def dest: free_of_notin)
  ultimately show ?thesis
    by (simp add: main_text_def split_char_first)
qed

context boost_strings
begin

lemma parse_parts_main:
  assumes "basic_ok l"
  shows "parse_parts b input (main_text l) = Inr [host l, show_int (port l), userName l, password l, ident l]"
proof -
  obtain w ws where w: "split_on (\<lambda>c. c = CHR '':'') (ident l) = w # ws"
    using split_on_nonempty by (meson list.exhaust)
  then have id: "ident l = w @ concat (map (\<lambda>x. CHR '':'' # x) ws)"
    by (rule split_on_join)
  have m: "split_on (\<lambda>c. c = CHR '':'') (main_text l) =
      host l # show_int (port l) # userName l # password l # w # ws"
    by (simp add: split_main [OF assms] w)
  show ?thesis
    unfolding parse_parts_def split_char m id by (cases ws) (simp_all add: Let_def)
qed

lemma parse_port_show: "in_int32 p \<Longrightarrow> parse_port b input [h, show_int p, u, pw, i] = Inr p"
proof -
  assume p: "in_int32 p"
  then show ?thesis
    by (simp add: parse_port_def trim_copy strip_trimmed show_int_trimmed show_int_nonempty
        lexical_cast_int_show)
qed

lemma parse_basic_main:
  assumes "basic_ok l"
  shows "parse_basic b input [host l, show_int (port l), userName l, password l, ident l] =
    Inr (l\<lparr>properties := []\<rparr>)"
  using assms by (simp add: parse_basic_def parse_port_show basic_ok_def trim_copy strip_trimmed)

lemma parse_property_entry:
  assumes "property_ok e" "map_of acc (fst e) = None"
  shows "parse_property b input (entry_text e) acc = Inr (smap_insert (fst e) (snd e) acc)"
proof -
  have "split_on (\<lambda>c. c = CHR ''='') (entry_text e) = [fst e, snd e]"
    using property_okD [OF assms(1)] by (simp add: entry_text_def split_char_first split_char_none)
  then show ?thesis
    using assms property_okD [OF assms(1)]
    by (simp add: parse_property_def split_char Let_def trim_copy strip_trimmed to_upper_copy)
qed

lemma parse_properties_entries:
  assumes "\<forall>e \<in> set ps. property_ok e" "smap_wf (acc @ ps)"
  shows "parse_properties b input (map entry_text ps) acc = Inr (acc @ ps)"
  using assms
proof (induction ps arbitrary: acc)
  case (Cons e ps)
  have less: "\<forall>k \<in> fst ` set acc. k < fst e"
    using Cons.prems by (auto simp: smap_wf_def sorted_wrt_append)
  then have none: "map_of acc (fst e) = None"
    by (auto simp: map_of_eq_None_iff)
  then have "smap_insert (fst e) (snd e) acc = acc @ [e]"
    using smap_assign_snoc [OF less] by (simp add: smap_insert_def)
  then show ?case
    using Cons.IH [of "acc @ [e]"] Cons.prems none by (simp add: parse_property_entry)
qed simp

lemma parse_portions_format:
  assumes "basic_ok l" "properties_ok l" "properties l = [] \<Longrightarrow> \<not> ends_bracket (ident l)"
  shows "parse_portions b (toSerializationFormat l) = Inr (main_text l, print_properties True (properties l))"
proof (cases "properties l = []")
  case True
  then have "last (main_text l) \<noteq> CHR '']''" "main_text l \<noteq> []"
    using assms(3) True main_text_last by (blast, simp add: main_text_def)
  then have "take 1 (rev (main_text l)) \<noteq> '']''"
    by (cases "main_text l" rule: rev_cases) auto
  then show ?thesis
    using True trimmed_main [OF assms(1)]
    by (simp add: parse_portions_def toSerializationFormat_text trim_copy strip_trimmed ends_with)
next
  case False
  let ?P = "print_properties True (properties l)"
  have ok: "\<forall>e \<in> set (properties l). property_ok e"
    using assms(2) by (simp add: properties_ok_def)
  have "rfind (CHR ''['') (main_text l @ CHR ''['' # (?P @ '']'')) = Some (length (main_text l))"
    by (rule rfind_last) (simp add: free_print [OF ok])
  then show ?thesis
    using False trimmed_main [OF assms(1)] trimmed_format [OF assms(1)] trimmed_print [OF ok False]
    by (simp add: parse_portions_def toSerializationFormat_text trim_copy strip_trimmed ends_with Let_def)
qed

lemma parse_format:
  assumes "basic_ok l" "properties_ok l" "properties l = [] \<Longrightarrow> \<not> ends_bracket (ident l)"
  shows "parse b (toSerializationFormat l) = Inr l"
proof (cases "properties l = []")
  case True
  then show ?thesis
    using parse_portions_format [OF assms] assms(1)
    by (simp add: parse_def parse_parts_main parse_basic_main)
next
  case False
  have ok: "\<forall>e \<in> set (properties l). property_ok e" "smap_wf (properties l)"
    using assms(2) by (simp_all add: properties_ok_def)
  have "print_properties True (properties l) \<noteq> []"
    using False by (cases "properties l") (auto simp: print_Cons entry_text_def)
  then show ?thesis
    using parse_portions_format [OF assms] assms(1) ok False
    by (simp add: parse_def parse_parts_main parse_basic_main split_char split_print parse_properties_entries)
qed

end

section \<open>What is parsed is well formed\<close>

lemma free_of_subset: "set s \<subseteq> set t \<Longrightarrow> free_of seps t \<Longrightarrow> free_of seps s"
  by (auto simp: free_of_def)

lemma free_of_append: "free_of (xs @ ys) s \<longleftrightarrow> free_of xs s \<and> free_of ys s"
  by (auto simp: free_of_def)

lemma free_of_char: "free_of [d] s \<longleftrightarrow> d \<notin> set s"
  by (auto simp: free_of_def)

context boost_strings
begin

lemma free_trim: "free_of seps s \<Longrightarrow> free_of seps (trim_copy b s)"
  by (rule free_of_subset [of _ s]) (simp_all add: trim_copy set_strip)

lemma free_split_char: "w \<in> set (split_any b s [d]) \<Longrightarrow> d \<notin> set w"
  unfolding split_char by (drule split_on_free) blast

lemma free_split: "free_of seps s \<Longrightarrow> w \<in> set (split_any b s t) \<Longrightarrow> free_of seps w"
  unfolding split_any by (drule set_split_on) (rule free_of_subset)

lemma parse_portions_free:
  assumes "parse_portions b input = Inr (m, p)"
  shows "CHR ''['' \<notin> set p"
proof (cases "ends_with b (trim_copy b input) '']''")
  case False
  then show ?thesis using assms by (simp add: parse_portions_def)
next
  case True
  let ?x = "trim_copy b input"
  show ?thesis
  proof (cases "rfind (CHR ''['') ?x")
    case None
    then show ?thesis using assms True by (simp add: parse_portions_def)
  next
    case (Some i)
    then have p: "p = trim_copy b (take (length ?x - i - 2) (drop (Suc i) ?x))"
      using assms True by (simp add: parse_portions_def Let_def)
    have "CHR ''['' \<notin> set (take (length ?x - i - 2) (drop (Suc i) ?x))"
      using rfind_Some_free [OF Some] by (meson in_set_takeD)
    then show ?thesis
      using free_trim [of "''[''"] by (simp add: p free_of_char)
  qed
qed

lemma parse_parts_free:
  assumes "parse_parts b input m = Inr parts"
  shows "parts \<noteq> [] \<and> (\<forall>i < 4. i < length parts \<longrightarrow> CHR '':'' \<notin> set (parts ! i))"
proof -
  let ?ps = "split_any b m '':''"
  have free: "CHR '':'' \<notin> set (?ps ! i)" if "i < length ?ps" for i
    using that by (rule free_split_char [OF nth_mem])
  consider "parts = ?ps" "?ps \<noteq> []" |
      x where "length ?ps > 5" "parts = take 4 ?ps @ [x]"
    using assms by (auto simp: parse_parts_def Let_def split: if_splits)
  then show ?thesis
  proof cases
    case 1
    then show ?thesis using free by simp
  next
    case 2
    then show ?thesis using free by (simp add: nth_append)
  qed
qed

lemma parse_port_range: "parse_port b input parts = Inr p \<Longrightarrow> in_int32 p"
  by (auto simp: parse_port_def Let_def in_int32_def [of 0] lexical_cast_int_range
      split: if_splits option.splits)

lemma parse_basic_ok:
  assumes "parse_parts b input m = Inr parts" "parse_basic b input parts = Inr l"
  shows "basic_ok l \<and> properties l = []"
proof -
  have free: "free_of '':'' (parts ! i)" if "i < 4" "i < length parts" for i
    using parse_parts_free [OF assms(1)] that by (simp add: free_of_char)
  have nil: "free_of '':'' []" "trimmed []"
    by (simp_all add: free_of_def trimmed_def)
  obtain p where p: "parse_port b input parts = Inr p"
      "l = \<lparr>host = trim_copy b (parts ! 0), port = p,
            userName = (if length parts \<ge> 3 then trim_copy b (parts ! 2) else ''''),
            password = (if length parts \<ge> 4 then parts ! 3 else ''''),
            ident = (if length parts \<ge> 5 then trim_copy b (parts ! 4) else ''''),
            properties = []\<rparr>"
    using assms(2) by (auto simp: parse_basic_def bindE_eq_Inr)
  have "parts \<noteq> []"
    using parse_parts_free [OF assms(1)] by blast
  then show ?thesis
    using parse_port_range [OF p(1)] free nil
    by (simp add: p(2) basic_ok_def free_trim trim_copy trimmed_strip)
      (simp add: trim_copy [symmetric] free_trim)
qed

lemma parse_property_ok:
  assumes "parse_property b input p acc = Inr acc'" "free_of '',['' p"
    "smap_wf acc" "\<forall>e \<in> set acc. property_ok e"
  shows "smap_wf acc' \<and> (\<forall>e \<in> set acc'. property_ok e)"
proof -
  let ?nv = "split_any b p ''=''"
  obtain n v where nv: "n = trim_copy b (?nv ! 0)" "v = (if length ?nv > 1 then trim_copy b (?nv ! 1) else '''')"
      "map upper n \<notin> set reserved_names" "map_of acc n = None" "acc' = smap_insert n v acc"
    using assms(1) by (auto simp: parse_property_def Let_def to_upper_copy split: if_splits)
  have free: "free_of ''=,['' (trim_copy b w)" if "w \<in> set ?nv" for w
    using free_of_append [of "''=''" "'',[''" w] free_split_char [OF that]
      free_split [OF assms(2) that] free_trim [of "''=,[''" w] by (simp add: free_of_char)
  have "?nv \<noteq> []"
    by (simp add: split_any split_on_nonempty)
  then have "property_ok (n, v)"
    using nv(1-3) free by (auto simp: property_ok_def trim_copy trimmed_strip) (auto simp: free_of_def trimmed_def)
  moreover have "set acc' \<subseteq> insert (n, v) (set acc)"
    using nv(4,5) by (simp add: smap_insert_def set_smap_assign)
  ultimately show ?thesis
    using assms(3,4) nv(5) by (auto simp: smap_wf_insert)
qed

lemma parse_properties_ok:
  assumes "parse_properties b input ps acc = Inr acc'" "\<forall>p \<in> set ps. free_of '',['' p"
    "smap_wf acc" "\<forall>e \<in> set acc. property_ok e"
  shows "smap_wf acc' \<and> (\<forall>e \<in> set acc'. property_ok e)"
  using assms
proof (induction ps arbitrary: acc)
  case (Cons p ps)
  then obtain m where "parse_property b input p acc = Inr m" "parse_properties b input ps m = Inr acc'"
    by (auto simp: bindE_eq_Inr)
  moreover from this have "smap_wf m \<and> (\<forall>e \<in> set m. property_ok e)"
    using Cons.prems by (intro parse_property_ok [of input p acc m]) auto
  ultimately show ?case
    using Cons.prems by (intro Cons.IH [of m]) auto
qed simp

lemma parse_ok:
  assumes "parse b input = Inr l"
  shows "basic_ok l \<and> properties_ok l"
proof -
  obtain mp where mp: "parse_portions b input = Inr mp"
    using assms by (cases "parse_portions b input") (simp_all add: parse_def)
  obtain m p where m: "mp = (m, p)"
    by (cases mp)
  obtain parts where parts: "parse_parts b input m = Inr parts"
    using assms mp m by (cases "parse_parts b input m") (simp_all add: parse_def)
  obtain r where r3: "parse_basic b input parts = Inr r"
    using assms mp m parts by (cases "parse_basic b input parts") (simp_all add: parse_def)
  note r = mp [unfolded m] parts r3
  have l: "(if p \<noteq> '''' then bindE (parse_properties b input (split_any b p '','') [])
           (\<lambda>props. Inr (r\<lparr>properties := props\<rparr>)) else Inr r) = Inr l"
    using assms r by (simp add: parse_def)
  note ok = parse_basic_ok [OF r(2,3)]
  show ?thesis
  proof (cases "p = ''''")
    case True
    then show ?thesis using ok l by (simp add: properties_ok_def)
  next
    case False
    then obtain ps where ps: "parse_properties b input (split_any b p '','') [] = Inr ps" "l = r\<lparr>properties := ps\<rparr>"
      using l by (auto simp: bindE_eq_Inr)
    have "free_of '',['' w" if "w \<in> set (split_any b p '','')" for w
      using free_of_append [of "'',''" "''[''" w] free_split_char [OF that]
        free_split [of "''[''" p, OF _ that] parse_portions_free [OF r(1)] by (simp add: free_of_char)
    then show ?thesis
      using parse_properties_ok [OF ps(1)] ok ps(2) by (simp add: properties_ok_def basic_ok_def)
  qed
qed

end

section \<open>The locator on the wire, as a key, and its queries\<close>

text \<open>\<open>RunCBORSerializer<ConnectionLocator>\<close> and \<open>RunCBORDeserializer<ConnectionLocator>\<close>: the locator
  travels as the CBOR string of its serialization format. \<open>sc\<close> is the serializer of \<open>std::string\<close>.\<close>

definition locator_cbor_encode :: "string cbor \<Rightarrow> ConnectionLocator \<Rightarrow> string" where
  "locator_cbor_encode sc x = encode_cbor sc (toSerializationFormat x)"

definition locator_cbor_decode :: "boost \<Rightarrow> string cbor \<Rightarrow> string \<Rightarrow> nat \<Rightarrow> (ConnectionLocator \<times> nat) option" where
  "locator_cbor_decode b sc data start =
     (case decode_at sc data start of
        Some (s, n) \<Rightarrow> (case parse b s of Inr l \<Rightarrow> Some (l, n) | Inl _ \<Rightarrow> None)
      | None \<Rightarrow> None)"

text \<open>\<open>applyInPlace\<close>: the output argument is assigned only on success.\<close>

definition locator_cbor_decode_in_place :: "boost \<Rightarrow> string cbor \<Rightarrow> ConnectionLocator \<Rightarrow> string \<Rightarrow> nat
    \<Rightarrow> ConnectionLocator \<times> nat option" where
  "locator_cbor_decode_in_place b sc output data start =
     (case decode_at sc data start of
        Some (s, n) \<Rightarrow> (case parse b s of Inr l \<Rightarrow> (l, Some n) | Inl _ \<Rightarrow> (output, None))
      | None \<Rightarrow> (output, None))"

text \<open>\<open>std::hash\<close> of a locator; the hashes of strings and of \<open>int\<close> are the standard library's.\<close>

definition locator_hash :: "(string \<Rightarrow> 64 word) \<Rightarrow> (int \<Rightarrow> 64 word) \<Rightarrow> ConnectionLocator \<Rightarrow> 64 word" where
  "locator_hash hs hi d = xor (xor (xor (xor (hs (host d)) (hi (port d))) (hs (userName d))) (hs (password d))) (hs (ident d))"

lemma pair_less_less: "pair_less e f \<longleftrightarrow> e < f"
  by (auto simp: pair_less_def less_prod_def)

lemma entries_less_less: "entries_less es fs \<longleftrightarrow> es < fs"
  by (induction es fs rule: entries_less.induct) (auto simp: pair_less_less)

text \<open>C22: every locator whose fields a locator text can express is read back from its serialization
  format unchanged (identifiers may contain colons, passwords white space).\<close>

theorem locator_roundtrip:
  assumes "boost_strings b" and "basic_ok l" and "properties_ok l"
    and "properties l = [] \<Longrightarrow> \<not> ends_bracket (ident l)"
  shows "parse b (toSerializationFormat l) = Inr l"
  using assms by (rule boost_strings.parse_format)

definition sample_locator :: ConnectionLocator where
  "sample_locator = \<lparr>host = ''h'', port = 5672, userName = ''u'', password = '' p'', ident = ''a:b'',
     properties = [(''k'', ''v''), (''w'', '''')]\<rparr>"

lemma sample_locator_ok: "basic_ok sample_locator" "properties_ok sample_locator"
  by code_simp+

theorem locator_roundtrip_witness: "parse boost_ref (toSerializationFormat sample_locator) = Inr sample_locator"
  by (rule locator_roundtrip [OF boost_ref.boost_strings_axioms sample_locator_ok])
    (simp add: sample_locator_def)

text \<open>C30: whatever \<open>parse\<close> accepts is a locator with a 32-bit port, with trimmed host, user name and identifier (the password is taken as it is, with
  any blanks around it), with no colon in host, user name and password, with sorted and distinct properties, trimmed like their names, and no property
  that hides a built-in name.\<close>

theorem parse_well_formed:
  assumes "boost_strings b" and "parse b input = Inr l"
  shows "basic_ok l \<and> properties_ok l"
  using assms by (rule boost_strings.parse_ok)

lemma parse_short: "parse boost_ref ''h:1'' = Inr \<lparr>host = ''h'', port = 1, userName = '''',
    password = '''', ident = '''', properties = []\<rparr>"
  by code_simp

theorem parse_well_formed_witness:
  "basic_ok \<lparr>host = ''h'', port = 1, userName = '''', password = '''', ident = '''', properties = []\<rparr> \<and>
   properties_ok \<lparr>host = ''h'', port = 1, userName = '''', password = '''', ident = '''', properties = []\<rparr>"
  by (rule parse_well_formed [OF boost_ref.boost_strings_axioms parse_short])

text \<open>\<open>operator<\<close> is the lexicographic order on host, port, user, password and properties, so a
  strict weak order, and it does not look at the identifier.\<close>

theorem locator_less_key:
  "locator_less x y \<longleftrightarrow> (host x, port x, userName x, password x, properties x)
     < (host y, port y, userName y, password y, properties y)"
  unfolding locator_less_def entries_less_less by (auto simp: less_prod_def)

text \<open>\<open>operator==\<close> and \<open>operator<\<close> disagree: two locators that differ only in their identifier
  are different, yet neither is smaller, so an ordered container takes them for one key.\<close>

theorem locator_order_ignores_identifier:
  "\<not> locator_less l (modifyIdentifier l s) \<and> \<not> locator_less (modifyIdentifier l s) l \<and>
   (locator_eq l (modifyIdentifier l s) \<longleftrightarrow> ident l = s)"
  by (auto simp: locator_less_def modifyIdentifier_def locator_eq_def entries_less_less)

text \<open>a locator sent as CBOR, anywhere inside a message, is received unchanged, and the receiver
  knows how many bytes it took.\<close>

theorem locator_cbor_roundtrip:
  assumes "boost_strings b" and "cbor_law sc" and "basic_ok l" and "properties_ok l"
    and "properties l = [] \<Longrightarrow> \<not> ends_bracket (ident l)"
  shows "locator_cbor_decode b sc (pre @ locator_cbor_encode sc l @ post) (length pre) =
    Some (l, length (locator_cbor_encode sc l))"
  using cbor_law.decode_at_encode [OF assms(2)] boost_strings.parse_format [OF assms(1,3-5)]
  by (simp add: locator_cbor_decode_def locator_cbor_encode_def)

theorem locator_cbor_roundtrip_witness:
  "locator_cbor_decode boost_ref string_cbor (''ab'' @ locator_cbor_encode string_cbor sample_locator @ ''c'') (length ''ab'') =
    Some (sample_locator, length (locator_cbor_encode string_cbor sample_locator))"
  by (rule locator_cbor_roundtrip [OF boost_ref.boost_strings_axioms string_cbor.cbor_law_axioms sample_locator_ok])
    (simp add: sample_locator_def)

text \<open>The hash agrees with \<open>operator==\<close>, as an unordered container needs.\<close>

lemma locator_hash_eq: "locator_eq x y \<Longrightarrow> locator_hash hs hi x = locator_hash hs hi y"
  by (simp add: locator_eq_def locator_hash_def)

text \<open>A property set with \<open>addProperty\<close> is what \<open>query\<close> answers, and removing it restores the rest.\<close>

lemma query_addProperty:
  "smap_wf (properties l) \<Longrightarrow> query b (addProperty l n v) f d = (if f = n then v else query b l f d)"
  by (cases "map_of (properties l) f") (auto simp: query_def addProperty_def map_of_smap_assign)

lemma query_removeProperty:
  "smap_wf (properties l) \<Longrightarrow> map_of (properties l) n = None \<Longrightarrow> removeProperty (addProperty l n v) n = l"
proof -
  assume wf: "smap_wf (properties l)" and n: "map_of (properties l) n = None"
  have "smap_erase n (smap_assign n v (properties l)) = properties l"
    using wf n by (intro smap_ext)
      (auto simp: smap_wf_erase smap_wf_assign map_of_smap_erase map_of_smap_assign)
  then show ?thesis by (simp add: removeProperty_def addProperty_def)
qed

end
