(* ===== verification/ChainInterface.thy ===== *)
theory ChainInterface
  imports Prelude "HOL-Library.Sublist"
begin

text \<open>
  What a shared chain promises its readers and writers, whatever it is stored in. A chain is a list of
  entries that several processes extend at the end, starting from a head that carries no entry. \<open>shown\<close> is what of an entry its
  writer gives and a reader gets: its identifier and data, or its data alone. The classes \<open>RedisChain\<close>, \<open>EtcdChain\<close> and
  \<open>LockFreeInBoostSharedMemoryChain\<close> offer \<open>head\<close>, \<open>fetchNext\<close> and \<open>appendAfter\<close> on it.

  \<open>rep s xs\<close> says that the store \<open>s\<close> holds the chain \<open>xs\<close>; \<open>place xs n i\<close> that the item \<open>i\<close> (possibly read
  long ago) stands for the first \<open>n\<close> entries of \<open>xs\<close>, so \<open>n = 0\<close> is the head. Each call may
  find that others have extended the chain meanwhile: its laws hold for the chain it has seen,
  \<open>xs @ ys\<close>. An operation that throws (\<^const>\<open>Inl\<close>) still leaves a chain that extends the old one.
  \<open>append\<close> is \<open>formChainItem(s)\<close> followed by \<open>appendAfter\<close>, which is how an item is written.
\<close>

type_synonym 'd entry = "string \<times> 'd"

text \<open>
  A reader: \<open>fetchNext\<close> again and again, at most \<open>fuel\<close> times, collecting what it finds and keeping the last item.
\<close>

fun follow :: "('i \<Rightarrow> ('s, 'e, 'i option) call) \<Rightarrow> ('s \<Rightarrow> 'i \<Rightarrow> 'c option) \<Rightarrow> nat \<Rightarrow> 'i
    \<Rightarrow> ('s, 'e, 'c list \<times> 'i) call" where
  "follow fetch content 0 i s = (Inr ([], i), s)"
| "follow fetch content (Suc fuel) i s =
     (case fetch i s of
        (Inl e, s') \<Rightarrow> (Inl e, s')
      | (Inr None, s') \<Rightarrow> (Inr ([], i), s')
      | (Inr (Some j), s') \<Rightarrow>
          (case follow fetch content fuel j s' of
             (Inl e, s'') \<Rightarrow> (Inl e, s'')
           | (Inr (cs, k), s'') \<Rightarrow> (Inr (the (content s' j) # cs, k), s'')))"

locale shared_chain =
  fixes rep :: "'s \<Rightarrow> 'k list \<Rightarrow> bool"
    and place :: "'k list \<Rightarrow> nat \<Rightarrow> 'i \<Rightarrow> bool"
    and shown :: "'k \<Rightarrow> 'c"
    and content :: "'s \<Rightarrow> 'i \<Rightarrow> 'c option"
    and writable :: "'c list \<Rightarrow> bool"
    and head :: "('s, 'e, 'i) call"
    and fetch :: "'i \<Rightarrow> ('s, 'e, 'i option) call"
    and append :: "'i \<Rightarrow> 'c list \<Rightarrow> ('s, 'e, bool) call"
  assumes rep_distinct: "rep s xs \<Longrightarrow> distinct xs"
    and place_le: "place xs n i \<Longrightarrow> n \<le> length xs"
    and place_extend: "place xs n i \<Longrightarrow> place (xs @ ys) n i"
    and head_rep: "rep s xs \<Longrightarrow> head s = (r, s') \<Longrightarrow>
      \<exists>ys. rep s' (xs @ ys) \<and> (\<forall>i. r = Inr i \<longrightarrow> place (xs @ ys) 0 i)"
    and fetch_rep: "rep s xs \<Longrightarrow> place xs n i \<Longrightarrow> fetch i s = (o', s') \<Longrightarrow>
      \<exists>ys. rep s' (xs @ ys) \<and> (o' = Inr None \<longrightarrow> n = length xs) \<and>
        (\<forall>j. o' = Inr (Some j) \<longrightarrow>
          n < length (xs @ ys) \<and> place (xs @ ys) (Suc n) j \<and> content s' j = Some (shown ((xs @ ys) ! n)))"
    and append_rep: "rep s xs \<Longrightarrow> place xs n i \<Longrightarrow> writable ds \<Longrightarrow> ds \<noteq> [] \<Longrightarrow>
      append i ds s = (b, s') \<Longrightarrow>
      \<exists>ys. (b = Inr True \<longrightarrow> n = length (xs @ ys) \<and> (\<exists>es. map shown es = ds \<and> rep s' (xs @ ys @ es))) \<and>
        (b = Inr False \<longrightarrow> rep s' (xs @ ys)) \<and>
        (\<forall>e. b = Inl e \<longrightarrow> rep s' (xs @ ys))"
begin

text \<open>What a reader collects is a contiguous part of the chain, from its position on, in order.\<close>

lemma follow_rep:
  assumes "rep s xs" "place xs n i" "follow fetch content fuel i s = (Inr (cs, j), s')"
  shows "\<exists>ys. rep s' (xs @ ys) \<and> n + length cs \<le> length (xs @ ys) \<and>
    cs = map shown (take (length cs) (drop n (xs @ ys))) \<and> place (xs @ ys) (n + length cs) j"
  using assms
proof (induction fuel arbitrary: i s xs n cs)
  case 0
  then show ?case
    using place_le [OF 0(2)] by (intro exI [of _ "[]"]) auto
next
  case (Suc fuel)
  obtain r t where f: "fetch i s = (r, t)" by (cases "fetch i s")
  from fetch_rep [OF Suc.prems(1,2) f] obtain ys where ys: "rep t (xs @ ys)"
    "\<forall>k. r = Inr (Some k) \<longrightarrow> n < length (xs @ ys) \<and> place (xs @ ys) (Suc n) k \<and> content t k = Some (shown ((xs @ ys) ! n))"
    by blast
  consider (stop) "r = Inr None" "cs = []" "j = i" "t = s'"
    | (more) k cs' where "r = Inr (Some k)" "follow fetch content fuel k t = (Inr (cs', j), s')" "cs = the (content t k) # cs'"
    using Suc.prems(3) f by (auto split: sum.splits option.splits prod.splits)
  then show ?case
  proof cases
    case stop
    then show ?thesis
      using ys(1) place_extend [OF Suc.prems(2), of ys] place_le [OF Suc.prems(2)] by (intro exI [of _ ys]) auto
  next
    case more
    then have k: "n < length (xs @ ys)" "place (xs @ ys) (Suc n) k" "content t k = Some (shown ((xs @ ys) ! n))"
      using ys(2) by blast+
    from Suc.IH [OF ys(1) k(2) more(2)] obtain zs where zs: "rep s' ((xs @ ys) @ zs)"
      "Suc n + length cs' \<le> length ((xs @ ys) @ zs)" "cs' = map shown (take (length cs') (drop (Suc n) ((xs @ ys) @ zs)))"
      "place ((xs @ ys) @ zs) (Suc n + length cs') j"
      by blast
    have "drop n ((xs @ ys) @ zs) = (xs @ ys) ! n # drop (Suc n) ((xs @ ys) @ zs)"
      using k(1) by (metis Cons_nth_drop_Suc append_assoc length_append nth_append trans_less_add1)
    then show ?thesis
      using zs k(3) more(3) by (intro exI [of _ "ys @ zs"]) simp
  qed
qed

text \<open>Every operation only ever extends the chain.\<close>

lemma append_extends:
  assumes "rep s xs" "place xs n i" "writable ds" "ds \<noteq> []" "append i ds s = (r, s')"
  shows "\<exists>ys. rep s' (xs @ ys)"
proof -
  from append_rep [OF assms] obtain ys where *:
    "r = Inr True \<longrightarrow> (\<exists>es. rep s' (xs @ ys @ es))" "r = Inr False \<longrightarrow> rep s' (xs @ ys)" "\<forall>e. r = Inl e \<longrightarrow> rep s' (xs @ ys)"
    by blast
  then show ?thesis
  proof (cases r)
    case (Inr b)
    then show ?thesis using * by (cases b) auto
  qed auto
qed

text \<open>
  Two writers that hold items for the same position cannot both succeed: once one has appended there,
  the other's \<open>appendAfter\<close>, now or later, does not return true.
\<close>

lemma append_once:
  assumes "rep s xs" "place xs n i" "place xs n i'" "writable ds" "ds \<noteq> []" "writable es" "es \<noteq> []"
    and "append i ds s = (Inr True, s1)" and "\<And>zs. rep s1 zs \<Longrightarrow> \<exists>ys. rep s2 (zs @ ys)"
    and "append i' es s2 = (r, s3)"
  shows "r \<noteq> Inr True"
proof -
  from append_rep [OF assms(1,2,4,5,8)] obtain ys as where ys: "n = length (xs @ ys)" "map shown as = ds" "rep s1 (xs @ ys @ as)"
    by blast
  from assms(9) [OF ys(3)] obtain zs where zs: "rep s2 (xs @ ys @ as @ zs)"
    by auto
  have "place (xs @ ys @ as @ zs) n i'"
    using place_extend [OF assms(3), of "ys @ as @ zs"] by simp
  from append_rep [OF zs this assms(6,7,10)] show ?thesis
    using ys(1,2) assms(5) by auto
qed

text \<open>
  A successful append is found by every later reader, at the position after the item it was appended to:
  \<open>s2\<close> is any state the chain has grown to, and the reader starts at the head.
\<close>

lemma append_then_read:
  assumes "rep s xs" "place xs n i" "writable ds" "ds \<noteq> []" "append i ds s = (Inr True, s1)"
    and "\<And>zs. rep s1 zs \<Longrightarrow> \<exists>ys. rep s2 (zs @ ys)"
    and "head s2 = (Inr h, s3)" and "follow fetch content fuel h s3 = (Inr (cs, j), s4)" and "n + length ds \<le> length cs"
  shows "take (length ds) (drop n cs) = ds"
proof -
  from append_rep [OF assms(1-5)] obtain ys as where ys: "n = length (xs @ ys)" "map shown as = ds" "rep s1 (xs @ ys @ as)"
    by blast
  from assms(6) [OF ys(3)] obtain zs where zs: "rep s2 (xs @ ys @ as @ zs)"
    by auto
  from head_rep [OF zs assms(7)] obtain us where us: "rep s3 ((xs @ ys @ as @ zs) @ us)" "place ((xs @ ys @ as @ zs) @ us) 0 h"
    by auto
  from follow_rep [OF us assms(8)] obtain vs where cs: "cs = map shown (take (length cs) (xs @ ys @ as @ zs @ us @ vs))"
    by auto
  have "take (length ds) (drop n (map shown (take k (xs @ ys @ as @ zs @ us @ vs)))) = ds" if "n + length ds \<le> k" for k
    using ys(1,2) that by (auto simp: take_drop take_map drop_map)
  from this [OF assms(9)] cs show ?thesis by metis
qed

end

text \<open>
  A chain whose readers are always answered: a reader with enough fuel reaches everything that was on the chain when it began.
\<close>

locale readable_chain = shared_chain +
  assumes head_returns: "rep s xs \<Longrightarrow> \<exists>i s'. head s = (Inr i, s')"
    and fetch_returns: "rep s xs \<Longrightarrow> place xs n i \<Longrightarrow> \<exists>o' s'. fetch i s = (Inr o', s')"
begin

lemma follow_complete:
  assumes "rep s xs" "place xs n i" "m \<le> length xs" "m \<le> n + fuel"
  shows "\<exists>cs j s'. follow fetch content fuel i s = (Inr (cs, j), s') \<and> m \<le> n + length cs"
  using assms
proof (induction fuel arbitrary: i s xs n)
  case 0
  then show ?case by simp
next
  case (Suc fuel)
  obtain o' t where f: "fetch i s = (Inr o', t)"
    using fetch_returns [OF Suc.prems(1,2)] by blast
  show ?case
  proof (cases o')
    case None
    then show ?thesis
      using f fetch_rep [OF Suc.prems(1,2) f] Suc.prems(3) by auto
  next
    case (Some j)
    with fetch_rep [OF Suc.prems(1,2) f] obtain ys where ys: "rep t (xs @ ys)" "place (xs @ ys) (Suc n) j"
      by blast
    have "m \<le> length (xs @ ys)" "m \<le> Suc n + fuel"
      using Suc.prems(3,4) by simp_all
    from Suc.IH [OF ys this] show ?thesis using f Some by auto
  qed
qed

text \<open>So a reader that starts at the head gets all that was there, in order, and maybe some of what came later.\<close>

lemma read_all:
  assumes "rep s xs" "length xs \<le> fuel"
  shows "\<exists>h s1 cs j s2 ys. head s = (Inr h, s1) \<and> follow fetch content fuel h s1 = (Inr (cs, j), s2) \<and>
    rep s2 (xs @ ys) \<and> cs = map shown (take (length cs) (xs @ ys)) \<and> length xs \<le> length cs"
proof -
  obtain h s1 where h: "head s = (Inr h, s1)"
    using head_returns [OF assms(1)] by blast
  from head_rep [OF assms(1) h] obtain ys where ys: "rep s1 (xs @ ys)" "place (xs @ ys) 0 h"
    by blast
  have "length xs \<le> length (xs @ ys)" "length xs \<le> 0 + fuel"
    using assms(2) by simp_all
  from follow_complete [OF ys this] obtain cs j s2 where
    cs: "follow fetch content fuel h s1 = (Inr (cs, j), s2)" "length xs \<le> 0 + length cs" by blast
  from follow_rep [OF ys cs(1)] obtain zs where "rep s2 (xs @ ys @ zs)" "cs = map shown (take (length cs) (xs @ ys @ zs))"
    by auto
  then show ?thesis
    using h cs by (intro exI [of _ h] exI [of _ s1] exI [of _ cs] exI [of _ j] exI [of _ s2] exI [of _ "ys @ zs"]) simp
qed

end

text \<open>
  A chain whose store always answers: no call throws, and an append that fails has a reason (others came first, or what is written
  clashes with what is there).
\<close>

locale reliable_chain = readable_chain +
  fixes clash :: "'c list \<Rightarrow> 'k list \<Rightarrow> bool"
  assumes append_returns: "rep s xs \<Longrightarrow> place xs n i \<Longrightarrow> writable ds \<Longrightarrow> \<exists>b s'. append i ds s = (Inr b, s')"
    and append_reason: "rep s xs \<Longrightarrow> place xs n i \<Longrightarrow> writable ds \<Longrightarrow> ds \<noteq> [] \<Longrightarrow> append i ds s = (Inr False, s') \<Longrightarrow>
      \<exists>ys. rep s' (xs @ ys) \<and> (n < length (xs @ ys) \<or> clash ds (xs @ ys))"
begin

text \<open>Of two writers at one place, the one that comes after the other is told so.\<close>

lemma append_loses:
  assumes "rep s xs" "place xs n i" "place xs n i'" "writable ds" "ds \<noteq> []" "writable es" "es \<noteq> []"
    and "append i ds s = (Inr True, s1)" and "\<And>zs. rep s1 zs \<Longrightarrow> \<exists>ys. rep s2 (zs @ ys)"
  shows "\<exists>s3. append i' es s2 = (Inr False, s3)"
proof -
  from append_rep [OF assms(1,2,4,5,8)] obtain ys as where ys: "rep s1 (xs @ ys @ as)"
    by blast
  from assms(9) [OF ys] obtain zs where zs: "rep s2 (xs @ ys @ as @ zs)"
    by auto
  have "place (xs @ ys @ as @ zs) n i'"
    using place_extend [OF assms(3), of "ys @ as @ zs"] by simp
  from append_returns [OF zs this assms(6)] obtain b s3 where "append i' es s2 = (Inr b, s3)"
    by blast
  then show ?thesis
    using append_once [OF assms] by (cases b) auto
qed

end

end
