(* ===== verification/KvChain.thy ===== *)
theory KvChain
  imports ChainInterface
begin

text \<open>
  How a chain is kept in a key-value store, as \<open>RedisChain\<close> does, and \<open>EtcdChain\<close> when the data has keys of its
  own: the link of item \<open>i\<close> is the value of the key \<open>chainPrefix:i\<close>, its data that of \<open>dataPrefix:i\<close>, and an empty link marks the
  last item. \<open>chain_keys\<close> holds the fields that the two configurations share. The store is a function from keys to values.
\<close>

record chain_keys =
  headKey :: string
  chainPrefix :: string
  dataPrefix :: string
  extraDataPrefix :: string

definition chainKey :: "'k chain_keys_scheme \<Rightarrow> string \<Rightarrow> string" where
  "chainKey cfg i = chainPrefix cfg @ '':'' @ i"

definition dataKey :: "'k chain_keys_scheme \<Rightarrow> string \<Rightarrow> string" where
  "dataKey cfg i = dataPrefix cfg @ '':'' @ i"

definition extraDataKey :: "'k chain_keys_scheme \<Rightarrow> string \<Rightarrow> string" where
  "extraDataKey cfg i = extraDataPrefix cfg @ '':'' @ i"

section \<open>The chain in the key-value store\<close>

text \<open>
  \<open>kv_chain\<close> says that the keys hold the chain \<open>xs\<close> and nothing else of this configuration: each link is
  the next identifier, the last is empty, each data key decodes to its entry.
\<close>

definition chain_ids :: "'k chain_keys_scheme \<Rightarrow> 'd entry list \<Rightarrow> string list" where
  "chain_ids cfg xs = headKey cfg # map fst xs"

definition kv_chain :: "'k chain_keys_scheme \<Rightarrow> (string \<Rightarrow> 'd option) \<Rightarrow> (string \<Rightarrow> string option)
    \<Rightarrow> 'd entry list \<Rightarrow> bool" where
  "kv_chain cfg dec kv xs \<longleftrightarrow>
     distinct (chain_ids cfg xs) \<and> (\<forall>i \<in> fst ` set xs. i \<noteq> '''') \<and> (\<forall>i \<in> set (chain_ids cfg xs). nul_free i) \<and>
     (\<forall>n < length xs. kv (chainKey cfg (chain_ids cfg xs ! n)) = Some (fst (xs ! n))) \<and>
     kv (chainKey cfg (chain_ids cfg xs ! length xs)) = Some '''' \<and>
     (\<forall>n < length xs. Option.bind (kv (dataKey cfg (fst (xs ! n)))) dec = Some (snd (xs ! n))) \<and>
     (\<forall>i. i \<notin> set (chain_ids cfg xs) \<longrightarrow> kv (chainKey cfg i) = None) \<and>
     (\<forall>i. i \<notin> fst ` set xs \<longrightarrow> kv (dataKey cfg i) = None)"

text \<open>What the other clients of the server may do to the chain between two commands of ours: extend it.\<close>

definition chain_grows :: "'k chain_keys_scheme \<Rightarrow> (string \<Rightarrow> 'd option) \<Rightarrow> (string \<Rightarrow> string option)
    \<Rightarrow> (string \<Rightarrow> string option) \<Rightarrow> bool" where
  "chain_grows cfg dec kv kv' \<longleftrightarrow> (\<forall>xs. kv_chain cfg dec kv xs \<longrightarrow> (\<exists>ys. kv_chain cfg dec kv' (xs @ ys)))"

definition can_write :: "'k chain_keys_scheme \<Rightarrow> 'd entry list \<Rightarrow> bool" where
  "can_write cfg ds \<longleftrightarrow> distinct (map fst ds) \<and> (\<forall>i \<in> fst ` set ds. i \<noteq> '''' \<and> nul_free i \<and> i \<noteq> headKey cfg)"

definition good_configuration :: "'k chain_keys_scheme \<Rightarrow> bool" where
  "good_configuration cfg \<longleftrightarrow> nul_free (chainPrefix cfg) \<and> nul_free (dataPrefix cfg) \<and> nul_free (headKey cfg) \<and>
     apart (chainPrefix cfg @ '':'') (dataPrefix cfg @ '':'')"

lemma chainKey_eq [simp]: "chainKey cfg i = chainKey cfg j \<longleftrightarrow> i = j"
  by (simp add: chainKey_def)

lemma dataKey_eq [simp]: "dataKey cfg i = dataKey cfg j \<longleftrightarrow> i = j"
  by (simp add: dataKey_def)

lemma keys_apart: "good_configuration cfg \<Longrightarrow> chainKey cfg i \<noteq> dataKey cfg j"
  using apart_append [of "chainPrefix cfg @ '':''" "dataPrefix cfg @ '':''" i j]
  by (simp add: good_configuration_def chainKey_def dataKey_def)

lemma chain_ids_append: "chain_ids cfg (xs @ ys) = chain_ids cfg xs @ map fst ys"
  by (simp add: chain_ids_def)

lemma length_chain_ids [simp]: "length (chain_ids cfg xs) = Suc (length xs)"
  by (simp add: chain_ids_def)

text \<open>What the script of \<open>appendAfter\<close> writes extends the chain by the new entry.\<close>

definition kv_append :: "'k chain_keys_scheme \<Rightarrow> string \<Rightarrow> string \<times> string \<Rightarrow> (string \<Rightarrow> string option)
    \<Rightarrow> string \<Rightarrow> string option" where
  "kv_append cfg k e kv = kv(chainKey cfg k \<mapsto> fst e, dataKey cfg (fst e) \<mapsto> snd e, chainKey cfg (fst e) \<mapsto> '''')"

lemma kv_chain_append:
  assumes cfg: "good_configuration cfg" and kv: "kv_chain cfg dec kv xs" and d: "dec v = Some d"
    and i: "i \<noteq> ''''" "nul_free i" "i \<notin> set (chain_ids cfg xs)"
  shows "kv_chain cfg dec (kv_append cfg (chain_ids cfg xs ! length xs) (i, v) kv) (xs @ [(i, d)])"
proof -
  let ?ids = "chain_ids cfg xs"
  have dist: "distinct ?ids" using kv by (simp add: kv_chain_def)
  have last: "?ids ! n \<noteq> ?ids ! length xs" if "n < length xs" for n
    using that nth_eq_iff_index_eq [OF dist] by simp
  have mem: "?ids ! n \<in> set ?ids" if "n \<le> length xs" for n
    using that by simp
  have fsts: "fst (xs ! n) \<in> set ?ids" if "n < length xs" for n
    using that by (simp add: chain_ids_def)
  have new: "?ids ! n \<noteq> i" if "n \<le> length xs" for n
    using that mem i(3) by metis
  show ?thesis
    unfolding kv_chain_def kv_append_def
  proof (intro conjI allI impI ballI, goal_cases)
    case 1 then show ?case using dist i(3) by (simp add: chain_ids_append)
  next
    case (2 j) then show ?case using kv i(1) by (auto simp: kv_chain_def)
  next
    case (3 j) then show ?case using kv i(2) by (auto simp: kv_chain_def chain_ids_append)
  next
    case (4 n) then show ?case
      using kv last [of n] new [of n] keys_apart [OF cfg]
      by (cases "n = length xs") (auto simp: kv_chain_def chain_ids_append nth_append less_Suc_eq)
  next
    case 5 then show ?case by (simp add: chain_ids_append nth_append)
  next
    case (6 n)
    then have n: "n = length xs \<or> n < length xs \<and> fst (xs ! n) \<noteq> i" using fsts [of n] i(3) by auto
    have no: "dataKey cfg b \<noteq> chainKey cfg a" for a b using keys_apart [OF cfg] by metis
    from n show ?case
      using kv d no by (auto simp: kv_chain_def nth_append)
  next
    case (7 j) then show ?case
      using kv mem [of "length xs"] keys_apart [OF cfg] by (auto simp: kv_chain_def chain_ids_append)
  next
    case (8 j)
    have "dataKey cfg j \<noteq> chainKey cfg a" for a using keys_apart [OF cfg] by metis
    then show ?case using kv 8 by (simp add: kv_chain_def)
  qed
qed

text \<open>
  The store after the batch: entry by entry, its data and its link (\<open>kv_links\<close>). It is the store
  that appending the entries one at a time gives (\<open>kv_appends\<close>).
\<close>

fun kv_links :: "'k chain_keys_scheme \<Rightarrow> ('d \<Rightarrow> string) \<Rightarrow> 'd entry list \<Rightarrow> (string \<Rightarrow> string option)
    \<Rightarrow> string \<Rightarrow> string option" where
  "kv_links cfg ser [] kv = kv"
| "kv_links cfg ser ((i, d) # ds) kv = kv_links cfg ser ds
     (kv(dataKey cfg i \<mapsto> ser d, chainKey cfg i \<mapsto> (case ds of [] \<Rightarrow> '''' | e # es \<Rightarrow> fst e)))"

fun kv_appends :: "'k chain_keys_scheme \<Rightarrow> ('d \<Rightarrow> string) \<Rightarrow> string \<Rightarrow> 'd entry list \<Rightarrow> (string \<Rightarrow> string option)
    \<Rightarrow> string \<Rightarrow> string option" where
  "kv_appends cfg ser k [] kv = kv"
| "kv_appends cfg ser k ((i, d) # ds) kv = kv_appends cfg ser i ds (kv_append cfg k (i, ser d) kv)"

lemma kv_links_appends:
  "ds \<noteq> [] \<Longrightarrow> kv_links cfg ser ds (kv(chainKey cfg k \<mapsto> fst (hd ds))) = kv_appends cfg ser k ds kv"
proof (induction ds arbitrary: k kv)
  case (Cons e ds)
  obtain i d where e: "e = (i, d)" by (cases e)
  show ?case
  proof (cases ds)
    case Nil
    then show ?thesis by (auto simp: e kv_append_def fun_eq_iff)
  next
    case (Cons e' ds')
    then have "ds \<noteq> []" by simp
    from Cons.IH [OF this] have "kv_appends cfg ser i ds (kv_append cfg k (i, ser d) kv) =
        kv_links cfg ser ds ((kv_append cfg k (i, ser d) kv)(chainKey cfg i \<mapsto> fst (hd ds)))"
      by (rule sym)
    moreover have "(kv_append cfg k (i, ser d) kv)(chainKey cfg i \<mapsto> fst e') =
        kv(chainKey cfg k \<mapsto> i, dataKey cfg i \<mapsto> ser d, chainKey cfg i \<mapsto> fst e')"
      by (auto simp: kv_append_def fun_eq_iff)
    ultimately show ?thesis by (simp only: e Cons kv_links.simps kv_appends.simps list.case list.sel fst_conv)
  qed
qed simp

lemma kv_chain_appends:
  assumes cfg: "good_configuration cfg" and dec: "\<And>d. dec (ser d) = Some d" and kv: "kv_chain cfg dec kv xs"
    and ds: "can_write cfg ds" "fst ` set ds \<inter> set (chain_ids cfg xs) = {}"
  shows "kv_chain cfg dec (kv_appends cfg ser (chain_ids cfg xs ! length xs) ds kv) (xs @ ds)"
  using kv ds
proof (induction ds arbitrary: xs kv)
  case (Cons e ds)
  obtain i d where e: "e = (i, d)" by (cases e)
  have i: "i \<noteq> ''''" "nul_free i" "i \<notin> set (chain_ids cfg xs)"
    using Cons.prems(2,3) by (auto simp: e can_write_def)
  have "kv_chain cfg dec (kv_append cfg (chain_ids cfg xs ! length xs) (i, ser d) kv) (xs @ [(i, d)])"
    by (rule kv_chain_append [OF cfg Cons.prems(1) dec i])
  moreover have "can_write cfg ds" "fst ` set ds \<inter> set (chain_ids cfg (xs @ [(i, d)])) = {}"
    using Cons.prems(2,3) by (auto simp: e can_write_def chain_ids_append)
  ultimately have "kv_chain cfg dec (kv_appends cfg ser (chain_ids cfg (xs @ [(i, d)]) ! length (xs @ [(i, d)])) ds
      (kv_append cfg (chain_ids cfg xs ! length xs) (i, ser d) kv)) ((xs @ [(i, d)]) @ ds)"
    by (rule Cons.IH)
  moreover have "chain_ids cfg (xs @ [(i, d)]) ! length (xs @ [(i, d)]) = i"
    by (simp add: chain_ids_def nth_append)
  ultimately show ?case by (simp add: e)
qed simp

lemma fold_nth: "fold (\<lambda>ii. F (zs ! ii)) [0..<length zs] = fold F zs"
  using fold_map [of F "(!) zs" "[0..<length zs]"] by (simp add: map_nth comp_def)

lemma chain_grows_refl: "chain_grows cfg dec kv kv"
  unfolding chain_grows_def by (metis append_Nil2)

definition extra_apart :: "'k chain_keys_scheme \<Rightarrow> bool" where
  "extra_apart cfg \<longleftrightarrow> nul_free (extraDataPrefix cfg) \<and> apart (extraDataPrefix cfg @ '':'') (chainPrefix cfg @ '':'') \<and>
     apart (extraDataPrefix cfg @ '':'') (dataPrefix cfg @ '':'')"

lemma extra_key_apart:
  "extra_apart cfg \<Longrightarrow> chainKey cfg i \<noteq> extraDataKey cfg k" "extra_apart cfg \<Longrightarrow> dataKey cfg i \<noteq> extraDataKey cfg k"
  using apart_append [of "extraDataPrefix cfg @ '':''" "chainPrefix cfg @ '':''" k i]
    apart_append [of "extraDataPrefix cfg @ '':''" "dataPrefix cfg @ '':''" k i]
  by (simp_all add: extra_apart_def chainKey_def dataKey_def extraDataKey_def)

section \<open>Reading it off the store\<close>

lemma link_of: "kv_chain cfg dec kv xs \<Longrightarrow> n \<le> length xs \<Longrightarrow>
    kv (chainKey cfg (chain_ids cfg xs ! n)) = Some (if n < length xs then fst (xs ! n) else '''')"
  by (auto simp: kv_chain_def)

lemma data_of: "kv_chain cfg dec kv xs \<Longrightarrow> n < length xs \<Longrightarrow>
    Option.bind (kv (dataKey cfg (fst (xs ! n)))) dec = Some (snd (xs ! n))"
  by (auto simp: kv_chain_def)

lemma id_nul_free: "kv_chain cfg dec kv xs \<Longrightarrow> n \<le> length xs \<Longrightarrow> nul_free (chain_ids cfg xs ! n)"
  using nth_mem [of n "chain_ids cfg xs"] by (auto simp: kv_chain_def simp del: nth_mem)

lemma id_nonempty: "kv_chain cfg dec kv xs \<Longrightarrow> n < length xs \<Longrightarrow> fst (xs ! n) \<noteq> ''''"
  using nth_mem [of n xs] unfolding kv_chain_def by blast

lemma good_keys_nul_free:
  "good_configuration cfg \<Longrightarrow> nul_free i \<Longrightarrow> nul_free (chainKey cfg i) \<and> nul_free (dataKey cfg i)"
  by (simp add: good_configuration_def chainKey_def dataKey_def)

text \<open>
  What the two stores test before they write (an empty link at the current item, no key for the new identifiers)
  is that the current item is the last one and the identifiers are new to the chain.
\<close>

lemma test_fresh:
  assumes zs: "kv_chain cfg dec kv zs" "n \<le> length zs" "can_write cfg ds"
  shows "(kv (chainKey cfg (chain_ids cfg zs ! n)) = Some '''' \<and>
      (\<forall>i \<in> fst ` set ds. kv (dataKey cfg i) = None \<and> kv (chainKey cfg i) = None)) \<longleftrightarrow>
    n = length zs \<and> fst ` set ds \<inter> fst ` set zs = {}"
proof -
  have last: "kv (chainKey cfg (chain_ids cfg zs ! n)) = Some '''' \<longleftrightarrow> n = length zs"
    using link_of [OF zs(1,2)] zs(2) id_nonempty [OF zs(1), of n] by (cases "n < length zs") auto
  have "kv (dataKey cfg i) = None \<and> kv (chainKey cfg i) = None \<longleftrightarrow> i \<notin> fst ` set zs"
    if "i \<in> fst ` set ds" for i
  proof (cases "i \<in> fst ` set zs")
    case True
    then obtain m where m: "m < length zs" "i = fst (zs ! m)"
      by (auto simp: in_set_conv_nth)
    then have "chain_ids cfg zs ! Suc m = i" by (simp add: chain_ids_def)
    then have "kv (chainKey cfg i) \<noteq> None"
      using link_of [OF zs(1), of "Suc m"] m(1) by simp
    then show ?thesis using True by simp
  next
    case False
    then have "i \<notin> set (chain_ids cfg zs)"
      using zs(3) that by (auto simp: chain_ids_def can_write_def)
    then show ?thesis using zs(1) False by (simp add: kv_chain_def)
  qed
  then show ?thesis using last by auto
qed

lemma ids_apart: "can_write cfg ds \<Longrightarrow> fst ` set ds \<inter> fst ` set zs = {} \<Longrightarrow> fst ` set ds \<inter> set (chain_ids cfg zs) = {}"
  by (auto simp: chain_ids_def can_write_def)

text \<open>An empty link at the head is the empty chain.\<close>

lemma kv_chain_empty:
  assumes "good_configuration cfg" and "kv (chainKey cfg (headKey cfg)) = Some ''''"
    and "\<And>i. i \<noteq> headKey cfg \<Longrightarrow> kv (chainKey cfg i) = None" and "\<And>i. kv (dataKey cfg i) = None"
  shows "kv_chain cfg dec kv []"
  using assms by (simp add: kv_chain_def chain_ids_def good_configuration_def)

end
