(* ===== verification/RedisChain.thy ===== *)
theory RedisChain
  imports KvChain CppStrings Wire
begin

text \<open>
  \<open>RedisChain\<close> (tm_kit/transport/redis_shared_chain/RedisChain.hpp): a shared chain kept in a Redis server. The
  link of item \<open>i\<close> is the value of the key \<open>chainPrefix:i\<close> and its data that of \<open>dataPrefix:i\<close>; an empty link marks
  the last item.

  The server and hiredis are a parameter, the record \<open>redis\<close>: \<open>store\<close> is what \<open>GET\<close> finds, \<open>put\<close> what
  \<open>SET\<close> does, and \<open>send\<close> runs one command (or one Lua script, which is a function of the server's
  state here) on the server and returns its reply, or \<^const>\<open>None\<close> for a null \<open>redisReply\<close>. The Lua scripts are part of the
  source and are translated.
\<close>

datatype reply = ReplyString string | ReplyInteger int | ReplyNil | ReplyError string | ReplyStatus string

record 's redis =
  store :: "'s \<Rightarrow> string \<Rightarrow> string option"
  put :: "string \<Rightarrow> string \<Rightarrow> 's \<Rightarrow> 's"
  send :: "('s \<Rightarrow> reply \<times> 's) \<Rightarrow> 's \<Rightarrow> reply option \<times> 's"

record 'd ChainItem =
  itemId :: string
  data :: "'d option"
  nextID :: string

record RedisChainConfiguration = chain_keys +
  redisServerAddr :: string

definition defaultConfiguration :: RedisChainConfiguration where
  "defaultConfiguration = \<lparr>headKey = '''', chainPrefix = ''shared_chain_test'', dataPrefix = ''shared_chain_test_data'',
     extraDataPrefix = ''shared_chain_test_extra_data'', redisServerAddr = ''127.0.0.1:6379''\<rparr>"

text \<open>
  \<open>RedisChainException\<close>, or the dereference of an empty \<open>std::optional\<close>, which has no defined outcome.
\<close>

datatype redis_error = RedisChainException string | UndefinedBehaviour

section \<open>Operations\<close>

text \<open>The constructor splits the address at its first colon; the port is read by \<open>std::stoi\<close>.\<close>

definition redis_address :: "(string \<Rightarrow> int option) \<Rightarrow> RedisChainConfiguration \<Rightarrow> (string \<times> int) option" where
  "redis_address stoi cfg =
     (let a = redisServerAddr cfg; h = takeWhile (\<lambda>c. c \<noteq> CHR '':'') a in
      if CHR '':'' \<in> set a
      then map_option (Pair h) (stoi (drop (length h + 1) a))
      else Some (h, 6379))"

text \<open>\<open>GET\<close> of a key, whose reply must be a string.\<close>

definition GET :: "'s redis \<Rightarrow> string \<Rightarrow> 's \<Rightarrow> reply \<times> 's" where
  "GET r k s = ((case store r s k of Some v \<Rightarrow> ReplyString v | None \<Rightarrow> ReplyNil), s)"

definition get_string :: "'s redis \<Rightarrow> string \<Rightarrow> string \<Rightarrow> ('s, redis_error, string) call" where
  "get_string r msg key s =
     (case send r (GET r (c_str key)) s of
        (Some (ReplyString v), s') \<Rightarrow> (Inr v, s')
      | (_, s') \<Rightarrow> (Inl (RedisChainException (msg @ key)), s'))"

text \<open>
  \<open>head\<close>: a Lua script that creates the head when there is none. \<open>headKeyStr\<close> is a function-local
  static, so it lives in the process and keeps the value the first call gave it; the first component
  of the state is that variable, \<^const>\<open>None\<close> before its initialization.
\<close>

definition head_script :: "'s redis \<Rightarrow> string \<Rightarrow> 's \<Rightarrow> reply \<times> 's" where
  "head_script r k s =
     (case store r s k of
        Some x \<Rightarrow> (ReplyString x, s)
      | None \<Rightarrow> (ReplyString '''', put r k '''' s))"

definition head :: "'s redis \<Rightarrow> RedisChainConfiguration \<Rightarrow> 'd
    \<Rightarrow> (string option \<times> 's, redis_error, 'd ChainItem) call" where
  "head r cfg dflt = (\<lambda>(static, s).
     (let headKeyStr = (case static of Some k \<Rightarrow> k | None \<Rightarrow> chainKey cfg (headKey cfg)) in
      (case send r (head_script r (c_str headKeyStr)) s of
         (Some (ReplyString v), s') \<Rightarrow>
           (Inr \<lparr>itemId = headKey cfg, data = Some dflt, nextID = v\<rparr>, (Some headKeyStr, s'))
       | (_, s') \<Rightarrow>
           (Inl (RedisChainException (''head: Redis chain fetch head error for '' @ headKeyStr)),
            (Some headKeyStr, s')))))"

text \<open>\<open>load_item\<close> is the part \<open>loadUntil\<close> and \<open>fetchNext\<close> have in common: the data, then the link.\<close>

definition load_item :: "'s redis \<Rightarrow> RedisChainConfiguration \<Rightarrow> ByteDataHookPair option \<Rightarrow> 'd serializer
    \<Rightarrow> string \<Rightarrow> string \<Rightarrow> ('s, redis_error, 'd ChainItem) call" where
  "load_item r cfg hp c msg i =
     bindS (get_string r msg (dataKey cfg i)) (\<lambda>d.
     bindS (get_string r msg (chainKey cfg i)) (\<lambda>n.
       returnS \<lparr>itemId = i, data = hook_parse hp c d, nextID = n\<rparr>))"

definition loadUntil :: "'s redis \<Rightarrow> RedisChainConfiguration \<Rightarrow> ByteDataHookPair option \<Rightarrow> 'd serializer \<Rightarrow> 'd
    \<Rightarrow> string \<Rightarrow> (string option \<times> 's, redis_error, 'd ChainItem) call" where
  "loadUntil r cfg hp c dflt i = (\<lambda>(static, s).
     if i = '''' then head r cfg dflt (static, s)
     else (case load_item r cfg hp c ''loadUntil: Redis chain fetch error for '' i s of
             (res, s') \<Rightarrow> (res, (static, s'))))"

definition fetchNext :: "'s redis \<Rightarrow> RedisChainConfiguration \<Rightarrow> ByteDataHookPair option \<Rightarrow> 'd serializer
    \<Rightarrow> 'd ChainItem \<Rightarrow> ('s, redis_error, 'd ChainItem option) call" where
  "fetchNext r cfg hp c current =
     (let msg = ''fetchNext: Redis chain fetch error for '' in
      bindS (if nextID current = '''' then get_string r msg (chainKey cfg (itemId current))
             else returnS (nextID current)) (\<lambda>n.
        if n = '''' then returnS None
        else bindS (load_item r cfg hp c msg n) (\<lambda>item. returnS (Some item))))"

definition idIsAlreadyOnChain :: "'s redis \<Rightarrow> RedisChainConfiguration \<Rightarrow> string \<Rightarrow> 's \<Rightarrow> bool \<times> 's" where
  "idIsAlreadyOnChain r cfg i s =
     (case send r (GET r (c_str (chainKey cfg i))) s of
        (Some (ReplyString v), s') \<Rightarrow> (True, s')
      | (_, s') \<Rightarrow> (False, s'))"

text \<open>The script of the single \<open>appendAfter\<close>: the link of the current item must be empty, the two new keys absent.\<close>

definition append_script :: "'s redis \<Rightarrow> string \<Rightarrow> string \<Rightarrow> string \<Rightarrow> string \<Rightarrow> string \<Rightarrow> 's \<Rightarrow> reply \<times> 's" where
  "append_script r k1 k2 k3 a1 a2 s =
     (if store r s k1 = Some '''' \<and> store r s k2 = None \<and> store r s k3 = None
      then (ReplyInteger 1, put r k3 '''' (put r k2 a2 (put r k1 a1 s)))
      else (ReplyInteger 0, s))"

definition read_verdict :: "redis_error \<Rightarrow> reply option \<times> 's \<Rightarrow> (redis_error + bool) \<times> 's" where
  "read_verdict e o' = (case o' of (Some (ReplyInteger n), s') \<Rightarrow> (Inr (n \<noteq> 0), s') | (_, s') \<Rightarrow> (Inl e, s'))"

definition appendAfter :: "'s redis \<Rightarrow> RedisChainConfiguration \<Rightarrow> ByteDataHookPair option \<Rightarrow> 'd serializer
    \<Rightarrow> 'd ChainItem \<Rightarrow> 'd ChainItem \<Rightarrow> ('s, redis_error, bool) call" where
  "appendAfter r cfg hp c current toBeWritten s =
     (if nextID current \<noteq> '''' then (Inr False, s)
      else (case data toBeWritten of
        None \<Rightarrow> (Inl (RedisChainException ''appendAfter: Cannot append a new item whose data is empty''), s)
      | Some d \<Rightarrow>
          if nextID toBeWritten \<noteq> '''' then
            (Inl (RedisChainException ''appendAfter: Cannot append a new item whose nextID is already non-empty''), s)
          else
            (let currentChainKey = chainKey cfg (itemId current);
                 newDataKey = dataKey cfg (itemId toBeWritten);
                 newChainKey = chainKey cfg (itemId toBeWritten);
                 newData = hook_serialize hp c d in
             read_verdict (RedisChainException (''appendAfter: Redis chain compare set error for '' @ currentChainKey
                 @ '','' @ newDataKey @ '','' @ newChainKey))
               (send r (append_script r (c_str currentChainKey) (c_str newDataKey) (c_str newChainKey)
                  (c_str (itemId toBeWritten)) newData) s))))"

text \<open>
  The batch \<open>appendAfter\<close>. The script refers to \<open>KEYS\<close> and \<open>ARGV\<close> from 1 on; the arguments are laid out by
  index in one array \<open>argv\<close>, in which \<open>EVAL\<close>, the script and the number of keys come first.
\<close>

definition lua_nth :: "string list \<Rightarrow> nat \<Rightarrow> string" where
  "lua_nth xs n = xs ! (n - 1)"

definition batch_script :: "'s redis \<Rightarrow> nat \<Rightarrow> string list \<Rightarrow> string list \<Rightarrow> 's \<Rightarrow> reply \<times> 's" where
  "batch_script r n KEYS ARGV s =
     (if store r s (lua_nth KEYS 1) = Some '''' \<and>
         list_all (\<lambda>ii. store r s (lua_nth KEYS ((ii + 1) * 2)) = None \<and>
                        store r s (lua_nth KEYS ((ii + 1) * 2 + 1)) = None) [0..<n]
      then (ReplyInteger 1,
            fold (\<lambda>ii s. put r (lua_nth KEYS ((ii + 1) * 2 + 1)) (lua_nth ARGV ((ii + 1) * 2 + 1))
                          (put r (lua_nth KEYS ((ii + 1) * 2)) (lua_nth ARGV ((ii + 1) * 2)) s))
              [0..<n] (put r (lua_nth KEYS 1) (lua_nth ARGV 1) s))
      else (ReplyInteger 0, s))"

text \<open>\<open>argv[2*ii+b]\<close> and \<open>argv[2*ii+b+1]\<close> for \<open>ii\<close> below \<open>n\<close>.\<close>

definition write_pairs :: "nat \<Rightarrow> (nat \<Rightarrow> string \<times> string) \<Rightarrow> nat \<Rightarrow> string list \<Rightarrow> string list" where
  "write_pairs b f n argv = fold (\<lambda>ii a. a[2 * ii + b := fst (f ii), 2 * ii + b + 1 := snd (f ii)]) [0..<n] argv"

definition batch_argv :: "RedisChainConfiguration \<Rightarrow> string \<Rightarrow> 'd ChainItem \<Rightarrow> 'd ChainItem list \<Rightarrow> string list
    \<Rightarrow> string list" where
  "batch_argv cfg luaStr current toBeWritten newDatas =
     (let newItemCount = length toBeWritten;
          newDataKeys = map (\<lambda>x. dataKey cfg (itemId x)) toBeWritten;
          newChainKeys = map (\<lambda>x. chainKey cfg (itemId x)) toBeWritten;
          argvCount = 2 * (2 * newItemCount + 1) + 3;
          argv0 = (replicate argvCount '''')[0 := ''EVAL'', 1 := luaStr, 2 := show_nat (2 * newItemCount + 1),
                    3 := chainKey cfg (itemId current)];
          argv1 = write_pairs 4 (\<lambda>ii. (newDataKeys ! ii, newChainKeys ! ii)) newItemCount argv0;
          argv2 = argv1[2 * newItemCount + 4 := itemId (toBeWritten ! 0)] in
      write_pairs (2 * newItemCount + 5) (\<lambda>ii. (newDatas ! ii, nextID (toBeWritten ! ii))) newItemCount argv2)"

text \<open>\<open>EVAL script numkeys key... arg...\<close>\<close>

definition eval_argv :: "(string list \<Rightarrow> string list \<Rightarrow> 's \<Rightarrow> reply \<times> 's) \<Rightarrow> nat \<Rightarrow> string list \<Rightarrow> 's \<Rightarrow> reply \<times> 's" where
  "eval_argv script numkeys argv = script (take numkeys (drop 3 argv)) (drop (3 + numkeys) argv)"

text \<open>\<open>*(x.data)\<close> for every item: undefined when one has no data.\<close>

fun all_data :: "'d ChainItem list \<Rightarrow> 'd list option" where
  "all_data [] = Some []"
| "all_data (x # xs) =
     (case data x of None \<Rightarrow> None | Some d \<Rightarrow> map_option (Cons d) (all_data xs))"

definition appendAfterAll :: "'s redis \<Rightarrow> RedisChainConfiguration \<Rightarrow> ByteDataHookPair option \<Rightarrow> 'd serializer
    \<Rightarrow> string \<Rightarrow> 'd ChainItem \<Rightarrow> 'd ChainItem list \<Rightarrow> ('s, redis_error, bool) call" where
  "appendAfterAll r cfg hp c luaStr current toBeWritten s =
     (if toBeWritten = [] then (Inr True, s)
      else if length toBeWritten = 1 then appendAfter r cfg hp c current (toBeWritten ! 0) s
      else if nextID current \<noteq> '''' then (Inr False, s)
      else if data (toBeWritten ! 0) = None then
        (Inl (RedisChainException ''appendAfter: Cannot append a new first item whose data is empty''), s)
      else if nextID (last toBeWritten) \<noteq> '''' then
        (Inl (RedisChainException ''appendAfter: Cannot append a new last item whose nextID is already non-empty''), s)
      else (case all_data toBeWritten of
          None \<Rightarrow> (Inl UndefinedBehaviour, s)
        | Some ds \<Rightarrow>
            (let n = length toBeWritten;
                 argv = batch_argv cfg luaStr current toBeWritten (map (hook_serialize hp c) ds) in
             read_verdict (RedisChainException (''appendAfter: Redis chain compare set error for ''
                 @ chainKey cfg (itemId current) @ '','' @ dataKey cfg (itemId (toBeWritten ! 0)) @ '',''
                 @ chainKey cfg (itemId (toBeWritten ! 0))))
               (send r (eval_argv (batch_script r n) (2 * n + 1) argv) s))))"

text \<open>Extra data lives under its own prefix; a failure of \<open>saveExtraData\<close> is not noticed.\<close>

definition SET :: "'s redis \<Rightarrow> string \<Rightarrow> string \<Rightarrow> 's \<Rightarrow> reply \<times> 's" where
  "SET r k v s = (ReplyStatus ''OK'', put r k v s)"

definition saveExtraData :: "'s redis \<Rightarrow> RedisChainConfiguration \<Rightarrow> ByteDataHookPair option \<Rightarrow> 'x serializer
    \<Rightarrow> string \<Rightarrow> 'x \<Rightarrow> 's \<Rightarrow> 's" where
  "saveExtraData r cfg hp cx key x s =
     snd (send r (SET r (c_str (extraDataKey cfg key)) (hook_serialize hp cx x)) s)"

definition loadExtraData :: "'s redis \<Rightarrow> RedisChainConfiguration \<Rightarrow> ByteDataHookPair option \<Rightarrow> 'x serializer
    \<Rightarrow> string \<Rightarrow> 's \<Rightarrow> 'x option \<times> 's" where
  "loadExtraData r cfg hp cx key s =
     (case send r (GET r (c_str (extraDataKey cfg key))) s of
        (Some (ReplyString v), s') \<Rightarrow> (hook_parse hp cx v, s')
      | (_, s') \<Rightarrow> (None, s'))"

definition formChainItem :: "string \<Rightarrow> 'd \<Rightarrow> 'd ChainItem" where
  "formChainItem i d = \<lparr>itemId = i, data = Some d, nextID = ''''\<rparr>"

text \<open>The loop of \<open>formChainItems\<close>: each new identifier becomes the \<open>nextID\<close> of the item before it.\<close>

definition push_item :: "'d ChainItem list \<Rightarrow> string \<times> 'd \<Rightarrow> 'd ChainItem list" where
  "push_item ret x =
     (if ret = [] then ret else ret[length ret - 1 := (last ret)\<lparr>nextID := fst x\<rparr>])
     @ [formChainItem (fst x) (snd x)]"

definition formChainItems :: "(string \<times> 'd) list \<Rightarrow> 'd ChainItem list" where
  "formChainItems ds = foldl push_item [] ds"

definition extractStorageID :: "'d ChainItem \<Rightarrow> string" where
  "extractStorageID p = itemId p"

definition extractData :: "'d ChainItem \<Rightarrow> 'd option" where
  "extractData p = data p"

section \<open>The items of a chain\<close>

definition item_place :: "RedisChainConfiguration \<Rightarrow> 'd entry list \<Rightarrow> nat \<Rightarrow> 'd ChainItem \<Rightarrow> bool" where
  "item_place cfg xs n i \<longleftrightarrow> n \<le> length xs \<and> itemId i = chain_ids cfg xs ! n \<and>
     (nextID i = '''' \<or> n < length xs \<and> nextID i = fst (xs ! n))"

definition item_content :: "'d ChainItem \<Rightarrow> 'd entry option" where
  "item_content i = map_option (Pair (itemId i)) (data i)"

text \<open>The default prefixes qualify.\<close>

lemma default_good: "good_configuration defaultConfiguration"
  by code_simp

lemma item_place_extend: "item_place cfg xs n i \<Longrightarrow> item_place cfg (xs @ ys) n i"
  by (auto simp: item_place_def chain_ids_append nth_append)

section \<open>What the batch script is given and does\<close>

text \<open>The items \<open>formChainItems\<close> makes: each is linked to the next one.\<close>

fun items_of :: "'d entry list \<Rightarrow> 'd ChainItem list" where
  "items_of [] = []"
| "items_of ((i, d) # ds) =
     \<lparr>itemId = i, data = Some d, nextID = (case ds of [] \<Rightarrow> '''' | e # es \<Rightarrow> fst e)\<rparr> # items_of ds"

lemma push_items: "foldl push_item (ret @ [formChainItem i d]) ds = ret @ items_of ((i, d) # ds)"
proof (induction ds arbitrary: ret i d)
  case (Cons e ds)
  obtain j x where e: "e = (j, x)" by (cases e)
  have "foldl push_item (ret @ [formChainItem i d]) (e # ds) =
      foldl push_item ((ret @ [\<lparr>itemId = i, data = Some d, nextID = j\<rparr>]) @ [formChainItem j x]) ds"
    by (simp add: e push_item_def formChainItem_def)
  also have "\<dots> = (ret @ [\<lparr>itemId = i, data = Some d, nextID = j\<rparr>]) @ items_of ((j, x) # ds)"
    by (rule Cons.IH)
  finally show ?case by (simp add: e)
qed (simp add: formChainItem_def)

lemma formChainItems_items: "formChainItems ds = items_of ds"
proof (cases ds)
  case (Cons e es)
  then show ?thesis
    using push_items [of "[]" "fst e" "snd e" es] by (simp add: formChainItems_def push_item_def)
qed (simp add: formChainItems_def)

lemma length_items [simp]: "length (items_of ds) = length ds"
  by (induction ds rule: items_of.induct) auto

lemma items_Nil [simp]: "items_of ds = [] \<longleftrightarrow> ds = []"
  by (cases ds rule: items_of.cases) simp_all

lemma itemId_items [simp]: "map itemId (items_of ds) = map fst ds"
  by (induction ds rule: items_of.induct) auto

lemma all_data_items [simp]: "all_data (items_of ds) = Some (map snd ds)"
  by (induction ds rule: items_of.induct) auto

lemma last_items: "ds \<noteq> [] \<Longrightarrow> nextID (last (items_of ds)) = ''''"
proof (induction ds rule: items_of.induct)
  case (2 i d ds)
  then show ?case by (cases ds) auto
qed simp

lemma items_nth: "ii < length ds \<Longrightarrow> itemId (items_of ds ! ii) = fst (ds ! ii) \<and> data (items_of ds ! ii) = Some (snd (ds ! ii))"
proof (induction ds arbitrary: ii rule: items_of.induct)
  case (2 i d ds)
  then show ?case by (cases ii) auto
qed simp

lemma length_concat_pairs [simp]: "length (concat (map (\<lambda>ii. [f ii, g ii]) [0..<n])) = 2 * n"
  by (induction n) auto

lemma concat_pairs_nth:
  "ii < n \<Longrightarrow> concat (map (\<lambda>ii. [f ii, g ii]) [0..<n]) ! (2 * ii) = f ii \<and>
    concat (map (\<lambda>ii. [f ii, g ii]) [0..<n]) ! Suc (2 * ii) = g ii"
proof (induction n)
  case (Suc n)
  then show ?case
    by (cases "ii = n") (auto simp: nth_append)
qed simp

lemma write_pairs_eq:
  assumes "b + 2 * n \<le> length a"
  shows "write_pairs b f n a = take b a @ concat (map (\<lambda>ii. [fst (f ii), snd (f ii)]) [0..<n]) @ drop (b + 2 * n) a"
  using assms
proof (induction n)
  case 0
  then show ?case by (simp add: write_pairs_def)
next
  case (Suc n)
  let ?c = "concat (map (\<lambda>ii. [fst (f ii), snd (f ii)]) [0..<n])"
  have "write_pairs b f (Suc n) a =
      (write_pairs b f n a)[2 * n + b := fst (f n), 2 * n + b + 1 := snd (f n)]"
    by (simp add: write_pairs_def)
  also have "\<dots> = (take b a @ ?c @ drop (b + 2 * n) a)[2 * n + b := fst (f n), 2 * n + b + 1 := snd (f n)]"
    using Suc by simp
  also have "drop (b + 2 * n) a = a ! (b + 2 * n) # a ! (b + 2 * n + 1) # drop (b + 2 * Suc n) a"
    using Suc.prems by (simp add: Cons_nth_drop_Suc)
  finally show ?case
    using Suc.prems by (simp add: list_update_append)
qed

lemma batch_argv_eq:
  assumes "length newDatas = length items" "items \<noteq> []"
  shows "batch_argv cfg lua current items newDatas =
    [''EVAL'', lua, show_nat (2 * length items + 1), chainKey cfg (itemId current)] @
    concat (map (\<lambda>ii. [dataKey cfg (itemId (items ! ii)), chainKey cfg (itemId (items ! ii))]) [0..<length items]) @
    itemId (items ! 0) # concat (map (\<lambda>ii. [newDatas ! ii, nextID (items ! ii)]) [0..<length items])"
proof -
  let ?n = "length items"
  define R :: "string list" where "R = replicate (2 * ?n) ''''"
  have R: "length R = 2 * ?n" by (simp add: R_def)
  have "2 * (2 * ?n + 1) + 3 = 4 + (2 * ?n + (1 + 2 * ?n))" by simp
  then have count: "replicate (2 * (2 * ?n + 1) + 3) '''' = ['''', '''', '''', ''''] @ R @ '''' # R"
    by (simp only: replicate_add) (simp add: R_def numeral_eq_Suc)
  have m: "map (\<lambda>ii. [map (\<lambda>x. dataKey cfg (itemId x)) items ! ii, map (\<lambda>x. chainKey cfg (itemId x)) items ! ii]) [0..<?n] =
      map (\<lambda>ii. [dataKey cfg (itemId (items ! ii)), chainKey cfg (itemId (items ! ii))]) [0..<?n]"
    by simp
  show ?thesis
    unfolding batch_argv_def Let_def count
    by (simp add: write_pairs_eq m R list_update_append numeral_eq_Suc del: upt_Suc)
qed

text \<open>The script's test and its writes in terms of the entries.\<close>

lemma lua_nth_2: "lua_nth (k # concat (map (\<lambda>ii. [f ii, g ii]) [0..<n])) ((ii + 1) * 2) =
      concat (map (\<lambda>ii. [f ii, g ii]) [0..<n]) ! (2 * ii)"
    "lua_nth (k # concat (map (\<lambda>ii. [f ii, g ii]) [0..<n])) ((ii + 1) * 2 + 1) =
      concat (map (\<lambda>ii. [f ii, g ii]) [0..<n]) ! Suc (2 * ii)"
  by (simp_all add: lua_nth_def mult.commute)

lemma batch_script_entries:
  fixes r :: "'s redis"
  assumes "ds \<noteq> []" and items: "items = items_of ds"
  shows "eval_argv (batch_script r (length items)) (2 * length items + 1)
      (batch_argv cfg lua current items (map ser (map snd ds))) s =
    (if store r s (chainKey cfg (itemId current)) = Some '''' \<and>
        (\<forall>i \<in> fst ` set ds. store r s (dataKey cfg i) = None \<and> store r s (chainKey cfg i) = None)
     then (ReplyInteger 1,
       fold (\<lambda>(x, v) s. put r (chainKey cfg (itemId x)) (nextID x) (put r (dataKey cfg (itemId x)) v s))
         (zip items (map ser (map snd ds))) (put r (chainKey cfg (itemId current)) (fst (hd ds)) s))
     else (ReplyInteger 0, s))"
proof -
  let ?n = "length items" and ?nd = "map ser (map snd ds)"
  let ?K = "concat (map (\<lambda>ii. [dataKey cfg (itemId (items ! ii)), chainKey cfg (itemId (items ! ii))]) [0..<?n])"
  let ?A = "concat (map (\<lambda>ii. [?nd ! ii, nextID (items ! ii)]) [0..<?n])"
  have n: "length ?nd = length items" "items \<noteq> []" "?n = length ds"
    using assms by simp_all
  have first: "itemId (items ! 0) = fst (hd ds)"
    using items_nth [of 0 ds] assms by (simp add: hd_conv_nth)
  have split: "take (2 * ?n + 1) (drop 3 (batch_argv cfg lua current items ?nd)) = chainKey cfg (itemId current) # ?K"
    "drop (3 + (2 * ?n + 1)) (batch_argv cfg lua current items ?nd) = itemId (items ! 0) # ?A"
    unfolding batch_argv_eq [OF n(1,2)] by (simp_all add: numeral_eq_Suc)
  have K: "lua_nth (k # ?K) ((ii + 1) * 2) = dataKey cfg (itemId (items ! ii))"
    "lua_nth (k # ?K) ((ii + 1) * 2 + 1) = chainKey cfg (itemId (items ! ii))" if "ii < ?n" for ii k
    unfolding lua_nth_2 using concat_pairs_nth [OF that, of "\<lambda>ii. dataKey cfg (itemId (items ! ii))"
      "\<lambda>ii. chainKey cfg (itemId (items ! ii))"] by simp_all
  have A: "lua_nth (k # ?A) ((ii + 1) * 2) = ?nd ! ii"
    "lua_nth (k # ?A) ((ii + 1) * 2 + 1) = nextID (items ! ii)" if "ii < ?n" for ii k
    unfolding lua_nth_2 using concat_pairs_nth [OF that, of "\<lambda>ii. ?nd ! ii" "\<lambda>ii. nextID (items ! ii)"]
    by simp_all
  let ?w = "\<lambda>(x, v) s. put r (chainKey cfg (itemId x)) (nextID x) (put r (dataKey cfg (itemId x)) v s)"
  have test: "list_all (\<lambda>ii. store r s (lua_nth (k # ?K) ((ii + 1) * 2)) = None \<and>
        store r s (lua_nth (k # ?K) ((ii + 1) * 2 + 1)) = None) [0..<?n] \<longleftrightarrow>
      (\<forall>i \<in> fst ` set ds. store r s (dataKey cfg i) = None \<and> store r s (chainKey cfg i) = None)" for k
  proof -
    have "list_all (\<lambda>ii. store r s (lua_nth (k # ?K) ((ii + 1) * 2)) = None \<and>
        store r s (lua_nth (k # ?K) ((ii + 1) * 2 + 1)) = None) [0..<?n] \<longleftrightarrow>
      (\<forall>ii \<in> set [0..<?n]. store r s (dataKey cfg (itemId (items ! ii))) = None \<and>
        store r s (chainKey cfg (itemId (items ! ii))) = None)"
      unfolding list_all_iff by (intro ball_cong refl) (simp only: set_upt atLeastLessThan_iff K)
    also have "\<dots> \<longleftrightarrow> (\<forall>i \<in> fst ` set ds. store r s (dataKey cfg i) = None \<and> store r s (chainKey cfg i) = None)"
      by (auto simp: n(3) items items_nth all_set_conv_all_nth)
    finally show ?thesis .
  qed
  have writes: "fold (\<lambda>ii s. put r (lua_nth (k # ?K) ((ii + 1) * 2 + 1)) (lua_nth (k' # ?A) ((ii + 1) * 2 + 1))
       (put r (lua_nth (k # ?K) ((ii + 1) * 2)) (lua_nth (k' # ?A) ((ii + 1) * 2)) s)) [0..<?n] =
     fold ?w (zip items ?nd)" for k k'
  proof -
    have "fold (\<lambda>ii s. put r (lua_nth (k # ?K) ((ii + 1) * 2 + 1)) (lua_nth (k' # ?A) ((ii + 1) * 2 + 1))
       (put r (lua_nth (k # ?K) ((ii + 1) * 2)) (lua_nth (k' # ?A) ((ii + 1) * 2)) s)) [0..<?n] =
      fold (\<lambda>ii. ?w (zip items ?nd ! ii)) [0..<length (zip items ?nd)]"
    proof (intro ext fold_cong refl)
      fix ii and t :: 's
      assume "ii \<in> set [0..<?n]"
      then have ii: "ii < ?n" by simp
      then have "zip items ?nd ! ii = (items ! ii, ?nd ! ii)" using n(1) by simp
      then show "put r (lua_nth (k # ?K) ((ii + 1) * 2 + 1)) (lua_nth (k' # ?A) ((ii + 1) * 2 + 1))
        (put r (lua_nth (k # ?K) ((ii + 1) * 2)) (lua_nth (k' # ?A) ((ii + 1) * 2)) t) = ?w (zip items ?nd ! ii) t"
        unfolding K [OF ii] A [OF ii] by simp
    qed (use n(1) in simp)
    then show ?thesis by (simp only: fold_nth)
  qed
  show ?thesis
    unfolding eval_argv_def split batch_script_def test writes
    by (simp add: lua_nth_def first)
qed

section \<open>The server\<close>

text \<open>
  What is relied on of Redis and hiredis: \<open>SET\<close> then \<open>GET\<close>; a command (or script) runs atomically on
  some state \<open>s1\<close> that the other clients have left; a null reply may come before or after it ran.
  \<open>rely\<close> bounds what the others do.
\<close>

locale redis_server =
  fixes r :: "'s redis"
    and rely :: "(string \<Rightarrow> string option) \<Rightarrow> (string \<Rightarrow> string option) \<Rightarrow> bool"
  assumes store_put: "store r (put r k v s) = (store r s)(k \<mapsto> v)"
    and send_cases: "\<exists>s1. rely (store r s) (store r s1) \<and>
      send r cmd s \<in> {(None, s1), (None, snd (cmd s1)), (Some (fst (cmd s1)), snd (cmd s1))}"

locale answering_server = redis_server +
  assumes send_answers: "\<exists>rep s'. send r cmd s = (Some rep, s')"
begin

lemma send_Some: "\<exists>s1. rely (store r s) (store r s1) \<and> send r cmd s = (Some (fst (cmd s1)), snd (cmd s1))"
  using send_cases [of s cmd] send_answers [of cmd s] by auto

end

locale redis_chain = redis_server r "chain_grows cfg (hook_parse hp c)" + hooked c hp
  for r :: "'s redis" and cfg :: RedisChainConfiguration and hp :: "ByteDataHookPair option" and c :: "'d serializer" +
  assumes good_cfg: "good_configuration cfg"
begin

abbreviation holds :: "'s \<Rightarrow> 'd entry list \<Rightarrow> bool" where
  "holds s xs \<equiv> kv_chain cfg (hook_parse hp c) (store r s) xs"

text \<open>After a command that does not write, the chain is an extension and the reply is read off its state.\<close>

lemma send_grown:
  assumes "holds s xs" "send r cmd s = (o', s')"
  obtains ys s1 where "holds s1 (xs @ ys)" "s' = s1 \<or> s' = snd (cmd s1)"
    "\<And>x. o' = Some x \<Longrightarrow> x = fst (cmd s1) \<and> s' = snd (cmd s1)"
  using assms send_cases [of s cmd] unfolding chain_grows_def by force

lemmas nul_free_keys = good_keys_nul_free [OF good_cfg]

lemma get_string_grown:
  assumes "holds s xs" "nul_free k" "get_string r msg k s = (res, s')"
  shows "\<exists>ys. holds s' (xs @ ys) \<and> (\<forall>v. res = Inr v \<longrightarrow> store r s' k = Some v)"
proof -
  obtain o' t where o': "send r (GET r k) s = (o', t)" by (cases "send r (GET r k) s")
  then have "t = s'" using assms(2,3) by (auto simp: get_string_def split: option.splits reply.splits)
  with o' assms(1) obtain ys s1 where *: "holds s1 (xs @ ys)" "s' = s1 \<or> s' = snd (GET r k s1)"
    "\<And>x. o' = Some x \<Longrightarrow> x = fst (GET r k s1) \<and> s' = snd (GET r k s1)"
    by (metis send_grown)
  then have "s' = s1" by (auto simp: GET_def)
  moreover have "store r s1 k = Some v" if "res = Inr v" for v
    using assms(2,3) o' * that by (auto simp: get_string_def GET_def split: option.splits reply.splits)
  ultimately show ?thesis using * by auto
qed

lemma load_item_grown:
  assumes xs: "holds s xs" "n < length xs" and load: "load_item r cfg hp c msg (fst (xs ! n)) s = (res, s')"
  shows "\<exists>ys. holds s' (xs @ ys) \<and>
    (\<forall>j. res = Inr j \<longrightarrow> item_place cfg (xs @ ys) (Suc n) j \<and> item_content j = Some (xs ! n))"
proof -
  let ?i = "fst (xs ! n)"
  have id: "chain_ids cfg (xs @ ys) ! Suc n = ?i" for ys
    using xs(2) by (simp add: chain_ids_def nth_append)
  have nf: "nul_free (dataKey cfg ?i)" "nul_free (chainKey cfg ?i)"
    using id_nul_free [OF xs(1), of "Suc n"] xs(2) id [of "[]"] nul_free_keys by auto
  from load [unfolded load_item_def] show ?thesis
  proof (cases rule: bindS_cases)
    case (throw e)
    then show ?thesis using get_string_grown [OF xs(1) nf(1)] by blast
  next
    case (go d t)
    from get_string_grown [OF xs(1) nf(1) go(1)] obtain ys where ys: "holds t (xs @ ys)" "store r t (dataKey cfg ?i) = Some d"
      by blast
    have d: "hook_parse hp c d = Some (snd (xs ! n))"
      using data_of [OF ys(1), of n] xs(2) ys(2) by (simp add: nth_append)
    from go(2) show ?thesis
    proof (cases rule: bindS_cases)
      case (throw e)
      then show ?thesis using get_string_grown [OF ys(1) nf(2)] by fastforce
    next
      case (go m u)
      from get_string_grown [OF ys(1) nf(2) go(1)] obtain zs where zs: "holds u (xs @ ys @ zs)" "store r u (chainKey cfg ?i) = Some m"
        by auto
      have "Suc n \<le> length (xs @ ys @ zs)" using xs(2) by simp
      from link_of [OF zs(1) this] have m: "m = (if Suc n < length (xs @ ys @ zs) then fst ((xs @ ys @ zs) ! Suc n) else '''')"
        using zs(2) id by simp
      have "holds s' (xs @ ys @ zs)" "\<forall>j. res = Inr j \<longrightarrow> j = \<lparr>itemId = ?i, data = Some (snd (xs ! n)), nextID = m\<rparr>"
        using go(2) zs(1) d by (auto simp: returnS_def)
      then show ?thesis
        using m xs(2) id by (intro exI [of _ "ys @ zs"]) (auto simp: item_place_def item_content_def split: if_splits)
    qed
  qed
qed

lemma fetch_grown:
  assumes xs: "holds s xs" "item_place cfg xs n i" and fetch: "fetchNext r cfg hp c i s = (res, s')"
  shows "\<exists>ys. holds s' (xs @ ys) \<and> (res = Inr None \<longrightarrow> n = length xs) \<and>
    (\<forall>j. res = Inr (Some j) \<longrightarrow> n < length (xs @ ys) \<and> item_place cfg (xs @ ys) (Suc n) j \<and>
      item_content j = Some ((xs @ ys) ! n))"
proof -
  have n: "n \<le> length xs" "itemId i = chain_ids cfg xs ! n"
    using xs(2) by (auto simp: item_place_def)
  have id: "itemId i = chain_ids cfg (xs @ ys) ! n" for ys
    using n by (simp add: chain_ids_append nth_append)
  let ?link = "if nextID i = '''' then get_string r ''fetchNext: Redis chain fetch error for '' (chainKey cfg (itemId i))
      else returnS (nextID i)"
  have link: "\<exists>ys. holds t (xs @ ys) \<and> (\<forall>l. o' = Inr l \<longrightarrow>
      l = (if n < length (xs @ ys) then fst ((xs @ ys) ! n) else ''''))" if "?link s = (o', t)" for o' t
  proof (cases "nextID i = ''''")
    case True
    then have gs: "get_string r ''fetchNext: Redis chain fetch error for '' (chainKey cfg (itemId i)) s = (o', t)"
      using that by simp
    have nf: "nul_free (chainKey cfg (itemId i))"
      using id_nul_free [OF xs(1) n(1)] n(2) nul_free_keys by simp
    from get_string_grown [OF xs(1) nf gs] obtain ys where ys: "holds t (xs @ ys)" "\<forall>v. o' = Inr v \<longrightarrow> store r t (chainKey cfg (itemId i)) = Some v" by blast
    have "n \<le> length (xs @ ys)" using n(1) by simp
    from link_of [OF ys(1) this] show ?thesis
      using ys id [of ys] by (intro exI [of _ ys]) auto
  next
    case False
    then show ?thesis
      using that xs by (intro exI [of _ "[]"]) (auto simp: returnS_def item_place_def)
  qed
  have "fst ((xs @ ys) ! n) \<noteq> ''''" if "holds t (xs @ ys)" "n < length (xs @ ys)" for ys t
    using that(1) nth_mem [OF that(2)] unfolding kv_chain_def by blast
  note nonempty = this
  from fetch [unfolded fetchNext_def Let_def] show ?thesis
  proof (cases rule: bindS_cases)
    case (throw e)
    then show ?thesis using link by blast
  next
    case (go l t)
    from link [OF go(1)] obtain ys where ys: "holds t (xs @ ys)" "l = (if n < length (xs @ ys) then fst ((xs @ ys) ! n) else '''')"
      by blast
    show ?thesis
    proof (cases "n < length (xs @ ys)")
      case False
      then have "n = length xs" "res = Inr None" "s' = t"
        using go(2) ys(2) n(1) by (auto simp: returnS_def)
      then show ?thesis using ys(1) by (intro exI [of _ ys]) simp
    next
      case True
      with go(2) ys nonempty have "bindS (load_item r cfg hp c ''fetchNext: Redis chain fetch error for '' (fst ((xs @ ys) ! n)))
          (\<lambda>item. returnS (Some item)) t = (res, s')" by simp
      then show ?thesis
      proof (cases rule: bindS_cases)
        case (throw e)
        then show ?thesis using load_item_grown [OF ys(1) True] by (auto, metis append_assoc)
      next
        case (go j u)
        from load_item_grown [OF ys(1) True go(1)] obtain zs where zs: "holds u ((xs @ ys) @ zs)"
          "item_place cfg ((xs @ ys) @ zs) (Suc n) j" "item_content j = Some ((xs @ ys) ! n)" by blast
        then show ?thesis
          using go(2) True by (intro exI [of _ "ys @ zs"]) (auto simp: returnS_def nth_append)
      qed
    qed
  qed
qed

end

context redis_chain
begin

lemma store_fold:
  "store r (fold (\<lambda>(x, v) s. put r (chainKey cfg (itemId x)) (nextID x) (put r (dataKey cfg (itemId x)) v s))
     (zip (items_of ds) (map ser (map snd ds))) s) = kv_links cfg ser ds (store r s)"
  by (induction ds arbitrary: s rule: items_of.induct) (simp_all add: store_put)

text \<open>
  \<open>writes cmd zs ds n\<close>: the command adds the whole of \<open>ds\<close> to the chain \<open>zs\<close> when the item it appends to is the last one and
  no identifier is taken, and otherwise changes nothing and answers 0.
\<close>

definition writes :: "('s \<Rightarrow> reply \<times> 's) \<Rightarrow> 's \<Rightarrow> 'd entry list \<Rightarrow> 'd entry list \<Rightarrow> nat \<Rightarrow> bool" where
  "writes cmd s1 zs ds n \<longleftrightarrow>
     (if n = length zs \<and> fst ` set ds \<inter> fst ` set zs = {}
      then fst (cmd s1) = ReplyInteger 1 \<and> holds (snd (cmd s1)) (zs @ ds) \<and>
        store r (snd (cmd s1)) = kv_appends cfg (hook_serialize hp c) (chain_ids cfg zs ! n) ds (store r s1)
      else cmd s1 = (ReplyInteger 0, s1))"

text \<open>Both scripts write so.\<close>

lemma single_writes:
  assumes zs: "holds s1 zs" "n \<le> length zs" "can_write cfg [(i, d)]"
  shows "writes (append_script r (chainKey cfg (chain_ids cfg zs ! n)) (dataKey cfg i) (chainKey cfg i) i (hook_serialize hp c d))
    s1 zs [(i, d)] n"
proof -
  have "kv_chain cfg (hook_parse hp c) (kv_append cfg (chain_ids cfg zs ! length zs) (i, hook_serialize hp c d) (store r s1)) (zs @ [(i, d)])"
    if "i \<notin> fst ` set zs"
    using that zs(3) ids_apart [OF zs(3), of zs]
    by (intro kv_chain_append [OF good_cfg zs(1) hook_roundtrip]) (auto simp: can_write_def)
  then show ?thesis
    using test_fresh [OF zs]
    by (auto simp: writes_def append_script_def store_put kv_append_def)
qed

lemma batch_writes:
  assumes zs: "holds s1 zs" "n \<le> length zs" "can_write cfg ds" and ds: "ds \<noteq> []" and cur: "itemId cur = chain_ids cfg zs ! n"
  shows "writes (eval_argv (batch_script r (length (items_of ds))) (2 * length (items_of ds) + 1)
      (batch_argv cfg lua cur (items_of ds) (map (hook_serialize hp c) (map snd ds)))) s1 zs ds n"
proof -
  have "store r (fold (\<lambda>(x, v) s. put r (chainKey cfg (itemId x)) (nextID x) (put r (dataKey cfg (itemId x)) v s))
      (zip (items_of ds) (map (hook_serialize hp c) (map snd ds))) (put r (chainKey cfg (chain_ids cfg zs ! length zs)) (fst (hd ds)) s1)) =
      kv_appends cfg (hook_serialize hp c) (chain_ids cfg zs ! length zs) ds (store r s1)"
    unfolding store_fold store_put by (rule kv_links_appends [OF ds])
  moreover have "kv_chain cfg (hook_parse hp c) (kv_appends cfg (hook_serialize hp c) (chain_ids cfg zs ! length zs) ds (store r s1)) (zs @ ds)"
    if "fst ` set ds \<inter> fst ` set zs = {}"
    by (rule kv_chain_appends [OF good_cfg hook_roundtrip zs(1,3) ids_apart [OF zs(3) that]])
  ultimately show ?thesis
    using test_fresh [OF zs] unfolding writes_def batch_script_entries [OF ds refl] cur by (auto simp del: map_map)
qed

lemma verdict_rep:
  assumes xs: "holds s xs" and n: "n \<le> length xs"
    and w: "\<And>s1 ys. holds s1 (xs @ ys) \<Longrightarrow> writes cmd s1 (xs @ ys) ds n"
    and v: "read_verdict e (send r cmd s) = (b, s')"
  shows "\<exists>ys. (b = Inr True \<longrightarrow> n = length (xs @ ys) \<and> holds s' (xs @ ys @ ds)) \<and>
        (b = Inr False \<longrightarrow> holds s' (xs @ ys) \<and>
          (n < length (xs @ ys) \<or> set (map fst ds) \<inter> set (map fst (xs @ ys)) \<noteq> {})) \<and>
        (\<forall>e. b = Inl e \<longrightarrow> holds s' (xs @ ys))"
proof -
  obtain o' t where o': "send r cmd s = (o', t)" by (cases "send r cmd s")
  then have "t = s'" using v by (auto simp: read_verdict_def split: option.splits reply.splits)
  with o' xs obtain ys s1 where *: "holds s1 (xs @ ys)" "s' = s1 \<or> s' = snd (cmd s1)"
    "\<And>x. o' = Some x \<Longrightarrow> x = fst (cmd s1) \<and> s' = snd (cmd s1)"
    by (metis send_grown)
  note wr = w [OF *(1), unfolded writes_def]
  show ?thesis
  proof (cases "n = length (xs @ ys) \<and> fst ` set ds \<inter> fst ` set (xs @ ys) = {}")
    case True
    have dn: "fst (cmd s1) = ReplyInteger 1" "holds (snd (cmd s1)) (xs @ ys @ ds)"
      using wr [unfolded if_P [OF True] append_assoc] by blast+
    show ?thesis
    proof (cases o')
      case None
      then have b: "b = Inl e" using v o' by (simp add: read_verdict_def)
      from *(2) show ?thesis
      proof
        assume "s' = s1"
        then show ?thesis using b *(1) by (intro exI [of _ ys]) simp
      next
        assume "s' = snd (cmd s1)"
        then show ?thesis using b dn by (intro exI [of _ "ys @ ds"]) simp
      qed
    next
      case (Some x)
      then have "b = Inr True" "s' = snd (cmd s1)"
        using v o' *(3) [OF Some] dn(1) by (auto simp: read_verdict_def)
      then show ?thesis using True dn by (intro exI [of _ ys]) auto
    qed
  next
    case False
    with wr have no: "cmd s1 = (ReplyInteger 0, s1)" by (simp only: if_False)
    then have "s' = s1" "b \<noteq> Inr True"
      using *(2,3) v o' by (auto simp: read_verdict_def split: option.splits)
    then show ?thesis
      using False *(1) n by (intro exI [of _ ys]) auto
  qed
qed

end

section \<open>The chain interface\<close>

text \<open>
  The interface's state is the process's static variable with the server; \<open>lift\<close> runs a call that does not use
  the former. \<open>write_items\<close> is \<open>formChainItems\<close> followed by the vector form of \<open>appendAfter\<close>.
\<close>

definition on_server :: "('s, 'e, 'a) call \<Rightarrow> (string option \<times> 's, 'e, 'a) call" where
  "on_server m = (\<lambda>(static, s). case m s of (a, s') \<Rightarrow> (a, (static, s')))"

definition write_items :: "'s redis \<Rightarrow> RedisChainConfiguration \<Rightarrow> ByteDataHookPair option \<Rightarrow> 'd serializer
    \<Rightarrow> string \<Rightarrow> 'd ChainItem \<Rightarrow> 'd entry list \<Rightarrow> ('s, redis_error, bool) call" where
  "write_items r cfg hp c lua i ds = appendAfterAll r cfg hp c lua i (formChainItems ds)"

definition process_holds :: "'s redis \<Rightarrow> RedisChainConfiguration \<Rightarrow> ByteDataHookPair option \<Rightarrow> 'd serializer
    \<Rightarrow> string option \<times> 's \<Rightarrow> 'd entry list \<Rightarrow> bool" where
  "process_holds r cfg hp c p xs \<longleftrightarrow> kv_chain cfg (hook_parse hp c) (store r (snd p)) xs \<and>
     fst p \<in> {None, Some (chainKey cfg (headKey cfg))}"

lemma on_server_eq: "on_server m (static, s) = (a, p) \<longleftrightarrow> (\<exists>s'. m s = (a, s') \<and> p = (static, s'))"
  by (auto simp: on_server_def split: prod.splits)

context redis_chain
begin

text \<open>\<open>write_items\<close> sends at most one command, and that one writes all entries or none.\<close>

lemma write_items_command:
  assumes xs: "holds s xs" "item_place cfg xs n i" and ds: "can_write cfg ds" "ds \<noteq> []"
  obtains (refused) "n < length xs" "write_items r cfg hp c lua i ds s = (Inr False, s)"
    | (sent) cmd e where "write_items r cfg hp c lua i ds s = read_verdict e (send r cmd s)"
        "\<And>s1 ys. holds s1 (xs @ ys) \<Longrightarrow> writes cmd s1 (xs @ ys) ds n"
proof -
  have n: "n \<le> length xs" "itemId i = chain_ids cfg xs ! n"
    using xs(2) by (auto simp: item_place_def)
  have id: "itemId i = chain_ids cfg (xs @ ys) ! n" for ys
    using n by (simp add: chain_ids_append nth_append)
  consider (linked) "nextID i \<noteq> ''''" | (single) j d where "nextID i = ''''" "ds = [(j, d)]" | (batch) "nextID i = ''''" "length ds \<noteq> 1"
    by (cases "length ds = 1") (auto simp: length_Suc_conv)
  then show thesis
  proof cases
    case linked
    then have "n < length xs" using xs(2) by (simp add: item_place_def)
    moreover have "write_items r cfg hp c lua i ds s = (Inr False, s)"
      using linked ds(2) by (auto simp: write_items_def appendAfterAll_def formChainItems_items appendAfter_def)
    ultimately show thesis by (rule refused)
  next
    case single
    have keys: "nul_free (chainKey cfg (itemId i))" "nul_free (dataKey cfg j)" "nul_free (chainKey cfg j)" "nul_free j"
      using id_nul_free [OF xs(1) n(1)] n(2) nul_free_keys ds(1) by (auto simp: single can_write_def)
    let ?cmd = "append_script r (chainKey cfg (itemId i)) (dataKey cfg j) (chainKey cfg j) j (hook_serialize hp c d)"
    have w: "writes ?cmd s1 (xs @ ys) ds n" if "holds s1 (xs @ ys)" for s1 ys
      using single_writes [OF that, of n j d] n(1) ds(1) id [of ys] by (simp add: single)
    obtain e where "write_items r cfg hp c lua i ds s = read_verdict e (send r ?cmd s)"
      using single keys by (auto simp: write_items_def appendAfterAll_def formChainItems_items appendAfter_def Let_def)
    then show thesis using w by (rule sent)
  next
    case batch
    let ?cmd = "eval_argv (batch_script r (length (items_of ds))) (2 * length (items_of ds) + 1)
        (batch_argv cfg lua i (items_of ds) (map (hook_serialize hp c) (map snd ds)))"
    have d0: "data (items_of ds ! 0) = Some (snd (ds ! 0))" "length (items_of ds) \<noteq> 1"
      using items_nth [of 0 ds] ds(2) batch by simp_all
    have w: "writes ?cmd s1 (xs @ ys) ds n" if "holds s1 (xs @ ys)" for s1 ys
      using n(1) by (intro batch_writes [OF that _ ds]) (simp_all add: id [of ys])
    obtain e where "write_items r cfg hp c lua i ds s = read_verdict e (send r ?cmd s)"
      using batch(1) d0 ds(2) unfolding write_items_def appendAfterAll_def formChainItems_items
      by (simp add: last_items Let_def del: map_map)
    then show thesis using w by (rule sent)
  qed
qed

lemma write_items_grown:
  assumes xs: "holds s xs" "item_place cfg xs n i" and ds: "can_write cfg ds" "ds \<noteq> []"
    and app: "write_items r cfg hp c lua i ds s = (b, s')"
  shows "\<exists>ys. (b = Inr True \<longrightarrow> n = length (xs @ ys) \<and> holds s' (xs @ ys @ ds)) \<and>
        (b = Inr False \<longrightarrow> holds s' (xs @ ys) \<and>
          (n < length (xs @ ys) \<or> set (map fst ds) \<inter> set (map fst (xs @ ys)) \<noteq> {})) \<and>
        (\<forall>e. b = Inl e \<longrightarrow> holds s' (xs @ ys))"
proof (cases rule: write_items_command [OF xs ds, of lua])
  case 1
  then show ?thesis using app xs(1) by (intro exI [of _ "[]"]) simp
next
  case (2 cmd e)
  then have v: "read_verdict e (send r cmd s) = (b, s')" using app by simp
  have "n \<le> length xs" using xs(2) by (simp add: item_place_def)
  then show ?thesis by (rule verdict_rep [OF xs(1) _ 2(2) v])
qed

lemma head_grown:
  assumes "process_holds r cfg hp c p xs" "head r cfg dflt p = (o', p')"
  shows "\<exists>ys. process_holds r cfg hp c p' (xs @ ys) \<and> (\<forall>i. o' = Inr i \<longrightarrow> item_place cfg (xs @ ys) 0 i)"
proof -
  let ?k = "chainKey cfg (headKey cfg)"
  obtain static s where p: "p = (static, s)" by (cases p)
  have key: "(case static of Some k \<Rightarrow> k | None \<Rightarrow> ?k) = ?k" "c_str ?k = ?k"
    using assms(1) p good_cfg nul_free_keys [of "headKey cfg"]
    by (auto simp: process_holds_def good_configuration_def)
  obtain v s' where v: "send r (head_script r ?k) s = (v, s')" by (cases "send r (head_script r ?k) s")
  have xs: "holds s xs" using assms(1) p by (simp add: process_holds_def)
  from v xs obtain ys s1 where *: "holds s1 (xs @ ys)" "s' = s1 \<or> s' = snd (head_script r ?k s1)"
    "\<And>x. v = Some x \<Longrightarrow> x = fst (head_script r ?k s1) \<and> s' = snd (head_script r ?k s1)"
    by (metis send_grown)
  define link where "link = (if 0 < length (xs @ ys) then fst ((xs @ ys) ! 0) else '''')"
  have "store r s1 ?k = Some link"
    using link_of [OF *(1), of 0] unfolding link_def by (simp add: chain_ids_def)
  then have script: "head_script r ?k s1 = (ReplyString link, s1)"
    by (simp add: head_script_def)
  then have "s' = s1" using * by auto
  moreover have "p' = (Some ?k, s')"
    using assms(2) p key v by (auto simp: head_def Let_def split: option.splits reply.splits)
  moreover have "i = \<lparr>itemId = headKey cfg, data = Some dflt, nextID = link\<rparr>" if "o' = Inr i" for i
    using assms(2) p key v *(3) script that by (auto simp: head_def Let_def split: option.splits reply.splits)
  ultimately show ?thesis
    using *(1) by (intro exI [of _ ys]) (auto simp: process_holds_def item_place_def chain_ids_def link_def)
qed

sublocale chain: shared_chain "process_holds r cfg hp c" "item_place cfg" "\<lambda>e. e" "\<lambda>_. item_content" "can_write cfg"
    "head r cfg dflt" "\<lambda>i. on_server (fetchNext r cfg hp c i)" "\<lambda>i ds. on_server (write_items r cfg hp c lua i ds)"
  for dflt lua
proof unfold_locales
  fix p and xs :: "'d entry list"
  assume "process_holds r cfg hp c p xs"
  then show "distinct xs"
    by (simp add: process_holds_def kv_chain_def chain_ids_def distinct_map)
next
  fix xs n and i :: "'d ChainItem"
  show "item_place cfg xs n i \<Longrightarrow> n \<le> length xs" by (simp add: item_place_def)
next
  fix xs ys n and i :: "'d ChainItem"
  show "item_place cfg xs n i \<Longrightarrow> item_place cfg (xs @ ys) n i" by (rule item_place_extend)
next
  fix p xs o' p'
  assume "process_holds r cfg hp c p xs" "head r cfg dflt p = (o', p')"
  then show "\<exists>ys. process_holds r cfg hp c p' (xs @ ys) \<and> (\<forall>i. o' = Inr i \<longrightarrow> item_place cfg (xs @ ys) 0 i)"
    by (rule head_grown)
next
  fix p xs n i o' p'
  assume "process_holds r cfg hp c p xs" "item_place cfg xs n i" "on_server (fetchNext r cfg hp c i) p = (o', p')"
  then show "\<exists>ys. process_holds r cfg hp c p' (xs @ ys) \<and> (o' = Inr None \<longrightarrow> n = length xs) \<and>
      (\<forall>j. o' = Inr (Some j) \<longrightarrow> n < length (xs @ ys) \<and> item_place cfg (xs @ ys) (Suc n) j \<and>
        item_content j = Some ((xs @ ys) ! n))"
    using fetch_grown by (cases p) (fastforce simp: on_server_eq process_holds_def)
next
  fix p xs n i ds b p'
  assume *: "process_holds r cfg hp c p xs" "item_place cfg xs n i" "can_write cfg ds" "ds \<noteq> []"
    "on_server (write_items r cfg hp c lua i ds) p = (b, p')"
  then obtain s' where s': "write_items r cfg hp c lua i ds (snd p) = (b, s')" "p' = (fst p, s')"
    by (cases p) (auto simp: on_server_eq)
  have "holds (snd p) xs" "fst p \<in> {None, Some (chainKey cfg (headKey cfg))}"
    using *(1) by (auto simp: process_holds_def)
  with write_items_grown [OF _ *(2-4) s'(1)] show "\<exists>ys. (b = Inr True \<longrightarrow> n = length (xs @ ys) \<and>
        (\<exists>es. map (\<lambda>e. e) es = ds \<and> process_holds r cfg hp c p' (xs @ ys @ es))) \<and>
      (b = Inr False \<longrightarrow> process_holds r cfg hp c p' (xs @ ys)) \<and>
      (\<forall>e. b = Inl e \<longrightarrow> process_holds r cfg hp c p' (xs @ ys))"
    unfolding process_holds_def s'(2) fst_conv snd_conv list.map_ident by blast
qed

end

section \<open>A server that always answers\<close>

locale answering_chain = redis_chain r cfg hp c + answering_server r "chain_grows cfg (hook_parse hp c)"
  for r :: "'s redis" and cfg hp and c :: "'d serializer"
begin

lemma get_string_answers:
  assumes "holds s xs" "nul_free k" "\<And>s1 ys. holds s1 (xs @ ys) \<Longrightarrow> store r s1 k \<noteq> None"
  shows "\<exists>v s'. get_string r msg k s = (Inr v, s')"
proof -
  from send_Some [of s "GET r k"] obtain s1 where s1: "chain_grows cfg (hook_parse hp c) (store r s) (store r s1)"
    "send r (GET r k) s = (Some (fst (GET r k s1)), snd (GET r k s1))" by blast
  with assms(1,3) have "store r s1 k \<noteq> None" unfolding chain_grows_def by blast
  then show ?thesis
    using s1(2) assms(2) by (auto simp: get_string_def GET_def)
qed

lemma load_item_answers:
  assumes "holds s xs" "n < length xs"
  shows "\<exists>j s'. load_item r cfg hp c msg (fst (xs ! n)) s = (Inr j, s')"
proof -
  let ?i = "fst (xs ! n)"
  have id: "chain_ids cfg (xs @ ys) ! Suc n = ?i" "(xs @ ys) ! n = xs ! n" for ys
    using assms(2) by (simp_all add: chain_ids_def nth_append)
  have nf: "nul_free (dataKey cfg ?i)" "nul_free (chainKey cfg ?i)"
    using id_nul_free [OF assms(1), of "Suc n"] assms(2) id [of "[]"] nul_free_keys by auto
  have data: "store r s1 (dataKey cfg ?i) \<noteq> None" if "holds s1 (xs @ ys)" for s1 ys
    using data_of [OF that, of n] assms(2) id(2) by (cases "store r s1 (dataKey cfg ?i)") auto
  have link: "store r s1 (chainKey cfg ?i) \<noteq> None" if "holds s1 (xs @ ys)" for s1 ys
    using link_of [OF that, of "Suc n"] assms(2) id(1) by simp
  have "\<exists>d t. get_string r msg (dataKey cfg ?i) s = (Inr d, t)"
    by (rule get_string_answers [OF assms(1) nf(1)]) (erule data)
  then obtain d t where d: "get_string r msg (dataKey cfg ?i) s = (Inr d, t)" by blast
  from get_string_grown [OF assms(1) nf(1) d] obtain ys where t: "holds t (xs @ ys)" by blast
  have "\<exists>m u. get_string r msg (chainKey cfg ?i) t = (Inr m, u)"
    by (rule get_string_answers [OF t nf(2)]) (use link in \<open>simp only: append_assoc not_False_eq_True\<close>)
  then show ?thesis
    using d by (auto simp: load_item_def bindS_def returnS_def)
qed

lemma fetch_answers:
  assumes xs: "holds s xs" "item_place cfg xs n i"
  shows "\<exists>o' s'. fetchNext r cfg hp c i s = (Inr o', s')"
proof -
  have n: "n \<le> length xs" "itemId i = chain_ids cfg xs ! n"
    using xs(2) by (auto simp: item_place_def)
  have id: "itemId i = chain_ids cfg (xs @ ys) ! n" for ys
    using n by (simp add: chain_ids_append nth_append)
  let ?msg = "''fetchNext: Redis chain fetch error for ''"
  let ?link = "if nextID i = '''' then get_string r ?msg (chainKey cfg (itemId i)) else returnS (nextID i)"
  have nf: "nul_free (chainKey cfg (itemId i))"
    using id_nul_free [OF xs(1) n(1)] n(2) nul_free_keys by simp
  have stored: "store r s1 (chainKey cfg (itemId i)) = Some (if n < length (xs @ ys) then fst ((xs @ ys) ! n) else '''')"
    if "holds s1 (xs @ ys)" for s1 ys
    using link_of [OF that, of n] n(1) id [of ys] by simp
  have "\<exists>l t ys. ?link s = (Inr l, t) \<and> holds t (xs @ ys) \<and> (l = '''' \<or> n < length (xs @ ys) \<and> l = fst ((xs @ ys) ! n))"
  proof (cases "nextID i = ''''")
    case True
    obtain l t where l: "get_string r ?msg (chainKey cfg (itemId i)) s = (Inr l, t)"
      using get_string_answers [OF xs(1) nf] stored by blast
    from get_string_grown [OF xs(1) nf l] obtain ys where ys: "holds t (xs @ ys)" "store r t (chainKey cfg (itemId i)) = Some l"
      by blast
    with stored [OF ys(1)] l True show ?thesis by (auto split: if_splits)
  next
    case False
    then show ?thesis
      using xs by (intro exI [of _ "nextID i"] exI [of _ s] exI [of _ "[]"]) (auto simp: returnS_def item_place_def)
  qed
  then obtain l t ys where l: "?link s = (Inr l, t)" "holds t (xs @ ys)" "l = '''' \<or> n < length (xs @ ys) \<and> l = fst ((xs @ ys) ! n)"
    by blast
  show ?thesis
  proof (cases "l = ''''")
    case True
    then show ?thesis
      unfolding fetchNext_def Let_def by (simp only: bindS_Inr [of ?link, OF l(1)] if_True) (simp add: returnS_def)
  next
    case False
    then have "n < length (xs @ ys)" "l = fst ((xs @ ys) ! n)" using l(3) by auto
    then obtain j u where "load_item r cfg hp c ?msg l t = (Inr j, u)"
      using load_item_answers [OF l(2)] by blast
    then have "bindS (load_item r cfg hp c ?msg l) (\<lambda>item. returnS (Some item)) t = (Inr (Some j), u)"
      by (simp add: bindS_def returnS_def)
    then show ?thesis
      unfolding fetchNext_def Let_def using False by (simp only: bindS_Inr [of ?link, OF l(1)] if_False) blast
  qed
qed

lemma verdict_answers:
  assumes "holds s xs" "\<And>s1 ys. holds s1 (xs @ ys) \<Longrightarrow> writes cmd s1 (xs @ ys) ds n"
  shows "\<exists>b s'. read_verdict e (send r cmd s) = (Inr b, s')"
proof -
  from send_Some [of s cmd] obtain s1 where s1: "chain_grows cfg (hook_parse hp c) (store r s) (store r s1)"
    "send r cmd s = (Some (fst (cmd s1)), snd (cmd s1))" by blast
  with assms(1) obtain ys where "holds s1 (xs @ ys)" unfolding chain_grows_def by blast
  from assms(2) [OF this] have "\<exists>k. fst (cmd s1) = ReplyInteger k"
    unfolding writes_def by (metis fst_conv)
  then show ?thesis using s1(2) by (auto simp: read_verdict_def)
qed

end

context answering_chain
begin

lemma write_items_answers:
  assumes xs: "holds s xs" "item_place cfg xs n i" and ds: "can_write cfg ds"
  shows "\<exists>b s'. write_items r cfg hp c lua i ds s = (Inr b, s')"
proof (cases "ds = []")
  case True
  then show ?thesis
    by (auto simp: write_items_def appendAfterAll_def formChainItems_items)
next
  case False
  show ?thesis
  proof (cases rule: write_items_command [OF xs ds False, of lua])
    case (2 cmd e)
    then show ?thesis using verdict_answers [OF xs(1) 2(2)] by simp
  qed blast
qed

lemma head_answers:
  assumes "process_holds r cfg hp c p xs"
  shows "\<exists>i p'. head r cfg dflt p = (Inr i, p')"
proof -
  obtain static s where p: "p = (static, s)" by (cases p)
  define k where "k = (case static of Some k \<Rightarrow> k | None \<Rightarrow> chainKey cfg (headKey cfg))"
  from send_Some [of s "head_script r (c_str k)"] obtain s1 where
    s1: "send r (head_script r (c_str k)) s = (Some (fst (head_script r (c_str k) s1)), snd (head_script r (c_str k) s1))"
    by blast
  moreover have "\<exists>v. fst (head_script r (c_str k) s1) = ReplyString v"
    by (simp add: head_script_def split: option.split)
  ultimately show ?thesis
    by (auto simp: p head_def Let_def k_def [symmetric])
qed

sublocale live: reliable_chain "process_holds r cfg hp c" "item_place cfg" "\<lambda>e. e" "\<lambda>_. item_content" "can_write cfg"
    "head r cfg dflt" "\<lambda>i. on_server (fetchNext r cfg hp c i)" "\<lambda>i ds. on_server (write_items r cfg hp c lua i ds)"
    "\<lambda>ds xs. set (map fst ds) \<inter> set (map fst xs) \<noteq> {}"
  for dflt lua
proof unfold_locales
  fix p and xs :: "'d entry list"
  show "process_holds r cfg hp c p xs \<Longrightarrow> \<exists>i s'. head r cfg dflt p = (Inr i, s')"
    by (rule head_answers)
next
  fix p xs n and i :: "'d ChainItem"
  assume "process_holds r cfg hp c p xs" "item_place cfg xs n i"
  then show "\<exists>o' s'. on_server (fetchNext r cfg hp c i) p = (Inr o', s')"
    using fetch_answers [of "snd p" xs n i] by (cases p) (auto simp: on_server_eq process_holds_def)
next
  fix p xs n and i :: "'d ChainItem" and ds :: "'d entry list" and lua
  assume "process_holds r cfg hp c p xs" "item_place cfg xs n i" "can_write cfg ds"
  then show "\<exists>b s'. on_server (write_items r cfg hp c lua i ds) p = (Inr b, s')"
    using write_items_answers [of "snd p" xs n i ds] by (cases p) (auto simp: on_server_eq process_holds_def)
next
  fix p xs n and i :: "'d ChainItem" and ds :: "'d entry list" and lua p'
  assume *: "process_holds r cfg hp c p xs" "item_place cfg xs n i" "can_write cfg ds" "ds \<noteq> []"
    "on_server (write_items r cfg hp c lua i ds) p = (Inr False, p')"
  then obtain s' where s': "write_items r cfg hp c lua i ds (snd p) = (Inr False, s')" "p' = (fst p, s')"
    by (cases p) (auto simp: on_server_eq)
  have "holds (snd p) xs" "fst p \<in> {None, Some (chainKey cfg (headKey cfg))}"
    using *(1) by (auto simp: process_holds_def)
  with write_items_grown [OF _ *(2-4) s'(1)] show "\<exists>ys. process_holds r cfg hp c p' (xs @ ys) \<and>
      (n < length (xs @ ys) \<or> set (map fst ds) \<inter> set (map fst (xs @ ys)) \<noteq> {})"
    unfolding process_holds_def s'(2) fst_conv snd_conv by blast
qed

end

context answering_chain
begin

lemmas read_all_redis = live.read_all [unfolded list.map_ident]

end

context redis_chain
begin

lemma single_winner:
  assumes "holds s xs" "item_place cfg xs n i" "item_place cfg xs n i'"
    and "can_write cfg ds" "ds \<noteq> []" "can_write cfg es" "es \<noteq> []"
    and "write_items r cfg hp c lua i ds s = (Inr True, s1)"
    and "chain_grows cfg (hook_parse hp c) (store r s1) (store r s2)"
    and "write_items r cfg hp c lua i' es s2 = (b, s3)"
  shows "b \<noteq> Inr True"
proof (rule chain.append_once [of "(None, s)" xs n i i' ds es lua "(None, s1)" "(None, s2)" b "(None, s3)"])
  fix zs
  assume "process_holds r cfg hp c (None, s1) zs"
  then show "\<exists>ys. process_holds r cfg hp c (None, s2) (zs @ ys)"
    using assms(9) by (simp add: process_holds_def chain_grows_def)
qed (use assms in \<open>simp_all add: process_holds_def on_server_eq\<close>)

end

section \<open>A server with one client\<close>

text \<open>An instance of the parameter: the state is the key-value map, every command is answered.\<close>

definition kv_redis :: "(string \<Rightarrow> string option) redis" where
  "kv_redis = \<lparr>store = (\<lambda>s. s), put = (\<lambda>k v s. s(k \<mapsto> v)), send = (\<lambda>cmd s. (Some (fst (cmd s)), snd (cmd s)))\<rparr>"

interpretation kv_server: answering_server kv_redis "(=)"
  by unfold_locales (simp_all add: kv_redis_def)

interpretation kv_chain: answering_chain kv_redis defaultConfiguration "Some reverse_hooks" string_serializer
  by unfold_locales (auto simp: kv_redis_def default_good reverse_hooks.undo intro: chain_grows_refl)

text \<open>The first \<open>head\<close> makes an empty chain where there was none.\<close>

lemma head_script_empty:
  assumes "good_configuration cfg" and "\<And>i. kv (chainKey cfg i) = None" and "\<And>i. kv (dataKey cfg i) = None"
  shows "fst (head_script kv_redis (chainKey cfg (headKey cfg)) kv) = ReplyString '''' \<and>
    kv_chain cfg dec (snd (head_script kv_redis (chainKey cfg (headKey cfg)) kv)) []"
proof -
  have "dataKey cfg i \<noteq> chainKey cfg j" for i j
    using keys_apart [OF assms(1)] by metis
  then show ?thesis
    using assms by (auto simp: head_script_def kv_redis_def kv_chain_def chain_ids_def good_configuration_def)
qed

definition sample_store :: "string entry list \<Rightarrow> string \<Rightarrow> string option" where
  "sample_store ds = kv_appends defaultConfiguration (hook_serialize (Some reverse_hooks) string_serializer) '''' ds
     ((\<lambda>_. None)(chainKey defaultConfiguration '''' \<mapsto> ''''))"

lemma sample_chain:
  assumes "can_write defaultConfiguration ds"
  shows "kv_chain defaultConfiguration (hook_parse (Some reverse_hooks) string_serializer) (sample_store ds) ds"
proof -
  let ?kv = "(\<lambda>_. None)(chainKey defaultConfiguration '''' \<mapsto> '''')"
  have "headKey defaultConfiguration = ''''" by (simp add: defaultConfiguration_def)
  moreover have "kv_chain defaultConfiguration (hook_parse (Some reverse_hooks) string_serializer) ?kv []"
    using head_script_empty [OF default_good, of "\<lambda>_. None"] calculation by (simp add: head_script_def kv_redis_def)
  moreover have "'''' \<notin> fst ` set ds" using assms by (auto simp: can_write_def)
  ultimately show ?thesis
    using kv_chain_appends [of defaultConfiguration "hook_parse (Some reverse_hooks) string_serializer"
      "hook_serialize (Some reverse_hooks) string_serializer" ?kv "[]" ds] assms default_good kv_chain.hook_roundtrip
    by (simp add: sample_store_def chain_ids_def)
qed

section \<open>Properties\<close>

text \<open>a reader that starts at the head with enough fuel gets the chain as it stood when it started, in order,
  possibly followed by what was appended meanwhile.\<close>

theorem redis_read_all:
  assumes "answering_chain r cfg hp c" and "process_holds r cfg hp c p xs" and "length xs \<le> fuel"
  shows "\<exists>h p1 cs j p2 ys. head r cfg dflt p = (Inr h, p1) \<and>
    follow (\<lambda>i. on_server (fetchNext r cfg hp c i)) (\<lambda>_. item_content) fuel h p1 = (Inr (cs, j), p2) \<and>
    process_holds r cfg hp c p2 (xs @ ys) \<and> cs = take (length cs) (xs @ ys) \<and> length xs \<le> length cs"
  using assms by (rule answering_chain.read_all_redis)

definition sample_entries :: "string entry list" where
  "sample_entries = [(''a'', ''one''), (''b'', ''two'')]"

abbreviation sample_hooks :: "ByteDataHookPair option" where
  "sample_hooks \<equiv> Some reverse_hooks"

lemma sample_holds:
  "kv_chain defaultConfiguration (hook_parse sample_hooks string_serializer) (store kv_redis (sample_store sample_entries)) sample_entries"
  using sample_chain [of sample_entries] by (simp add: kv_redis_def can_write_def sample_entries_def defaultConfiguration_def)

lemma sample_process: "process_holds kv_redis defaultConfiguration sample_hooks string_serializer (None, sample_store sample_entries) sample_entries"
  using sample_holds by (simp add: process_holds_def)

definition sample_item :: "string ChainItem" where
  "sample_item = \<lparr>itemId = ''b'', data = Some ''two'', nextID = ''''\<rparr>"

lemma sample_place: "item_place defaultConfiguration sample_entries 2 sample_item"
  by code_simp

lemma sample_new: "can_write defaultConfiguration [(''c'', ''three''), (''d'', ''four'')]"
  by code_simp

abbreviation sample_write :: "(redis_error + bool) \<times> (string \<Rightarrow> string option)" where
  "sample_write \<equiv> write_items kv_redis defaultConfiguration sample_hooks string_serializer '''' sample_item
      [(''c'', ''three''), (''d'', ''four'')] (sample_store sample_entries)"

lemma sample_first_write: "fst sample_write = Inr True"
  by code_simp

theorem redis_read_all_witness:
  "\<exists>h p1 cs j p2 ys. head kv_redis defaultConfiguration ''z'' (None, sample_store sample_entries) = (Inr h, p1) \<and>
    follow (\<lambda>i. on_server (fetchNext kv_redis defaultConfiguration sample_hooks string_serializer i)) (\<lambda>_. item_content) 5 h p1 = (Inr (cs, j), p2) \<and>
    process_holds kv_redis defaultConfiguration sample_hooks string_serializer p2 (sample_entries @ ys) \<and>
    cs = take (length cs) (sample_entries @ ys) \<and> length sample_entries \<le> length cs"
  by (rule redis_read_all [OF kv_chain.answering_chain_axioms sample_process]) (simp add: sample_entries_def)

text \<open>of two writers that hold items for the same place of the chain at most one succeeds, however much later the
  second one tries and whatever other clients and failures come between.\<close>

theorem redis_single_winner:
  assumes "redis_chain r cfg hp c" and "kv_chain cfg (hook_parse hp c) (store r s) xs"
    and "item_place cfg xs n i" and "item_place cfg xs n i'"
    and "can_write cfg ds" and "ds \<noteq> []" and "can_write cfg es" and "es \<noteq> []"
    and "write_items r cfg hp c lua i ds s = (Inr True, s1)"
    and "chain_grows cfg (hook_parse hp c) (store r s1) (store r s2)"
    and "write_items r cfg hp c lua i' es s2 = (b, s3)"
  shows "b \<noteq> Inr True"
  using assms by (rule redis_chain.single_winner)

definition sample_item' :: "string ChainItem" where
  "sample_item' = \<lparr>itemId = ''b'', data = None, nextID = ''''\<rparr>"

lemma sample_place': "item_place defaultConfiguration sample_entries 2 sample_item'"
  by code_simp

lemma sample_new': "can_write defaultConfiguration [(''e'', ''five'')]"
  by code_simp

theorem redis_single_winner_witness:
  "fst (write_items kv_redis defaultConfiguration sample_hooks string_serializer '''' sample_item' [(''e'', ''five'')]
     (snd sample_write)) \<noteq> Inr True"
  (is "fst ?second \<noteq> _")
proof -
  have w: "sample_write = (Inr True, snd sample_write)" "?second = (fst ?second, snd ?second)"
    using sample_first_write by (simp_all add: prod_eq_iff)
  show ?thesis
    by (rule redis_single_winner [OF kv_chain.redis_chain_axioms sample_holds sample_place sample_place' sample_new _
      sample_new' _ w(1) chain_grows_refl w(2)]) simp_all
qed

text \<open>\<open>headKeyStr\<close> is a function-local static of \<open>head\<close>: a second chain of the same data type in the same process,
  with another configuration, asks for the head of the first chain, so it starts from the first chain's link whatever its own head holds.\<close>

theorem redis_head_of_second_chain:
  "head kv_redis cfg2 d2 (snd (head kv_redis cfg1 d1 (None, s))) =
     (Inr \<lparr>itemId = headKey cfg2, data = Some d2,
           nextID = (case s (c_str (chainKey cfg1 (headKey cfg1))) of Some link \<Rightarrow> link | None \<Rightarrow> '''')\<rparr>,
      snd (head kv_redis cfg1 d1 (None, s)))"
  by (simp add: head_def kv_redis_def head_script_def Let_def split: option.split)

text \<open>extra data is read back as it was saved, and saving it leaves the chain alone.\<close>

theorem redis_extra_data:
  assumes "answering_server r (=)" and "hooked cx hp" and "extra_apart cfg" and "nul_free key"
  shows "fst (loadExtraData r cfg hp cx key (saveExtraData r cfg hp cx key x s)) = Some x \<and>
    (kv_chain cfg dec (store r s) xs \<longrightarrow> kv_chain cfg dec (store r (saveExtraData r cfg hp cx key x s)) xs)"
proof -
  let ?k = "extraDataKey cfg key"
  have k: "c_str ?k = ?k" using assms(3,4) by (simp add: extraDataKey_def extra_apart_def)
  have srv: "redis_server r (=)" using assms(1) by (simp add: answering_server_def)
  obtain s1 where s1: "store r s = store r s1" "send r (SET r ?k (hook_serialize hp cx x)) s =
      (Some (fst (SET r ?k (hook_serialize hp cx x) s1)), snd (SET r ?k (hook_serialize hp cx x) s1))"
    using answering_server.send_Some [OF assms(1)] by blast
  then have saved: "store r (saveExtraData r cfg hp cx key x s) = (store r s)(?k \<mapsto> hook_serialize hp cx x)"
    by (simp add: saveExtraData_def k SET_def redis_server.store_put [OF srv])
  let ?t = "saveExtraData r cfg hp cx key x s"
  obtain t1 where t1: "store r ?t = store r t1" "send r (GET r ?k) ?t = (Some (fst (GET r ?k t1)), snd (GET r ?k t1))"
    using answering_server.send_Some [OF assms(1)] by blast
  have "fst (loadExtraData r cfg hp cx key ?t) = Some x"
  proof -
    have "store r t1 ?k = Some (hook_serialize hp cx x)"
      using t1(1) saved by (metis fun_upd_same)
    then show ?thesis
      using t1(2) hooked.hook_roundtrip [OF assms(2)] by (simp add: loadExtraData_def k GET_def)
  qed
  moreover have "kv_chain cfg dec (store r ?t) xs" if "kv_chain cfg dec (store r s) xs"
    using that saved extra_key_apart [OF assms(3)] by (simp add: kv_chain_def)
  ultimately show ?thesis by blast
qed

lemma default_extra_apart: "extra_apart defaultConfiguration"
  by code_simp

theorem redis_extra_data_witness:
  "fst (loadExtraData kv_redis defaultConfiguration sample_hooks string_serializer ''k''
     (saveExtraData kv_redis defaultConfiguration sample_hooks string_serializer ''k'' ''v'' (sample_store sample_entries))) = Some ''v''"
  by (rule conjunct1 [OF redis_extra_data [OF kv_server.answering_server_axioms kv_chain.hooked_axioms default_extra_apart]])
    simp

end
