(* ===== verification/RedisAppend.thy ===== *)
theory RedisAppend
  imports RedisChain
begin

text \<open>
  That writing to a chain in Redis (\<open>appendAfter\<close> of RedisChain.hpp, single and batch) is one step of the server, whatever the other clients do.
\<close>

section \<open>The append is one step of the server\<close>

text \<open>
  \<open>rely\<close> is now any relation at all for what the others do between our commands, so what is not allowed by it was done by
  the call itself.
\<close>

lemma verdict_of_step:
  assumes "sent \<in> {(None, s1), (None, snd (cmd s1)), (Some (fst (cmd s1)), snd (cmd s1))}" "read_verdict e sent = (b, s')"
    and "if fits then fst (cmd s1) = ReplyInteger 1 \<and> written (snd (cmd s1)) else cmd s1 = (ReplyInteger 0, s1)"
  shows "(b = Inr True \<longrightarrow> fits \<and> written s') \<and> (b = Inr False \<longrightarrow> \<not> fits \<and> s' = s1) \<and>
    (\<forall>e. b = Inl e \<longrightarrow> s' = s1 \<or> fits \<and> written s')"
  using assms by (cases fits) (auto simp: read_verdict_def)

locale redis_rely = redis_server r rely + hooked c hp
  for r :: "'s redis" and cfg :: RedisChainConfiguration and hp :: "ByteDataHookPair option" and c :: "'d serializer"
    and rely :: "(string \<Rightarrow> string option) \<Rightarrow> (string \<Rightarrow> string option) \<Rightarrow> bool" +
  assumes cfg_ok: "good_configuration cfg"
    and rely_grows: "rely kv kv' \<Longrightarrow> chain_grows cfg (hook_parse hp c) kv kv'"
begin

lemmas sends_rely = send_cases

end

sublocale redis_rely \<subseteq> redis_chain r cfg hp c
proof
  fix s cmd
  from send_cases [of s cmd] rely_grows show "\<exists>s1. chain_grows cfg (hook_parse hp c) (store r s) (store r s1) \<and>
      send r cmd s \<in> {(None, s1), (None, snd (cmd s1)), (Some (fst (cmd s1)), snd (cmd s1))}"
    by blast
qed (rule store_put cfg_ok)+

context redis_rely
begin

lemma append_step:
  assumes xs: "holds s xs" "item_place cfg xs n i" and ds: "can_write cfg ds" "ds \<noteq> []"
    and app: "write_items r cfg hp c lua i ds s = (b, s')"
  shows "\<exists>s1 ys. (s1 = s \<or> rely (store r s) (store r s1)) \<and> holds s1 (xs @ ys) \<and>
    (let fits = (n = length (xs @ ys) \<and> fst ` set ds \<inter> fst ` set (xs @ ys) = {});
         written = (holds s' (xs @ ys @ ds) \<and> store r s' = kv_appends cfg (hook_serialize hp c) (itemId i) ds (store r s1))
     in (b = Inr True \<longrightarrow> fits \<and> written) \<and> (b = Inr False \<longrightarrow> \<not> fits \<and> s' = s1) \<and>
        (\<forall>e. b = Inl e \<longrightarrow> s' = s1 \<or> fits \<and> written))"
proof (cases rule: write_items_command [OF xs ds, of lua])
  case 1
  then show ?thesis using app xs(1) by (intro exI [of _ s] exI [of _ "[]"]) simp
next
  case (2 cmd e)
  have id: "itemId i = chain_ids cfg (xs @ ys) ! n" for ys
    using xs(2) by (simp add: item_place_def chain_ids_append nth_append)
  from sends_rely [of s cmd] obtain s1 where s1: "rely (store r s) (store r s1)"
    "send r cmd s \<in> {(None, s1), (None, snd (cmd s1)), (Some (fst (cmd s1)), snd (cmd s1))}" by blast
  from rely_grows [OF s1(1)] xs(1) obtain ys where ys: "holds s1 (xs @ ys)"
    unfolding chain_grows_def by blast
  let ?fits = "n = length (xs @ ys) \<and> fst ` set ds \<inter> fst ` set (xs @ ys) = {}"
  let ?kv = "kv_appends cfg (hook_serialize hp c) (itemId i) ds (store r s1)"
  have v: "read_verdict e (send r cmd s) = (b, s')" using app 2(1) by simp
  have "(if ?fits then fst (cmd s1) = ReplyInteger 1 \<and> holds (snd (cmd s1)) (xs @ ys @ ds) \<and> store r (snd (cmd s1)) = ?kv
      else cmd s1 = (ReplyInteger 0, s1))"
    using 2(2) [OF ys] unfolding writes_def append_assoc id [of ys, symmetric] .
  from s1(2) v this have out: "(b = Inr True \<longrightarrow> ?fits \<and> (holds s' (xs @ ys @ ds) \<and> store r s' = ?kv)) \<and> (b = Inr False \<longrightarrow> \<not> ?fits \<and> s' = s1) \<and>
      (\<forall>e. b = Inl e \<longrightarrow> s' = s1 \<or> ?fits \<and> (holds s' (xs @ ys @ ds) \<and> store r s' = ?kv))"
    by (rule verdict_of_step [where cmd = cmd and written = "\<lambda>t. holds t (xs @ ys @ ds) \<and> store r t = ?kv"])
  show ?thesis
    unfolding Let_def by (rule exI [of _ s1], rule exI [of _ ys], rule conjI [OF disjI2 [OF s1(1)] conjI [OF ys out]])
qed

end

section \<open>A server with one client\<close>

interpretation kv_alone: redis_rely kv_redis defaultConfiguration "Some reverse_hooks" string_serializer "(=)"
  by unfold_locales (auto simp: kv_redis_def default_good intro: chain_grows_refl)

section \<open>The property\<close>

text \<open>C1: appending a batch (\<open>formChainItems\<close>, then \<open>appendAfter\<close>) is one step of the server, all or nothing. \<open>rely\<close> is any
  relation that says what the other clients do to the store; whatever they do must extend the chain. Then others may take the store from \<open>s\<close> to
  some \<open>s1\<close>, where the chain is \<open>xs @ ys\<close>, and the call itself either leaves exactly \<open>s1\<close> or turns it into exactly \<open>s1\<close> with every
  entry of the batch appended after the given item. True means that it was appended, which happens only when the item is the
  last one and no identifier is taken; false that one of the two fails and nothing was written; an exception, that
  nothing or the whole batch was.\<close>

theorem redis_append:
  assumes "redis_rely r cfg hp c rely" and "kv_chain cfg (hook_parse hp c) (store r s) xs" and "item_place cfg xs n i"
    and "can_write cfg ds" and "ds \<noteq> []" and "write_items r cfg hp c lua i ds s = (b, s')"
  shows "\<exists>s1 ys. (s1 = s \<or> rely (store r s) (store r s1)) \<and> kv_chain cfg (hook_parse hp c) (store r s1) (xs @ ys) \<and>
    (let fits = (n = length (xs @ ys) \<and> fst ` set ds \<inter> fst ` set (xs @ ys) = {});
         written = (kv_chain cfg (hook_parse hp c) (store r s') (xs @ ys @ ds) \<and>
           store r s' = kv_appends cfg (hook_serialize hp c) (itemId i) ds (store r s1))
     in (b = Inr True \<longrightarrow> fits \<and> written) \<and> (b = Inr False \<longrightarrow> \<not> fits \<and> s' = s1) \<and>
        (\<forall>e. b = Inl e \<longrightarrow> s' = s1 \<or> fits \<and> written))"
  using assms by (rule redis_rely.append_step)

lemma sample_stored: "store kv_redis t = t"
  by (simp add: kv_redis_def)

theorem redis_append_witness:
  "snd sample_write = kv_appends defaultConfiguration (hook_serialize sample_hooks string_serializer) ''b''
     [(''c'', ''three''), (''d'', ''four'')] (sample_store sample_entries) \<and>
   kv_chain defaultConfiguration (hook_parse sample_hooks string_serializer) (snd sample_write)
     (sample_entries @ [(''c'', ''three''), (''d'', ''four'')])"
proof -
  have "sample_write = (Inr True, snd sample_write)"
    using sample_first_write by (simp add: prod_eq_iff)
  from redis_append [OF kv_alone.redis_rely_axioms sample_holds sample_place sample_new _ this, unfolded Let_def]
  obtain s1 ys where "s1 = sample_store sample_entries" "2 = length (sample_entries @ ys)"
    "snd sample_write = kv_appends defaultConfiguration (hook_serialize sample_hooks string_serializer) (itemId sample_item)
      [(''c'', ''three''), (''d'', ''four'')] s1"
    "kv_chain defaultConfiguration (hook_parse sample_hooks string_serializer) (snd sample_write)
      (sample_entries @ ys @ [(''c'', ''three''), (''d'', ''four'')])" unfolding sample_stored by blast
  then show ?thesis by (simp add: sample_entries_def sample_item_def)
qed

end
