(* ===== verification/EtcdChain.thy ===== *)
theory EtcdChain
  imports RedisChain
begin

text \<open>
  \<open>EtcdChain\<close> (tm_kit/transport/etcd_shared_chain/EtcdChain.hpp): a shared chain kept in an etcd server. With
  \<open>saveDataOnSeparateStorage\<close> the links and the data have keys of their own, as in \<open>RedisChain\<close>; without it the key
  \<open>chainPrefix:i\<close> holds both (\<open>MapData\<close>). Items may also be copied to a Redis server (\<open>duplicateToRedis\<close>) and
  read from it, and a watch thread may keep the latest revision.

  The servers are parameters. \<open>view\<close> gives the value, the modification revision and the version of a key; \<open>rpc\<close>
  sends a request and returns \<^const>\<open>None\<close> when the call fails (the response then keeps its default value).
\<close>

datatype etcd_compare =
    VERSION_GREATER string int
  | VERSION_EQUAL string int
  | VALUE_EQUAL string string
  | MOD_EQUAL string int

datatype etcd_op = Put string string | Range string

datatype etcd_response = PutResponse int | RangeResponse "(string \<times> int) list"

datatype etcd_request =
    Txn "etcd_compare list" "etcd_op list" "etcd_op list"
  | RangeRequest string
  | PutRequest string string

type_synonym etcd_view = "string \<Rightarrow> (string \<times> int \<times> int) option"

record 'e etcd =
  view :: "'e \<Rightarrow> etcd_view"
  rpc :: "etcd_request \<Rightarrow> 'e \<Rightarrow> (bool \<times> etcd_response list) option \<times> 'e"

text \<open>The Redis server as here used also expires keys.\<close>

record 's redis_ttl = "'s redis" +
  put_ttl :: "string \<Rightarrow> string \<Rightarrow> nat \<Rightarrow> 's \<Rightarrow> 's"

record 'd ChainItem =
  revision :: int
  itemId :: string
  data :: "'d option"
  nextID :: string

type_synonym 'd ChainStorage = "'d \<times> string"
type_synonym 'd ChainRedisStorage = "int \<times> 'd \<times> string"

record EtcdChainConfiguration = chain_keys +
  saveDataOnSeparateStorage :: bool
  useWatchThread :: bool
  redisServerAddr :: string
  duplicateFromRedis :: bool
  redisTTLSeconds :: nat
  automaticallyDuplicateToRedis :: bool

definition defaultConfiguration :: EtcdChainConfiguration where
  "defaultConfiguration = \<lparr>headKey = '''', chainPrefix = ''shared_chain_test'', dataPrefix = ''shared_chain_test_data'',
     extraDataPrefix = ''shared_chain_test_extra_data'', saveDataOnSeparateStorage = True, useWatchThread = False,
     redisServerAddr = ''127.0.0.1:6379'', duplicateFromRedis = False, redisTTLSeconds = 0,
     automaticallyDuplicateToRedis = False\<rparr>"

datatype etcd_error = EtcdChainException string | UndefinedBehaviour

text \<open>What the class is built on: the servers, the hooks, the serializers of its three record types and \<open>T{}\<close>.\<close>

record ('e, 's, 'd) backing =
  etcdServer :: "'e etcd"
  redisServer :: "'s redis_ttl"
  hookPair :: "ByteDataHookPair option"
  dataSerializer :: "'d serializer"
  mapSerializer :: "'d ChainStorage serializer"
  redisSerializer :: "'d ChainRedisStorage serializer"
  emptyData :: "'d"

text \<open>The state: two function-local statics of \<open>head\<close>, the revision kept by the watch thread, and the servers.\<close>

record ('e, 's) process =
  headKeyStr :: "string option"
  emptyHeadDataStr :: "string option"
  latestModRevision :: int
  etcdState :: 'e
  redisState :: 's

section \<open>Calls to the servers\<close>

definition call_etcd :: "('e, 's, 'd) backing \<Rightarrow> etcd_request \<Rightarrow> ('e, 's) process
    \<Rightarrow> (bool \<times> etcd_response list) \<times> ('e, 's) process" where
  "call_etcd b q p =
     (case rpc (etcdServer b) q (etcdState p) of
        (Some rsp, e) \<Rightarrow> (rsp, p\<lparr>etcdState := e\<rparr>)
      | (None, e) \<Rightarrow> ((False, []), p\<lparr>etcdState := e\<rparr>))"

text \<open>\<open>response_range()\<close> and \<open>response_put()\<close> of a response of the other kind are empty.\<close>

fun range_kvs :: "etcd_response \<Rightarrow> (string \<times> int) list" where
  "range_kvs (RangeResponse kvs) = kvs"
| "range_kvs (PutResponse mrev) = []"

fun put_revision :: "etcd_response \<Rightarrow> int" where
  "put_revision (PutResponse mrev) = mrev"
| "put_revision (RangeResponse kvs) = 0"

definition get_range :: "('e, 's, 'd) backing \<Rightarrow> string \<Rightarrow> ('e, 's) process \<Rightarrow> (string \<times> int) list \<times> ('e, 's) process" where
  "get_range b k p = (case call_etcd b (RangeRequest k) p of
     ((_, rs), p') \<Rightarrow> ((case rs of [] \<Rightarrow> [] | r # _ \<Rightarrow> range_kvs r), p'))"

definition parseEtcdData :: "('e, 's, 'd) backing \<Rightarrow> 'x serializer \<Rightarrow> string \<Rightarrow> 'x option" where
  "parseEtcdData b c v = hook_parse (hookPair b) c v"

definition serialize :: "('e, 's, 'd) backing \<Rightarrow> 'x serializer \<Rightarrow> 'x \<Rightarrow> string" where
  "serialize b c x = hook_serialize (hookPair b) c x"

definition plain_redis :: "('e, 's, 'd) backing \<Rightarrow> 's redis" where
  "plain_redis b = redis.truncate (redisServer b)"

text \<open>A record found in Redis, if the reply is a string that parses.\<close>

definition cached :: "('e, 's, 'd) backing \<Rightarrow> string \<Rightarrow> ('e, 's) process
    \<Rightarrow> 'd ChainRedisStorage option \<times> ('e, 's) process" where
  "cached b k p =
     (case send (redisServer b) (GET (plain_redis b) (c_str k)) (redisState p) of
        (Some (ReplyString v), s) \<Rightarrow> (hook_parse (hookPair b) (redisSerializer b) v, p\<lparr>redisState := s\<rparr>)
      | (_, s) \<Rightarrow> (None, p\<lparr>redisState := s\<rparr>))"

definition redis_item :: "string \<Rightarrow> 'd ChainRedisStorage \<Rightarrow> 'd ChainItem" where
  "redis_item i = (\<lambda>(mrev, d, nx). \<lparr>revision = mrev, itemId = i, data = Some d, nextID = nx\<rparr>)"

definition duplicateToRedis :: "('e, 's, 'd) backing \<Rightarrow> EtcdChainConfiguration \<Rightarrow> int \<Rightarrow> string \<Rightarrow> 'd \<Rightarrow> string
    \<Rightarrow> ('e, 's) process \<Rightarrow> ('e, 's) process" where
  "duplicateToRedis b cfg mrev i d nx p =
     (let redisS = hook_serialize (hookPair b) (redisSerializer b) (mrev, d, nx);
          currentChainKey = c_str (chainKey cfg i);
          cmd = (if redisTTLSeconds cfg > 0
                 then (\<lambda>s. (ReplyStatus ''OK'', put_ttl (redisServer b) currentChainKey redisS (redisTTLSeconds cfg) s))
                 else (\<lambda>s. (ReplyStatus ''OK'', put (redisServer b) currentChainKey redisS s))) in
      p\<lparr>redisState := snd (send (redisServer b) cmd (redisState p))\<rparr>)"

section \<open>Reading\<close>

definition head_txn :: "string \<Rightarrow> string \<Rightarrow> etcd_request" where
  "head_txn k v = Txn [VERSION_GREATER k 0] [Range k] [Put k v, Range k]"

definition head_error :: "string \<Rightarrow> etcd_error" where
  "head_error k = EtcdChainException (''head error for '' @ k @ '', etcd service probably down'')"

definition head_separate :: "('e, 's, 'd) backing \<Rightarrow> EtcdChainConfiguration \<Rightarrow> string
    \<Rightarrow> (('e, 's) process, etcd_error, 'd ChainItem) call" where
  "head_separate b cfg k p =
     (case call_etcd b (head_txn k '''') p of
        ((succeeded, rs), p') \<Rightarrow>
          if length rs < (if succeeded then 1 else 2) then (Inl (head_error k), p')
          else (case range_kvs (rs ! (if succeeded then 0 else 1)) of
                  [] \<Rightarrow> (Inl (head_error k), p')
                | (v, mrev) # _ \<Rightarrow>
                    (Inr \<lparr>revision = mrev, itemId = headKey cfg, data = Some (emptyData b), nextID = v\<rparr>, p')))"

definition head_inline :: "('e, 's, 'd) backing \<Rightarrow> EtcdChainConfiguration \<Rightarrow> string
    \<Rightarrow> (('e, 's) process, etcd_error, 'd ChainItem) call" where
  "head_inline b cfg k p =
     (let emptyStr = (case emptyHeadDataStr p of
            Some x \<Rightarrow> x | None \<Rightarrow> serialize b (mapSerializer b) (emptyData b, ''''));
          p = p\<lparr>emptyHeadDataStr := Some emptyStr\<rparr> in
      case call_etcd b (head_txn k emptyStr) p of
        ((succeeded, rs), p') \<Rightarrow>
          if length rs < (if succeeded then 1 else 2) then (Inl (head_error k), p')
          else (case range_kvs (rs ! (if succeeded then 0 else 1)) of
                  [] \<Rightarrow> (Inl (head_error k), p')
                | (v, mrev) # _ \<Rightarrow>
                    (case parseEtcdData b (mapSerializer b) v of
                       Some (d, nx) \<Rightarrow> (Inr \<lparr>revision = mrev, itemId = headKey cfg, data = Some d, nextID = nx\<rparr>, p')
                     | None \<Rightarrow>
                         (Inr \<lparr>revision = mrev, itemId = headKey cfg, data = Some (emptyData b), nextID = ''''\<rparr>, p'))))"

definition head :: "('e, 's, 'd) backing \<Rightarrow> EtcdChainConfiguration
    \<Rightarrow> (('e, 's) process, etcd_error, 'd ChainItem) call" where
  "head b cfg p =
     (let k = (case headKeyStr p of Some k \<Rightarrow> k | None \<Rightarrow> chainKey cfg (headKey cfg));
          p = p\<lparr>headKeyStr := Some k\<rparr> in
      case (if duplicateFromRedis cfg then cached b k p else (None, p)) of
        (Some s, p) \<Rightarrow> (Inr (redis_item (headKey cfg) s), p)
      | (None, p) \<Rightarrow>
          if saveDataOnSeparateStorage cfg then head_separate b cfg k p else head_inline b cfg k p)"

text \<open>
  \<open>load_separate\<close> and \<open>load_inline\<close> read one item from etcd; \<open>loadUntil\<close> and \<open>fetchNext\<close> do so in the same way, up to the
  messages: \<open>what\<close> is the word they begin with, \<open>refused\<close> the exception for a transaction that did not succeed.
\<close>

definition load_separate :: "('e, 's, 'd) backing \<Rightarrow> EtcdChainConfiguration \<Rightarrow> string \<Rightarrow> etcd_error \<Rightarrow> string
    \<Rightarrow> (('e, 's) process, etcd_error, 'd ChainItem) call" where
  "load_separate b cfg what refused i p =
     (let ck = chainKey cfg i; dk = dataKey cfg i;
          err = (\<lambda>m. EtcdChainException (what @ '' Error! No record for '' @ m)) in
      case call_etcd b (Txn [] [Range ck, Range dk] []) p of
        ((succeeded, rs), p') \<Rightarrow>
          if \<not> succeeded then (Inl refused, p')
          else if length rs < 2 then (Inl (err (ck @ '' or '' @ dk)), p')
          else (case (range_kvs (rs ! 0), range_kvs (rs ! 1)) of
                  ([], _) \<Rightarrow> (Inl (err ck), p')
                | (_, []) \<Rightarrow> (Inl (err dk), p')
                | ((nx, _) # _, (v, mrev) # _) \<Rightarrow>
                    (Inr \<lparr>revision = mrev, itemId = i, data = parseEtcdData b (dataSerializer b) v, nextID = nx\<rparr>, p')))"

definition load_inline :: "('e, 's, 'd) backing \<Rightarrow> EtcdChainConfiguration \<Rightarrow> string \<Rightarrow> string
    \<Rightarrow> (('e, 's) process, etcd_error, 'd ChainItem) call" where
  "load_inline b cfg what i p =
     (let ck = chainKey cfg i in
      case get_range b ck p of
        ([], p') \<Rightarrow> (Inl (EtcdChainException (what @ '' Error! No record for '' @ ck)), p')
      | ((v, mrev) # _, p') \<Rightarrow>
          (case parseEtcdData b (mapSerializer b) v of
             Some (d, nx) \<Rightarrow> (Inr \<lparr>revision = mrev, itemId = i, data = Some d, nextID = nx\<rparr>, p')
           | None \<Rightarrow> (Inl (EtcdChainException (what @ '' Error! Bad record for '' @ ck)), p')))"

definition loadUntil :: "('e, 's, 'd) backing \<Rightarrow> EtcdChainConfiguration \<Rightarrow> string
    \<Rightarrow> (('e, 's) process, etcd_error, 'd ChainItem) call" where
  "loadUntil b cfg i p =
     (if i = '''' then head b cfg p
      else (case (if duplicateFromRedis cfg then cached b (chainKey cfg i) p else (None, p)) of
        (Some s, p) \<Rightarrow> (Inr (redis_item i s), p)
      | (None, p) \<Rightarrow>
          if saveDataOnSeparateStorage cfg
          then load_separate b cfg ''LoadUntil'' (EtcdChainException (''LoadUntil Error! No record for ''
                 @ chainKey cfg i @ '' or '' @ dataKey cfg i)) i p
          else load_inline b cfg ''LoadUntil'' i p))"

text \<open>
  The part of \<open>fetchNext\<close> that looks into Redis: the next record when its identifier is known, otherwise the current
  record first, for its link.
\<close>

definition fetch_cached :: "('e, 's, 'd) backing \<Rightarrow> EtcdChainConfiguration \<Rightarrow> 'd ChainItem \<Rightarrow> ('e, 's) process
    \<Rightarrow> 'd ChainItem option \<times> ('e, 's) process" where
  "fetch_cached b cfg current p =
     (if nextID current \<noteq> '''' then
        (case cached b (chainKey cfg (nextID current)) p of
           (Some s, p) \<Rightarrow> (Some (redis_item (nextID current) s), p)
         | (None, p) \<Rightarrow> (None, p))
      else
        (case cached b (chainKey cfg (itemId current)) p of
           (Some (_, _, nx), p) \<Rightarrow>
             if nx \<noteq> '''' then
               (case cached b (chainKey cfg nx) p of
                  (Some s, p) \<Rightarrow> (Some (redis_item nx s), p)
                | (None, p) \<Rightarrow> (None, p))
             else (None, p)
         | (None, p) \<Rightarrow> (None, p)))"

definition link_separate :: "('e, 's, 'd) backing \<Rightarrow> EtcdChainConfiguration \<Rightarrow> string
    \<Rightarrow> (('e, 's) process, etcd_error, string) call" where
  "link_separate b cfg i p =
     (case get_range b (chainKey cfg i) p of
        ([], p') \<Rightarrow> (Inl (EtcdChainException (''FetchNext Error! No record for '' @ chainKey cfg i)), p')
      | ((v, _) # _, p') \<Rightarrow> (Inr v, p'))"

definition link_inline :: "('e, 's, 'd) backing \<Rightarrow> EtcdChainConfiguration \<Rightarrow> string
    \<Rightarrow> (('e, 's) process, etcd_error, string) call" where
  "link_inline b cfg i p =
     (case get_range b (chainKey cfg i) p of
        ([], p') \<Rightarrow> (Inl (EtcdChainException (''FetchNext Error! No record for '' @ chainKey cfg i)), p')
      | ((v, _) # _, p') \<Rightarrow>
          (case parseEtcdData b (mapSerializer b) v of
             Some (_, nx) \<Rightarrow> (Inr nx, p')
           | None \<Rightarrow> (Inl (EtcdChainException (''FetchNext Error! Bad record for '' @ chainKey cfg i)), p')))"

definition fetch_stored :: "('e, 's, 'd) backing \<Rightarrow> EtcdChainConfiguration \<Rightarrow> 'd ChainItem
    \<Rightarrow> (('e, 's) process, etcd_error, 'd ChainItem option) call" where
  "fetch_stored b cfg current =
     bindS (if nextID current = '''' then
              (if saveDataOnSeparateStorage cfg then link_separate b cfg (itemId current)
               else link_inline b cfg (itemId current))
            else returnS (nextID current)) (\<lambda>nx.
       if nx = '''' then returnS None
       else bindS (if saveDataOnSeparateStorage cfg
                   then load_separate b cfg ''FetchNext''
                     (EtcdChainException (''Fetch Error! No record for '' @ chainKey cfg nx)) nx
                   else load_inline b cfg ''FetchNext'' nx) (\<lambda>item. returnS (Some item)))"

text \<open>With the watch thread, an item at least as new as the last change seen is taken for the last one.\<close>

definition fetchNext :: "('e, 's, 'd) backing \<Rightarrow> EtcdChainConfiguration \<Rightarrow> 'd ChainItem
    \<Rightarrow> (('e, 's) process, etcd_error, 'd ChainItem option) call" where
  "fetchNext b cfg current p =
     (if useWatchThread cfg \<and> nextID current = '''' \<and> latestModRevision p > 0
         \<and> revision current \<ge> latestModRevision p
      then (Inr None, p)
      else (case (if duplicateFromRedis cfg then fetch_cached b cfg current p else (None, p)) of
              (Some item, p) \<Rightarrow> (Inr (Some item), p)
            | (None, p) \<Rightarrow> fetch_stored b cfg current p))"

definition idIsAlreadyOnChain :: "('e, 's, 'd) backing \<Rightarrow> EtcdChainConfiguration \<Rightarrow> string \<Rightarrow> ('e, 's) process
    \<Rightarrow> bool \<times> ('e, 's) process" where
  "idIsAlreadyOnChain b cfg i p =
     (case call_etcd b (Txn [VERSION_GREATER (chainKey cfg i) 0] [] []) p of ((succeeded, _), p') \<Rightarrow> (succeeded, p'))"

section \<open>Writing\<close>

text \<open>What follows a successful transaction: the watch revision, and the copy in Redis of the item that got a link.\<close>

definition after_append :: "('e, 's, 'd) backing \<Rightarrow> EtcdChainConfiguration \<Rightarrow> int \<Rightarrow> 'd ChainItem \<Rightarrow> string
    \<Rightarrow> ('e, 's) process \<Rightarrow> ('e, 's) process" where
  "after_append b cfg mrev current nx p =
     (let p = (if useWatchThread cfg then p\<lparr>latestModRevision := mrev\<rparr> else p) in
      if automaticallyDuplicateToRedis cfg
      then duplicateToRedis b cfg mrev (itemId current)
             (case data current of Some d \<Rightarrow> d | None \<Rightarrow> emptyData b) nx p
      else p)"

definition append_txn_separate :: "('e, 's, 'd) backing \<Rightarrow> EtcdChainConfiguration \<Rightarrow> 'd ChainItem \<Rightarrow> string \<Rightarrow> 'd
    \<Rightarrow> etcd_request" where
  "append_txn_separate b cfg current i d =
     (let currentChainKey = chainKey cfg (itemId current); newDataKey = dataKey cfg i; newChainKey = chainKey cfg i in
      Txn [VALUE_EQUAL currentChainKey '''', VERSION_EQUAL newDataKey 0, VERSION_EQUAL newChainKey 0]
          [Put currentChainKey i, Put newDataKey (serialize b (dataSerializer b) d), Put newChainKey '''']
          [])"

definition append_txn_inline :: "('e, 's, 'd) backing \<Rightarrow> EtcdChainConfiguration \<Rightarrow> 'd ChainItem \<Rightarrow> string \<Rightarrow> 'd
    \<Rightarrow> etcd_request" where
  "append_txn_inline b cfg current i d =
     (let currentChainKey = chainKey cfg (itemId current); newChainKey = chainKey cfg i in
      Txn [MOD_EQUAL currentChainKey (revision current), VERSION_EQUAL newChainKey 0]
          [Put currentChainKey (serialize b (mapSerializer b)
             (case data current of Some x \<Rightarrow> x | None \<Rightarrow> emptyData b, i)),
           Put newChainKey (serialize b (mapSerializer b) (d, ''''))]
          [])"

definition appendAfter :: "('e, 's, 'd) backing \<Rightarrow> EtcdChainConfiguration \<Rightarrow> 'd ChainItem \<Rightarrow> 'd ChainItem
    \<Rightarrow> (('e, 's) process, etcd_error, bool) call" where
  "appendAfter b cfg current toBeWritten p =
     (if nextID current \<noteq> '''' then (Inr False, p)
      else (case data toBeWritten of
        None \<Rightarrow> (Inl (EtcdChainException ''Cannot append a new item whose data is empty''), p)
      | Some d \<Rightarrow>
          if nextID toBeWritten \<noteq> '''' then
            (Inl (EtcdChainException ''Cannot append a new item whose nextID is already non-empty''), p)
          else if saveDataOnSeparateStorage cfg then
            (case call_etcd b (append_txn_separate b cfg current (itemId toBeWritten) d) p of
               ((True, rs), p') \<Rightarrow>
                 (Inr True, after_append b cfg (put_revision (rs ! 2)) current (itemId toBeWritten) p')
             | ((False, rs), p') \<Rightarrow> (Inr False, p'))
          else
            (case call_etcd b (append_txn_inline b cfg current (itemId toBeWritten) d) p of
               ((True, rs), p') \<Rightarrow>
                 (Inr True, after_append b cfg (put_revision (rs ! 1)) current (itemId toBeWritten) p')
             | ((False, rs), p') \<Rightarrow> (Inr False, p'))))"

fun all_data :: "'d ChainItem list \<Rightarrow> 'd list option" where
  "all_data [] = Some []"
| "all_data (x # xs) =
     (case data x of None \<Rightarrow> None | Some d \<Rightarrow> map_option (Cons d) (all_data xs))"

definition batch_txn_separate :: "('e, 's, 'd) backing \<Rightarrow> EtcdChainConfiguration \<Rightarrow> 'd ChainItem \<Rightarrow> 'd ChainItem list
    \<Rightarrow> 'd list \<Rightarrow> etcd_request" where
  "batch_txn_separate b cfg current toBeWritten ds =
     (let currentChainKey = chainKey cfg (itemId current) in
      Txn (VALUE_EQUAL currentChainKey '''' #
           concat (map (\<lambda>x. [VERSION_EQUAL (dataKey cfg (itemId x)) 0, VERSION_EQUAL (chainKey cfg (itemId x)) 0]) toBeWritten))
          (Put currentChainKey (itemId (toBeWritten ! 0)) #
           concat (map (\<lambda>(x, d). [Put (dataKey cfg (itemId x)) (serialize b (dataSerializer b) d),
                                 Put (chainKey cfg (itemId x)) (nextID x)]) (zip toBeWritten ds)))
          [])"

text \<open>
  Without separate storage, \<open>add_success\<close> is called once before the loop over the items, and every turn fills the
  \<open>request_put\<close> of that same operation.
\<close>

definition overwrite_put :: "('e, 's, 'd) backing \<Rightarrow> EtcdChainConfiguration \<Rightarrow> 'd ChainItem \<times> 'd
    \<Rightarrow> etcd_op list \<Rightarrow> etcd_op list" where
  "overwrite_put b cfg = (\<lambda>(x, d) action.
     [Put (chainKey cfg (itemId x)) (serialize b (mapSerializer b) (d, nextID x))])"

definition batch_txn_inline :: "('e, 's, 'd) backing \<Rightarrow> EtcdChainConfiguration \<Rightarrow> 'd ChainItem \<Rightarrow> 'd ChainItem list
    \<Rightarrow> 'd list \<Rightarrow> etcd_request" where
  "batch_txn_inline b cfg current toBeWritten ds =
     (let currentChainKey = chainKey cfg (itemId current) in
      Txn (MOD_EQUAL currentChainKey (revision current) #
           map (\<lambda>x. VERSION_EQUAL (chainKey cfg (itemId x)) 0) toBeWritten)
          (Put currentChainKey (serialize b (mapSerializer b)
             (case data current of Some x \<Rightarrow> x | None \<Rightarrow> emptyData b, itemId (toBeWritten ! 0))) #
           fold (overwrite_put b cfg) (zip toBeWritten ds) [])
          [])"

text \<open>The copies in Redis after a batch: the current item, then each new item but the last.\<close>

definition after_batch :: "('e, 's, 'd) backing \<Rightarrow> EtcdChainConfiguration \<Rightarrow> int \<Rightarrow> 'd ChainItem \<Rightarrow> 'd ChainItem list
    \<Rightarrow> 'd list \<Rightarrow> ('e, 's) process \<Rightarrow> ('e, 's) process" where
  "after_batch b cfg mrev current toBeWritten ds p =
     (let p = after_append b cfg mrev current (itemId (toBeWritten ! 0)) p in
      if automaticallyDuplicateToRedis cfg
      then fold (\<lambda>ii. duplicateToRedis b cfg mrev (itemId (toBeWritten ! ii)) (ds ! ii) (itemId (toBeWritten ! (ii + 1))))
             [0..<length toBeWritten - 1] p
      else p)"

definition appendAfterAll :: "('e, 's, 'd) backing \<Rightarrow> EtcdChainConfiguration \<Rightarrow> 'd ChainItem \<Rightarrow> 'd ChainItem list
    \<Rightarrow> (('e, 's) process, etcd_error, bool) call" where
  "appendAfterAll b cfg current toBeWritten p =
     (if toBeWritten = [] then (Inr True, p)
      else if length toBeWritten = 1 then appendAfter b cfg current (toBeWritten ! 0) p
      else if nextID current \<noteq> '''' then (Inr False, p)
      else if data (toBeWritten ! 0) = None then
        (Inl (EtcdChainException ''Cannot append new items whose first data is empty''), p)
      else if nextID (last toBeWritten) \<noteq> '''' then
        (Inl (EtcdChainException ''Cannot append new items whose last nextID is already non-empty''), p)
      else (case all_data toBeWritten of
          None \<Rightarrow> (Inl UndefinedBehaviour, p)
        | Some ds \<Rightarrow>
            (case call_etcd b (if saveDataOnSeparateStorage cfg then batch_txn_separate b cfg current toBeWritten ds
                               else batch_txn_inline b cfg current toBeWritten ds) p of
               ((True, rs), p') \<Rightarrow>
                 (Inr True, after_batch b cfg (put_revision (rs ! (length rs - 1))) current toBeWritten ds p')
             | ((False, rs), p') \<Rightarrow> (Inr False, p'))))"

definition saveExtraData :: "('e, 's, 'd) backing \<Rightarrow> EtcdChainConfiguration \<Rightarrow> 'x serializer \<Rightarrow> string \<Rightarrow> 'x
    \<Rightarrow> ('e, 's) process \<Rightarrow> ('e, 's) process" where
  "saveExtraData b cfg cx key x p =
     snd (call_etcd b (PutRequest (extraDataKey cfg key) (serialize b cx x)) p)"

definition loadExtraData :: "('e, 's, 'd) backing \<Rightarrow> EtcdChainConfiguration \<Rightarrow> 'x serializer \<Rightarrow> string
    \<Rightarrow> ('e, 's) process \<Rightarrow> 'x option \<times> ('e, 's) process" where
  "loadExtraData b cfg cx key p =
     (case get_range b (extraDataKey cfg key) p of
        ([], p') \<Rightarrow> (None, p')
      | ((v, _) # _, p') \<Rightarrow> (parseEtcdData b cx v, p'))"

definition formChainItem :: "string \<Rightarrow> 'd \<Rightarrow> 'd ChainItem" where
  "formChainItem i d = \<lparr>revision = 0, itemId = i, data = Some d, nextID = ''''\<rparr>"

definition push_item :: "'d ChainItem list \<Rightarrow> string \<times> 'd \<Rightarrow> 'd ChainItem list" where
  "push_item ret x =
     (if ret = [] then ret else ret[length ret - 1 := (last ret)\<lparr>nextID := fst x\<rparr>])
     @ [formChainItem (fst x) (snd x)]"

definition formChainItems :: "(string \<times> 'd) list \<Rightarrow> 'd ChainItem list" where
  "formChainItems ds = foldl push_item [] ds"

definition extractStorageID :: "'d ChainItem \<Rightarrow> string" where
  "extractStorageID p = itemId p"

definition extractData :: "'d ChainItem \<Rightarrow> 'd option" where
  "extractData p = data p"

section \<open>The watch thread\<close>

text \<open>
  One turn of the loop of \<open>runWatchThread\<close>: what the completion queue reports, and what the thread then does. A
  completed read carries the number of events and the revision of the header of the response.
\<close>

datatype completion = SHUTDOWN | TIMEOUT | GOT_EVENT int bool nat int

datatype watch_action = StartCall int | StartWrite int | StartRead int | StartWritesDone int | CallTrigger | NotifyAll

record watch_state =
  watchThreadRunning :: bool
  watchedRevision :: int
  updateTriggerFunc :: bool

definition watch_read :: "watch_state \<Rightarrow> nat \<Rightarrow> int \<Rightarrow> watch_state \<times> watch_action list" where
  "watch_read w events_size header_revision =
     (if events_size > 0
      then (w\<lparr>watchedRevision := header_revision\<rparr>,
            (if updateTriggerFunc w then [CallTrigger] else []) @ [NotifyAll, StartRead 3])
      else (w, [StartRead 3]))"

definition watch_turn :: "watch_state \<Rightarrow> completion \<Rightarrow> watch_state \<times> watch_action list" where
  "watch_turn w ev =
     (if \<not> watchThreadRunning w then (w, [])
      else (case ev of
          SHUTDOWN \<Rightarrow> (w\<lparr>watchThreadRunning := False\<rparr>, [])
        | TIMEOUT \<Rightarrow> (w, [])
        | GOT_EVENT tag ok events_size header_revision \<Rightarrow>
            if \<not> ok then (w\<lparr>watchThreadRunning := False\<rparr>, [])
            else if tag = 1 then (w, [StartWrite 2, StartRead 3])
            else if tag = 2 then (w, [StartWritesDone 4])
            else if tag = 3 then watch_read w events_size header_revision
            else (w, [])))"

text \<open>The thread's beginning: the flag is set and the stream is opened with tag 1.\<close>

definition watch_start :: "watch_state \<Rightarrow> watch_state \<times> watch_action list" where
  "watch_start w = (w\<lparr>watchThreadRunning := True\<rparr>, [StartCall 1])"

definition setUpdateTriggerFunc :: "bool \<Rightarrow> (watch_state, etcd_error, watch_action list) call" where
  "setUpdateTriggerFunc f w =
     (if updateTriggerFunc w then
        (Inl (EtcdChainException ''Duplicate attempt to set update trigger function for EtcdChain''), w)
      else (Inr (if f then [CallTrigger] else []), w\<lparr>updateTriggerFunc := f\<rparr>))"

section \<open>The server\<close>

text \<open>
  What etcd documents: comparisons are made against one state, the operations of the branch taken are done in order, all writes
  of a transaction share one new revision, an absent key has version and modification revision 0. A transaction that
  puts one key twice is refused.
\<close>

fun compare_holds :: "etcd_view \<Rightarrow> etcd_compare \<Rightarrow> bool" where
  "compare_holds w (VERSION_GREATER k n) = ((case w k of None \<Rightarrow> 0 | Some (_, _, ver) \<Rightarrow> ver) > n)"
| "compare_holds w (VERSION_EQUAL k n) = ((case w k of None \<Rightarrow> 0 | Some (_, _, ver) \<Rightarrow> ver) = n)"
| "compare_holds w (VALUE_EQUAL k v) = (case w k of None \<Rightarrow> False | Some (x, _, _) \<Rightarrow> x = v)"
| "compare_holds w (MOD_EQUAL k n) = ((case w k of None \<Rightarrow> 0 | Some (_, m, _) \<Rightarrow> m) = n)"

definition range_response :: "etcd_view \<Rightarrow> string \<Rightarrow> etcd_response" where
  "range_response w k = RangeResponse (case w k of None \<Rightarrow> [] | Some (v, m, _) \<Rightarrow> [(v, m)])"

definition view_put :: "int \<Rightarrow> string \<Rightarrow> string \<Rightarrow> etcd_view \<Rightarrow> etcd_view" where
  "view_put mrev k v w = w(k \<mapsto> (v, mrev, (case w k of None \<Rightarrow> 0 | Some (_, _, ver) \<Rightarrow> ver) + 1))"

fun run_ops :: "int \<Rightarrow> etcd_op list \<Rightarrow> etcd_view \<Rightarrow> etcd_response list \<times> etcd_view" where
  "run_ops mrev [] w = ([], w)"
| "run_ops mrev (Put k v # ops) w = (case run_ops mrev ops (view_put mrev k v w) of (rs, w') \<Rightarrow> (PutResponse mrev # rs, w'))"
| "run_ops mrev (Range k # ops) w = (case run_ops mrev ops w of (rs, w') \<Rightarrow> (range_response w k # rs, w'))"

fun documented :: "etcd_request \<Rightarrow> int \<Rightarrow> etcd_view \<Rightarrow> (bool \<times> etcd_response list) \<times> etcd_view" where
  "documented (Txn cs ss fs) mrev w =
     (let b = list_all (compare_holds w) cs; (rs, w') = run_ops mrev (if b then ss else fs) w in ((b, rs), w'))"
| "documented (RangeRequest k) mrev w = ((True, [range_response w k]), w)"
| "documented (PutRequest k v) mrev w = ((True, [PutResponse mrev]), view_put mrev k v w)"

fun put_keys :: "etcd_op list \<Rightarrow> string list" where
  "put_keys [] = []"
| "put_keys (Put k v # ops) = k # put_keys ops"
| "put_keys (Range k # ops) = put_keys ops"

fun accepted :: "etcd_request \<Rightarrow> bool" where
  "accepted (Txn cs ss fs) \<longleftrightarrow> distinct (put_keys ss) \<and> distinct (put_keys fs)"
| "accepted (RangeRequest k) \<longleftrightarrow> True"
| "accepted (PutRequest k v) \<longleftrightarrow> True"

text \<open>
  \<open>rely\<close> bounds what the other clients do between two of our requests; a call that fails may or may not have had its
  effect.
\<close>

locale etcd_server =
  fixes E :: "'e etcd"
    and rely :: "etcd_view \<Rightarrow> etcd_view \<Rightarrow> bool"
  assumes version_positive: "view E e k = Some (v, m, ver) \<Longrightarrow> ver > 0"
    and rpc_cases: "accepted q \<Longrightarrow> \<exists>e1 mrev. rely (view E e) (view E e1) \<and>
      (fst (rpc E q e) = None \<and> view E (snd (rpc E q e)) \<in> {view E e1, snd (documented q mrev (view E e1))} \<or>
       fst (rpc E q e) = Some (fst (documented q mrev (view E e1))) \<and>
         view E (snd (rpc E q e)) = snd (documented q mrev (view E e1)))"
    and rpc_refused: "\<not> accepted q \<Longrightarrow> \<exists>e1. rely (view E e) (view E e1) \<and>
      fst (rpc E q e) = None \<and> view E (snd (rpc E q e)) = view E e1"

text \<open>The values of the keys, without revisions and versions.\<close>

definition kv_of :: "etcd_view \<Rightarrow> string \<Rightarrow> string option" where
  "kv_of w k = map_option fst (w k)"

lemma kv_of_put [simp]: "kv_of (view_put mrev k v w) = (kv_of w)(k \<mapsto> v)"
  by (auto simp: kv_of_def view_put_def fun_eq_iff)

definition separate_configuration :: "EtcdChainConfiguration \<Rightarrow> bool" where
  "separate_configuration cfg \<longleftrightarrow> good_configuration cfg \<and> saveDataOnSeparateStorage cfg \<and> \<not> useWatchThread cfg \<and>
     \<not> duplicateFromRedis cfg"

definition item_place :: "EtcdChainConfiguration \<Rightarrow> 'd entry list \<Rightarrow> nat \<Rightarrow> 'd ChainItem \<Rightarrow> bool" where
  "item_place cfg xs n i \<longleftrightarrow> n \<le> length xs \<and> itemId i = chain_ids cfg xs ! n \<and>
     (nextID i = '''' \<or> n < length xs \<and> nextID i = fst (xs ! n))"

definition item_content :: "'d ChainItem \<Rightarrow> 'd entry option" where
  "item_content i = map_option (Pair (itemId i)) (data i)"

lemma etcd_item_place_extend: "item_place cfg xs n i \<Longrightarrow> item_place cfg (xs @ ys) n i"
  by (auto simp: item_place_def chain_ids_append nth_append)

text \<open>
  Appending needs that the data has keys of its own; reading moreover that neither the watch thread nor the copies in Redis are used.
\<close>

locale etcd_store = etcd_server "etcdServer b" "\<lambda>w w'. chain_grows cfg (parseEtcdData b (dataSerializer b)) (kv_of w) (kv_of w')" +
    hooked "dataSerializer b" "hookPair b"
  for b :: "('e, 's, 'd) backing" and cfg :: EtcdChainConfiguration +
  assumes good_cfg: "good_configuration cfg" and separate: "saveDataOnSeparateStorage cfg"
begin

abbreviation keys_of :: "('e, 's) process \<Rightarrow> string \<Rightarrow> string option" where
  "keys_of p \<equiv> kv_of (view (etcdServer b) (etcdState p))"

abbreviation holds :: "('e, 's) process \<Rightarrow> 'd entry list \<Rightarrow> bool" where
  "holds p xs \<equiv> kv_chain cfg (parseEtcdData b (dataSerializer b)) (keys_of p) xs"

definition answers :: bool where
  "answers \<longleftrightarrow> (\<forall>q e. accepted q \<longrightarrow> fst (rpc (etcdServer b) q e) \<noteq> None)"

text \<open>A request is answered, or looks unanswered, in a state to which the chain has grown.\<close>

lemma call_grown_at:
  assumes "holds p xs" "accepted q" "call_etcd b q p = (rsp, p')"
  obtains ys ev mrev where "kv_chain cfg (parseEtcdData b (dataSerializer b)) (kv_of (view (etcdServer b) ev)) (xs @ ys)"
    "headKeyStr p' = headKeyStr p"
    "rsp = (False, []) \<and> \<not> answers \<and>
       view (etcdServer b) (etcdState p') \<in> {view (etcdServer b) ev, snd (documented q mrev (view (etcdServer b) ev))} \<or>
     rsp = fst (documented q mrev (view (etcdServer b) ev)) \<and>
       view (etcdServer b) (etcdState p') = snd (documented q mrev (view (etcdServer b) ev))"
proof -
  obtain ev mrev where *: "chain_grows cfg (parseEtcdData b (dataSerializer b)) (keys_of p) (kv_of (view (etcdServer b) ev))"
    "fst (rpc (etcdServer b) q (etcdState p)) = None \<and> view (etcdServer b) (snd (rpc (etcdServer b) q (etcdState p))) \<in>
        {view (etcdServer b) ev, snd (documented q mrev (view (etcdServer b) ev))} \<or>
     fst (rpc (etcdServer b) q (etcdState p)) = Some (fst (documented q mrev (view (etcdServer b) ev))) \<and>
       view (etcdServer b) (snd (rpc (etcdServer b) q (etcdState p))) = snd (documented q mrev (view (etcdServer b) ev))"
    using rpc_cases [OF assms(2)] by blast
  moreover from *(1) assms(1) obtain ys where
    "kv_chain cfg (parseEtcdData b (dataSerializer b)) (kv_of (view (etcdServer b) ev)) (xs @ ys)"
    unfolding chain_grows_def by blast
  moreover obtain o' e' where "rpc (etcdServer b) q (etcdState p) = (o', e')"
    by (cases "rpc (etcdServer b) q (etcdState p)")
  moreover have "answers \<Longrightarrow> o' \<noteq> None"
    using assms(2) calculation(4) by (metis answers_def fst_conv)
  ultimately show thesis
    using assms(3) by (intro that [where ys = ys and ev = ev and mrev = mrev]; cases o') (auto simp: call_etcd_def)
qed

lemma call_grown:
  assumes "holds p xs" "accepted q" "call_etcd b q p = (rsp, p')"
  obtains ys w mrev where "kv_chain cfg (parseEtcdData b (dataSerializer b)) (kv_of w) (xs @ ys)"
    "headKeyStr p' = headKeyStr p"
    "rsp = (False, []) \<and> \<not> answers \<and> view (etcdServer b) (etcdState p') \<in> {w, snd (documented q mrev w)} \<or>
     rsp = fst (documented q mrev w) \<and> view (etcdServer b) (etcdState p') = snd (documented q mrev w)"
  using call_grown_at [OF assms] by metis

text \<open>A request that puts a key twice is refused.\<close>

lemma call_refused:
  assumes "holds p xs" "\<not> accepted q" "call_etcd b q p = (rsp, p')"
  obtains ys where "holds p' (xs @ ys)" "headKeyStr p' = headKeyStr p" "rsp = (False, [])"
proof -
  obtain e1 where "chain_grows cfg (parseEtcdData b (dataSerializer b)) (keys_of p) (kv_of (view (etcdServer b) e1))"
    "fst (rpc (etcdServer b) q (etcdState p)) = None"
    "view (etcdServer b) (snd (rpc (etcdServer b) q (etcdState p))) = view (etcdServer b) e1"
    using rpc_refused [OF assms(2)] by blast
  moreover from this(1) assms(1) obtain ys where
    "kv_chain cfg (parseEtcdData b (dataSerializer b)) (kv_of (view (etcdServer b) e1)) (xs @ ys)"
    unfolding chain_grows_def by blast
  moreover obtain o' e' where "rpc (etcdServer b) q (etcdState p) = (o', e')"
    by (cases "rpc (etcdServer b) q (etcdState p)")
  ultimately show thesis
    using assms(3) by (intro that [where ys = ys]) (auto simp: call_etcd_def)
qed

end

locale etcd_chain = etcd_store b cfg
  for b :: "('e, 's, 'd) backing" and cfg :: EtcdChainConfiguration +
  assumes plain_cfg: "\<not> useWatchThread cfg" "\<not> duplicateFromRedis cfg"
begin

lemma separate_cfg: "separate_configuration cfg"
  using good_cfg separate plain_cfg by (simp add: separate_configuration_def)

end

context etcd_chain
begin

lemmas nul_free_keys = good_keys_nul_free [OF good_cfg]

lemma get_range_grown:
  assumes "holds p xs" "get_range b k p = (kvs, p')"
  shows "\<exists>ys. holds p' (xs @ ys) \<and> headKeyStr p' = headKeyStr p \<and>
    (kvs = [] \<and> (answers \<longrightarrow> keys_of p' k = None) \<or> (\<exists>v m. kvs = [(v, m)] \<and> keys_of p' k = Some v))"
proof -
  obtain rsp where c: "call_etcd b (RangeRequest k) p = (rsp, p')"
    using assms(2) by (auto simp: get_range_def split: prod.splits)
  have "accepted (RangeRequest k)" by simp
  from call_grown [OF assms(1) this c] obtain ys w mrev where
    ys: "kv_chain cfg (parseEtcdData b (dataSerializer b)) (kv_of w) (xs @ ys)" "headKeyStr p' = headKeyStr p"
    "rsp = (False, []) \<and> \<not> answers \<and> view (etcdServer b) (etcdState p') \<in> {w, snd (documented (RangeRequest k) mrev w)} \<or>
     rsp = fst (documented (RangeRequest k) mrev w) \<and>
       view (etcdServer b) (etcdState p') = snd (documented (RangeRequest k) mrev w)" .
  from ys(3) have "rsp = (False, []) \<and> \<not> answers \<and> view (etcdServer b) (etcdState p') = w \<or>
     rsp = (True, [range_response w k]) \<and> view (etcdServer b) (etcdState p') = w" by auto
  note * = ys(1,2) this
  have kvs: "kvs = (case snd rsp of [] \<Rightarrow> [] | r # _ \<Rightarrow> range_kvs r)"
    using assms(2) c by (cases rsp) (simp add: get_range_def)
  from *(3) have "kvs = [] \<and> (answers \<longrightarrow> keys_of p' k = None) \<or> (\<exists>v m. kvs = [(v, m)] \<and> keys_of p' k = Some v)"
    by (cases "w k") (auto simp: kvs range_response_def kv_of_def split: prod.splits)
  moreover have "holds p' (xs @ ys)" using * by auto
  ultimately show ?thesis using *(2) by blast
qed

lemma link_grown:
  assumes "holds p xs" "link_separate b cfg i p = (res, p')"
  shows "\<exists>ys. holds p' (xs @ ys) \<and> headKeyStr p' = headKeyStr p \<and>
    (\<forall>v. res = Inr v \<longrightarrow> keys_of p' (chainKey cfg i) = Some v) \<and>
    (answers \<longrightarrow> (\<forall>e. res = Inl e \<longrightarrow> keys_of p' (chainKey cfg i) = None))"
proof -
  obtain kvs where g: "get_range b (chainKey cfg i) p = (kvs, p')"
    using assms(2) by (auto simp: link_separate_def split: prod.splits list.splits)
  from get_range_grown [OF assms(1) this] show ?thesis
    using assms(2) g by (auto simp: link_separate_def)
qed

lemma load_grown:
  assumes xs: "holds p xs" "n < length xs" and load: "load_separate b cfg what refused (fst (xs ! n)) p = (res, p')"
  shows "\<exists>ys. holds p' (xs @ ys) \<and> headKeyStr p' = headKeyStr p \<and> (answers \<longrightarrow> (\<exists>j. res = Inr j)) \<and>
    (\<forall>j. res = Inr j \<longrightarrow> item_place cfg (xs @ ys) (Suc n) j \<and> item_content j = Some (xs ! n))"
proof -
  let ?i = "fst (xs ! n)" let ?q = "Txn [] [Range (chainKey cfg ?i), Range (dataKey cfg ?i)] []"
  obtain rsp where c: "call_etcd b ?q p = (rsp, p')"
    using load by (auto simp: load_separate_def Let_def split: prod.splits if_splits list.splits)
  have "accepted ?q" by simp
  from call_grown [OF xs(1) this c] obtain ys w mrev where
    ys: "kv_chain cfg (parseEtcdData b (dataSerializer b)) (kv_of w) (xs @ ys)" "headKeyStr p' = headKeyStr p"
    "rsp = (False, []) \<and> \<not> answers \<and> view (etcdServer b) (etcdState p') \<in> {w, snd (documented ?q mrev w)} \<or>
     rsp = fst (documented ?q mrev w) \<and> view (etcdServer b) (etcdState p') = snd (documented ?q mrev w)" .
  from ys(3) have v: "view (etcdServer b) (etcdState p') = w"
    "rsp = (False, []) \<and> \<not> answers \<or> rsp = (True, [range_response w (chainKey cfg ?i), range_response w (dataKey cfg ?i)])"
    by auto
  note w = ys(1,2) v
  have id: "chain_ids cfg (xs @ ys) ! Suc n = ?i" "(xs @ ys) ! n = xs ! n"
    using xs(2) by (simp_all add: chain_ids_def nth_append)
  define nx where "nx = (if Suc n < length (xs @ ys) then fst ((xs @ ys) ! Suc n) else '''')"
  have "kv_of w (chainKey cfg ?i) = Some nx"
    using link_of [OF w(1), of "Suc n"] xs(2) id by (simp add: nx_def)
  then obtain m ver where link: "w (chainKey cfg ?i) = Some (nx, m, ver)"
    by (auto simp: kv_of_def)
  have "Option.bind (kv_of w (dataKey cfg ?i)) (parseEtcdData b (dataSerializer b)) = Some (snd (xs ! n))"
    using data_of [OF w(1), of n] xs(2) id by simp
  then obtain v m' ver' where dat: "w (dataKey cfg ?i) = Some (v, m', ver')" "parseEtcdData b (dataSerializer b) v = Some (snd (xs ! n))"
    by (cases "w (dataKey cfg ?i)") (auto simp: kv_of_def)
  from w(4) have "(\<exists>e. res = Inl e) \<and> \<not> answers \<or>
      res = Inr \<lparr>revision = m', itemId = ?i, data = Some (snd (xs ! n)), nextID = nx\<rparr>"
    using load c link dat by (auto simp: load_separate_def Let_def range_response_def)
  then show ?thesis
    using w xs(2) id by (intro exI [of _ ys]) (auto simp: item_place_def item_content_def nx_def split: if_splits)
qed

lemma fetch_grown:
  assumes xs: "holds p xs" "item_place cfg xs n i" and fetch: "fetchNext b cfg i p = (res, p')"
  shows "\<exists>ys. holds p' (xs @ ys) \<and> headKeyStr p' = headKeyStr p \<and> (answers \<longrightarrow> (\<exists>o'. res = Inr o')) \<and>
    (res = Inr None \<longrightarrow> n = length xs) \<and>
    (\<forall>j. res = Inr (Some j) \<longrightarrow> n < length (xs @ ys) \<and> item_place cfg (xs @ ys) (Suc n) j \<and>
      item_content j = Some ((xs @ ys) ! n))"
proof -
  have n: "n \<le> length xs" "itemId i = chain_ids cfg xs ! n"
    using xs(2) by (auto simp: item_place_def)
  let ?link = "if nextID i = '''' then link_separate b cfg (itemId i) else returnS (nextID i)"
  have link: "\<exists>ys. holds t (xs @ ys) \<and> headKeyStr t = headKeyStr p \<and> (answers \<longrightarrow> (\<exists>l. o' = Inr l)) \<and>
      (\<forall>l. o' = Inr l \<longrightarrow> l = (if n < length (xs @ ys) then fst ((xs @ ys) ! n) else ''''))" if "?link p = (o', t)" for o' t
  proof (cases "nextID i = ''''")
    case True
    then have "link_separate b cfg (itemId i) p = (o', t)" using that by simp
    from link_grown [OF xs(1) this] obtain ys where ys: "holds t (xs @ ys)" "headKeyStr t = headKeyStr p"
      "\<forall>v. o' = Inr v \<longrightarrow> keys_of t (chainKey cfg (itemId i)) = Some v"
      "answers \<longrightarrow> (\<forall>e. o' = Inl e \<longrightarrow> keys_of t (chainKey cfg (itemId i)) = None)" by blast
    have "keys_of t (chainKey cfg (itemId i)) = Some (if n < length (xs @ ys) then fst ((xs @ ys) ! n) else '''')"
      using link_of [OF ys(1), of n] n by (simp add: chain_ids_append nth_append)
    then show ?thesis
      using ys by (intro exI [of _ ys]) (cases o'; auto)
  next
    case False
    then show ?thesis
      using that xs by (intro exI [of _ "[]"]) (auto simp: returnS_def item_place_def)
  qed
  have "fetch_stored b cfg i p = (res, p')"
    using fetch separate_cfg by (simp add: fetchNext_def separate_configuration_def)
  then have "bindS ?link (\<lambda>nx. if nx = '''' then returnS None
      else bindS (load_separate b cfg ''FetchNext'' (EtcdChainException (''Fetch Error! No record for '' @ chainKey cfg nx)) nx)
        (\<lambda>item. returnS (Some item))) p = (res, p')"
    using separate_cfg by (simp only: fetch_stored_def separate_configuration_def if_True)
  then show ?thesis
  proof (cases rule: bindS_cases)
    case (throw e)
    then show ?thesis using link [OF throw(1)] by auto
  next
    case (go l t)
    from link [OF go(1)] obtain ys where ys: "holds t (xs @ ys)" "headKeyStr t = headKeyStr p"
      "l = (if n < length (xs @ ys) then fst ((xs @ ys) ! n) else '''')" by blast
    show ?thesis
    proof (cases "n < length (xs @ ys)")
      case False
      then have "n = length xs" "res = Inr None" "p' = t"
        using go(2) ys(3) n(1) by (auto simp: returnS_def)
      then show ?thesis using ys(1,2) by (intro exI [of _ ys]) simp
    next
      case True
      let ?load = "load_separate b cfg ''FetchNext'' (EtcdChainException (''Fetch Error! No record for '' @ chainKey cfg l)) l"
      have "bindS ?load (\<lambda>item. returnS (Some item)) t = (res, p')"
        using go(2) ys(3) True id_nonempty [OF ys(1) True] by simp
      then show ?thesis
      proof (cases rule: bindS_cases)
        case (throw e)
        then have "load_separate b cfg ''FetchNext'' (EtcdChainException (''Fetch Error! No record for '' @ chainKey cfg l))
          (fst ((xs @ ys) ! n)) t = (Inl e, p')" using ys(3) True by simp
        from load_grown [OF ys(1) True this] obtain zs where "holds p' (xs @ ys @ zs)" "headKeyStr p' = headKeyStr t" "\<not> answers"
          by auto
        then show ?thesis
          using ys(2) throw(2) by (intro exI [of _ "ys @ zs"]) simp
      next
        case (go j u)
        then have "load_separate b cfg ''FetchNext'' (EtcdChainException (''Fetch Error! No record for '' @ chainKey cfg l))
          (fst ((xs @ ys) ! n)) t = (Inr j, u)" using ys(3) True by simp
        from load_grown [OF ys(1) True this] obtain zs where zs: "holds u ((xs @ ys) @ zs)" "headKeyStr u = headKeyStr t"
          "item_place cfg ((xs @ ys) @ zs) (Suc n) j" "item_content j = Some ((xs @ ys) ! n)" by blast
        have "p' = u" "res = Inr (Some j)" using go(2) by (auto simp: returnS_def)
        then show ?thesis
          using zs True ys(2) by (intro exI [of _ "ys @ zs"]) (auto simp: nth_append)
      qed
    qed
  qed
qed

end

section \<open>The transactions of \<open>appendAfter\<close>\<close>

text \<open>The items \<open>formChainItems\<close> makes.\<close>

fun items_of :: "'d entry list \<Rightarrow> 'd ChainItem list" where
  "items_of [] = []"
| "items_of ((i, d) # ds) =
     \<lparr>revision = 0, itemId = i, data = Some d, nextID = (case ds of [] \<Rightarrow> '''' | e # es \<Rightarrow> fst e)\<rparr> # items_of ds"

lemma etcd_push_items: "foldl push_item (ret @ [formChainItem i d]) ds = ret @ items_of ((i, d) # ds)"
proof (induction ds arbitrary: ret i d)
  case (Cons e ds)
  obtain j x where e: "e = (j, x)" by (cases e)
  have "foldl push_item (ret @ [formChainItem i d]) (e # ds) =
      foldl push_item ((ret @ [\<lparr>revision = 0, itemId = i, data = Some d, nextID = j\<rparr>]) @ [formChainItem j x]) ds"
    by (simp add: e push_item_def formChainItem_def)
  also have "\<dots> = (ret @ [\<lparr>revision = 0, itemId = i, data = Some d, nextID = j\<rparr>]) @ items_of ((j, x) # ds)"
    by (rule Cons.IH)
  finally show ?case by (simp add: e)
qed (simp add: formChainItem_def)

lemma etcd_formChainItems_items: "formChainItems ds = items_of ds"
proof (cases ds)
  case (Cons e es)
  then show ?thesis
    using etcd_push_items [of "[]" "fst e" "snd e" es] by (simp add: formChainItems_def push_item_def)
qed (simp add: formChainItems_def)

lemma etcd_length_items [simp]: "length (items_of ds) = length ds"
  by (induction ds rule: items_of.induct) auto

lemma etcd_items_Nil [simp]: "items_of ds = [] \<longleftrightarrow> ds = []"
  by (cases ds rule: items_of.cases) simp_all

lemma etcd_all_data_items [simp]: "all_data (items_of ds) = Some (map snd ds)"
  by (induction ds rule: items_of.induct) auto

lemma etcd_last_items: "ds \<noteq> [] \<Longrightarrow> nextID (last (items_of ds)) = ''''"
proof (induction ds rule: items_of.induct)
  case (2 i d ds)
  then show ?case by (cases ds) auto
qed simp

lemma hd_items: "ds \<noteq> [] \<Longrightarrow> itemId (items_of ds ! 0) = fst (hd ds) \<and> data (items_of ds ! 0) = Some (snd (hd ds))"
  by (cases ds rule: items_of.cases) simp_all

lemma fst_run_ops_Cons: "snd (run_ops mrev (Put k v # ops) w) = snd (run_ops mrev ops (view_put mrev k v w))"
  by (simp split: prod.splits)

text \<open>The writes of a batch in the key-value store.\<close>

lemma run_puts_links:
  "kv_of (snd (run_ops mrev (concat (map (\<lambda>(x, d). [Put (dataKey cfg (itemId x)) (ser d), Put (chainKey cfg (itemId x)) (nextID x)])
     (zip (items_of ds) (map snd ds)))) w)) = kv_links cfg ser ds (kv_of w)"
  by (induction ds arbitrary: w rule: items_of.induct) (simp_all add: fst_run_ops_Cons del: run_ops.simps(2))

lemma items_tests:
  "list_all (compare_holds w) (concat (map (\<lambda>x. [VERSION_EQUAL (dataKey cfg (itemId x)) 0, VERSION_EQUAL (chainKey cfg (itemId x)) 0]) (items_of ds)))
    \<longleftrightarrow> (\<forall>i \<in> fst ` set ds. compare_holds w (VERSION_EQUAL (dataKey cfg i) 0) \<and> compare_holds w (VERSION_EQUAL (chainKey cfg i) 0))"
  by (induction ds rule: items_of.induct) auto

lemma put_keys_append: "put_keys (xs @ ys) = put_keys xs @ put_keys ys"
  by (induction xs rule: put_keys.induct) auto

lemma put_keys_items:
  "put_keys (concat (map (\<lambda>(x, d). [Put (dataKey cfg (itemId x)) (ser d), Put (chainKey cfg (itemId x)) (nextID x)])
     (zip (items_of ds) (map snd ds)))) = concat (map (\<lambda>i. [dataKey cfg i, chainKey cfg i]) (map fst ds))"
  by (induction ds rule: items_of.induct) auto

lemma distinct_item_keys:
  assumes "good_configuration cfg" "distinct is"
  shows "distinct (concat (map (\<lambda>i. [dataKey cfg i, chainKey cfg i]) is))"
  using assms(2)
proof (induction "is")
  case (Cons i "is")
  have "dataKey cfg i \<noteq> chainKey cfg j" "chainKey cfg j \<noteq> dataKey cfg i" for i j
    using keys_apart [OF assms(1)] by metis+
  then show ?case using Cons by auto
qed simp

context etcd_store
begin

text \<open>
  \<open>writes q zs ds n\<close>: the request, made on a store that holds \<open>zs\<close>, adds \<open>ds\<close> when the item it appends to is the last one
  and no identifier is taken, and otherwise fails and changes nothing.
\<close>

definition writes :: "etcd_request \<Rightarrow> etcd_view \<Rightarrow> 'd entry list \<Rightarrow> 'd entry list \<Rightarrow> nat \<Rightarrow> bool" where
  "writes q w zs ds n \<longleftrightarrow>
     (\<forall>mrev. if n = length zs \<and> fst ` set ds \<inter> fst ` set zs = {}
      then fst (fst (documented q mrev w)) \<and>
        kv_chain cfg (parseEtcdData b (dataSerializer b)) (kv_of (snd (documented q mrev w))) (zs @ ds) \<and>
        kv_of (snd (documented q mrev w)) = kv_appends cfg (serialize b (dataSerializer b)) (chain_ids cfg zs ! n) ds (kv_of w)
      else \<not> fst (fst (documented q mrev w)) \<and> snd (documented q mrev w) = w)"

lemma parse_serialize: "parseEtcdData b (dataSerializer b) (serialize b (dataSerializer b) d) = Some d"
  by (simp add: parseEtcdData_def serialize_def hook_roundtrip)

text \<open>
  Both transactions write so: \<open>tests\<close> is the conjunction of their comparisons, \<open>puts\<close> the store after them.
\<close>

lemma txn_writes:
  assumes zs: "kv_chain cfg (parseEtcdData b (dataSerializer b)) (kv_of (view (etcdServer b) e)) zs" "n \<le> length zs" "can_write cfg ds" "ds \<noteq> []"
    and tests: "list_all (compare_holds (view (etcdServer b) e)) cs \<longleftrightarrow>
      compare_holds (view (etcdServer b) e) (VALUE_EQUAL (chainKey cfg (chain_ids cfg zs ! n)) '''') \<and>
      (\<forall>i \<in> fst ` set ds. compare_holds (view (etcdServer b) e) (VERSION_EQUAL (dataKey cfg i) 0) \<and>
        compare_holds (view (etcdServer b) e) (VERSION_EQUAL (chainKey cfg i) 0))"
    and puts: "\<And>mrev. kv_of (snd (run_ops mrev ss (view (etcdServer b) e))) =
      kv_appends cfg (serialize b (dataSerializer b)) (chain_ids cfg zs ! n) ds (kv_of (view (etcdServer b) e))"
  shows "writes (Txn cs ss []) (view (etcdServer b) e) zs ds n"
proof -
  let ?w = "view (etcdServer b) e"
  have absent: "compare_holds ?w (VERSION_EQUAL k 0) \<longleftrightarrow> kv_of ?w k = None" for k
    using version_positive [of e k] by (cases "?w k") (auto simp: kv_of_def)
  have empty: "compare_holds ?w (VALUE_EQUAL k v) \<longleftrightarrow> kv_of ?w k = Some v" for k v
    by (cases "?w k") (auto simp: kv_of_def)
  have t: "list_all (compare_holds ?w) cs \<longleftrightarrow> n = length zs \<and> fst ` set ds \<inter> fst ` set zs = {}"
    using test_fresh [OF zs(1-3)] unfolding tests absent empty by blast
  have "kv_chain cfg (parseEtcdData b (dataSerializer b))
      (kv_appends cfg (serialize b (dataSerializer b)) (chain_ids cfg zs ! length zs) ds (kv_of ?w)) (zs @ ds)"
    if "fst ` set ds \<inter> fst ` set zs = {}"
    by (rule kv_chain_appends [OF good_cfg parse_serialize zs(1,3) ids_apart [OF zs(3) that]])
  note chain = this
  have "fst (fst (documented (Txn cs ss []) mrev ?w)) = list_all (compare_holds ?w) cs"
    "snd (documented (Txn cs ss []) mrev ?w) = (if list_all (compare_holds ?w) cs then snd (run_ops mrev ss ?w) else ?w)" for mrev
    by (simp_all add: Let_def split: prod.splits)
  then show ?thesis
    using t puts chain unfolding writes_def
    by (cases "n = length zs \<and> fst ` set ds \<inter> fst ` set zs = {}") (simp_all del: documented.simps)
qed

end

context etcd_store
begin

lemma single_writes:
  assumes zs: "kv_chain cfg (parseEtcdData b (dataSerializer b)) (kv_of (view (etcdServer b) e)) zs" "n \<le> length zs" "can_write cfg [(i, d)]"
    and cur: "itemId cur = chain_ids cfg zs ! n"
  shows "writes (append_txn_separate b cfg cur i d) (view (etcdServer b) e) zs [(i, d)] n"
  unfolding append_txn_separate_def Let_def
  by (rule txn_writes [OF zs]) (auto simp: cur kv_append_def fst_run_ops_Cons simp del: run_ops.simps(2) compare_holds.simps)

lemma batch_writes:
  assumes zs: "kv_chain cfg (parseEtcdData b (dataSerializer b)) (kv_of (view (etcdServer b) e)) zs" "n \<le> length zs" "can_write cfg ds" "ds \<noteq> []"
    and cur: "itemId cur = chain_ids cfg zs ! n"
  shows "writes (batch_txn_separate b cfg cur (items_of ds) (map snd ds)) (view (etcdServer b) e) zs ds n"
  unfolding batch_txn_separate_def Let_def
proof (rule txn_writes [OF zs])
  show "kv_of (snd (run_ops mrev (Put (chainKey cfg (itemId cur)) (itemId (items_of ds ! 0)) #
      concat (map (\<lambda>(x, d). [Put (dataKey cfg (itemId x)) (serialize b (dataSerializer b) d), Put (chainKey cfg (itemId x)) (nextID x)])
        (zip (items_of ds) (map snd ds)))) (view (etcdServer b) e))) =
    kv_appends cfg (serialize b (dataSerializer b)) (chain_ids cfg zs ! n) ds (kv_of (view (etcdServer b) e))" for mrev
    using kv_links_appends [OF zs(4)] hd_items [OF zs(4)]
    by (simp only: fst_run_ops_Cons run_puts_links kv_of_put cur)
qed (simp add: items_tests cur del: compare_holds.simps)

lemma single_accepted:
  assumes "i \<noteq> itemId cur"
  shows "accepted (append_txn_separate b cfg cur i d)"
proof -
  have "dataKey cfg i \<noteq> chainKey cfg j" "chainKey cfg j \<noteq> dataKey cfg i" for i j
    using keys_apart [OF good_cfg] by metis+
  then show ?thesis using assms by (simp add: append_txn_separate_def Let_def)
qed

lemma batch_accepted:
  assumes "distinct (map fst ds)" "itemId cur \<notin> fst ` set ds"
  shows "accepted (batch_txn_separate b cfg cur (items_of ds) (map snd ds))"
proof -
  have ne: "dataKey cfg i \<noteq> chainKey cfg j" "chainKey cfg j \<noteq> dataKey cfg i" for i j
    using keys_apart [OF good_cfg] by metis+
  show ?thesis
    unfolding batch_txn_separate_def Let_def accepted.simps put_keys.simps put_keys_items
    using distinct_item_keys [OF good_cfg assms(1)] assms(2) ne by (auto simp: image_iff)
qed

text \<open>The outcome of a request that writes so.\<close>

lemma outcome:
  assumes xs: "holds p xs" and n: "n \<le> length xs" and call: "call_etcd b q p = (rsp, p')"
    and acc: "accepted q \<or> set (map fst ds) \<inter> set (map fst xs) \<noteq> {}"
    and w: "\<And>e ys. kv_chain cfg (parseEtcdData b (dataSerializer b)) (kv_of (view (etcdServer b) e)) (xs @ ys) \<Longrightarrow>
      writes q (view (etcdServer b) e) (xs @ ys) ds n"
  shows "\<exists>ys. headKeyStr p' = headKeyStr p \<and> (fst rsp \<longrightarrow> n = length (xs @ ys) \<and> holds p' (xs @ ys @ ds)) \<and>
    (\<not> fst rsp \<longrightarrow> holds p' (xs @ ys) \<and>
      (answers \<longrightarrow> n < length (xs @ ys) \<or> set (map fst ds) \<inter> set (map fst (xs @ ys)) \<noteq> {}))"
proof (cases "accepted q")
  case False
  from call_refused [OF xs False call] obtain ys where "holds p' (xs @ ys)" "headKeyStr p' = headKeyStr p" "rsp = (False, [])" .
  then show ?thesis using acc False by (intro exI [of _ ys]) auto
next
  case True
  from call_grown_at [OF xs True call] obtain ys ev mrev where
    *: "kv_chain cfg (parseEtcdData b (dataSerializer b)) (kv_of (view (etcdServer b) ev)) (xs @ ys)" "headKeyStr p' = headKeyStr p"
    "rsp = (False, []) \<and> \<not> answers \<and>
       view (etcdServer b) (etcdState p') \<in> {view (etcdServer b) ev, snd (documented q mrev (view (etcdServer b) ev))} \<or>
     rsp = fst (documented q mrev (view (etcdServer b) ev)) \<and>
       view (etcdServer b) (etcdState p') = snd (documented q mrev (view (etcdServer b) ev))" .
  note wr = w [OF *(1), unfolded writes_def, rule_format, of mrev]
  show ?thesis
  proof (cases "n = length (xs @ ys) \<and> fst ` set ds \<inter> fst ` set (xs @ ys) = {}")
    case yes: True
    have new: "fst (fst (documented q mrev (view (etcdServer b) ev)))"
      "kv_chain cfg (parseEtcdData b (dataSerializer b)) (kv_of (snd (documented q mrev (view (etcdServer b) ev)))) (xs @ ys @ ds)"
      using wr [unfolded if_P [OF yes] append_assoc] by blast+
    consider "rsp = (False, [])" "\<not> answers" "view (etcdServer b) (etcdState p') = view (etcdServer b) ev"
      | "rsp = (False, [])" "\<not> answers" "view (etcdServer b) (etcdState p') = snd (documented q mrev (view (etcdServer b) ev))"
      | "fst rsp" "view (etcdServer b) (etcdState p') = snd (documented q mrev (view (etcdServer b) ev))"
      using *(3) new(1) by auto
    then show ?thesis
    proof cases
      case 1
      then show ?thesis using *(1,2) by (intro exI [of _ ys]) simp
    next
      case 2
      then show ?thesis using *(2) new(2) by (intro exI [of _ "ys @ ds"]) simp
    next
      case 3
      then show ?thesis using *(2) new(2) yes by (intro exI [of _ ys]) simp
    qed
  next
    case False
    with wr have "\<not> fst (fst (documented q mrev (view (etcdServer b) ev))) \<and>
      snd (documented q mrev (view (etcdServer b) ev)) = view (etcdServer b) ev"
      by (simp only: if_False simp_thms)
    then have no: "\<not> fst (fst (documented q mrev (view (etcdServer b) ev)))"
      "snd (documented q mrev (view (etcdServer b) ev)) = view (etcdServer b) ev" by blast+
    have "\<not> fst rsp" "holds p' (xs @ ys)"
      using *(1,3) no by auto
    then show ?thesis using False *(2) n by (intro exI [of _ ys]) auto
  qed
qed

end

section \<open>The chain interface\<close>

definition write_items :: "('e, 's, 'd) backing \<Rightarrow> EtcdChainConfiguration \<Rightarrow> 'd ChainItem \<Rightarrow> 'd entry list
    \<Rightarrow> (('e, 's) process, etcd_error, bool) call" where
  "write_items b cfg i ds = appendAfterAll b cfg i (formChainItems ds)"

definition process_holds :: "('e, 's, 'd) backing \<Rightarrow> EtcdChainConfiguration \<Rightarrow> ('e, 's) process \<Rightarrow> 'd entry list \<Rightarrow> bool" where
  "process_holds b cfg p xs \<longleftrightarrow>
     kv_chain cfg (parseEtcdData b (dataSerializer b)) (kv_of (view (etcdServer b) (etcdState p))) xs \<and>
     headKeyStr p \<in> {None, Some (chainKey cfg (headKey cfg))}"

text \<open>The copies made in Redis leave the etcd side alone.\<close>

lemma duplicate_frame [simp]:
  "etcdState (duplicateToRedis b cfg mrev i d nx p) = etcdState p" "headKeyStr (duplicateToRedis b cfg mrev i d nx p) = headKeyStr p"
  by (simp_all add: duplicateToRedis_def Let_def)

lemma after_append_frame [simp]:
  "etcdState (after_append b cfg mrev i nx p) = etcdState p" "headKeyStr (after_append b cfg mrev i nx p) = headKeyStr p"
  by (simp_all add: after_append_def Let_def)

lemma fold_duplicate_frame:
  "etcdState (fold (\<lambda>ii. duplicateToRedis b cfg mrev (f ii) (g ii) (h ii)) is p) = etcdState p \<and>
   headKeyStr (fold (\<lambda>ii. duplicateToRedis b cfg mrev (f ii) (g ii) (h ii)) is p) = headKeyStr p"
  by (induction "is" arbitrary: p) simp_all

lemma after_batch_frame [simp]:
  "etcdState (after_batch b cfg mrev i items ds p) = etcdState p" "headKeyStr (after_batch b cfg mrev i items ds p) = headKeyStr p"
  by (simp_all add: after_batch_def Let_def fold_duplicate_frame)

context etcd_store
begin

text \<open>\<open>write_items\<close> makes at most one request, and that one writes all entries or none.\<close>

lemma write_items_request:
  assumes xs: "holds p xs" "item_place cfg xs n i" and ds: "can_write cfg ds" "ds \<noteq> []"
    and app: "write_items b cfg i ds p = (r, p')"
  obtains (refused) "n < length xs" "r = Inr False" "p' = p"
    | (sent) q where "accepted q \<or> set (map fst ds) \<inter> set (map fst xs) \<noteq> {}"
      "\<And>e ys. kv_chain cfg (parseEtcdData b (dataSerializer b)) (kv_of (view (etcdServer b) e)) (xs @ ys) \<Longrightarrow>
          writes q (view (etcdServer b) e) (xs @ ys) ds n"
      "r = Inr (fst (fst (call_etcd b q p)))" "etcdState p' = etcdState (snd (call_etcd b q p))"
      "headKeyStr p' = headKeyStr (snd (call_etcd b q p))"
proof -
  have n: "n \<le> length xs" "itemId i = chain_ids cfg xs ! n"
    using xs(2) by (auto simp: item_place_def)
  have id: "itemId i = chain_ids cfg (xs @ ys) ! n" for ys
    using n by (simp add: chain_ids_append nth_append)
  have clash: "set (map fst ds) \<inter> set (map fst xs) \<noteq> {}" if "itemId i \<in> fst ` set ds"
  proof -
    have "itemId i \<in> set (chain_ids cfg xs)" using n by simp
    then show ?thesis using that ds(1) by (auto simp: chain_ids_def can_write_def)
  qed
  consider (linked) "nextID i \<noteq> ''''" | (single) j d where "nextID i = ''''" "ds = [(j, d)]" | (batch) "nextID i = ''''" "length ds \<noteq> 1"
    by (cases "length ds = 1") (auto simp: length_Suc_conv)
  then show thesis
  proof cases
    case linked
    then have "n < length xs" using xs(2) by (simp add: item_place_def)
    moreover have "r = Inr False" "p' = p"
      using linked app ds(2) by (auto simp: write_items_def appendAfterAll_def etcd_formChainItems_items appendAfter_def split: if_splits)
    ultimately show thesis by (rule refused)
  next
    case single
    let ?q = "append_txn_separate b cfg i j d"
    have "accepted ?q \<or> set (map fst ds) \<inter> set (map fst xs) \<noteq> {}"
      using single_accepted [of j i d] clash by (auto simp: single)
    moreover have "writes ?q (view (etcdServer b) e) (xs @ ys) ds n"
      if "kv_chain cfg (parseEtcdData b (dataSerializer b)) (kv_of (view (etcdServer b) e)) (xs @ ys)" for e ys
      using single_writes [OF that, of n j d i] n(1) ds(1) id [of ys] by (simp add: single)
    moreover have "r = Inr (fst (fst (call_etcd b ?q p))) \<and> etcdState p' = etcdState (snd (call_etcd b ?q p)) \<and>
        headKeyStr p' = headKeyStr (snd (call_etcd b ?q p))"
      using app single separate
      by (auto simp: write_items_def appendAfterAll_def etcd_formChainItems_items appendAfter_def split: prod.splits bool.splits)
    ultimately show thesis using sent [of ?q] by blast
  next
    case batch
    let ?q = "batch_txn_separate b cfg i (items_of ds) (map snd ds)"
    have "accepted ?q \<or> set (map fst ds) \<inter> set (map fst xs) \<noteq> {}"
      using batch_accepted [of ds i] clash ds(1) by (auto simp: can_write_def)
    moreover have "writes ?q (view (etcdServer b) e) (xs @ ys) ds n"
      if "kv_chain cfg (parseEtcdData b (dataSerializer b)) (kv_of (view (etcdServer b) e)) (xs @ ys)" for e ys
      using batch_writes [OF that _ ds, of n i] n(1) id [of ys] by simp
    moreover have "r = Inr (fst (fst (call_etcd b ?q p))) \<and> etcdState p' = etcdState (snd (call_etcd b ?q p)) \<and>
        headKeyStr p' = headKeyStr (snd (call_etcd b ?q p))"
      using app batch separate ds(2) hd_items [OF ds(2)] etcd_last_items [OF ds(2)]
      by (auto simp: write_items_def appendAfterAll_def etcd_formChainItems_items split: prod.splits bool.splits)
    ultimately show thesis using sent [of ?q] by blast
  qed
qed

lemma write_items_grown:
  assumes xs: "holds p xs" "item_place cfg xs n i" and ds: "can_write cfg ds" "ds \<noteq> []"
    and app: "write_items b cfg i ds p = (r, p')"
  shows "\<exists>ys. headKeyStr p' = headKeyStr p \<and> r \<in> {Inr True, Inr False} \<and>
    (r = Inr True \<longrightarrow> n = length (xs @ ys) \<and> holds p' (xs @ ys @ ds)) \<and>
    (r = Inr False \<longrightarrow> holds p' (xs @ ys) \<and>
      (answers \<longrightarrow> n < length (xs @ ys) \<or> set (map fst ds) \<inter> set (map fst (xs @ ys)) \<noteq> {}))"
proof (cases rule: write_items_request [OF xs ds app])
  case 1
  then show ?thesis using xs(1) by (intro exI [of _ "[]"]) simp
next
  case (2 q)
  have "n \<le> length xs" using xs(2) by (simp add: item_place_def)
  moreover obtain rsp t where c: "call_etcd b q p = (rsp, t)" by (cases "call_etcd b q p")
  ultimately show ?thesis
    using outcome [OF xs(1) _ c 2(1,2)] 2(3-5) by (cases "fst rsp") auto
qed

end

context etcd_chain
begin

lemma head_grown:
  assumes "process_holds b cfg p xs" "head b cfg p = (o', p')"
  shows "\<exists>ys. process_holds b cfg p' (xs @ ys) \<and> (answers \<longrightarrow> (\<exists>i. o' = Inr i)) \<and>
    (\<forall>i. o' = Inr i \<longrightarrow> item_place cfg (xs @ ys) 0 i)"
proof -
  let ?k = "chainKey cfg (headKey cfg)" let ?p = "p\<lparr>headKeyStr := Some ?k\<rparr>"
  have "(case headKeyStr p of Some k \<Rightarrow> k | None \<Rightarrow> ?k) = ?k" and xs: "holds ?p xs"
    using assms(1) by (auto simp: process_holds_def)
  then have h: "head_separate b cfg ?k ?p = (o', p')"
    using assms(2) separate_cfg by (simp add: head_def Let_def separate_configuration_def)
  obtain rsp t where c: "call_etcd b (head_txn ?k '''') ?p = (rsp, t)" by (cases "call_etcd b (head_txn ?k '''') ?p")
  have t: "t = p'" using h c by (auto simp: head_separate_def split: prod.splits if_splits list.splits)
  have "accepted (head_txn ?k '''')" by (simp add: head_txn_def)
  from call_grown_at [OF xs this c] obtain ys ev mrev where
    *: "kv_chain cfg (parseEtcdData b (dataSerializer b)) (kv_of (view (etcdServer b) ev)) (xs @ ys)" "headKeyStr t = headKeyStr ?p"
    "rsp = (False, []) \<and> \<not> answers \<and>
       view (etcdServer b) (etcdState t) \<in> {view (etcdServer b) ev, snd (documented (head_txn ?k '''') mrev (view (etcdServer b) ev))} \<or>
     rsp = fst (documented (head_txn ?k '''') mrev (view (etcdServer b) ev)) \<and>
       view (etcdServer b) (etcdState t) = snd (documented (head_txn ?k '''') mrev (view (etcdServer b) ev))" .
  define nx where "nx = (if 0 < length (xs @ ys) then fst ((xs @ ys) ! 0) else '''')"
  have "kv_of (view (etcdServer b) ev) ?k = Some nx"
    using link_of [OF *(1), of 0] by (simp add: nx_def chain_ids_def)
  then obtain m ver where link: "view (etcdServer b) ev ?k = Some (nx, m, ver)"
    by (auto simp: kv_of_def)
  have pos: "ver > 0" by (rule version_positive [OF link])
  have doc: "documented (head_txn ?k '''') mrev (view (etcdServer b) ev) = ((True, [RangeResponse [(nx, m)]]), view (etcdServer b) ev)"
    using link pos by (simp add: head_txn_def range_response_def)
  have "process_holds b cfg p' (xs @ ys)"
    using *(1-3) t doc by (auto simp: process_holds_def)
  moreover have "(\<exists>e. o' = Inl e) \<and> \<not> answers \<or>
      o' = Inr \<lparr>revision = m, itemId = headKey cfg, data = Some (emptyData b), nextID = nx\<rparr>"
    using *(3) doc h c by (auto simp: head_separate_def)
  ultimately show ?thesis
    by (intro exI [of _ ys]) (auto simp: item_place_def chain_ids_def nx_def split: if_splits)
qed

sublocale chain: shared_chain "process_holds b cfg" "item_place cfg" "\<lambda>e. e" "\<lambda>_. item_content" "can_write cfg"
    "head b cfg" "fetchNext b cfg" "write_items b cfg"
proof unfold_locales
  fix p and xs :: "'d entry list"
  assume "process_holds b cfg p xs"
  then show "distinct xs"
    by (simp add: process_holds_def kv_chain_def chain_ids_def distinct_map)
next
  fix xs n and i :: "'d ChainItem"
  show "item_place cfg xs n i \<Longrightarrow> n \<le> length xs" by (simp add: item_place_def)
next
  fix xs ys n and i :: "'d ChainItem"
  show "item_place cfg xs n i \<Longrightarrow> item_place cfg (xs @ ys) n i" by (rule etcd_item_place_extend)
next
  fix p xs o' p'
  assume "process_holds b cfg p xs" "head b cfg p = (o', p')"
  then show "\<exists>ys. process_holds b cfg p' (xs @ ys) \<and> (\<forall>i. o' = Inr i \<longrightarrow> item_place cfg (xs @ ys) 0 i)"
    using head_grown [of p xs o' p'] by blast
next
  fix p xs n i o' p'
  assume *: "process_holds b cfg p xs" "item_place cfg xs n i" "fetchNext b cfg i p = (o', p')"
  then have h: "holds p xs" "headKeyStr p \<in> {None, Some (chainKey cfg (headKey cfg))}"
    by (simp_all add: process_holds_def)
  from fetch_grown [OF h(1) *(2,3)] h(2) show "\<exists>ys. process_holds b cfg p' (xs @ ys) \<and> (o' = Inr None \<longrightarrow> n = length xs) \<and>
      (\<forall>j. o' = Inr (Some j) \<longrightarrow> n < length (xs @ ys) \<and> item_place cfg (xs @ ys) (Suc n) j \<and>
        item_content j = Some ((xs @ ys) ! n))"
    unfolding process_holds_def by (elim exE conjE) (simp only:, blast)
next
  fix p xs n i ds r p'
  assume *: "process_holds b cfg p xs" "item_place cfg xs n i" "can_write cfg ds" "ds \<noteq> []" "write_items b cfg i ds p = (r, p')"
  then have h: "holds p xs" "headKeyStr p \<in> {None, Some (chainKey cfg (headKey cfg))}"
    by (simp_all add: process_holds_def)
  from write_items_grown [OF h(1) *(2-5)] h(2) show "\<exists>ys. (r = Inr True \<longrightarrow> n = length (xs @ ys) \<and>
        (\<exists>es. map (\<lambda>e. e) es = ds \<and> process_holds b cfg p' (xs @ ys @ es))) \<and>
      (r = Inr False \<longrightarrow> process_holds b cfg p' (xs @ ys)) \<and>
      (\<forall>e. r = Inl e \<longrightarrow> process_holds b cfg p' (xs @ ys))"
    unfolding process_holds_def list.map_ident by (elim exE conjE) (simp only:, blast)
qed

end

locale answering_etcd_chain = etcd_chain b cfg
  for b :: "('e, 's, 'd) backing" and cfg :: EtcdChainConfiguration +
  assumes all_answered: "answers"
begin

sublocale live: reliable_chain "process_holds b cfg" "item_place cfg" "\<lambda>e. e" "\<lambda>_. item_content" "can_write cfg"
    "head b cfg" "fetchNext b cfg" "write_items b cfg" "\<lambda>ds xs. set (map fst ds) \<inter> set (map fst xs) \<noteq> {}"
proof unfold_locales
  fix p and xs :: "'d entry list"
  assume *: "process_holds b cfg p xs"
  obtain o' p' where h: "head b cfg p = (o', p')" by (cases "head b cfg p")
  from head_grown [OF * h] show "\<exists>i p'. head b cfg p = (Inr i, p')"
    using all_answered h by auto
next
  fix p xs n and i :: "'d ChainItem"
  assume *: "process_holds b cfg p xs" "item_place cfg xs n i"
  then have h: "holds p xs" by (simp add: process_holds_def)
  obtain o' p' where f: "fetchNext b cfg i p = (o', p')" by (cases "fetchNext b cfg i p")
  from fetch_grown [OF h *(2) f] show "\<exists>o' p'. fetchNext b cfg i p = (Inr o', p')"
    using all_answered f by auto
next
  fix p xs n and i :: "'d ChainItem" and ds :: "'d entry list"
  assume *: "process_holds b cfg p xs" "item_place cfg xs n i" "can_write cfg ds"
  then have h: "holds p xs" by (simp add: process_holds_def)
  obtain r p' where w: "write_items b cfg i ds p = (r, p')" by (cases "write_items b cfg i ds p")
  show "\<exists>r p'. write_items b cfg i ds p = (Inr r, p')"
  proof (cases "ds = []")
    case True
    then show ?thesis by (auto simp: write_items_def etcd_formChainItems_items appendAfterAll_def)
  next
    case False
    from write_items_grown [OF h *(2,3) False w] show ?thesis using w by auto
  qed
next
  fix p xs n and i :: "'d ChainItem" and ds :: "'d entry list" and p'
  assume *: "process_holds b cfg p xs" "item_place cfg xs n i" "can_write cfg ds" "ds \<noteq> []"
    "write_items b cfg i ds p = (Inr False, p')"
  then have h: "holds p xs" "headKeyStr p \<in> {None, Some (chainKey cfg (headKey cfg))}"
    by (simp_all add: process_holds_def)
  from write_items_grown [OF h(1) *(2-5)] h(2) all_answered show "\<exists>ys. process_holds b cfg p' (xs @ ys) \<and>
      (n < length (xs @ ys) \<or> set (map fst ds) \<inter> set (map fst (xs @ ys)) \<noteq> {})"
    unfolding process_holds_def by (elim exE conjE) (simp only:, blast)
qed

lemmas read_all_etcd = live.read_all [unfolded list.map_ident]

end

context etcd_chain
begin

lemmas append_once_etcd = chain.append_once

lemma single_winner:
  assumes "process_holds b cfg p xs" "item_place cfg xs n i" "item_place cfg xs n i'"
    and "can_write cfg ds" "ds \<noteq> []" "can_write cfg es" "es \<noteq> []"
    and "write_items b cfg i ds p = (Inr True, p1)"
    and "chain_grows cfg (parseEtcdData b (dataSerializer b)) (keys_of p1) (keys_of p2)" "headKeyStr p2 = headKeyStr p1"
    and "write_items b cfg i' es p2 = (r, p3)"
  shows "r \<noteq> Inr True"
proof (rule chain.append_once [OF assms(1-8) _ assms(11)])
  fix zs
  assume "process_holds b cfg p1 zs"
  then show "\<exists>ys. process_holds b cfg p2 (zs @ ys)"
    using assms(9,10) by (simp add: process_holds_def chain_grows_def)
qed

end

section \<open>A server with one client\<close>

text \<open>An instance of the parameters: the documented behaviour, every request answered.\<close>

definition positive :: "etcd_view \<Rightarrow> etcd_view" where
  "positive w k = (case w k of Some (v, m, ver) \<Rightarrow> (if ver > 0 then Some (v, m, ver) else None) | None \<Rightarrow> None)"

definition ref_etcd :: "(etcd_view \<times> int) etcd" where
  "ref_etcd = \<lparr>view = (\<lambda>e. positive (fst e)),
     rpc = (\<lambda>q e. if accepted q
       then (case documented q (snd e + 1) (positive (fst e)) of (rsp, w) \<Rightarrow> (Some rsp, (w, snd e + 1)))
       else (None, e))\<rparr>"

lemma positive_put: "positive w = w \<Longrightarrow> positive (view_put mrev k v w) = view_put mrev k v w"
proof -
  assume *: "positive w = w"
  have "ver > 0" if "w k = Some (x, m, ver)" for x m ver
    using fun_cong [OF *, of k] that by (auto simp: positive_def split: if_splits)
  then have "(case w k of None \<Rightarrow> 0 | Some (_, _, ver) \<Rightarrow> ver) \<ge> 0"
    by (auto split: option.split intro: less_imp_le)
  then show ?thesis using * by (auto simp: positive_def view_put_def fun_eq_iff)
qed

lemma positive_run: "positive w = w \<Longrightarrow> positive (snd (run_ops mrev ops w)) = snd (run_ops mrev ops w)"
  by (induction mrev ops w rule: run_ops.induct) (auto simp: positive_put split: prod.splits)

lemma positive_documented: "positive w = w \<Longrightarrow> positive (snd (documented q mrev w)) = snd (documented q mrev w)"
  by (cases q) (auto simp: positive_put positive_run Let_def split: prod.splits; metis positive_run snd_conv)+

lemma positive_idem [simp]: "positive (positive w) = positive w"
  by (auto simp: positive_def fun_eq_iff split: option.splits)

definition pair_serializer :: "(string \<times> string) serializer" where
  "pair_serializer = \<lparr>encode = (\<lambda>(a, c). unary (length a) @ a @ c),
     decode = (\<lambda>s. case take_unary s of None \<Rightarrow> None
       | Some n \<Rightarrow> if length s < 2 * n + 1 then None else Some (take n (drop (n + 1) s), drop (2 * n + 1) s))\<rparr>"

interpretation pair_serializer: serializer_law pair_serializer
  by unfold_locales (simp add: pair_serializer_def unary_def take_unary_replicate split: prod.split)

definition ref_redis_ttl :: "(string \<Rightarrow> string option) redis_ttl" where
  "ref_redis_ttl = \<lparr>store = (\<lambda>s. s), put = (\<lambda>k v s. s(k \<mapsto> v)), send = (\<lambda>cmd s. (Some (fst (cmd s)), snd (cmd s))),
     put_ttl = (\<lambda>k v n s. s(k \<mapsto> v))\<rparr>"

definition ref_backing :: "(etcd_view \<times> int, string \<Rightarrow> string option, string) backing" where
  "ref_backing = \<lparr>etcdServer = ref_etcd, redisServer = ref_redis_ttl, hookPair = Some tag_hooks,
     dataSerializer = string_serializer, mapSerializer = pair_serializer,
     redisSerializer = \<lparr>encode = (\<lambda>(r, d, n). unary (length d) @ d @ n),
       decode = (\<lambda>s. map_option (\<lambda>(d, n). (0, d, n)) (decode pair_serializer s))\<rparr>,
     emptyData = ''''\<rparr>"

lemma default_separate: "separate_configuration defaultConfiguration"
  by code_simp

lemma ref_answers:
  assumes acc: "accepted q"
  shows "fst (rpc ref_etcd q e) = Some (fst (documented q (snd e + 1) (view ref_etcd e))) \<and>
      view ref_etcd (snd (rpc ref_etcd q e)) = snd (documented q (snd e + 1) (view ref_etcd e))"
proof -
  obtain rsp w where d: "documented q (snd e + 1) (positive (fst e)) = (rsp, w)"
    by (cases "documented q (snd e + 1) (positive (fst e))")
  then have "positive w = w" using positive_documented [of "positive (fst e)" q "snd e + 1"] by simp
  then show ?thesis
    using acc d by (simp add: ref_etcd_def)
qed

lemma ref_etcd_server: "etcd_server ref_etcd (\<lambda>w w'. chain_grows cfg dec (kv_of w) (kv_of w'))"
proof unfold_locales
  fix e k v m ver
  assume "view ref_etcd e k = Some (v, m, ver)"
  then show "ver > 0" by (auto simp: ref_etcd_def positive_def split: option.splits if_splits)
next
  fix q e
  assume "accepted q"
  note ref_answers [OF this, of e]
  moreover have "chain_grows cfg dec (kv_of (view ref_etcd e)) (kv_of (view ref_etcd e))"
    by (rule chain_grows_refl)
  ultimately show "\<exists>e1 mrev. chain_grows cfg dec (kv_of (view ref_etcd e)) (kv_of (view ref_etcd e1)) \<and>
      (fst (rpc ref_etcd q e) = None \<and> view ref_etcd (snd (rpc ref_etcd q e)) \<in> {view ref_etcd e1, snd (documented q mrev (view ref_etcd e1))} \<or>
       fst (rpc ref_etcd q e) = Some (fst (documented q mrev (view ref_etcd e1))) \<and>
         view ref_etcd (snd (rpc ref_etcd q e)) = snd (documented q mrev (view ref_etcd e1)))" by blast
next
  fix q e
  assume "\<not> accepted q"
  then have "fst (rpc ref_etcd q e) = None \<and> snd (rpc ref_etcd q e) = e"
    by (simp add: ref_etcd_def)
  then show "\<exists>e1. chain_grows cfg dec (kv_of (view ref_etcd e)) (kv_of (view ref_etcd e1)) \<and>
      fst (rpc ref_etcd q e) = None \<and> view ref_etcd (snd (rpc ref_etcd q e)) = view ref_etcd e1"
    using chain_grows_refl by metis
qed

lemma ref_etcd_chain: "etcd_chain ref_backing defaultConfiguration"
  unfolding etcd_chain_def etcd_chain_axioms_def etcd_store_def etcd_store_axioms_def
  using default_separate
  by (intro conjI) (simp_all add: ref_backing_def ref_etcd_server separate_configuration_def tagged_string.hooked_axioms)

interpretation ref_etcd: answering_etcd_chain ref_backing defaultConfiguration
proof (unfold answering_etcd_chain_def answering_etcd_chain_axioms_def, intro conjI ref_etcd_chain)
  have store: "etcd_store ref_backing defaultConfiguration"
    using ref_etcd_chain by (simp add: etcd_chain_def)
  show "etcd_store.answers ref_backing"
    unfolding etcd_store.answers_def [OF store]
    by (auto simp: ref_backing_def ref_etcd_def split: prod.splits)
qed

definition sample_process :: "(etcd_view \<times> int, string \<Rightarrow> string option) process" where
  "sample_process = \<lparr>headKeyStr = None, emptyHeadDataStr = None, latestModRevision = 0,
     etcdState = ((\<lambda>_. None)(''shared_chain_test:'' \<mapsto> ('''', 1, 1)), 1), redisState = (\<lambda>_. None)\<rparr>"

definition sample_head :: "string ChainItem" where
  "sample_head = \<lparr>revision = 1, itemId = '''', data = Some '''', nextID = ''''\<rparr>"

definition sample_entries :: "string entry list" where
  "sample_entries = [(''c'', ''three''), (''d'', ''four'')]"

lemma sample_process_holds: "process_holds ref_backing defaultConfiguration sample_process []"
proof -
  have "kv_of (positive ((\<lambda>_. None)(''shared_chain_test:'' \<mapsto> ('''', 1, 1)))) = (\<lambda>_. None)(chainKey defaultConfiguration '''' \<mapsto> '''')"
    by (auto simp: kv_of_def positive_def chainKey_def defaultConfiguration_def fun_eq_iff)
  moreover have "kv_chain defaultConfiguration dec ((\<lambda>_. None)(chainKey defaultConfiguration '''' \<mapsto> '''')) []" for dec :: "string \<Rightarrow> string option"
    using keys_apart [of defaultConfiguration] ref_etcd.good_cfg
    by (intro kv_chain_empty) (auto simp: defaultConfiguration_def, metis)
  ultimately show ?thesis
    by (simp add: process_holds_def sample_process_def ref_backing_def ref_etcd_def)
qed

lemma sample_head_place: "item_place defaultConfiguration ([] :: string entry list) 0 sample_head"
  by code_simp

lemma sample_can_write: "can_write defaultConfiguration sample_entries"
  by code_simp

abbreviation sample_write :: "(etcd_error + bool) \<times> (etcd_view \<times> int, string \<Rightarrow> string option) process" where
  "sample_write \<equiv> write_items ref_backing defaultConfiguration sample_head sample_entries sample_process"

lemma sample_write_true: "fst sample_write = Inr True" "headKeyStr (snd sample_write) = None"
  by code_simp+

lemma sample_write_eq: "sample_write = (Inr True, snd sample_write)"
  using sample_write_true by (simp add: prod_eq_iff)

lemma sample_nonempty: "sample_entries \<noteq> []"
  by (simp add: sample_entries_def)

lemma sample_written: "process_holds ref_backing defaultConfiguration (snd sample_write) sample_entries"
  using ref_etcd.write_items_grown [OF _ sample_head_place sample_can_write sample_nonempty sample_write_eq]
    sample_process_holds sample_write_true(2)
  by (simp add: process_holds_def)

section \<open>Properties\<close>

text \<open>C19: On a chain whose data has keys of its own, read without the watch thread and without the copies in Redis (\<open>separate_configuration\<close>),
  by a process whose static head key is unset or this chain's own (\<open>process_holds\<close>), with a server that always answers and other clients that
  only extend the chain: a reader from the head with enough fuel gets the chain as it stood when it began, in order, and maybe later entries.
  The theorems on inline batches and on the head of a second chain show what goes wrong without these conditions.\<close>

theorem etcd_read_all:
  assumes "answering_etcd_chain b cfg" and "process_holds b cfg p xs" and "length xs \<le> fuel"
  shows "\<exists>h p1 cs j p2 ys. head b cfg p = (Inr h, p1) \<and>
    follow (fetchNext b cfg) (\<lambda>_. item_content) fuel h p1 = (Inr (cs, j), p2) \<and>
    process_holds b cfg p2 (xs @ ys) \<and> cs = take (length cs) (xs @ ys) \<and> length xs \<le> length cs"
  using assms by (rule answering_etcd_chain.read_all_etcd)

theorem etcd_read_all_witness:
  "\<exists>h p1 cs j p2 ys. head ref_backing defaultConfiguration (snd sample_write) = (Inr h, p1) \<and>
    follow (fetchNext ref_backing defaultConfiguration) (\<lambda>_. item_content) 3 h p1 = (Inr (cs, j), p2) \<and>
    process_holds ref_backing defaultConfiguration p2 (sample_entries @ ys) \<and> cs = take (length cs) (sample_entries @ ys) \<and>
    length sample_entries \<le> length cs"
  by (rule etcd_read_all [OF ref_etcd.answering_etcd_chain_axioms sample_written]) (simp add: sample_entries_def)

text \<open>of two writers at one place of the chain at most one succeeds.\<close>

theorem etcd_single_winner:
  assumes "etcd_chain b cfg" and "process_holds b cfg p xs" and "item_place cfg xs n i" and "item_place cfg xs n i'"
    and "can_write cfg ds" and "ds \<noteq> []" and "can_write cfg es" and "es \<noteq> []"
    and "write_items b cfg i ds p = (Inr True, p1)"
    and "chain_grows cfg (parseEtcdData b (dataSerializer b)) (kv_of (view (etcdServer b) (etcdState p1)))
      (kv_of (view (etcdServer b) (etcdState p2)))"
    and "headKeyStr p2 = headKeyStr p1" and "write_items b cfg i' es p2 = (r, p3)"
  shows "r \<noteq> Inr True"
  using assms by (rule etcd_chain.single_winner)

theorem etcd_single_winner_witness:
  "fst (write_items ref_backing defaultConfiguration sample_head [(''e'', ''five'')] (snd sample_write)) \<noteq> Inr True"
proof -
  have "can_write defaultConfiguration [(''e'', ''five'')]" by code_simp
  from etcd_single_winner [OF ref_etcd_chain sample_process_holds sample_head_place sample_head_place sample_can_write
      sample_nonempty this _ sample_write_eq chain_grows_refl refl prod.collapse [symmetric]]
  show ?thesis by simp
qed

lemma call_etcd_frame [simp]: "headKeyStr (snd (call_etcd b q p)) = headKeyStr p"
  by (simp add: call_etcd_def split: prod.split option.split)

lemma cached_frame [simp]: "headKeyStr (snd (cached b k p)) = headKeyStr p"
  by (simp add: cached_def split: prod.split option.split reply.split)

lemma head_separate_frame: "headKeyStr (snd (head_separate b cfg k p)) = headKeyStr p"
  using call_etcd_frame [of b "head_txn k ''''" p]
  by (auto simp: head_separate_def simp del: call_etcd_frame split: prod.splits list.splits)

lemma head_inline_frame: "headKeyStr (snd (head_inline b cfg k p)) = headKeyStr p"
proof -
  have "headKeyStr (snd (call_etcd b q (p\<lparr>emptyHeadDataStr := z\<rparr>))) = headKeyStr p" for q z by simp
  then show ?thesis
    unfolding head_inline_def Let_def
    by (auto simp del: call_etcd_frame split: prod.splits list.splits option.splits) (metis snd_conv)+
qed

lemma head_sets_static: "headKeyStr p = None \<Longrightarrow> headKeyStr (snd (head b cfg p)) = Some (chainKey cfg (headKey cfg))"
  using cached_frame [of b "chainKey cfg (headKey cfg)" "p\<lparr>headKeyStr := Some (chainKey cfg (headKey cfg))\<rparr>"]
  by (auto simp: head_def Let_def head_separate_frame head_inline_frame simp del: cached_frame split: prod.splits option.splits)

text \<open>\<open>headKeyStr\<close> is a function-local static here too: when \<open>head\<close> has been called on one chain, \<open>head\<close> of another
  chain of the same data type asks the server for the first chain's head key.\<close>

theorem etcd_head_of_second_chain:
  assumes "headKeyStr p = None" and "separate_configuration cfg2"
  shows "head b cfg2 (snd (head b cfg1 p)) = head_separate b cfg2 (chainKey cfg1 (headKey cfg1)) (snd (head b cfg1 p))"
proof -
  have s: "headKeyStr (snd (head b cfg1 p)) = Some (chainKey cfg1 (headKey cfg1))"
    by (rule head_sets_static [OF assms(1)])
  have idem: "q\<lparr>headKeyStr := Some k\<rparr> = q" if "headKeyStr q = Some k" for q :: "('e, 's) process" and k
    using that by (cases q) simp
  show ?thesis
    using s assms(2) by (simp add: idem head_def [of b cfg2] Let_def separate_configuration_def)
qed

definition other_configuration :: EtcdChainConfiguration where
  "other_configuration = defaultConfiguration\<lparr>chainPrefix := ''other''\<rparr>"

lemma other_separate: "separate_configuration other_configuration"
  by code_simp

theorem etcd_head_of_second_chain_witness:
  "head ref_backing other_configuration (snd (head ref_backing defaultConfiguration sample_process)) =
   head_separate ref_backing other_configuration ''shared_chain_test:'' (snd (head ref_backing defaultConfiguration sample_process))"
  using etcd_head_of_second_chain [OF _ other_separate, of sample_process ref_backing defaultConfiguration]
  by (simp add: sample_process_def chainKey_def defaultConfiguration_def)

text \<open>C37: without separate storage a batch is not stored: its transaction puts the current item's record and the record of
  the \<^emph>\<open>last\<close> new item only, so after a batch of two or more that succeeded the link of the current item names an
  item that has no record.\<close>

theorem etcd_inline_batch_loses_items:
  assumes "etcd_server E rely" and "length ds = length items" and "2 \<le> length items"
    and "distinct (itemId current # map itemId items)"
    and "documented (batch_txn_inline b cfg current items ds) mrev (view E e) = ((True, rs), w)"
  shows "kv_of w (chainKey cfg (itemId current)) =
      Some (serialize b (mapSerializer b) (case data current of Some x \<Rightarrow> x | None \<Rightarrow> emptyData b, itemId (items ! 0))) \<and>
    kv_of w (chainKey cfg (itemId (items ! 0))) = None"
proof -
  let ?head = "Put (chainKey cfg (itemId current)) (serialize b (mapSerializer b)
      (case data current of Some x \<Rightarrow> x | None \<Rightarrow> emptyData b, itemId (items ! 0)))"
  have ne: "items \<noteq> []" "ds \<noteq> []" using assms(2,3) by auto
  have f: "fold (overwrite_put b cfg) (zip (xs @ [x]) (ys @ [y])) acc =
      [Put (chainKey cfg (itemId x)) (serialize b (mapSerializer b) (y, nextID x))]" if "length xs = length ys" for xs x ys y acc
    using that by (simp add: overwrite_put_def)
  have ops: "fold (overwrite_put b cfg) (zip items ds) [] =
      [Put (chainKey cfg (itemId (last items))) (serialize b (mapSerializer b) (last ds, nextID (last items)))]"
    using f [of "butlast items" "butlast ds" "last items" "last ds" "[]"] ne assms(2) by simp
  have b: "list_all (compare_holds (view E e)) (map (\<lambda>x. VERSION_EQUAL (chainKey cfg (itemId x)) 0) items)"
    and w: "w = snd (run_ops mrev [?head, Put (chainKey cfg (itemId (last items)))
      (serialize b (mapSerializer b) (last ds, nextID (last items)))] (view E e))"
    using assms(5) ops by (auto simp: batch_txn_inline_def Let_def split: prod.splits if_splits)
  have "items ! 0 \<in> set items" "last items = items ! (length items - 1)"
    using ne by (auto simp: last_conv_nth)
  then have "itemId (items ! 0) \<in> itemId ` set items" by simp
  then have "itemId (items ! 0) \<noteq> itemId current" using assms(4) by auto
  moreover have "itemId (items ! 0) \<noteq> itemId (last items)"
    using assms(3,4) ne nth_eq_iff_index_eq [of "map itemId items" 0 "length items - 1"]
    by (simp add: \<open>last items = items ! (length items - 1)\<close>)
  moreover have "compare_holds (view E e) (VERSION_EQUAL (chainKey cfg (itemId (items ! 0))) 0)"
    using b \<open>items ! 0 \<in> set items\<close> by (simp add: list_all_iff)
  then have "kv_of (view E e) (chainKey cfg (itemId (items ! 0))) = None"
    using etcd_server.version_positive [OF assms(1), of e "chainKey cfg (itemId (items ! 0))"]
    by (cases "view E e (chainKey cfg (itemId (items ! 0)))") (auto simp: kv_of_def)
  moreover have "itemId (last items) \<noteq> itemId current"
  proof -
    have "itemId (last items) \<in> itemId ` set items" using ne by simp
    then show ?thesis using assms(4) by auto
  qed
  ultimately show ?thesis by (auto simp: w)
qed

definition inline_configuration :: EtcdChainConfiguration where
  "inline_configuration = defaultConfiguration\<lparr>saveDataOnSeparateStorage := False\<rparr>"

text \<open>The first call of \<open>head\<close>, then a batch: the batch reports success, and \<open>fetchNext\<close> then throws.\<close>

abbreviation inline_head :: "(etcd_error + string ChainItem) \<times> (etcd_view \<times> int, string \<Rightarrow> string option) process" where
  "inline_head \<equiv> head ref_backing inline_configuration (sample_process\<lparr>etcdState := (\<lambda>_. None, 0)\<rparr>)"

abbreviation inline_batch :: "string ChainItem list" where
  "inline_batch \<equiv> formChainItems sample_entries"

abbreviation inline_item :: "string ChainItem" where
  "inline_item \<equiv> \<lparr>revision = 1, itemId = '''', data = Some '''', nextID = ''''\<rparr>"

abbreviation inline_written :: "(etcd_error + bool) \<times> (etcd_view \<times> int, string \<Rightarrow> string option) process" where
  "inline_written \<equiv> appendAfterAll ref_backing inline_configuration inline_item inline_batch (snd inline_head)"

lemma inline_head_item: "fst inline_head = Inr inline_item"
  by code_simp

lemma inline_batch_breaks_chain:
  "fst inline_written = Inr True"
  "fst (fetchNext ref_backing inline_configuration inline_item (snd inline_written)) =
     Inl (EtcdChainException ''FetchNext Error! No record for shared_chain_test:c'')"
  by code_simp+

theorem etcd_inline_batch_loses_items_witness:
  "kv_of (snd (documented (batch_txn_inline ref_backing inline_configuration inline_item inline_batch [''three'', ''four'']) 2
      (view ref_etcd (etcdState (snd inline_head))))) (chainKey inline_configuration ''c'') = None"
proof -
  have l: "length [''three'', ''four''] = length inline_batch" "2 \<le> length inline_batch"
    "distinct (itemId inline_item # map itemId inline_batch)" "itemId (inline_batch ! 0) = ''c''"
    by code_simp+
  have "fst (documented (batch_txn_inline ref_backing inline_configuration inline_item inline_batch [''three'', ''four'']) 2
      (view ref_etcd (etcdState (snd inline_head)))) = (True, [PutResponse 2, PutResponse 2])"
    by code_simp
  then have d: "documented (batch_txn_inline ref_backing inline_configuration inline_item inline_batch [''three'', ''four'']) 2
      (view ref_etcd (etcdState (snd inline_head))) = ((True, [PutResponse 2, PutResponse 2]),
        snd (documented (batch_txn_inline ref_backing inline_configuration inline_item inline_batch [''three'', ''four'']) 2
          (view ref_etcd (etcdState (snd inline_head)))))"
    by (simp add: prod_eq_iff)
  from etcd_inline_batch_loses_items [OF ref_etcd_server l(1-3) d] show ?thesis
    unfolding l(4) by blast
qed

section \<open>The watch thread over time\<close>

fun watch_run :: "watch_state \<Rightarrow> completion list \<Rightarrow> watch_state \<times> watch_action list" where
  "watch_run w [] = (w, [])"
| "watch_run w (ev # evs) =
     (case watch_turn w ev of (w1, as) \<Rightarrow> (case watch_run w1 evs of (w2, bs) \<Rightarrow> (w2, as @ bs)))"

fun wants_read :: "completion \<Rightarrow> bool" where
  "wants_read (GOT_EVENT tag ok n r) \<longleftrightarrow> tag = 1 \<or> tag = 3"
| "wants_read SHUTDOWN \<longleftrightarrow> False"
| "wants_read TIMEOUT \<longleftrightarrow> False"

text \<open>The revisions of the responses that carried events, latest last.\<close>

fun revisions :: "completion list \<Rightarrow> int list" where
  "revisions [] = []"
| "revisions (GOT_EVENT tag ok n r # evs) = (if tag = 3 \<and> n > 0 then [r] else []) @ revisions evs"
| "revisions (SHUTDOWN # evs) = revisions evs"
| "revisions (TIMEOUT # evs) = revisions evs"

lemma watch_stopped: "\<not> watchThreadRunning w \<Longrightarrow> watch_run w evs = (w, [])"
  by (induction evs) (simp_all add: watch_turn_def)

lemma watch_turn_running:
  assumes "watch_turn w ev = (w1, as)" "watchThreadRunning w" "watchThreadRunning w1"
  shows "length (filter (\<lambda>a. a = StartRead 3) as) = (if wants_read ev then 1 else 0) \<and>
    watchedRevision w1 = last (watchedRevision w # revisions [ev])"
  using assms by (cases ev) (auto simp: watch_turn_def watch_read_def split: if_splits)

text \<open>while the watch thread runs, exactly one read of the stream is started for the opened stream and for
  every read that completed, so one read is always pending; the revision it keeps is that of the last response with events.
  A thread that has stopped does nothing any more.\<close>

theorem watch_keeps_reading:
  assumes "watch_run w evs = (w', as)" and "watchThreadRunning w'"
  shows "watchThreadRunning w \<and> length (filter (\<lambda>a. a = StartRead 3) as) = length (filter wants_read evs) \<and>
    watchedRevision w' = last (watchedRevision w # revisions evs)"
  using assms
proof (induction evs arbitrary: w as)
  case Nil
  then show ?case by simp
next
  case (Cons ev evs)
  obtain w1 as1 where t: "watch_turn w ev = (w1, as1)" by (cases "watch_turn w ev")
  obtain as2 where r: "watch_run w1 evs = (w', as2)" "as = as1 @ as2"
    using Cons.prems(1) t by (auto split: prod.splits)
  note ih = Cons.IH [OF r(1) Cons.prems(2)]
  have w: "watchThreadRunning w"
    using Cons.prems watch_stopped [of w "ev # evs"] by (cases "watchThreadRunning w") auto
  have "revisions (ev # evs) = revisions [ev] @ revisions evs"
    by (cases ev) auto
  then show ?case
    using watch_turn_running [OF t w] ih w r(2) by (auto simp: last_append)
qed

theorem watch_keeps_reading_witness:
  "length (filter (\<lambda>a. a = StartRead 3) (snd (watch_run \<lparr>watchThreadRunning = True, watchedRevision = 0, updateTriggerFunc = False\<rparr>
    [GOT_EVENT 1 True 0 0, GOT_EVENT 2 True 0 0, TIMEOUT, GOT_EVENT 3 True 2 7]))) = 2"
  (is "length (filter _ (snd ?run)) = 2")
proof -
  have r: "?run = (fst ?run, snd ?run)" "watchThreadRunning (fst ?run)"
    by (simp, code_simp)
  from watch_keeps_reading [OF r] show ?thesis by simp
qed

end
