(* ===== verification/EtcdAppend.thy ===== *)
theory EtcdAppend
  imports EtcdChain
begin

text \<open>
  That writing to a chain in etcd (\<open>appendAfter\<close> of EtcdChain.hpp, single and batch) is one transaction, whatever the other clients do, when the
  data has keys of its own.
\<close>

section \<open>The append is one step of the server\<close>

text \<open>
  The append as one step of the server: \<open>rely\<close> is any relation at all for what the others do between our
  requests, so what it does not allow was done by the call itself.
\<close>

locale etcd_rely = etcd_server "etcdServer b" rely + hooked "dataSerializer b" "hookPair b"
  for b :: "('e, 's, 'd) backing" and cfg :: EtcdChainConfiguration and rely :: "etcd_view \<Rightarrow> etcd_view \<Rightarrow> bool" +
  assumes cfg_ok: "good_configuration cfg" "saveDataOnSeparateStorage cfg"
    and rely_grows: "rely w w' \<Longrightarrow> chain_grows cfg (parseEtcdData b (dataSerializer b)) (kv_of w) (kv_of w')"
begin

lemmas calls_rely = rpc_cases

lemmas refused_rely = rpc_refused

end

sublocale etcd_rely \<subseteq> etcd_store b cfg
proof
  show "view (etcdServer b) e k = Some (v, m, ver) \<Longrightarrow> ver > 0" for e k v m ver
    by (rule version_positive)
next
  fix q e
  assume "accepted q"
  from rpc_cases [OF this, of e] show "\<exists>e1 mrev. chain_grows cfg (parseEtcdData b (dataSerializer b)) (kv_of (view (etcdServer b) e))
        (kv_of (view (etcdServer b) e1)) \<and>
      (fst (rpc (etcdServer b) q e) = None \<and>
         view (etcdServer b) (snd (rpc (etcdServer b) q e)) \<in> {view (etcdServer b) e1, snd (documented q mrev (view (etcdServer b) e1))} \<or>
       fst (rpc (etcdServer b) q e) = Some (fst (documented q mrev (view (etcdServer b) e1))) \<and>
         view (etcdServer b) (snd (rpc (etcdServer b) q e)) = snd (documented q mrev (view (etcdServer b) e1)))"
    using rely_grows by blast
next
  fix q e
  assume "\<not> accepted q"
  from rpc_refused [OF this, of e] show "\<exists>e1. chain_grows cfg (parseEtcdData b (dataSerializer b)) (kv_of (view (etcdServer b) e))
        (kv_of (view (etcdServer b) e1)) \<and>
      fst (rpc (etcdServer b) q e) = None \<and> view (etcdServer b) (snd (rpc (etcdServer b) q e)) = view (etcdServer b) e1"
    using rely_grows by blast
qed (use cfg_ok in simp_all)

lemma verdict_of_request:
  assumes "rsp = (False, []) \<and> \<not> answered \<and> v \<in> {w1, snd d} \<or> rsp = fst d \<and> v = snd d"
    and "if fits then fst (fst d) \<and> written (snd d) else \<not> fst (fst d) \<and> snd d = w1"
  shows "Inr (fst rsp) \<in> {Inr True, Inr False} \<and> (Inr (fst rsp) = Inr True \<longrightarrow> fits \<and> written v) \<and>
    (Inr (fst rsp) = Inr False \<longrightarrow> \<not> fits \<and> v = w1 \<or> \<not> answered \<and> (v = w1 \<or> fits \<and> written v))"
  using assms by (cases fits) auto

context etcd_rely
begin

lemma call_step:
  assumes "accepted q" "call_etcd b q p = (rsp, p')"
  obtains e1 mrev where "rely (view (etcdServer b) (etcdState p)) (view (etcdServer b) e1)"
    "rsp = (False, []) \<and> \<not> answers \<and>
       view (etcdServer b) (etcdState p') \<in> {view (etcdServer b) e1, snd (documented q mrev (view (etcdServer b) e1))} \<or>
     rsp = fst (documented q mrev (view (etcdServer b) e1)) \<and>
       view (etcdServer b) (etcdState p') = snd (documented q mrev (view (etcdServer b) e1))"
proof -
  obtain e1 mrev where *: "rely (view (etcdServer b) (etcdState p)) (view (etcdServer b) e1)"
    "fst (rpc (etcdServer b) q (etcdState p)) = None \<and> view (etcdServer b) (snd (rpc (etcdServer b) q (etcdState p))) \<in>
        {view (etcdServer b) e1, snd (documented q mrev (view (etcdServer b) e1))} \<or>
     fst (rpc (etcdServer b) q (etcdState p)) = Some (fst (documented q mrev (view (etcdServer b) e1))) \<and>
       view (etcdServer b) (snd (rpc (etcdServer b) q (etcdState p))) = snd (documented q mrev (view (etcdServer b) e1))"
    using calls_rely [OF assms(1)] by blast
  moreover obtain o' e' where "rpc (etcdServer b) q (etcdState p) = (o', e')"
    by (cases "rpc (etcdServer b) q (etcdState p)")
  moreover have "answers \<Longrightarrow> o' \<noteq> None"
    using assms(1) calculation(3) by (metis answers_def fst_conv)
  ultimately show thesis
    using assms(2) by (intro that [of e1 mrev]; cases o') (auto simp: call_etcd_def)
qed

lemma append_step:
  assumes xs: "holds p xs" "item_place cfg xs n i" and ds: "can_write cfg ds" "ds \<noteq> []"
    and app: "write_items b cfg i ds p = (r, p')"
  shows "\<exists>w1 ys. (w1 = view (etcdServer b) (etcdState p) \<or> rely (view (etcdServer b) (etcdState p)) w1) \<and>
    kv_chain cfg (parseEtcdData b (dataSerializer b)) (kv_of w1) (xs @ ys) \<and>
    (let fits = (n = length (xs @ ys) \<and> fst ` set ds \<inter> fst ` set (xs @ ys) = {});
         unchanged = (view (etcdServer b) (etcdState p') = w1);
         written = (holds p' (xs @ ys @ ds) \<and> keys_of p' = kv_appends cfg (serialize b (dataSerializer b)) (itemId i) ds (kv_of w1))
     in r \<in> {Inr True, Inr False} \<and> (r = Inr True \<longrightarrow> fits \<and> written) \<and>
        (r = Inr False \<longrightarrow> \<not> fits \<and> unchanged \<or> \<not> answers \<and> (unchanged \<or> fits \<and> written)))"
proof (cases rule: write_items_request [OF xs ds app])
  case 1
  then show ?thesis
    using xs(1) by (intro exI [of _ "view (etcdServer b) (etcdState p)"] exI [of _ "[]"]) simp
next
  case (2 q)
  let ?view = "view (etcdServer b)"
  have id: "itemId i = chain_ids cfg (xs @ ys) ! n" for ys
    using xs(2) by (simp add: item_place_def chain_ids_append nth_append)
  obtain rsp t where c: "call_etcd b q p = (rsp, t)" by (cases "call_etcd b q p")
  have out: "r = Inr (fst rsp)" "?view (etcdState p') = ?view (etcdState t)"
    using 2(3,4) c by simp_all
  show ?thesis
  proof (cases "accepted q")
    case False
    then obtain e1 where e1: "rely (?view (etcdState p)) (?view e1)" "fst (rpc (etcdServer b) q (etcdState p)) = None"
      "?view (snd (rpc (etcdServer b) q (etcdState p))) = ?view e1"
      using refused_rely by blast
    from rely_grows [OF e1(1)] xs(1) obtain ys where ys: "kv_chain cfg (parseEtcdData b (dataSerializer b)) (kv_of (?view e1)) (xs @ ys)"
      unfolding chain_grows_def by blast
    have "fst rsp = False" "?view (etcdState t) = ?view e1"
      using c e1(2,3) by (auto simp: call_etcd_def split: prod.splits option.splits)
    moreover have "fst ` set ds \<inter> fst ` set (xs @ ys) \<noteq> {}"
      using 2(1) False by auto
    ultimately show ?thesis
      using e1(1) ys out by (intro exI [of _ "?view e1"] exI [of _ ys]) simp
  next
    case True
    from call_step [OF True c] obtain e1 mrev where e1: "rely (?view (etcdState p)) (?view e1)"
      "rsp = (False, []) \<and> \<not> answers \<and> ?view (etcdState t) \<in> {?view e1, snd (documented q mrev (?view e1))} \<or>
       rsp = fst (documented q mrev (?view e1)) \<and> ?view (etcdState t) = snd (documented q mrev (?view e1))" .
    from rely_grows [OF e1(1)] xs(1) obtain ys where ys: "kv_chain cfg (parseEtcdData b (dataSerializer b)) (kv_of (?view e1)) (xs @ ys)"
      unfolding chain_grows_def by blast
    let ?fits = "n = length (xs @ ys) \<and> fst ` set ds \<inter> fst ` set (xs @ ys) = {}"
    let ?written = "\<lambda>w. kv_chain cfg (parseEtcdData b (dataSerializer b)) (kv_of w) (xs @ ys @ ds) \<and>
      kv_of w = kv_appends cfg (serialize b (dataSerializer b)) (itemId i) ds (kv_of (?view e1))"
    have "if ?fits then fst (fst (documented q mrev (?view e1))) \<and> ?written (snd (documented q mrev (?view e1)))
      else \<not> fst (fst (documented q mrev (?view e1))) \<and> snd (documented q mrev (?view e1)) = ?view e1"
      using 2(2) [OF ys] unfolding writes_def append_assoc id [of ys, symmetric] by (rule spec)
    with e1(2) have "r \<in> {Inr True, Inr False} \<and> (r = Inr True \<longrightarrow> ?fits \<and> ?written (?view (etcdState p'))) \<and>
        (r = Inr False \<longrightarrow> \<not> ?fits \<and> ?view (etcdState p') = ?view e1 \<or>
          \<not> answers \<and> (?view (etcdState p') = ?view e1 \<or> ?fits \<and> ?written (?view (etcdState p'))))"
      unfolding out by (rule verdict_of_request [where written = ?written])
    from conjI [OF disjI2 [OF e1(1)] conjI [OF ys this]] show ?thesis
      unfolding Let_def by (intro exI)
  qed
qed

end

section \<open>A server with one client\<close>

lemma ref_etcd_alone: "etcd_rely ref_backing defaultConfiguration (=)"
proof -
  have "etcd_server ref_etcd (=)"
  proof unfold_locales
    fix e k v m ver
    assume "view ref_etcd e k = Some (v, m, ver)"
    then show "ver > 0" by (auto simp: ref_etcd_def positive_def split: option.splits if_splits)
  next
    fix q e
    assume "accepted q"
    from ref_answers [OF this] show "\<exists>e1 mrev. view ref_etcd e = view ref_etcd e1 \<and>
      (fst (rpc ref_etcd q e) = None \<and> view ref_etcd (snd (rpc ref_etcd q e)) \<in> {view ref_etcd e1, snd (documented q mrev (view ref_etcd e1))} \<or>
       fst (rpc ref_etcd q e) = Some (fst (documented q mrev (view ref_etcd e1))) \<and>
         view ref_etcd (snd (rpc ref_etcd q e)) = snd (documented q mrev (view ref_etcd e1)))" by blast
  next
    fix q e
    assume "\<not> accepted q"
    then show "\<exists>e1. view ref_etcd e = view ref_etcd e1 \<and>
      fst (rpc ref_etcd q e) = None \<and> view ref_etcd (snd (rpc ref_etcd q e)) = view ref_etcd e1"
      by (intro exI [of _ e]) (simp add: ref_etcd_def)
  qed
  then show ?thesis
    unfolding etcd_rely_def etcd_rely_axioms_def using default_separate
    by (simp add: ref_backing_def separate_configuration_def tagged_string.hooked_axioms chain_grows_refl)
qed

interpretation ref_alone: etcd_rely ref_backing defaultConfiguration "(=)"
  by (rule ref_etcd_alone)

section \<open>The property\<close>

text \<open>C2: When the data has keys of its own (\<open>saveDataOnSeparateStorage\<close>; the theorem about inline batches shows what happens
  otherwise), appending a batch on etcd is one transaction, all or nothing. \<open>rely\<close> is any relation that says what the other clients do to the
  store; whatever they do must extend the chain. Then others may take the store to some \<open>w1\<close>, where the chain is \<open>xs @ ys\<close>, and the call
  either leaves exactly \<open>w1\<close> or turns it into exactly \<open>w1\<close> with every entry of the batch appended after the given item. True means that it was appended,
  which happens only when the item is the last one and no identifier is taken. False means that nothing was written because one of the two
  fails, or, only if the server does not always answer, that the call does not know: nothing or the whole batch was written. The call never throws.\<close>

theorem etcd_append:
  assumes "etcd_rely b cfg rely" and "kv_chain cfg (parseEtcdData b (dataSerializer b)) (kv_of (view (etcdServer b) (etcdState p))) xs"
    and "item_place cfg xs n i" and "can_write cfg ds" and "ds \<noteq> []" and "write_items b cfg i ds p = (r, p')"
  shows "\<exists>w1 ys. (w1 = view (etcdServer b) (etcdState p) \<or> rely (view (etcdServer b) (etcdState p)) w1) \<and>
    kv_chain cfg (parseEtcdData b (dataSerializer b)) (kv_of w1) (xs @ ys) \<and>
    (let fits = (n = length (xs @ ys) \<and> fst ` set ds \<inter> fst ` set (xs @ ys) = {});
         unchanged = (view (etcdServer b) (etcdState p') = w1);
         written = (kv_chain cfg (parseEtcdData b (dataSerializer b)) (kv_of (view (etcdServer b) (etcdState p'))) (xs @ ys @ ds) \<and>
           kv_of (view (etcdServer b) (etcdState p')) = kv_appends cfg (serialize b (dataSerializer b)) (itemId i) ds (kv_of w1))
     in r \<in> {Inr True, Inr False} \<and> (r = Inr True \<longrightarrow> fits \<and> written) \<and>
        (r = Inr False \<longrightarrow> \<not> fits \<and> unchanged \<or> \<not> etcd_store.answers b \<and> (unchanged \<or> fits \<and> written)))"
  using assms by (rule etcd_rely.append_step)

theorem etcd_append_witness:
  "kv_of (view (etcdServer ref_backing) (etcdState (snd sample_write))) =
     kv_appends defaultConfiguration (serialize ref_backing (dataSerializer ref_backing)) '''' sample_entries
       (kv_of (view (etcdServer ref_backing) (etcdState sample_process)))"
  using etcd_append [OF ref_etcd_alone _ sample_head_place sample_can_write sample_nonempty sample_write_eq, unfolded Let_def]
    sample_process_holds by (auto simp: process_holds_def sample_head_def)

end
