(* ===== verification/Codecs.thy ===== *)
theory Codecs
  imports Wire "HOL-Library.Word"
begin

text \<open>
  Reference serializers for composite data. The serializers of tm_basic, which write tuples with field names, are parameters of
  the development; this theory builds instances of them, on which the locales that state their laws are interpreted.
\<close>

type_synonym int64 = "64 word"
type_synonym uint32 = "32 word"

text \<open>A serializer that gives back the values that satisfy a predicate, at the head of what follows.\<close>

definition cbor_law_on :: "('a \<Rightarrow> bool) \<Rightarrow> 'a cbor \<Rightarrow> bool" where
  "cbor_law_on P c \<longleftrightarrow> (\<forall>x pre post. P x \<longrightarrow>
     decode_at c (pre @ encode_cbor c x @ post) (length pre) = Some (x, length (encode_cbor c x)))"

lemma cbor_law_onD: "cbor_law_on P c \<Longrightarrow> P x \<Longrightarrow> i = length pre \<Longrightarrow>
    decode_at c (pre @ encode_cbor c x @ post) i = Some (x, length (encode_cbor c x))"
  by (simp add: cbor_law_on_def)

lemma cbor_law_everywhere: "cbor_law c \<Longrightarrow> cbor_law_on P c"
  by (simp add: cbor_law_on_def cbor_law.decode_at_encode)

section \<open>Combinators\<close>

text \<open>An instance of the parameters: fields one after another, behind the list of their names.\<close>

definition conv_cbor :: "('b \<Rightarrow> 'a) \<Rightarrow> ('a \<Rightarrow> 'b option) \<Rightarrow> 'a cbor \<Rightarrow> 'b cbor" where
  "conv_cbor f g c = \<lparr>encode_cbor = (\<lambda>x. encode_cbor c (f x)),
     decode_at = (\<lambda>d i. case decode_at c d i of None \<Rightarrow> None | Some (x, n) \<Rightarrow> map_option (\<lambda>y. (y, n)) (g x))\<rparr>"

definition pair_cbor :: "'a cbor \<Rightarrow> 'b cbor \<Rightarrow> ('a \<times> 'b) cbor" where
  "pair_cbor ca cb = \<lparr>encode_cbor = (\<lambda>(a, b). encode_cbor ca a @ encode_cbor cb b),
     decode_at = (\<lambda>d i. case decode_at ca d i of None \<Rightarrow> None | Some (a, n) \<Rightarrow>
        (case decode_at cb d (i + n) of None \<Rightarrow> None | Some (b, n') \<Rightarrow> Some ((a, b), n + n')))\<rparr>"

fun decode_many :: "'a cbor \<Rightarrow> nat \<Rightarrow> string \<Rightarrow> nat \<Rightarrow> ('a list \<times> nat) option" where
  "decode_many c 0 d i = Some ([], 0)"
| "decode_many c (Suc m) d i = (case decode_at c d i of None \<Rightarrow> None | Some (x, n) \<Rightarrow>
     (case decode_many c m d (i + n) of None \<Rightarrow> None | Some (xs, n') \<Rightarrow> Some (x # xs, n + n')))"

definition nat_cbor :: "nat cbor" where
  "nat_cbor = \<lparr>encode_cbor = unary,
     decode_at = (\<lambda>d i. map_option (\<lambda>n. (n, n + 1)) (take_unary (drop i d)))\<rparr>"

definition word_cbor :: "'w::len word cbor" where
  "word_cbor = conv_cbor unat (\<lambda>n. Some (of_nat n)) nat_cbor"

definition list_cbor :: "'a cbor \<Rightarrow> 'a list cbor" where
  "list_cbor c = \<lparr>encode_cbor = (\<lambda>xs. unary (length xs) @ concat (map (encode_cbor c) xs)),
     decode_at = (\<lambda>d i. case decode_at nat_cbor d i of None \<Rightarrow> None | Some (m, n) \<Rightarrow>
        (case decode_many c m d (i + n) of None \<Rightarrow> None | Some (xs, n') \<Rightarrow> Some (xs, n + n')))\<rparr>"

definition named_cbor :: "string list \<Rightarrow> 'a cbor \<Rightarrow> 'a cbor" where
  "named_cbor ns c = conv_cbor (\<lambda>x. (ns, x)) (\<lambda>(ns', x). if ns' = ns then Some x else None)
     (pair_cbor (list_cbor string_cbor) c)"

lemma conv_law: "cbor_law c \<Longrightarrow> (\<And>x. g (f x) = Some x) \<Longrightarrow> cbor_law (conv_cbor f g c)"
  by unfold_locales (simp add: conv_cbor_def cbor_law.decode_at_encode)

lemma decode_at_encode': "cbor_law c \<Longrightarrow> i = length pre \<Longrightarrow>
    decode_at c (pre @ encode_cbor c x @ post) i = Some (x, length (encode_cbor c x))"
  by (simp add: cbor_law.decode_at_encode)

lemma pair_law: "cbor_law ca \<Longrightarrow> cbor_law cb \<Longrightarrow> cbor_law (pair_cbor ca cb)"
proof (unfold_locales, clarify)
  fix pre post a b
  assume c: "cbor_law ca" "cbor_law cb"
  show "decode_at (pair_cbor ca cb) (pre @ encode_cbor (pair_cbor ca cb) (a, b) @ post) (length pre) =
      Some ((a, b), length (encode_cbor (pair_cbor ca cb) (a, b)))"
    using decode_at_encode' [OF c(1) refl, of pre a "encode_cbor cb b @ post"]
      decode_at_encode' [OF c(2), of "length pre + length (encode_cbor ca a)" "pre @ encode_cbor ca a" b post]
    by (simp add: pair_cbor_def)
qed

lemma nat_law: "cbor_law nat_cbor"
  by unfold_locales (simp add: nat_cbor_def unary_def take_unary_replicate)

lemma word_law: "cbor_law word_cbor"
  unfolding word_cbor_def by (rule conv_law [OF nat_law]) simp

lemma decode_many_law: "cbor_law c \<Longrightarrow>
    decode_many c (length xs) (pre @ concat (map (encode_cbor c) xs) @ post) (length pre) =
      Some (xs, length (concat (map (encode_cbor c) xs)))"
proof (induction xs arbitrary: pre)
  case (Cons x xs)
  show ?case
    using decode_at_encode' [OF Cons.prems refl, of pre x "concat (map (encode_cbor c) xs) @ post"]
      Cons.IH [OF Cons.prems, of "pre @ encode_cbor c x"] by simp
qed simp

lemma list_law: "cbor_law c \<Longrightarrow> cbor_law (list_cbor c)"
proof
  fix pre post and xs :: "'a list"
  assume c: "cbor_law c"
  show "decode_at (list_cbor c) (pre @ encode_cbor (list_cbor c) xs @ post) (length pre) =
      Some (xs, length (encode_cbor (list_cbor c) xs))"
    using decode_at_encode' [OF nat_law refl, of pre "length xs" "concat (map (encode_cbor c) xs) @ post"]
      decode_many_law [OF c, of xs "pre @ unary (length xs)" post]
    by (simp add: list_cbor_def nat_cbor_def)
qed

lemma named_law: "cbor_law c \<Longrightarrow> cbor_law (named_cbor ns c)"
  unfolding named_cbor_def
  by (intro conv_law pair_law list_law string_cbor.cbor_law_axioms) simp_all

lemmas codec_laws = named_law pair_law list_law word_law string_cbor.cbor_law_axioms

text \<open>The combinators on restricted values.\<close>

lemma pair_law_on: "cbor_law_on P ca \<Longrightarrow> cbor_law_on Q cb \<Longrightarrow> cbor_law_on (\<lambda>(a, b). P a \<and> Q b) (pair_cbor ca cb)"
  unfolding cbor_law_on_def
proof (intro allI impI, clarify)
  fix a b pre post
  assume c: "\<forall>x pre post. P x \<longrightarrow> decode_at ca (pre @ encode_cbor ca x @ post) (length pre) = Some (x, length (encode_cbor ca x))"
    "\<forall>x pre post. Q x \<longrightarrow> decode_at cb (pre @ encode_cbor cb x @ post) (length pre) = Some (x, length (encode_cbor cb x))"
    and p: "P a" "Q b"
  show "decode_at (pair_cbor ca cb) (pre @ encode_cbor (pair_cbor ca cb) (a, b) @ post) (length pre) =
      Some ((a, b), length (encode_cbor (pair_cbor ca cb) (a, b)))"
    using p c(1) [rule_format, of a pre "encode_cbor cb b @ post"]
      c(2) [rule_format, of b "pre @ encode_cbor ca a" post]
    by (simp add: pair_cbor_def)
qed

lemma conv_law_on: "cbor_law_on P c \<Longrightarrow> (\<And>x. Q x \<Longrightarrow> P (f x)) \<Longrightarrow> (\<And>x. Q x \<Longrightarrow> g (f x) = Some x) \<Longrightarrow>
    cbor_law_on Q (conv_cbor f g c)"
  by (simp add: cbor_law_on_def conv_cbor_def)

lemma named_law_on:
  assumes "cbor_law_on P c"
  shows "cbor_law_on P (named_cbor ns c)"
  unfolding named_cbor_def
  by (rule conv_law_on [OF pair_law_on [OF cbor_law_everywhere [OF list_law [OF string_cbor.cbor_law_axioms], of "\<lambda>_. True"] assms]])
     auto

end
