(* ===== verification/Heartbeat.thy ===== *)
theory Heartbeat
  imports Prelude Codecs "HOL-Library.AList"
begin

text \<open>
  Heartbeat and alert messages (src/HeartbeatMessage.cpp, src/AlertMessage.cpp) and the component that publishes them
  (src/HeartbeatAndAlertComponent.cpp). Messages travel as CBOR maps with fixed field names. The serializers of tm_basic
  and the clock conversions and log level names of tm_infra are parameters.
\<close>

section \<open>Status\<close>

datatype Status = Good | Warning | Bad | Unknown

record OneItemStatus =
  status_of :: Status
  info :: string

definition STATUS_NAMES :: "string list" where
  "STATUS_NAMES = [''Good'', ''Warning'', ''Bad'', ''Unknown'']"

text \<open>\<open>static_cast\<close> from and to \<open>int\<close>.\<close>

fun status_index :: "Status \<Rightarrow> nat" where
  "status_index Good = 0"
| "status_index Warning = 1"
| "status_index Bad = 2"
| "status_index Unknown = 3"

definition status_at :: "nat \<Rightarrow> Status" where
  "status_at ii = [Good, Warning, Bad, Unknown] ! ii"

definition status_encode :: "string cbor \<Rightarrow> Status \<Rightarrow> string" where
  "status_encode sc x = encode_cbor sc (STATUS_NAMES ! status_index x)"

text \<open>The search loop: the first index from \<open>ii\<close> on at which the name stands.\<close>

fun find_name :: "string list \<Rightarrow> string \<Rightarrow> nat \<Rightarrow> nat option" where
  "find_name [] s ii = None"
| "find_name (n # ns) s ii = (if n = s then Some ii else find_name ns s (ii + 1))"

definition status_decode :: "string cbor \<Rightarrow> string \<Rightarrow> nat \<Rightarrow> (Status \<times> nat) option" where
  "status_decode sc d start =
     (case decode_at sc d start of
        None \<Rightarrow> None
      | Some (s, n) \<Rightarrow> (case find_name STATUS_NAMES s 0 of None \<Rightarrow> None | Some ii \<Rightarrow> Some (status_at ii, n)))"

definition status_decode_in_place :: "string cbor \<Rightarrow> Status \<Rightarrow> string \<Rightarrow> nat \<Rightarrow> Status \<times> nat option" where
  "status_decode_in_place sc output d start =
     (case decode_at sc d start of
        None \<Rightarrow> (output, None)
      | Some (s, n) \<Rightarrow>
          (case find_name STATUS_NAMES s 0 of None \<Rightarrow> (output, None) | Some ii \<Rightarrow> (status_at ii, Some n)))"

definition status_cbor :: "string cbor \<Rightarrow> Status cbor" where
  "status_cbor sc = \<lparr>encode_cbor = status_encode sc, decode_at = status_decode sc\<rparr>"

definition statusString :: "Status \<Rightarrow> string" where
  "statusString status =
     (case status of Good \<Rightarrow> ''Good'' | Warning \<Rightarrow> ''Warning'' | Bad \<Rightarrow> ''Bad'' | _ \<Rightarrow> ''Unknown'')"

definition parseStatus :: "string \<Rightarrow> Status" where
  "parseStatus s =
     (if s = ''Good'' then Good else if s = ''Warning'' then Warning else if s = ''Bad'' then Bad else Unknown)"

section \<open>Serializers with field names\<close>

text \<open>
  \<open>RunCBORSerializerWithNameList\<close> for the three tuples that are sent, given the names (and the serializer of \<open>OneItemStatus\<close>
  for the last map).
\<close>

type_synonym item_tuple = "Status \<times> string"
type_synonym beat_tuple = "string \<times> int64 \<times> string \<times> int64 \<times> string \<times> (string, string list) stdmap
    \<times> (string, string) stdmap \<times> (string, OneItemStatus) stdmap"
type_synonym alert_tuple = "int64 \<times> string \<times> int64 \<times> string \<times> string \<times> string"

record name_list_codecs =
  string_codec :: "string cbor"
  item_codec :: "string list \<Rightarrow> Status cbor \<Rightarrow> item_tuple cbor"
  beat_codec :: "string list \<Rightarrow> OneItemStatus cbor \<Rightarrow> beat_tuple cbor"
  alert_codec :: "string list \<Rightarrow> alert_tuple cbor"

definition item_encode :: "name_list_codecs \<Rightarrow> OneItemStatus \<Rightarrow> string" where
  "item_encode k x =
     encode_cbor (item_codec k [''status'', ''info''] (status_cbor (string_codec k))) (status_of x, info x)"

definition item_decode :: "name_list_codecs \<Rightarrow> string \<Rightarrow> nat \<Rightarrow> (OneItemStatus \<times> nat) option" where
  "item_decode k d start =
     (case decode_at (item_codec k [''status'', ''info''] (status_cbor (string_codec k))) d start of
        Some ((st, i), n) \<Rightarrow> Some (\<lparr>status_of = st, info = i\<rparr>, n)
      | None \<Rightarrow> None)"

definition item_cbor :: "name_list_codecs \<Rightarrow> OneItemStatus cbor" where
  "item_cbor k = \<lparr>encode_cbor = item_encode k, decode_at = item_decode k\<rparr>"

section \<open>\<open>HeartbeatMessage\<close>\<close>

record 't HeartbeatMessage =
  uuidStr :: string
  heartbeatTime :: 't
  host :: string
  pid :: int64
  senderDescription :: string
  broadcastChannels :: "(string, string list) stdmap"
  facilityChannels :: "(string, string) stdmap"
  details :: "(string, OneItemStatus) stdmap"

text \<open>The clock conversions: a time point as microseconds since the epoch and back.\<close>

record 't clock_codec =
  sinceEpoch :: "'t \<Rightarrow> int64"
  epochDurationToTime :: "int64 \<Rightarrow> 't"

definition heartbeat_names :: "string list" where
  "heartbeat_names = [''uuid_str'', ''timestamp'', ''host'', ''pid'', ''sender_description'',
     ''broadcast_channels'', ''facility_channels'', ''details'']"

definition SerializeToString :: "name_list_codecs \<Rightarrow> 't clock_codec \<Rightarrow> 't HeartbeatMessage \<Rightarrow> string" where
  "SerializeToString k ck m =
     encode_cbor (beat_codec k heartbeat_names (item_cbor k))
       (uuidStr m, sinceEpoch ck (heartbeatTime m), host m, pid m, senderDescription m, broadcastChannels m,
        facilityChannels m, details m)"

definition ParseFromString :: "name_list_codecs \<Rightarrow> 't clock_codec \<Rightarrow> string \<Rightarrow> 't HeartbeatMessage
    \<Rightarrow> bool \<times> 't HeartbeatMessage" where
  "ParseFromString k ck s m =
     (case decode_at (beat_codec k heartbeat_names (item_cbor k)) s 0 of
        None \<Rightarrow> (False, m)
      | Some ((u, t, h, p, d, bc, fc, ds), n) \<Rightarrow>
          if n \<noteq> length s then (False, m)
          else (True, \<lparr>uuidStr = u, heartbeatTime = epochDurationToTime ck t, host = h, pid = p,
                       senderDescription = d, broadcastChannels = bc, facilityChannels = fc, details = ds\<rparr>))"

definition status :: "'t HeartbeatMessage \<Rightarrow> string \<Rightarrow> OneItemStatus option" where
  "status m entry = map_of (details m) entry"

definition allEntries :: "'t HeartbeatMessage \<Rightarrow> string set" where
  "allEntries m = fold (\<lambda>item ret. insert (fst item) ret) (details m) {}"

text \<open>\<open>re\<close> is \<open>std::regex_match\<close> with the given expression.\<close>

definition allEntriesRE :: "(string \<Rightarrow> bool) \<Rightarrow> 't HeartbeatMessage \<Rightarrow> string set" where
  "allEntriesRE re m = fold (\<lambda>item ret. if re (fst item) then insert (fst item) ret else ret) (details m) {}"

section \<open>\<open>AlertMessage\<close>\<close>

datatype LogLevel = Trace | Debug | Info | LWarning | Error | Critical

record 't AlertMessage =
  alertTime :: 't
  ahost :: string
  apid :: int64
  sender :: string
  level :: LogLevel
  message :: string

definition parseLevel :: "(LogLevel \<Rightarrow> string) \<Rightarrow> string \<Rightarrow> LogLevel" where
  "parseLevel logLevelToString s =
     (if s = logLevelToString Trace then Trace
      else if s = logLevelToString Debug then Debug
      else if s = logLevelToString Info then Info
      else if s = logLevelToString LWarning then LWarning
      else if s = logLevelToString Error then Error
      else if s = logLevelToString Critical then Critical
      else Trace)"

definition alert_names :: "string list" where
  "alert_names = [''alertTime'', ''host'', ''pid'', ''sender'', ''level'', ''message'']"

definition alert_SerializeToString :: "name_list_codecs \<Rightarrow> 't clock_codec \<Rightarrow> (LogLevel \<Rightarrow> string) \<Rightarrow> 't AlertMessage \<Rightarrow> string" where
  "alert_SerializeToString k ck lv m =
     encode_cbor (alert_codec k alert_names)
       (sinceEpoch ck (alertTime m), ahost m, apid m, sender m, lv (level m), message m)"

definition alert_ParseFromString :: "name_list_codecs \<Rightarrow> 't clock_codec \<Rightarrow> (LogLevel \<Rightarrow> string) \<Rightarrow> string
    \<Rightarrow> 't AlertMessage \<Rightarrow> bool \<times> 't AlertMessage" where
  "alert_ParseFromString k ck lv s m =
     (case decode_at (alert_codec k alert_names) s 0 of
        None \<Rightarrow> (False, m)
      | Some ((t, h, p, d, l, msg), n) \<Rightarrow>
          if n \<noteq> length s then (False, m)
          else (True, \<lparr>alertTime = epochDurationToTime ck t, ahost = h, apid = p, sender = d,
                       level = parseLevel lv l, message = msg\<rparr>))"

section \<open>\<open>HeartbeatAndAlertComponentImpl\<close>\<close>

text \<open>
  A \<open>std::unordered_map\<close> is the list of its entries in some order. \<open>clock\<close> says whether there is a clock, whose time is
  an argument of the operations that read it. What an operation sends is its second result.
\<close>

record ('p, 'h) HeartbeatAndAlertComponentImpl =
  c_uuidStr :: string
  c_clock :: bool
  c_host :: string
  c_pid :: int64
  c_identity :: string
  c_publisher :: "'p option"
  c_broadcastChannels :: "(string \<times> string list) list"
  c_facilityChannels :: "(string \<times> string) list"
  c_status :: "(string, OneItemStatus) stdmap"
  c_extraHandlers :: "'h list"

datatype ('p, 'h, 't) sent = Publish 'p string string | Handle 'h "'t HeartbeatMessage"

text \<open>The third constructor: a component with a clock and a publisher.\<close>

definition new_component :: "string \<Rightarrow> string \<Rightarrow> int64 \<Rightarrow> string \<Rightarrow> 'p option \<Rightarrow> ('p, 'h) HeartbeatAndAlertComponentImpl" where
  "new_component u h p i pub =
     \<lparr>c_uuidStr = u, c_clock = True, c_host = h, c_pid = p, c_identity = i, c_publisher = pub,
      c_broadcastChannels = [], c_facilityChannels = [], c_status = [], c_extraHandlers = []\<rparr>"

definition default_component :: "string \<Rightarrow> ('p, 'h) HeartbeatAndAlertComponentImpl" where
  "default_component u =
     \<lparr>c_uuidStr = u, c_clock = False, c_host = '''', c_pid = 0, c_identity = '''', c_publisher = None,
      c_broadcastChannels = [], c_facilityChannels = [], c_status = [], c_extraHandlers = []\<rparr>"

definition assignIdentity :: "('p, 'h) HeartbeatAndAlertComponentImpl \<Rightarrow> ('p, 'h) HeartbeatAndAlertComponentImpl
    \<Rightarrow> ('p, 'h) HeartbeatAndAlertComponentImpl" where
  "assignIdentity another c =
     c\<lparr>c_clock := c_clock another, c_host := c_host another, c_pid := c_pid another, c_identity := c_identity another,
       c_publisher := c_publisher another, c_extraHandlers := c_extraHandlers another\<rparr>"

definition setStatus :: "string \<Rightarrow> Status \<Rightarrow> string \<Rightarrow> ('p, 'h) HeartbeatAndAlertComponentImpl
    \<Rightarrow> ('p, 'h) HeartbeatAndAlertComponentImpl" where
  "setStatus itemDescription st i c =
     c\<lparr>c_status := smap_assign itemDescription \<lparr>status_of = st, info = i\<rparr> (c_status c)\<rparr>"

definition addBroadcastChannel :: "string \<Rightarrow> string \<Rightarrow> ('p, 'h) HeartbeatAndAlertComponentImpl
    \<Rightarrow> ('p, 'h) HeartbeatAndAlertComponentImpl" where
  "addBroadcastChannel name ch c =
     (let channelVec = (case map_of (c_broadcastChannels c) name of Some v \<Rightarrow> v | None \<Rightarrow> []) in
      c\<lparr>c_broadcastChannels := AList.update name
          (if ch \<in> set channelVec then channelVec else channelVec @ [ch]) (c_broadcastChannels c)\<rparr>)"

definition addFacilityChannel :: "string \<Rightarrow> string \<Rightarrow> ('p, 'h) HeartbeatAndAlertComponentImpl
    \<Rightarrow> ('p, 'h) HeartbeatAndAlertComponentImpl" where
  "addFacilityChannel name ch c =
     (if map_of (c_facilityChannels c) name = None
      then c\<lparr>c_facilityChannels := AList.update name ch (c_facilityChannels c)\<rparr> else c)"

definition sendAlert :: "name_list_codecs \<Rightarrow> 't clock_codec \<Rightarrow> (LogLevel \<Rightarrow> string) \<Rightarrow> 't \<Rightarrow> string \<Rightarrow> LogLevel \<Rightarrow> string
    \<Rightarrow> ('p, 'h) HeartbeatAndAlertComponentImpl \<Rightarrow> ('p, 'h, 't) sent list" where
  "sendAlert k ck lv now alertTopic l msg c =
     (case c_publisher c of
        Some pub \<Rightarrow>
          if c_clock c then
            [Publish pub alertTopic (alert_SerializeToString k ck lv
               \<lparr>alertTime = now, ahost = c_host c, apid = c_pid c, sender = c_identity c, level = l, message = msg\<rparr>)]
          else []
      | None \<Rightarrow> [])"

definition sendCustomMessage_internal :: "'t \<Rightarrow> string \<Rightarrow> ('t \<Rightarrow> string \<Rightarrow> int64 \<Rightarrow> string \<Rightarrow> string)
    \<Rightarrow> ('p, 'h) HeartbeatAndAlertComponentImpl \<Rightarrow> ('p, 'h, 't) sent list" where
  "sendCustomMessage_internal now messageTopic messageFunc c =
     (case c_publisher c of
        Some pub \<Rightarrow>
          if c_clock c then [Publish pub messageTopic (messageFunc now (c_host c) (c_pid c) (c_identity c))] else []
      | None \<Rightarrow> [])"

text \<open>A \<open>std::map\<close> built from the range of an \<open>unordered_map\<close>.\<close>

definition ordered :: "(string \<times> 'v) list \<Rightarrow> (string, 'v) stdmap" where
  "ordered es = fold (\<lambda>e m. smap_insert (fst e) (snd e) m) es []"

definition heartbeat_of :: "'t \<Rightarrow> ('p, 'h) HeartbeatAndAlertComponentImpl \<Rightarrow> 't HeartbeatMessage" where
  "heartbeat_of now c =
     \<lparr>uuidStr = c_uuidStr c, heartbeatTime = now, host = c_host c, pid = c_pid c, senderDescription = c_identity c,
      broadcastChannels = ordered (c_broadcastChannels c), facilityChannels = ordered (c_facilityChannels c),
      details = c_status c\<rparr>"

text \<open>The last handler gets the message itself, the others a copy.\<close>

definition publishHeartbeat :: "name_list_codecs \<Rightarrow> 't clock_codec \<Rightarrow> 't \<Rightarrow> string
    \<Rightarrow> ('p, 'h) HeartbeatAndAlertComponentImpl \<Rightarrow> ('p, 'h, 't) sent list" where
  "publishHeartbeat k ck now heartbeatTopic c =
     (case c_publisher c of
        Some pub \<Rightarrow>
          if c_clock c then
            (let msg = heartbeat_of now c; sz = length (c_extraHandlers c) in
             Publish pub heartbeatTopic (SerializeToString k ck msg) #
             map (\<lambda>ii. Handle (c_extraHandlers c ! ii) msg) [0..<sz])
          else []
      | None \<Rightarrow> [])"

definition addExtraHeartbeatHandler :: "'h \<Rightarrow> ('p, 'h) HeartbeatAndAlertComponentImpl
    \<Rightarrow> ('p, 'h) HeartbeatAndAlertComponentImpl" where
  "addExtraHeartbeatHandler handler c = c\<lparr>c_extraHandlers := c_extraHandlers c @ [handler]\<rparr>"

section \<open>What the serializers promise\<close>

text \<open>
  With distinct field names a tuple comes back as it was written; a \<open>std::map\<close> field is a sorted map.
\<close>

definition beat_tuple_wf :: "beat_tuple \<Rightarrow> bool" where
  "beat_tuple_wf x = (case x of (_, _, _, _, _, bc, fc, ds) \<Rightarrow> smap_wf bc \<and> smap_wf fc \<and> smap_wf ds)"

locale name_list_laws =
  fixes k :: name_list_codecs
  assumes string_law: "cbor_law (string_codec k)"
    and item_law: "distinct ns \<Longrightarrow> length ns = 2 \<Longrightarrow> cbor_law sc \<Longrightarrow> cbor_law (item_codec k ns sc)"
    and beat_law: "distinct ns \<Longrightarrow> length ns = 8 \<Longrightarrow> cbor_law ic \<Longrightarrow> beat_tuple_wf x \<Longrightarrow>
      decode_at (beat_codec k ns ic) (encode_cbor (beat_codec k ns ic) x @ post) 0 =
        Some (x, length (encode_cbor (beat_codec k ns ic) x))"
    and alert_law: "distinct ns \<Longrightarrow> length ns = 6 \<Longrightarrow> cbor_law (alert_codec k ns)"
begin

lemma status_law: "cbor_law (status_cbor (string_codec k))"
proof
  fix pre post x
  show "decode_at (status_cbor (string_codec k)) (pre @ encode_cbor (status_cbor (string_codec k)) x @ post) (length pre) =
      Some (x, length (encode_cbor (status_cbor (string_codec k)) x))"
    by (cases x) (simp_all add: status_cbor_def status_encode_def status_decode_def STATUS_NAMES_def status_at_def
        cbor_law.decode_at_encode [OF string_law])
qed

sublocale status: cbor_law "status_cbor (string_codec k)"
  by (rule status_law)

lemma item_law': "cbor_law (item_codec k [''status'', ''info''] (status_cbor (string_codec k)))"
  by (rule item_law [OF _ _ status_law]) simp_all

sublocale item: cbor_law "item_cbor k"
  by unfold_locales
     (simp add: item_cbor_def item_encode_def item_decode_def cbor_law.decode_at_encode [OF item_law'])

lemma names_distinct: "distinct heartbeat_names" "distinct alert_names"
  by (simp_all add: heartbeat_names_def alert_names_def)

lemma names_length: "length heartbeat_names = 8" "length alert_names = 6"
  by (simp_all add: heartbeat_names_def alert_names_def)

lemmas beat_law' = beat_law [OF names_distinct(1) names_length(1) item.cbor_law_axioms]
lemmas alert_law' = cbor_law.decode_at_encode [OF alert_law [OF names_distinct(2) names_length(2)], of "[]", simplified]

text \<open>A message comes back with its time truncated to what the clock conversion keeps; surplus bytes are refused.\<close>

lemma parse_serialized:
  assumes "smap_wf (broadcastChannels m)" "smap_wf (facilityChannels m)" "smap_wf (details m)"
  shows "ParseFromString k ck (SerializeToString k ck m @ post) old =
    (if post = [] then (True, m\<lparr>heartbeatTime := epochDurationToTime ck (sinceEpoch ck (heartbeatTime m))\<rparr>) else (False, old))"
  using assms by (simp add: ParseFromString_def SerializeToString_def beat_law' beat_tuple_wf_def)

lemma parse_serialized_alert:
  assumes "inj lv"
  shows "alert_ParseFromString k ck lv (alert_SerializeToString k ck lv m @ post) old =
    (if post = [] then (True, m\<lparr>alertTime := epochDurationToTime ck (sinceEpoch ck (alertTime m))\<rparr>) else (False, old))"
proof -
  have "parseLevel lv (lv l) = l" for l
    using injD [OF assms] by (cases l) (auto simp: parseLevel_def)
  then show ?thesis
    by (simp add: alert_ParseFromString_def alert_SerializeToString_def alert_law')
qed

end

section \<open>Reference serializers\<close>

text \<open>An instance of the parameters.\<close>

definition ref_codecs :: name_list_codecs where
  "ref_codecs = \<lparr>string_codec = string_cbor,
     item_codec = (\<lambda>ns sc. named_cbor ns (pair_cbor sc string_cbor)),
     beat_codec = (\<lambda>ns ic. named_cbor ns (pair_cbor string_cbor (pair_cbor word_cbor (pair_cbor string_cbor (pair_cbor word_cbor
        (pair_cbor string_cbor (pair_cbor (list_cbor (pair_cbor string_cbor (list_cbor string_cbor)))
          (pair_cbor (list_cbor (pair_cbor string_cbor string_cbor)) (list_cbor (pair_cbor string_cbor ic)))))))))),
     alert_codec = (\<lambda>ns. named_cbor ns (pair_cbor word_cbor (pair_cbor string_cbor (pair_cbor word_cbor
        (pair_cbor string_cbor (pair_cbor string_cbor string_cbor))))))\<rparr>"

interpretation ref_codecs: name_list_laws ref_codecs
proof (rule name_list_laws.intro)
  fix ns :: "string list" and ic :: "OneItemStatus cbor" and x post
  assume ic: "cbor_law ic"
  have "cbor_law (beat_codec ref_codecs ns ic)"
    using ic by (simp add: ref_codecs_def codec_laws)
  then show "decode_at (beat_codec ref_codecs ns ic) (encode_cbor (beat_codec ref_codecs ns ic) x @ post) 0 =
      Some (x, length (encode_cbor (beat_codec ref_codecs ns ic) x))"
    using cbor_law.decode_at_encode [of "beat_codec ref_codecs ns ic" "[]" x post] by simp
qed (simp_all add: ref_codecs_def codec_laws)

section \<open>The history of a component\<close>

text \<open>The calls that change the component, in the order in which the mutex let them in.\<close>

datatype 'h change =
    SetStatus string Status string
  | AddBroadcastChannel string string
  | AddFacilityChannel string string
  | AddHandler 'h

fun run_change :: "'h change \<Rightarrow> ('p, 'h) HeartbeatAndAlertComponentImpl \<Rightarrow> ('p, 'h) HeartbeatAndAlertComponentImpl" where
  "run_change (SetStatus n st i) = setStatus n st i"
| "run_change (AddBroadcastChannel n ch) = addBroadcastChannel n ch"
| "run_change (AddFacilityChannel n ch) = addFacilityChannel n ch"
| "run_change (AddHandler h) = addExtraHeartbeatHandler h"

text \<open>What each call leaves behind: the last status, the channels without repetition, the first facility channel, all handlers.\<close>

definition status_set :: "'h change list \<Rightarrow> string \<Rightarrow> OneItemStatus option" where
  "status_set hs n = fold (\<lambda>h r. case h of SetStatus n' st i \<Rightarrow> if n' = n then Some \<lparr>status_of = st, info = i\<rparr> else r | _ \<Rightarrow> r) hs None"

definition broadcasts_added :: "'h change list \<Rightarrow> string \<Rightarrow> string list" where
  "broadcasts_added hs n = concat (map (\<lambda>h. case h of AddBroadcastChannel n' ch \<Rightarrow> if n' = n then [ch] else [] | _ \<Rightarrow> []) hs)"

definition facilities_added :: "'h change list \<Rightarrow> string \<Rightarrow> string list" where
  "facilities_added hs n = concat (map (\<lambda>h. case h of AddFacilityChannel n' ch \<Rightarrow> if n' = n then [ch] else [] | _ \<Rightarrow> []) hs)"

definition handlers_added :: "'h change list \<Rightarrow> 'h list" where
  "handlers_added hs = concat (map (\<lambda>h. case h of AddHandler h' \<Rightarrow> [h'] | _ \<Rightarrow> []) hs)"

text \<open>A list without the repetitions, in the order of first occurrence.\<close>

definition first_occurrences :: "'a list \<Rightarrow> 'a list" where
  "first_occurrences xs = rev (remdups (rev xs))"

lemma first_occurrences_snoc:
  "first_occurrences (xs @ [x]) = (if x \<in> set xs then first_occurrences xs else first_occurrences xs @ [x])"
  by (simp add: first_occurrences_def)

lemma set_first_occurrences [simp]: "set (first_occurrences xs) = set xs"
  by (simp add: first_occurrences_def)

lemma first_occurrences_short [simp]: "first_occurrences [] = []" "first_occurrences [x] = [x]"
  by (simp_all add: first_occurrences_def)

lemma first_occurrences_eq_Nil [simp]: "first_occurrences xs = [] \<longleftrightarrow> xs = []"
  by (simp add: first_occurrences_def)

definition nonempty :: "'a list \<Rightarrow> 'a list option" where
  "nonempty xs = (if xs = [] then None else Some xs)"

definition started :: "('p, 'h) HeartbeatAndAlertComponentImpl \<Rightarrow> bool" where
  "started c \<longleftrightarrow> c_broadcastChannels c = [] \<and> c_facilityChannels c = [] \<and> c_status c = [] \<and> c_extraHandlers c = []"

definition reflects :: "'h change list \<Rightarrow> ('p, 'h) HeartbeatAndAlertComponentImpl \<Rightarrow> bool" where
  "reflects hs c \<longleftrightarrow> smap_wf (c_status c) \<and> distinct (map fst (c_broadcastChannels c)) \<and> distinct (map fst (c_facilityChannels c))
     \<and> map_of (c_status c) = status_set hs
     \<and> map_of (c_broadcastChannels c) = (\<lambda>n. nonempty (first_occurrences (broadcasts_added hs n)))
     \<and> map_of (c_facilityChannels c) = (\<lambda>n. map_option hd (nonempty (facilities_added hs n)))
     \<and> c_extraHandlers c = handlers_added hs"

lemmas history_defs = status_set_def broadcasts_added_def facilities_added_def handlers_added_def nonempty_def

lemma reflects_start: "started c \<Longrightarrow> reflects [] c"
  by (simp add: started_def reflects_def history_defs fun_eq_iff)

lemma map_of_update: "map_of (AList.update k v xs) = (map_of xs)(k \<mapsto> v)"
  by (simp add: update_conv' fun_eq_iff)

lemma history_snoc:
  "status_set (hs @ [h]) = (case h of SetStatus n st i \<Rightarrow> (status_set hs)(n \<mapsto> \<lparr>status_of = st, info = i\<rparr>) | _ \<Rightarrow> status_set hs)"
  "broadcasts_added (hs @ [h]) n = broadcasts_added hs n @ (case h of AddBroadcastChannel n' ch \<Rightarrow> if n' = n then [ch] else [] | _ \<Rightarrow> [])"
  "facilities_added (hs @ [h]) n = facilities_added hs n @ (case h of AddFacilityChannel n' ch \<Rightarrow> if n' = n then [ch] else [] | _ \<Rightarrow> [])"
  "handlers_added (hs @ [h]) = handlers_added hs @ (case h of AddHandler h' \<Rightarrow> [h'] | _ \<Rightarrow> [])"
  by (auto simp: status_set_def broadcasts_added_def facilities_added_def handlers_added_def fun_eq_iff split: change.split)

lemma reflects_change:
  assumes "reflects hs c"
  shows "reflects (hs @ [h]) (run_change h c)"
proof (cases h)
  case (SetStatus n st i)
  with assms show ?thesis
    by (auto simp: reflects_def history_snoc setStatus_def smap_wf_assign smap_simps)
next
  case (AddBroadcastChannel n ch)
  with assms show ?thesis
    by (auto simp: reflects_def history_snoc nonempty_def addBroadcastChannel_def Let_def map_of_update distinct_update
        first_occurrences_snoc fun_eq_iff)
next
  case (AddFacilityChannel n ch)
  with assms show ?thesis
    by (auto simp: reflects_def history_snoc nonempty_def addFacilityChannel_def map_of_update distinct_update fun_eq_iff)
next
  case (AddHandler h')
  with assms show ?thesis
    by (auto simp: reflects_def history_snoc addExtraHeartbeatHandler_def)
qed

lemma reflects_fold: "reflects hs c \<Longrightarrow> reflects (hs @ hs') (fold run_change hs' c)"
proof (induction hs' arbitrary: hs c)
  case (Cons h hs')
  then show ?case using reflects_change [of hs c h] by fastforce
qed simp

lemma ordered_spec: "distinct (map fst es) \<Longrightarrow> smap_wf m \<Longrightarrow> dom (map_of es) \<inter> dom (map_of m) = {} \<Longrightarrow>
    smap_wf (fold (\<lambda>e m. smap_insert (fst e) (snd e) m) es m) \<and>
    map_of (fold (\<lambda>e m. smap_insert (fst e) (snd e) m) es m) = map_of m ++ map_of es"
proof (induction es arbitrary: m)
  case (Cons e es)
  let ?m = "smap_insert (fst e) (snd e) m"
  have f: "map_of m (fst e) = None"
    using Cons.prems(3) by (cases e) auto
  have d: "map_of es (fst e) = None"
    using Cons.prems(1) by (simp add: map_of_eq_None_iff)
  have w: "smap_wf ?m"
    using Cons.prems by (simp add: smap_wf_insert)
  have m: "map_of ?m = (map_of m)(fst e \<mapsto> snd e)"
    using f Cons.prems(2) by (auto simp: smap_simps fun_eq_iff)
  have "dom (map_of es) \<inter> dom (map_of ?m) = {}"
    unfolding m using Cons.prems(3) d by (cases e) (auto simp: dom_def split: if_splits)
  then have "smap_wf (fold (\<lambda>e m. smap_insert (fst e) (snd e) m) es ?m) \<and>
      map_of (fold (\<lambda>e m. smap_insert (fst e) (snd e) m) es ?m) = map_of ?m ++ map_of es"
    using Cons.IH [of ?m] Cons.prems(1) w by simp
  moreover have "map_of ?m ++ map_of es = map_of m ++ map_of (e # es)"
    unfolding m using d by (cases e) (auto simp: fun_eq_iff map_add_def split: option.splits)
  ultimately show ?case
    by (simp only: fold_Cons comp_apply)
qed simp

lemma ordered_wf: "distinct (map fst es) \<Longrightarrow> smap_wf (ordered es)"
  and map_of_ordered: "distinct (map fst es) \<Longrightarrow> map_of (ordered es) = map_of es"
  using ordered_spec [of es "[]"] by (auto simp: ordered_def)

section \<open>What subscribers see\<close>

definition sample_beat :: "int64 HeartbeatMessage" where
  "sample_beat = \<lparr>uuidStr = ''u'', heartbeatTime = 3, host = ''h'', pid = 2, senderDescription = ''s'',
     broadcastChannels = [(''a'', [''x'', ''y''])], facilityChannels = [(''f'', ''z'')],
     details = [(''d'', \<lparr>status_of = Bad, info = ''i''\<rparr>)]\<rparr>"

definition even_clock :: "int64 clock_codec" where
  "even_clock = \<lparr>sinceEpoch = (\<lambda>t. t div 2), epochDurationToTime = (\<lambda>t. 2 * t)\<rparr>"

text \<open>C27: A heartbeat message that is serialized and parsed comes back with every field intact and its time truncated to
  microseconds, and the parser refuses the same bytes followed by anything else, leaving the message it was to fill unchanged.\<close>

theorem heartbeat_roundtrip:
  assumes "name_list_laws k"
    and "smap_wf (broadcastChannels m)" "smap_wf (facilityChannels m)" "smap_wf (details m)"
  shows "ParseFromString k ck (SerializeToString k ck m @ post) old =
    (if post = [] then (True, m\<lparr>heartbeatTime := epochDurationToTime ck (sinceEpoch ck (heartbeatTime m))\<rparr>) else (False, old))"
  using assms by (rule name_list_laws.parse_serialized)

theorem heartbeat_roundtrip_witness:
  "ParseFromString ref_codecs even_clock (SerializeToString ref_codecs even_clock sample_beat) sample_beat =
    (True, sample_beat\<lparr>heartbeatTime := 2\<rparr>)"
  using heartbeat_roundtrip [OF ref_codecs.name_list_laws_axioms, of sample_beat even_clock "[]" sample_beat]
  by (simp add: sample_beat_def even_clock_def smap_wf_def)

text \<open>An alert that is serialized and parsed comes back with its level and every other field intact and its time truncated to
  microseconds, when the six level names differ; surplus bytes are refused.\<close>

theorem alert_roundtrip:
  assumes "name_list_laws k" and "inj lv"
  shows "alert_ParseFromString k ck lv (alert_SerializeToString k ck lv m @ post) old =
    (if post = [] then (True, m\<lparr>alertTime := epochDurationToTime ck (sinceEpoch ck (alertTime m))\<rparr>) else (False, old))"
  using assms by (rule name_list_laws.parse_serialized_alert)

definition level_name :: "LogLevel \<Rightarrow> string" where
  "level_name l = (case l of Trace \<Rightarrow> ''Trace'' | Debug \<Rightarrow> ''Debug'' | Info \<Rightarrow> ''Info'' | LWarning \<Rightarrow> ''Warning''
     | Error \<Rightarrow> ''Error'' | Critical \<Rightarrow> ''Critical'')"

lemma level_name_inj: "inj level_name"
proof (rule injI)
  fix x y
  show "level_name x = level_name y \<Longrightarrow> x = y"
    by (cases x; cases y) (simp_all add: level_name_def)
qed

theorem alert_roundtrip_witness:
  "alert_ParseFromString ref_codecs even_clock level_name (alert_SerializeToString ref_codecs even_clock level_name
      \<lparr>alertTime = 5, ahost = ''h'', apid = 1, sender = ''s'', level = Error, message = ''m''\<rparr>)
      \<lparr>alertTime = 0, ahost = '''', apid = 0, sender = '''', level = Trace, message = ''''\<rparr> =
    (True, \<lparr>alertTime = 4, ahost = ''h'', apid = 1, sender = ''s'', level = Error, message = ''m''\<rparr>)"
  using alert_roundtrip [OF ref_codecs.name_list_laws_axioms level_name_inj, of even_clock
      "\<lparr>alertTime = 5, ahost = ''h'', apid = 1, sender = ''s'', level = Error, message = ''m''\<rparr>" "[]"
      "\<lparr>alertTime = 0, ahost = '''', apid = 0, sender = '''', level = Trace, message = ''''\<rparr>"]
  by (simp add: even_clock_def)

text \<open>The message a component publishes, after a history of changes.\<close>

definition tells :: "'h change list \<Rightarrow> 't HeartbeatMessage \<Rightarrow> bool" where
  "tells hs m \<longleftrightarrow> status m = status_set hs
     \<and> map_of (broadcastChannels m) = (\<lambda>n. nonempty (first_occurrences (broadcasts_added hs n)))
     \<and> map_of (facilityChannels m) = (\<lambda>n. map_option hd (nonempty (facilities_added hs n)))"

lemma tells_heartbeat_of: "reflects hs c \<Longrightarrow> tells hs (heartbeat_of now c)"
  by (auto simp: reflects_def tells_def heartbeat_of_def status_def map_of_ordered fun_eq_iff)

lemma change_keeps:
  "c_publisher (fold run_change hs c) = c_publisher c \<and> c_clock (fold run_change hs c) = c_clock c"
proof (induction hs arbitrary: c)
  case (Cons h hs)
  then show ?case
    by (cases h) (simp_all add: setStatus_def addBroadcastChannel_def addFacilityChannel_def addExtraHeartbeatHandler_def Let_def)
qed simp

lemma heartbeat_of_wf:
  assumes "reflects hs c"
  shows "smap_wf (broadcastChannels (heartbeat_of now c))" "smap_wf (facilityChannels (heartbeat_of now c))"
    "smap_wf (details (heartbeat_of now c))"
  using assms by (auto simp: reflects_def heartbeat_of_def ordered_wf)

lemma map_handlers: "map (\<lambda>ii. Handle (xs ! ii) m) [0..<length xs] = map (\<lambda>h. Handle h m) xs"
  by (rule nth_equalityI) simp_all

text \<open>C26: Whatever the order in which statuses, channels and handlers were registered, \<open>publishHeartbeat\<close> sends one message: to the
  publisher as bytes, then to every extra handler in order of registration. It holds for each item the last status set, for each
  name the broadcast channels without repetition in the order they were first added and the facility channel added first,
  and a subscriber that parses the bytes obtains exactly these.\<close>

theorem published_heartbeat:
  assumes "name_list_laws k"
    and "started c" and "c_publisher c = Some pub" and "c_clock c"
  shows "\<exists>m bytes m'. publishHeartbeat k ck now topic (fold run_change hs c) =
      Publish pub topic bytes # map (\<lambda>h. Handle h m) (handlers_added hs)
    \<and> tells hs m \<and> ParseFromString k ck bytes old = (True, m') \<and> tells hs m'
    \<and> m' = m\<lparr>heartbeatTime := epochDurationToTime ck (sinceEpoch ck now)\<rparr>"
proof -
  let ?c = "fold run_change hs c" and ?m = "heartbeat_of now (fold run_change hs c)"
  have r: "reflects hs ?c"
    using reflects_fold [OF reflects_start [OF assms(2)], of hs] by simp
  have "publishHeartbeat k ck now topic ?c =
      Publish pub topic (SerializeToString k ck ?m) # map (\<lambda>h. Handle h ?m) (handlers_added hs)"
    using assms(3,4) change_keeps [of hs c] r
    by (simp add: publishHeartbeat_def Let_def reflects_def map_handlers)
  moreover have "ParseFromString k ck (SerializeToString k ck ?m) old =
      (True, ?m\<lparr>heartbeatTime := epochDurationToTime ck (sinceEpoch ck now)\<rparr>)"
    using name_list_laws.parse_serialized [OF assms(1) heartbeat_of_wf [OF r, of now], of ck "[]" old]
    by (simp add: heartbeat_of_def)
  moreover have "tells hs (?m\<lparr>heartbeatTime := epochDurationToTime ck (sinceEpoch ck now)\<rparr>)"
    using tells_heartbeat_of [OF r, of now] by (simp add: tells_def status_def fun_eq_iff)
  ultimately show ?thesis
    using tells_heartbeat_of [OF r, of now] by blast
qed

definition sample_component :: "(nat, nat) HeartbeatAndAlertComponentImpl" where
  "sample_component = new_component ''u'' ''h'' 1 ''me'' (Some 7)"

theorem published_heartbeat_witness:
  "\<exists>m bytes m'. publishHeartbeat ref_codecs even_clock 4 ''t''
        (fold run_change [AddHandler 9, SetStatus ''a'' Good ''x'', AddFacilityChannel ''f'' ''y''] sample_component) =
      Publish 7 ''t'' bytes # map (\<lambda>h. Handle h m) (handlers_added [AddHandler 9, SetStatus ''a'' Good ''x'', AddFacilityChannel ''f'' ''y''])
    \<and> tells [AddHandler (9::nat), SetStatus ''a'' Good ''x'', AddFacilityChannel ''f'' ''y''] m
    \<and> ParseFromString ref_codecs even_clock bytes sample_beat = (True, m')
    \<and> tells [AddHandler (9::nat), SetStatus ''a'' Good ''x'', AddFacilityChannel ''f'' ''y''] m'
    \<and> m' = m\<lparr>heartbeatTime := epochDurationToTime even_clock (sinceEpoch even_clock 4)\<rparr>"
  by (rule published_heartbeat [OF ref_codecs.name_list_laws_axioms])
     (simp_all add: sample_component_def new_component_def started_def)

text \<open>A component to which the identity of another is assigned keeps what was registered with it, except that the handlers it had
  are replaced by those of the other: they no longer receive heartbeats.\<close>

theorem assigned_identity:
  "publishHeartbeat k ck now topic (assignIdentity another c) =
    (case c_publisher another of
       Some pub \<Rightarrow> if c_clock another then
           Publish pub topic (SerializeToString k ck
             ((heartbeat_of now c)\<lparr>host := c_host another, pid := c_pid another, senderDescription := c_identity another\<rparr>)) #
           map (\<lambda>h. Handle h ((heartbeat_of now c)\<lparr>host := c_host another, pid := c_pid another,
             senderDescription := c_identity another\<rparr>)) (c_extraHandlers another)
         else []
     | None \<Rightarrow> [])"
  by (simp add: publishHeartbeat_def assignIdentity_def heartbeat_of_def Let_def map_handlers split: option.split)

end
