(* ===== verification/HookFactory.thy ===== *)
theory HookFactory
  imports Wire
begin

text \<open>
  The hooks an environment supplies (tm_kit/transport/AbstractHookFactoryComponent.hpp). An environment may derive
  from a hook factory for a data type, which is a template argument: a data type is a name here, and \<open>env\<close> holds what the
  conversions \<open>is_convertible_v\<close> and the calls of \<open>defaultHook\<close> give for each.
\<close>

section \<open>\<open>DefaultHookFactory\<close>\<close>

text \<open>\<open>None\<close>: the environment is no factory for the type. \<open>unwrapped\<close> is \<open>UnwrappedType\<close> of tm\_basic.\<close>

record 'ty hook_env =
  outgoing_factory :: "'ty \<Rightarrow> UserToWireHook option option"
  incoming_factory :: "'ty \<Rightarrow> WireToUserHook option option"
  unwrapped :: "'ty \<Rightarrow> 'ty"

definition trivial_outgoing :: "UserToWireHook option" where
  "trivial_outgoing = None"

definition trivial_incoming :: "WireToUserHook option" where
  "trivial_incoming = None"

definition HasOutgoingHookFactory :: "'ty hook_env \<Rightarrow> 'ty \<Rightarrow> bool" where
  "HasOutgoingHookFactory env t \<longleftrightarrow> outgoing_factory env t \<noteq> None \<or> outgoing_factory env (unwrapped env t) \<noteq> None"

definition HasIncomingHookFactory :: "'ty hook_env \<Rightarrow> 'ty \<Rightarrow> bool" where
  "HasIncomingHookFactory env t \<longleftrightarrow> incoming_factory env t \<noteq> None \<or> incoming_factory env (unwrapped env t) \<noteq> None"

definition outgoingHook :: "'ty hook_env \<Rightarrow> 'ty \<Rightarrow> UserToWireHook option" where
  "outgoingHook env t =
     (case outgoing_factory env t of
        Some h \<Rightarrow> h
      | None \<Rightarrow> (case outgoing_factory env (unwrapped env t) of Some h \<Rightarrow> h | None \<Rightarrow> None))"

definition incomingHook :: "'ty hook_env \<Rightarrow> 'ty \<Rightarrow> WireToUserHook option" where
  "incomingHook env t =
     (case incoming_factory env t of
        Some h \<Rightarrow> h
      | None \<Rightarrow> (case incoming_factory env (unwrapped env t) of Some h \<Rightarrow> h | None \<Rightarrow> None))"

definition supplyOutgoingHook :: "'ty hook_env \<Rightarrow> 'ty \<Rightarrow> UserToWireHook option \<Rightarrow> UserToWireHook option" where
  "supplyOutgoingHook env t hook = (case hook of Some h \<Rightarrow> Some h | None \<Rightarrow> outgoingHook env t)"

definition supplyIncomingHook :: "'ty hook_env \<Rightarrow> 'ty \<Rightarrow> WireToUserHook option \<Rightarrow> WireToUserHook option" where
  "supplyIncomingHook env t hook = (case hook of Some h \<Rightarrow> Some h | None \<Rightarrow> incomingHook env t)"

definition pair_unless_empty :: "UserToWireHook option \<Rightarrow> WireToUserHook option \<Rightarrow> ByteDataHookPair option" where
  "pair_unless_empty u w = (if u \<noteq> None \<or> w \<noteq> None then Some \<lparr>userToWire = u, wireToUser = w\<rparr> else None)"

definition supplyFacilityHookPair_SingleType :: "'ty hook_env \<Rightarrow> 'ty \<Rightarrow> ByteDataHookPair option \<Rightarrow> ByteDataHookPair option" where
  "supplyFacilityHookPair_SingleType env t hooks =
     pair_unless_empty
       (case Option.bind hooks userToWire of Some h \<Rightarrow> Some h | None \<Rightarrow> outgoingHook env t)
       (case Option.bind hooks wireToUser of Some h \<Rightarrow> Some h | None \<Rightarrow> incomingHook env t)"

definition supplyFacilityHookPair_ServerSide :: "'ty hook_env \<Rightarrow> 'ty \<Rightarrow> 'ty \<Rightarrow> ByteDataHookPair option \<Rightarrow> ByteDataHookPair option" where
  "supplyFacilityHookPair_ServerSide env a b hooks =
     pair_unless_empty
       (case Option.bind hooks userToWire of Some h \<Rightarrow> Some h | None \<Rightarrow> outgoingHook env b)
       (case Option.bind hooks wireToUser of Some h \<Rightarrow> Some h | None \<Rightarrow> incomingHook env a)"

definition supplyFacilityHookPair_ClientSide :: "'ty hook_env \<Rightarrow> 'ty \<Rightarrow> 'ty \<Rightarrow> ByteDataHookPair option \<Rightarrow> ByteDataHookPair option" where
  "supplyFacilityHookPair_ClientSide env a b hooks =
     pair_unless_empty
       (case Option.bind hooks userToWire of Some h \<Rightarrow> Some h | None \<Rightarrow> outgoingHook env a)
       (case Option.bind hooks wireToUser of Some h \<Rightarrow> Some h | None \<Rightarrow> incomingHook env b)"

definition supplyFacilityHookPair_ClientSideOutgoingOnly :: "'ty hook_env \<Rightarrow> 'ty \<Rightarrow> ByteDataHookPair option \<Rightarrow> ByteDataHookPair option" where
  "supplyFacilityHookPair_ClientSideOutgoingOnly env a hooks =
     pair_unless_empty
       (case Option.bind hooks userToWire of Some h \<Rightarrow> Some h | None \<Rightarrow> outgoingHook env a)
       (Option.bind hooks wireToUser)"

section \<open>Requests and replies\<close>

text \<open>What each side makes of bytes that go through a pair of hooks.\<close>

definition send :: "ByteDataHookPair option \<Rightarrow> string \<Rightarrow> string" where
  "send hp = run_out (Option.bind hp userToWire)"

definition receive :: "ByteDataHookPair option \<Rightarrow> string \<Rightarrow> string option" where
  "receive hp = run_in (Option.bind hp wireToUser)"

definition undoes :: "WireToUserHook option \<Rightarrow> UserToWireHook option \<Rightarrow> bool" where
  "undoes w u \<longleftrightarrow> (\<forall>s. run_in w (run_out u s) = Some s)"

lemma pair_unless_empty_halves:
  "Option.bind (pair_unless_empty u w) userToWire = u"
  "Option.bind (pair_unless_empty u w) wireToUser = w"
  by (auto simp: pair_unless_empty_def)

text \<open>
  Two ends of a facility whose environments' factories undo each other, type by type, and whose explicit hooks,
  half by half, are given on both sides and undo each other or on neither.
\<close>

definition matching_factories :: "'ty hook_env \<Rightarrow> 'ty hook_env \<Rightarrow> 'ty \<Rightarrow> bool" where
  "matching_factories sender receiver t \<longleftrightarrow> undoes (incomingHook receiver t) (outgoingHook sender t)"

definition matching_hooks :: "ByteDataHookPair option \<Rightarrow> ByteDataHookPair option \<Rightarrow> bool" where
  "matching_hooks sender receiver \<longleftrightarrow>
     (case (Option.bind sender userToWire, Option.bind receiver wireToUser) of
        (None, None) \<Rightarrow> True
      | (Some u, Some w) \<Rightarrow> undoes (Some w) (Some u)
      | _ \<Rightarrow> False)"

lemma supplied_undoes:
  "matching_factories es er t \<Longrightarrow> matching_hooks hs hr \<Longrightarrow>
    undoes (case Option.bind hr wireToUser of Some h \<Rightarrow> Some h | None \<Rightarrow> incomingHook er t)
      (case Option.bind hs userToWire of Some h \<Rightarrow> Some h | None \<Rightarrow> outgoingHook es t)"
  by (auto simp: matching_hooks_def matching_factories_def split: option.splits)

lemmas facility_defs = supplyFacilityHookPair_ClientSide_def supplyFacilityHookPair_ServerSide_def
  supplyFacilityHookPair_ClientSideOutgoingOnly_def supplyFacilityHookPair_SingleType_def

text \<open>When the hook factories of a client's and a server's environment undo each other for the request and for the reply type, and
  explicit hooks are given on both sides or on neither, the server receives every request the client sends and the
  client every reply of the server, with the pairs that \<open>supplyFacilityHookPair_ClientSide\<close> and \<open>..._ServerSide\<close> choose.\<close>

theorem facility_hooks_match:
  assumes "matching_factories client server a" and "matching_factories server client b"
    and "matching_hooks hc hs" and "matching_hooks hs hc"
  shows "receive (supplyFacilityHookPair_ServerSide server a b hs)
      (send (supplyFacilityHookPair_ClientSide client a b hc) request) = Some request \<and>
    receive (supplyFacilityHookPair_ClientSide client a b hc)
      (send (supplyFacilityHookPair_ServerSide server a b hs) reply) = Some reply"
  using supplied_undoes [OF assms(1,3)] supplied_undoes [OF assms(2,4)]
  by (simp add: facility_defs send_def receive_def pair_unless_empty_halves undoes_def)

definition tagging_env :: "string hook_env" where
  "tagging_env = \<lparr>outgoing_factory = (\<lambda>t. if t = ''A'' then Some (Some (\<lambda>s. CHR ''a'' # s)) else None),
     incoming_factory = (\<lambda>t. if t = ''A'' then Some (Some (\<lambda>s. case s of [] \<Rightarrow> None | c # s \<Rightarrow> if c = CHR ''a'' then Some s else None)) else None),
     unwrapped = (\<lambda>t. if t = ''WA'' then ''A'' else t)\<rparr>"

lemma tagging_env_matches: "matching_factories tagging_env tagging_env ''WA''" "matching_factories tagging_env tagging_env ''B''"
  by (simp_all add: matching_factories_def tagging_env_def undoes_def incomingHook_def outgoingHook_def run_in_def run_out_def)

theorem facility_hooks_match_witness:
  "receive (supplyFacilityHookPair_ServerSide tagging_env ''WA'' ''B'' None)
      (send (supplyFacilityHookPair_ClientSide tagging_env ''WA'' ''B'' None) ''rq'') = Some ''rq'' \<and>
    receive (supplyFacilityHookPair_ClientSide tagging_env ''WA'' ''B'' None)
      (send (supplyFacilityHookPair_ServerSide tagging_env ''WA'' ''B'' None) ''rp'') = Some ''rp''"
  by (rule facility_hooks_match [OF tagging_env_matches]) (simp_all add: matching_hooks_def)

end
