(* ===== verification/Channels.thy ===== *)
theory Channels
  imports Locator Codecs
begin

text \<open>
  Broadcast channels (the first part of tm_kit/transport/MultiTransportBroadcastListener.hpp): the eight connection types, channel
  descriptions, topic selections, and the requests to the broadcast listener with their order and their CBOR form.
\<close>

section \<open>Connection types and channel descriptions\<close>

datatype MultiTransportBroadcastListenerConnectionType =
  Multicast | RabbitMQ | Redis | ZeroMQ | NNG | SharedMemoryBroadcast | WebSocket | Singlecast

type_synonym connection_type = MultiTransportBroadcastListenerConnectionType

fun type_index :: "connection_type \<Rightarrow> nat" where
  "type_index Multicast = 0"
| "type_index RabbitMQ = 1"
| "type_index Redis = 2"
| "type_index ZeroMQ = 3"
| "type_index NNG = 4"
| "type_index SharedMemoryBroadcast = 5"
| "type_index WebSocket = 6"
| "type_index Singlecast = 7"

definition type_at :: "nat \<Rightarrow> connection_type" where
  "type_at ii = [Multicast, RabbitMQ, Redis, ZeroMQ, NNG, SharedMemoryBroadcast, WebSocket, Singlecast] ! ii"

definition MULTI_TRANSPORT_SUBSCRIBER_CONNECTION_TYPE_STR :: "string list" where
  "MULTI_TRANSPORT_SUBSCRIBER_CONNECTION_TYPE_STR =
     [''multicast'', ''rabbitmq'', ''redis'', ''zeromq'', ''nng'', ''shared_memory_broadcast'', ''websocket'', ''singlecast'']"

definition type_str :: "connection_type \<Rightarrow> string" where
  "type_str t = MULTI_TRANSPORT_SUBSCRIBER_CONNECTION_TYPE_STR ! type_index t"

text \<open>The loop over the names, \<open>ii\<close> counting the turns.\<close>

fun parse_channel_from :: "boost \<Rightarrow> string \<Rightarrow> nat \<Rightarrow> string list \<Rightarrow> (connection_type \<times> ConnectionLocator) option" where
  "parse_channel_from b s ii [] = None"
| "parse_channel_from b s ii (item # items) =
     (if starts_with b s (item @ ''://'')
      then (case parse b (drop (length item + 3) s) of Inr locator \<Rightarrow> Some (type_at ii, locator) | Inl _ \<Rightarrow> None)
      else parse_channel_from b s (ii + 1) items)"

definition parseMultiTransportBroadcastChannel :: "boost \<Rightarrow> string \<Rightarrow> (connection_type \<times> ConnectionLocator) option" where
  "parseMultiTransportBroadcastChannel b s = parse_channel_from b s 0 MULTI_TRANSPORT_SUBSCRIBER_CONNECTION_TYPE_STR"

text \<open>The order of the enumeration.\<close>

lemma type_index_eq [simp]: "type_index s = type_index t \<longleftrightarrow> s = t"
  by (cases s; cases t) simp_all

instantiation MultiTransportBroadcastListenerConnectionType :: linorder
begin

definition less_eq_MultiTransportBroadcastListenerConnectionType :: "connection_type \<Rightarrow> connection_type \<Rightarrow> bool" where
  "less_eq_MultiTransportBroadcastListenerConnectionType s t \<longleftrightarrow> type_index s \<le> type_index t"

definition less_MultiTransportBroadcastListenerConnectionType :: "connection_type \<Rightarrow> connection_type \<Rightarrow> bool" where
  "less_MultiTransportBroadcastListenerConnectionType s t \<longleftrightarrow> type_index s < type_index t"

instance
  by standard (auto simp: less_eq_MultiTransportBroadcastListenerConnectionType_def
      less_MultiTransportBroadcastListenerConnectionType_def)

end

section \<open>Topics\<close>

text \<open>
  A topic selection; \<open>TopicRegex e\<close> holds the source text of a \<open>std::regex\<close>. Building one throws when the text is not an
  expression, which \<open>valid\<close> tells.
\<close>

datatype topic_selection = NoTopicSelection | TopicString string | TopicRegex string

datatype regex_error = RegexError string

definition make_regex :: "(string \<Rightarrow> bool) \<Rightarrow> string \<Rightarrow> regex_error + topic_selection" where
  "make_regex valid e = (if valid e then Inr (TopicRegex e) else Inl (RegexError e))"

definition redisTopicHelper :: "string \<Rightarrow> string" where
  "redisTopicHelper input = map (\<lambda>c. if c = CHR ''#'' then CHR ''*'' else c) input"

text \<open>One turn of the loop over the characters: what goes to the stream, and whether the style is that of RabbitMQ.\<close>

definition topic_char :: "char \<Rightarrow> string \<times> bool" where
  "topic_char c =
     (if c = CHR ''#'' then (''.+'', True)
      else if c = CHR ''*'' then (''['' @ ''^'' @ [CHR 0x5C] @ ''.]+'', True)
      else if c = CHR ''.'' then ([CHR 0x5C] @ ''.'', False)
      else ([c], False))"

definition topic_stream :: "string \<Rightarrow> string \<times> bool" where
  "topic_stream s = fold (\<lambda>c (oss, style). let (t, r) = topic_char c in (oss @ t, style \<or> r)) s ('''', False)"

definition parseTopic :: "boost \<Rightarrow> (string \<Rightarrow> bool) \<Rightarrow> connection_type \<Rightarrow> string \<Rightarrow> regex_error + topic_selection" where
  "parseTopic b valid component s =
     (if s = '''' then
        (if component = RabbitMQ then Inr (TopicString ''#'')
         else if component = Redis then Inr (TopicString ''*'')
         else Inr NoTopicSelection)
      else if component = RabbitMQ then Inr (TopicString s)
      else if component = Redis then Inr (TopicString (redisTopicHelper s))
      else if starts_with b s ''r/'' \<and> ends_with b s ''/'' \<and> length s > 3 then
        make_regex valid (take (length s - 3) (drop 2 s))
      else
        (let (oss, rabbitMQStyle) = topic_stream s in
         if rabbitMQStyle then make_regex valid oss else Inr (TopicString s)))"

definition multiTransportListenerDefaultTopic :: "connection_type \<Rightarrow> string" where
  "multiTransportListenerDefaultTopic connType =
     (case connType of RabbitMQ \<Rightarrow> ''#'' | Redis \<Rightarrow> ''*'' | _ \<Rightarrow> '''')"

section \<open>Requests to the listener\<close>

record AddSubscription =
  connectionType :: connection_type
  connectionLocator :: ConnectionLocator
  topicDescription :: string

definition subscription_eq :: "AddSubscription \<Rightarrow> AddSubscription \<Rightarrow> bool" where
  "subscription_eq x a \<longleftrightarrow> connectionType x = connectionType a \<and> locator_eq (connectionLocator x) (connectionLocator a)
     \<and> topicDescription x = topicDescription a"

definition subscription_less :: "AddSubscription \<Rightarrow> AddSubscription \<Rightarrow> bool" where
  "subscription_less x a =
     (if type_index (connectionType x) < type_index (connectionType a) then True
      else if type_index (connectionType x) > type_index (connectionType a) then False
      else if locator_less (connectionLocator x) (connectionLocator a) then True
      else if locator_less (connectionLocator a) (connectionLocator x) then False
      else topicDescription x < topicDescription a)"

record RemoveSubscription =
  removedType :: connection_type
  subscriptionID :: uint32

datatype ListenerInput = Add AddSubscription | Remove RemoveSubscription | RemoveAll

datatype ListenerOutput = Added uint32 | Removed | RemovedAll

section \<open>CBOR\<close>

definition type_encode :: "string cbor \<Rightarrow> connection_type \<Rightarrow> string" where
  "type_encode sc x = encode_cbor sc (type_str x)"

fun find_type :: "string list \<Rightarrow> string \<Rightarrow> nat \<Rightarrow> nat option" where
  "find_type [] s ii = None"
| "find_type (n # ns) s ii = (if n = s then Some ii else find_type ns s (ii + 1))"

definition type_decode :: "string cbor \<Rightarrow> string \<Rightarrow> nat \<Rightarrow> (connection_type \<times> nat) option" where
  "type_decode sc data start =
     (case decode_at sc data start of
        Some (s, n) \<Rightarrow>
          (case find_type MULTI_TRANSPORT_SUBSCRIBER_CONNECTION_TYPE_STR s 0 of
             Some ii \<Rightarrow> Some (type_at ii, n) | None \<Rightarrow> None)
      | None \<Rightarrow> None)"

definition type_decode_in_place :: "string cbor \<Rightarrow> connection_type \<Rightarrow> string \<Rightarrow> nat \<Rightarrow> connection_type \<times> nat option" where
  "type_decode_in_place sc output data start =
     (case decode_at sc data start of
        Some (s, n) \<Rightarrow>
          (case find_type MULTI_TRANSPORT_SUBSCRIBER_CONNECTION_TYPE_STR s 0 of
             Some ii \<Rightarrow> (type_at ii, Some n) | None \<Rightarrow> (output, None))
      | None \<Rightarrow> (output, None))"

definition type_cbor :: "string cbor \<Rightarrow> connection_type cbor" where
  "type_cbor sc = \<lparr>encode_cbor = type_encode sc, decode_at = type_decode sc\<rparr>"

definition locator_cbor :: "boost \<Rightarrow> string cbor \<Rightarrow> ConnectionLocator cbor" where
  "locator_cbor b sc = \<lparr>encode_cbor = locator_cbor_encode sc, decode_at = locator_cbor_decode b sc\<rparr>"

text \<open>The serializers with name lists of tm\_basic for the tuples that are sent.\<close>

record listener_codecs =
  lc_string :: "string cbor"
  lc_add :: "string list \<Rightarrow> connection_type cbor \<Rightarrow> ConnectionLocator cbor \<Rightarrow> (connection_type \<times> ConnectionLocator \<times> string) cbor"
  lc_remove :: "string list \<Rightarrow> connection_type cbor \<Rightarrow> (connection_type \<times> uint32) cbor"
  lc_added :: "string list \<Rightarrow> uint32 cbor"

definition add_names :: "string list" where
  "add_names = [''connection_type'', ''connection_locator'', ''topic_description'']"

definition add_codec :: "boost \<Rightarrow> listener_codecs \<Rightarrow> (connection_type \<times> ConnectionLocator \<times> string) cbor" where
  "add_codec b k = lc_add k add_names (type_cbor (lc_string k)) (locator_cbor b (lc_string k))"

definition add_encode :: "boost \<Rightarrow> listener_codecs \<Rightarrow> AddSubscription \<Rightarrow> string" where
  "add_encode b k x = encode_cbor (add_codec b k) (connectionType x, connectionLocator x, topicDescription x)"

definition add_decode :: "boost \<Rightarrow> listener_codecs \<Rightarrow> string \<Rightarrow> nat \<Rightarrow> (AddSubscription \<times> nat) option" where
  "add_decode b k data start =
     (case decode_at (add_codec b k) data start of
        Some ((t, l, d), n) \<Rightarrow> Some (\<lparr>connectionType = t, connectionLocator = l, topicDescription = d\<rparr>, n)
      | None \<Rightarrow> None)"

definition remove_codec :: "listener_codecs \<Rightarrow> (connection_type \<times> uint32) cbor" where
  "remove_codec k = lc_remove k [''connection_type'', ''subscription_id''] (type_cbor (lc_string k))"

definition remove_encode :: "listener_codecs \<Rightarrow> RemoveSubscription \<Rightarrow> string" where
  "remove_encode k x = encode_cbor (remove_codec k) (removedType x, subscriptionID x)"

definition remove_decode :: "listener_codecs \<Rightarrow> string \<Rightarrow> nat \<Rightarrow> (RemoveSubscription \<times> nat) option" where
  "remove_decode k data start =
     (case decode_at (remove_codec k) data start of
        Some ((t, i), n) \<Rightarrow> Some (\<lparr>removedType = t, subscriptionID = i\<rparr>, n)
      | None \<Rightarrow> None)"

definition added_encode :: "listener_codecs \<Rightarrow> uint32 \<Rightarrow> string" where
  "added_encode k i = encode_cbor (lc_added k [''subscription_id'']) i"

definition added_decode :: "listener_codecs \<Rightarrow> string \<Rightarrow> nat \<Rightarrow> (uint32 \<times> nat) option" where
  "added_decode k data start = decode_at (lc_added k [''subscription_id'']) data start"

locale listener_codec_laws =
  fixes k :: listener_codecs
  assumes string_law: "cbor_law (lc_string k)"
    and add_law: "distinct ns \<Longrightarrow> length ns = 3 \<Longrightarrow> cbor_law tc \<Longrightarrow> cbor_law_on P lc \<Longrightarrow>
      cbor_law_on (\<lambda>(t, l, d). P l) (lc_add k ns tc lc)"
    and remove_law: "distinct ns \<Longrightarrow> length ns = 2 \<Longrightarrow> cbor_law tc \<Longrightarrow> cbor_law (lc_remove k ns tc)"
    and added_law: "length ns = 1 \<Longrightarrow> cbor_law (lc_added k ns)"
begin

lemma type_law: "cbor_law (type_cbor (lc_string k))"
proof
  fix pre post x
  show "decode_at (type_cbor (lc_string k)) (pre @ encode_cbor (type_cbor (lc_string k)) x @ post) (length pre) =
      Some (x, length (encode_cbor (type_cbor (lc_string k)) x))"
    by (cases x) (simp_all add: type_cbor_def type_encode_def type_decode_def type_str_def type_at_def
        MULTI_TRANSPORT_SUBSCRIBER_CONNECTION_TYPE_STR_def cbor_law.decode_at_encode [OF string_law])
qed

sublocale connection_type: cbor_law "type_cbor (lc_string k)"
  by (rule type_law)

end

text \<open>A locator that its own printed form gives back.\<close>

definition locator_ok :: "ConnectionLocator \<Rightarrow> bool" where
  "locator_ok l \<longleftrightarrow> basic_ok l \<and> properties_ok l \<and> (properties l = [] \<longrightarrow> \<not> ends_bracket (ident l))"

section \<open>Channel descriptions come back\<close>

lemma parse_printed: "boost_strings b \<Longrightarrow> locator_ok l \<Longrightarrow> parse b (toSerializationFormat l) = Inr l"
  by (simp add: boost_strings.parse_format locator_ok_def)

lemma locator_cbor_law: "boost_strings b \<Longrightarrow> cbor_law sc \<Longrightarrow> cbor_law_on locator_ok (locator_cbor b sc)"
  by (simp add: cbor_law_on_def locator_cbor_def locator_cbor_decode_def locator_cbor_encode_def
      cbor_law.decode_at_encode parse_printed)

lemma sample_locator_is_ok: "locator_ok sample_locator"
  using sample_locator_ok by (simp add: locator_ok_def sample_locator_def)

text \<open>The description of a channel, a connection type and a well-formed locator, is parsed to exactly that type and locator.\<close>

theorem channel_roundtrip:
  assumes "boost_strings b" and "locator_ok l"
  shows "parseMultiTransportBroadcastChannel b (type_str t @ ''://'' @ toSerializationFormat l) = Some (t, l)"
  using assms
  by (cases t) (simp_all add: parseMultiTransportBroadcastChannel_def MULTI_TRANSPORT_SUBSCRIBER_CONNECTION_TYPE_STR_def
      type_str_def type_at_def boost_strings.boost_laws parse_printed)

theorem channel_roundtrip_witness:
  "parseMultiTransportBroadcastChannel boost_ref (''redis'' @ ''://'' @ toSerializationFormat sample_locator) = Some (Redis, sample_locator)"
  using channel_roundtrip [OF boost_ref.boost_strings_axioms sample_locator_is_ok, of Redis]
  by (simp add: type_str_def MULTI_TRANSPORT_SUBSCRIBER_CONNECTION_TYPE_STR_def)

text \<open>A request to add a subscription with a well-formed locator, sent as CBOR anywhere inside a message, is received unchanged.\<close>

theorem add_subscription_roundtrip:
  assumes "boost_strings b" and "listener_codec_laws k" and "locator_ok (connectionLocator x)"
  shows "add_decode b k (pre @ add_encode b k x @ post) (length pre) = Some (x, length (add_encode b k x))"
proof -
  have law: "cbor_law_on (\<lambda>(t, l, d). locator_ok l) (add_codec b k)"
    unfolding add_codec_def
    by (rule listener_codec_laws.add_law [OF assms(2) _ _ listener_codec_laws.type_law [OF assms(2)]
          locator_cbor_law [OF assms(1) listener_codec_laws.string_law [OF assms(2)]]]) (simp_all add: add_names_def)
  show ?thesis
    using assms(3) by (simp add: add_decode_def add_encode_def cbor_law_onD [OF law])
qed

definition ref_listener_codecs :: listener_codecs where
  "ref_listener_codecs = \<lparr>lc_string = string_cbor,
     lc_add = (\<lambda>ns tc lc. named_cbor ns (pair_cbor tc (pair_cbor lc string_cbor))),
     lc_remove = (\<lambda>ns tc. named_cbor ns (pair_cbor tc word_cbor)),
     lc_added = (\<lambda>ns. named_cbor ns word_cbor)\<rparr>"

interpretation ref_listener_codecs: listener_codec_laws ref_listener_codecs
proof (rule listener_codec_laws.intro)
  fix ns and tc :: "connection_type cbor" and P :: "ConnectionLocator \<Rightarrow> bool" and lc
  assume tc: "cbor_law tc" and lc: "cbor_law_on P lc"
  have "cbor_law_on (\<lambda>(t, r). True \<and> (case r of (l, d) \<Rightarrow> P l \<and> True)) (lc_add ref_listener_codecs ns tc lc)"
    unfolding ref_listener_codecs_def listener_codecs.simps
    by (intro named_law_on pair_law_on lc cbor_law_everywhere tc string_cbor.cbor_law_axioms)
  then show "cbor_law_on (\<lambda>(t, l, d). P l) (lc_add ref_listener_codecs ns tc lc)"
    by (simp add: cbor_law_on_def)
qed (simp_all add: ref_listener_codecs_def codec_laws)

theorem add_subscription_roundtrip_witness:
  "add_decode boost_ref ref_listener_codecs (''p'' @ add_encode boost_ref ref_listener_codecs
      \<lparr>connectionType = NNG, connectionLocator = sample_locator, topicDescription = ''t''\<rparr> @ ''q'') (length ''p'') =
    Some (\<lparr>connectionType = NNG, connectionLocator = sample_locator, topicDescription = ''t''\<rparr>,
      length (add_encode boost_ref ref_listener_codecs \<lparr>connectionType = NNG, connectionLocator = sample_locator, topicDescription = ''t''\<rparr>))"
  by (rule add_subscription_roundtrip [OF boost_ref.boost_strings_axioms ref_listener_codecs.listener_codec_laws_axioms])
     (simp add: sample_locator_is_ok)

lemma remove_roundtrip:
  "listener_codec_laws k \<Longrightarrow>
    remove_decode k (pre @ remove_encode k x @ post) (length pre) = Some (x, length (remove_encode k x))"
  by (simp add: remove_decode_def remove_encode_def remove_codec_def
      cbor_law.decode_at_encode [OF listener_codec_laws.remove_law [OF _ _ _ listener_codec_laws.type_law]])

lemma added_roundtrip:
  "listener_codec_laws k \<Longrightarrow> added_decode k (pre @ added_encode k i @ post) (length pre) = Some (i, length (added_encode k i))"
  by (simp add: added_decode_def added_encode_def cbor_law.decode_at_encode [OF listener_codec_laws.added_law])

section \<open>The order of requests\<close>

definition locator_key :: "ConnectionLocator \<Rightarrow> string \<times> int \<times> string \<times> string \<times> (string, string) stdmap" where
  "locator_key l = (host l, port l, userName l, password l, properties l)"

definition subscription_key :: "AddSubscription \<Rightarrow> nat \<times> (string \<times> int \<times> string \<times> string \<times> (string, string) stdmap) \<times> string" where
  "subscription_key x = (type_index (connectionType x), locator_key (connectionLocator x), topicDescription x)"

lemma locator_less_keys: "locator_less x y \<longleftrightarrow> locator_key x < locator_key y"
  unfolding locator_less_def entries_less_less locator_key_def by (auto simp: less_prod_def)

lemma triple_less: "((a::'a::linorder), (b::'b::linorder), (c::'c::linorder)) < (a', b', c') \<longleftrightarrow>
    a < a' \<or> a = a' \<and> (b < b' \<or> b = b' \<and> c < c')"
  by (auto simp: less_prod_def)

lemma subscription_less_keys: "subscription_less x y \<longleftrightarrow> subscription_key x < subscription_key y"
  unfolding subscription_less_def locator_less_keys subscription_key_def triple_less by auto

text \<open>\<open>operator<\<close> of \<open>MultiTransportBroadcastListenerAddSubscription\<close> compares type, locator and topic lexicographically; two
  requests that differ only in the identifier of the locator are unequal, but neither is smaller.\<close>

theorem subscription_order:
  "(subscription_less x y \<longleftrightarrow> subscription_key x < subscription_key y) \<and>
   (subscription_eq x y \<longleftrightarrow> subscription_key x = subscription_key y \<and> ident (connectionLocator x) = ident (connectionLocator y))"
  by (auto simp: subscription_less_keys subscription_eq_def subscription_key_def locator_eq_def locator_key_def)

section \<open>What a topic pattern matches\<close>

text \<open>
  The fragment of ECMAScript expressions that \<open>parseTopic\<close> writes: \<open>.+\<close>, \<open>[^\.]+\<close>, \<open>\.\<close> and plain characters.
\<close>

datatype atom = AnyPlus | NoDotPlus | Lit char

definition regex_special :: "char \<Rightarrow> bool" where
  "regex_special c \<longleftrightarrow> c \<in> set (''^$.*+?()[]{}|'' @ [CHR 0x5C])"

fun regex_atoms :: "string \<Rightarrow> atom list option" where
  "regex_atoms [] = Some []"
| "regex_atoms (c # s) =
     (if c = CHR ''.'' then
        (case s of d # r \<Rightarrow> if d = CHR ''+'' then map_option (Cons AnyPlus) (regex_atoms r) else None | [] \<Rightarrow> None)
      else if c = CHR ''['' then
        (case s of [] \<Rightarrow> None
         | _ # r \<Rightarrow> if take 5 s = ''^'' @ [CHR 0x5C] @ ''.]+'' then map_option (Cons NoDotPlus) (regex_atoms (drop 4 r)) else None)
      else if c = CHR 0x5C then
        (case s of d # r \<Rightarrow> if d = CHR ''.'' then map_option (Cons (Lit CHR ''.'')) (regex_atoms r) else None | [] \<Rightarrow> None)
      else if regex_special c then None
      else map_option (Cons (Lit c)) (regex_atoms s))"

text \<open>\<open>.\<close> does not match the end of a line.\<close>

definition line_end :: "char \<Rightarrow> bool" where
  "line_end c \<longleftrightarrow> c = CHR 0x0A \<or> c = CHR 0x0D"

fun atoms_match :: "atom list \<Rightarrow> string \<Rightarrow> bool" where
  "atoms_match [] s \<longleftrightarrow> s = []"
| "atoms_match (Lit c # as) s \<longleftrightarrow> (case s of [] \<Rightarrow> False | d # t \<Rightarrow> d = c \<and> atoms_match as t)"
| "atoms_match (AnyPlus # as) s \<longleftrightarrow> list_ex (\<lambda>n. list_all (\<lambda>c. \<not> line_end c) (take n s) \<and> atoms_match as (drop n s)) [1..<length s + 1]"
| "atoms_match (NoDotPlus # as) s \<longleftrightarrow> list_ex (\<lambda>n. list_all (\<lambda>c. c \<noteq> CHR ''.'') (take n s) \<and> atoms_match as (drop n s)) [1..<length s + 1]"

definition regex_match :: "string \<Rightarrow> string \<Rightarrow> bool" where
  "regex_match e s = (case regex_atoms e of Some as \<Rightarrow> atoms_match as s | None \<Rightarrow> False)"

text \<open>\<open>valid\<close> accepts the fragment.\<close>

definition accepts_fragment :: "(string \<Rightarrow> bool) \<Rightarrow> bool" where
  "accepts_fragment valid \<longleftrightarrow> (\<forall>e. regex_atoms e \<noteq> None \<longrightarrow> valid e)"

definition atom_of :: "char \<Rightarrow> atom" where
  "atom_of c = (if c = CHR ''#'' then AnyPlus else if c = CHR ''*'' then NoDotPlus else Lit c)"

definition plain :: "char \<Rightarrow> bool" where
  "plain c \<longleftrightarrow> \<not> regex_special c \<or> c \<in> {CHR ''#'', CHR ''*'', CHR ''.''}"

lemma topic_stream_fold: "fold (\<lambda>c (oss, style). let (t, r) = topic_char c in (oss @ t, style \<or> r)) s (oss, style) =
    (oss @ concat (map (fst \<circ> topic_char) s), style \<or> (\<exists>c \<in> set s. snd (topic_char c)))"
  by (induction s arbitrary: oss style) (auto split: prod.splits)

lemma topic_char_style: "snd (topic_char c) \<longleftrightarrow> c = CHR ''#'' \<or> c = CHR ''*''"
  by (simp add: topic_char_def)

lemma topic_stream: "topic_stream s = (concat (map (fst \<circ> topic_char) s), CHR ''#'' \<in> set s \<or> CHR ''*'' \<in> set s)"
  unfolding topic_stream_def topic_stream_fold topic_char_style by simp blast

lemma regex_atoms_pieces:
  "regex_atoms (CHR ''.'' # CHR ''+'' # r) = map_option (Cons AnyPlus) (regex_atoms r)"
  "regex_atoms (CHR ''['' # CHR ''^'' # CHR 0x5C # CHR ''.'' # CHR '']'' # CHR ''+'' # r) = map_option (Cons NoDotPlus) (regex_atoms r)"
  "regex_atoms (CHR 0x5C # CHR ''.'' # r) = map_option (Cons (Lit CHR ''.'')) (regex_atoms r)"
  by simp_all

lemma regex_atoms_plain: "\<not> regex_special c \<Longrightarrow> regex_atoms (c # r) = map_option (Cons (Lit c)) (regex_atoms r)"
  by (auto simp: regex_special_def)

lemma topic_char_atom:
  assumes "plain c"
  shows "regex_atoms (fst (topic_char c) @ r) = map_option (Cons (atom_of c)) (regex_atoms r)"
proof -
  consider "c = CHR ''#''" | "c = CHR ''*''" | "c = CHR ''.''"
    | "c \<noteq> CHR ''#''" "c \<noteq> CHR ''*''" "c \<noteq> CHR ''.''" "\<not> regex_special c"
    using assms by (auto simp: plain_def)
  then show ?thesis
  proof cases
    case 4
    then show ?thesis
      by (simp add: topic_char_def atom_of_def regex_atoms_plain del: regex_atoms.simps)
  qed (simp_all add: topic_char_def atom_of_def regex_atoms_pieces del: regex_atoms.simps)
qed

lemma regex_atoms_stream: "\<forall>c \<in> set s. plain c \<Longrightarrow> regex_atoms (concat (map (fst \<circ> topic_char) s)) = Some (map atom_of s)"
proof (induction s)
  case (Cons c s)
  then show ?case
    using topic_char_atom [of c "concat (map (fst \<circ> topic_char) s)"] by (simp add: comp_def del: regex_atoms.simps)
qed simp

text \<open>Patterns of words: each word is \<open>*\<close>, \<open>#\<close> or plain.\<close>

definition dotted :: "string list \<Rightarrow> string" where
  "dotted ws = concat (tl (concat (map (\<lambda>w. [''.'', w]) ws)))"

lemma dotted_simps [simp]: "dotted [w] = w" "dotted (w # w' # ws) = w @ ''.'' @ dotted (w' # ws)"
  by (simp_all add: dotted_def)

definition literal_word :: "string \<Rightarrow> bool" where
  "literal_word w \<longleftrightarrow> w \<noteq> [] \<and> (\<forall>c \<in> set w. \<not> regex_special c \<and> c \<noteq> CHR ''#'')"

definition pattern_word :: "string \<Rightarrow> bool" where
  "pattern_word w \<longleftrightarrow> w = ''*'' \<or> w = ''#'' \<or> literal_word w"

definition word_matches :: "string \<Rightarrow> string \<Rightarrow> bool" where
  "word_matches w t \<longleftrightarrow> (if w = ''*'' then t \<noteq> [] else w = t)"

text \<open>What a pattern is to match: \<open>#\<close> stands for one or more words, whose text is not empty and has no end of a line.\<close>

fun topic_matches :: "string list \<Rightarrow> string list \<Rightarrow> bool" where
  "topic_matches [] ts \<longleftrightarrow> ts = []"
| "topic_matches (w # ws) ts \<longleftrightarrow>
     (if w = ''#'' then list_ex (\<lambda>n. dotted (take n ts) \<noteq> [] \<and> list_all (\<lambda>c. \<not> line_end c) (dotted (take n ts)) \<and>
        topic_matches ws (drop n ts)) [1..<length ts + 1]
      else (case ts of [] \<Rightarrow> False | t # ts' \<Rightarrow> word_matches w t \<and> topic_matches ws ts'))"

lemma topic_matches_hash:
  "topic_matches (''#'' # ws) ts \<longleftrightarrow> (\<exists>us vs. ts = us @ vs \<and> us \<noteq> [] \<and> dotted us \<noteq> [] \<and> (\<forall>c \<in> set (dotted us). \<not> line_end c) \<and> topic_matches ws vs)"
proof
  assume "topic_matches (''#'' # ws) ts"
  then obtain n where "1 \<le> n" "n \<le> length ts" "dotted (take n ts) \<noteq> []" "\<forall>c \<in> set (dotted (take n ts)). \<not> line_end c" "topic_matches ws (drop n ts)"
    by (auto simp: list_ex_iff list_all_iff simp del: upt_Suc)
  then show "\<exists>us vs. ts = us @ vs \<and> us \<noteq> [] \<and> dotted us \<noteq> [] \<and> (\<forall>c \<in> set (dotted us). \<not> line_end c) \<and> topic_matches ws vs"
    by (intro exI [of _ "take n ts"] exI [of _ "drop n ts"]) auto
next
  assume "\<exists>us vs. ts = us @ vs \<and> us \<noteq> [] \<and> dotted us \<noteq> [] \<and> (\<forall>c \<in> set (dotted us). \<not> line_end c) \<and> topic_matches ws vs"
  then obtain us vs where *: "ts = us @ vs" "us \<noteq> []" "dotted us \<noteq> []" "\<forall>c \<in> set (dotted us). \<not> line_end c" "topic_matches ws vs"
    by blast
  moreover have "length us \<in> set [1..<length ts + 1]"
    using *(1,2) by (simp add: Suc_le_eq del: upt_Suc)
  ultimately show "topic_matches (''#'' # ws) ts"
    by (auto simp: list_ex_iff list_all_iff simp del: upt_Suc intro!: bexI [of _ "length us"])
qed

lemma atoms_match_hash:
  "atoms_match (AnyPlus # as) s \<longleftrightarrow> (\<exists>t r. s = t @ r \<and> t \<noteq> [] \<and> (\<forall>c \<in> set t. \<not> line_end c) \<and> atoms_match as r)"
proof
  assume "atoms_match (AnyPlus # as) s"
  then obtain n where "1 \<le> n" "n \<le> length s" "\<forall>c \<in> set (take n s). \<not> line_end c" "atoms_match as (drop n s)"
    by (auto simp: list_ex_iff list_all_iff simp del: upt_Suc)
  then show "\<exists>t r. s = t @ r \<and> t \<noteq> [] \<and> (\<forall>c \<in> set t. \<not> line_end c) \<and> atoms_match as r"
    by (intro exI [of _ "take n s"] exI [of _ "drop n s"]) auto
next
  assume "\<exists>t r. s = t @ r \<and> t \<noteq> [] \<and> (\<forall>c \<in> set t. \<not> line_end c) \<and> atoms_match as r"
  then obtain t r where *: "s = t @ r" "t \<noteq> []" "\<forall>c \<in> set t. \<not> line_end c" "atoms_match as r"
    by blast
  moreover have "length t \<in> set [1..<length s + 1]"
    using *(1,2) by (simp add: Suc_le_eq del: upt_Suc)
  ultimately show "atoms_match (AnyPlus # as) s"
    by (auto simp: list_ex_iff list_all_iff simp del: upt_Suc intro!: bexI [of _ "length t"])
qed

lemma atoms_match_literal:
  "CHR ''#'' \<notin> set w \<Longrightarrow> CHR ''*'' \<notin> set w \<Longrightarrow>
    atoms_match (map atom_of w @ as) s \<longleftrightarrow> (\<exists>r. s = w @ r \<and> atoms_match as r)"
proof (induction w arbitrary: s)
  case (Cons c w)
  then show ?case
    by (cases s) (auto simp: atom_of_def)
qed simp

lemma atoms_match_star:
  "atoms_match (NoDotPlus # as) s \<longleftrightarrow> (\<exists>t r. s = t @ r \<and> t \<noteq> [] \<and> CHR ''.'' \<notin> set t \<and> atoms_match as r)"
proof -
  have m: "atoms_match (NoDotPlus # as) s \<longleftrightarrow>
      (\<exists>n. 1 \<le> n \<and> n \<le> length s \<and> CHR ''.'' \<notin> set (take n s) \<and> atoms_match as (drop n s))"
    by (force simp: list_ex_iff list_all_iff simp del: upt_Suc)
  show ?thesis
    unfolding m
  proof (intro iffI; elim exE conjE)
    fix n
    assume "1 \<le> n" "n \<le> length s" "CHR ''.'' \<notin> set (take n s)" "atoms_match as (drop n s)"
    then show "\<exists>t r. s = t @ r \<and> t \<noteq> [] \<and> CHR ''.'' \<notin> set t \<and> atoms_match as r"
      by (intro exI [of _ "take n s"] exI [of _ "drop n s"]) auto
  next
    fix t r
    assume "s = t @ r" "t \<noteq> []" "CHR ''.'' \<notin> set t" "atoms_match as r"
    then show "\<exists>n. 1 \<le> n \<and> n \<le> length s \<and> CHR ''.'' \<notin> set (take n s) \<and> atoms_match as (drop n s)"
      by (intro exI [of _ "length t"]) (simp add: Suc_le_eq)
  qed
qed

lemma atoms_match_Lit: "atoms_match (Lit c # as) s \<longleftrightarrow> (\<exists>r. s = c # r \<and> atoms_match as r)"
  by (cases s) auto

lemma pattern_word_match:
  assumes "pattern_word w" and "w \<noteq> ''#''"
  shows "atoms_match (map atom_of w @ as) s \<longleftrightarrow>
    (\<exists>t r. s = t @ r \<and> CHR ''.'' \<notin> set t \<and> word_matches w t \<and> atoms_match as r)"
proof (cases "w = ''*''")
  case True
  then show ?thesis
    by (auto simp: atom_of_def atoms_match_star word_matches_def simp del: atoms_match.simps)
next
  case False
  then have l: "CHR ''#'' \<notin> set w" "CHR ''*'' \<notin> set w" "CHR ''.'' \<notin> set w"
    using assms by (auto simp: pattern_word_def literal_word_def regex_special_def)
  then show ?thesis
    using False by (auto simp: atoms_match_literal word_matches_def simp del: atoms_match.simps)
qed

lemma dotted_Cons: "ts \<noteq> [] \<Longrightarrow> dotted (t # ts) = t @ ''.'' @ dotted ts"
  by (cases ts) simp_all

lemma split_at_dot: "CHR ''.'' \<notin> set t \<Longrightarrow> CHR ''.'' \<notin> set t' \<Longrightarrow>
    t @ CHR ''.'' # r = t' @ CHR ''.'' # r' \<longleftrightarrow> t = t' \<and> r = r'"
proof (induction t arbitrary: t')
  case Nil
  then show ?case by (cases t') auto
next
  case (Cons c t)
  then show ?case by (cases t') auto
qed

lemma dotted_first:
  assumes "ts \<noteq> []" "\<forall>t \<in> set ts. CHR ''.'' \<notin> set t" "CHR ''.'' \<notin> set t"
  shows "dotted ts = t @ CHR ''.'' # r \<longleftrightarrow> (\<exists>ts'. ts = t # ts' \<and> ts' \<noteq> [] \<and> r = dotted ts')"
proof (cases "tl ts = []")
  case True
  then obtain u where u: "ts = [u]"
    using assms(1) by (cases ts) auto
  have "u \<noteq> t @ CHR ''.'' # r"
    using assms(2) u by auto
  then show ?thesis
    using u by simp
next
  case False
  then obtain u us where u: "ts = u # us" "us \<noteq> []"
    by (cases ts) auto
  then show ?thesis
    using assms split_at_dot [of u t "dotted us" r] by (auto simp: dotted_Cons)
qed

lemma dotted_single:
  assumes "ts \<noteq> []" "\<forall>t \<in> set ts. CHR ''.'' \<notin> set t"
  shows "CHR ''.'' \<notin> set (dotted ts) \<longleftrightarrow> (\<exists>t. ts = [t])"
proof (cases "tl ts = []")
  case True
  then show ?thesis
    using assms by (cases ts) auto
next
  case False
  then show ?thesis
    by (cases ts) (auto simp: dotted_Cons)
qed

lemma dotted_append: "us \<noteq> [] \<Longrightarrow> vs \<noteq> [] \<Longrightarrow> dotted (us @ vs) = dotted us @ CHR ''.'' # dotted vs"
proof (induction us)
  case (Cons u us)
  then show ?case
    by (cases "us = []") (simp_all add: dotted_Cons)
qed simp

text \<open>A dot in the text of some words stands between two of them.\<close>

lemma dotted_split:
  "ts \<noteq> [] \<Longrightarrow> \<forall>t \<in> set ts. CHR ''.'' \<notin> set t \<Longrightarrow> dotted ts = t @ CHR ''.'' # r \<Longrightarrow>
    \<exists>us vs. ts = us @ vs \<and> us \<noteq> [] \<and> vs \<noteq> [] \<and> t = dotted us \<and> r = dotted vs"
proof (induction ts arbitrary: t)
  case (Cons u ts)
  show ?case
  proof (cases "CHR ''.'' \<in> set t")
    case False
    then obtain ts' where "u # ts = t # ts'" "ts' \<noteq> []" "r = dotted ts'"
      using dotted_first [OF Cons.prems(1,2) False, of r] Cons.prems(3) by (elim iffE) blast
    then show ?thesis
      by (intro exI [of _ "[t]"] exI [of _ ts']) simp
  next
    case True
    then obtain t1 t2 where t: "t = t1 @ CHR ''.'' # t2" "CHR ''.'' \<notin> set t1"
      by (metis split_list_first)
    then have "dotted (u # ts) = t1 @ CHR ''.'' # (t2 @ CHR ''.'' # r)"
      using Cons.prems(3) by simp
    then obtain ts' where ts': "u # ts = t1 # ts'" "ts' \<noteq> []" "t2 @ CHR ''.'' # r = dotted ts'"
      using dotted_first [OF Cons.prems(1,2) t(2), of "t2 @ CHR ''.'' # r"] by (elim iffE) blast
    then obtain us vs where "ts' = us @ vs" "us \<noteq> []" "vs \<noteq> []" "t2 = dotted us" "r = dotted vs"
      using Cons.IH [of t2] Cons.prems(2) ts' by auto
    then show ?thesis
      using ts' t(1) by (intro exI [of _ "t1 # us"] exI [of _ vs]) (simp add: dotted_Cons)
  qed
qed simp

lemma hash_match:
  assumes IH: "\<And>vs. vs \<noteq> [] \<Longrightarrow> \<forall>t \<in> set vs. CHR ''.'' \<notin> set t \<Longrightarrow> atoms_match as (dotted vs) \<longleftrightarrow> topic_matches ws vs"
    and ws: "\<not> topic_matches ws []" and ts: "ts \<noteq> []" "\<forall>t \<in> set ts. CHR ''.'' \<notin> set t"
  shows "atoms_match (AnyPlus # Lit CHR ''.'' # as) (dotted ts) \<longleftrightarrow> topic_matches (''#'' # ws) ts"
proof -
  have "atoms_match (AnyPlus # Lit CHR ''.'' # as) (dotted ts) \<longleftrightarrow>
      (\<exists>t r. dotted ts = t @ CHR ''.'' # r \<and> t \<noteq> [] \<and> (\<forall>c \<in> set t. \<not> line_end c) \<and> atoms_match as r)"
    unfolding atoms_match_hash atoms_match_Lit by blast
  also have "\<dots> \<longleftrightarrow> (\<exists>us vs. ts = us @ vs \<and> us \<noteq> [] \<and> vs \<noteq> [] \<and> dotted us \<noteq> [] \<and> (\<forall>c \<in> set (dotted us). \<not> line_end c) \<and> atoms_match as (dotted vs))"
  proof (intro iffI; elim exE conjE)
    fix t r
    assume d: "dotted ts = t @ CHR ''.'' # r" and *: "t \<noteq> []" "\<forall>c \<in> set t. \<not> line_end c" "atoms_match as r"
    from dotted_split [OF ts d] obtain us vs where "ts = us @ vs" "us \<noteq> []" "vs \<noteq> []" "t = dotted us" "r = dotted vs"
      by blast
    with * show "\<exists>us vs. ts = us @ vs \<and> us \<noteq> [] \<and> vs \<noteq> [] \<and> dotted us \<noteq> [] \<and> (\<forall>c \<in> set (dotted us). \<not> line_end c) \<and> atoms_match as (dotted vs)"
      by (intro exI [of _ us] exI [of _ vs]) simp
  next
    fix us vs
    assume "ts = us @ vs" "us \<noteq> []" "vs \<noteq> []" "dotted us \<noteq> []" "\<forall>c \<in> set (dotted us). \<not> line_end c" "atoms_match as (dotted vs)"
    then show "\<exists>t r. dotted ts = t @ CHR ''.'' # r \<and> t \<noteq> [] \<and> (\<forall>c \<in> set t. \<not> line_end c) \<and> atoms_match as r"
      by (intro exI [of _ "dotted us"] exI [of _ "dotted vs"]) (simp add: dotted_append)
  qed
  also have "\<dots> \<longleftrightarrow> (\<exists>us vs. ts = us @ vs \<and> us \<noteq> [] \<and> dotted us \<noteq> [] \<and> (\<forall>c \<in> set (dotted us). \<not> line_end c) \<and> topic_matches ws vs)"
  proof -
    have "vs \<noteq> [] \<and> atoms_match as (dotted vs) \<longleftrightarrow> topic_matches ws vs" if "ts = us @ vs" for us vs
      using IH [of vs] ts(2) ws that by (cases "vs = []") simp_all
    then show ?thesis by blast
  qed
  finally show ?thesis
    unfolding topic_matches_hash .
qed

lemma atoms_match_hash_last: "atoms_match [AnyPlus] s \<longleftrightarrow> s \<noteq> [] \<and> (\<forall>c \<in> set s. \<not> line_end c)"
  unfolding atoms_match_hash atoms_match.simps(1) by auto

lemma topic_matches_hash_last: "topic_matches [''#''] ts \<longleftrightarrow> ts \<noteq> [] \<and> dotted ts \<noteq> [] \<and> (\<forall>c \<in> set (dotted ts). \<not> line_end c)"
  unfolding topic_matches_hash topic_matches.simps(1) by auto

lemma words_match:
  "ws \<noteq> [] \<Longrightarrow> \<forall>w \<in> set ws. pattern_word w \<Longrightarrow> ts \<noteq> [] \<Longrightarrow> \<forall>t \<in> set ts. CHR ''.'' \<notin> set t \<Longrightarrow>
    atoms_match (map atom_of (dotted ws)) (dotted ts) \<longleftrightarrow> topic_matches ws ts"
proof (induction ws arbitrary: ts)
  case (Cons w ws)
  have none: "\<not> topic_matches ws []" if "ws \<noteq> []"
    using that by (cases ws) simp_all
  consider (last) "ws = []" "w \<noteq> ''#''" | (hash_last) "ws = []" "w = ''#''" | (hash) "ws \<noteq> []" "w = ''#''" | (more) "ws \<noteq> []" "w \<noteq> ''#''"
    by blast
  then show ?case
  proof cases
    case last
    have "atoms_match (map atom_of (dotted (w # ws))) (dotted ts) \<longleftrightarrow> CHR ''.'' \<notin> set (dotted ts) \<and> word_matches w (dotted ts)"
      using pattern_word_match [of w "[]" "dotted ts"] Cons.prems(2) last by auto
    also have "\<dots> \<longleftrightarrow> topic_matches (w # ws) ts"
      using dotted_single [OF Cons.prems(3,4)] last Cons.prems(3,4) by (auto split: list.split)
    finally show ?thesis .
  next
    case hash_last
    have "atoms_match (map atom_of (dotted (w # ws))) (dotted ts) \<longleftrightarrow> dotted ts \<noteq> [] \<and> (\<forall>c \<in> set (dotted ts). \<not> line_end c)"
      using hash_last by (simp add: atom_of_def atoms_match_hash_last del: atoms_match.simps)
    also have "\<dots> \<longleftrightarrow> topic_matches (w # ws) ts"
      using Cons.prems(3) hash_last by (simp add: topic_matches_hash_last del: topic_matches.simps)
    finally show ?thesis .
  next
    case hash
    have "map atom_of (dotted (w # ws)) = AnyPlus # Lit CHR ''.'' # map atom_of (dotted ws)"
      by (simp add: dotted_Cons [OF hash(1)] atom_of_def hash(2))
    moreover have "atoms_match (AnyPlus # Lit CHR ''.'' # map atom_of (dotted ws)) (dotted ts) \<longleftrightarrow> topic_matches (''#'' # ws) ts"
    proof (rule hash_match)
      have "\<forall>v \<in> set ws. pattern_word v" using Cons.prems(2) by simp
      then show "atoms_match (map atom_of (dotted ws)) (dotted vs) \<longleftrightarrow> topic_matches ws vs"
        if "vs \<noteq> []" "\<forall>t \<in> set vs. CHR ''.'' \<notin> set t" for vs
        using Cons.IH [OF hash(1) _ that] by blast
    qed (rule none [OF hash(1)] Cons.prems(3,4))+
    ultimately show ?thesis
      by (simp only: hash(2))
  next
    case more
    note False = more(1)
    let ?as = "map atom_of (dotted ws)"
    have "atoms_match (map atom_of (dotted (w # ws))) (dotted ts) \<longleftrightarrow>
        (\<exists>t r. dotted ts = t @ CHR ''.'' # r \<and> CHR ''.'' \<notin> set t \<and> word_matches w t \<and> atoms_match ?as r)"
    proof -
      have "map atom_of (dotted (w # ws)) = map atom_of w @ Lit CHR ''.'' # ?as"
        by (simp add: dotted_Cons [OF False] atom_of_def)
      then show ?thesis
        using pattern_word_match [of w "Lit CHR ''.'' # ?as" "dotted ts"] Cons.prems(2) more(2)
        by (auto simp: atoms_match_Lit simp del: atoms_match.simps)
    qed
    also have "\<dots> \<longleftrightarrow> (\<exists>t ts'. ts = t # ts' \<and> ts' \<noteq> [] \<and> word_matches w t \<and> atoms_match ?as (dotted ts'))"
    proof (intro iffI; elim exE conjE)
      fix t r
      assume d: "dotted ts = t @ CHR ''.'' # r" "CHR ''.'' \<notin> set t" and m: "word_matches w t" "atoms_match ?as r"
      obtain ts' where "ts = t # ts'" "ts' \<noteq> []" "r = dotted ts'"
        using dotted_first [OF Cons.prems(3,4) d(2), of r] d(1) by (elim iffE) blast
      then show "\<exists>t ts'. ts = t # ts' \<and> ts' \<noteq> [] \<and> word_matches w t \<and> atoms_match ?as (dotted ts')"
        using m by (intro exI [of _ t] exI [of _ ts'] conjI) simp_all
    next
      fix t ts'
      assume "ts = t # ts'" "ts' \<noteq> []" "word_matches w t" "atoms_match ?as (dotted ts')"
      then show "\<exists>t r. dotted ts = t @ CHR ''.'' # r \<and> CHR ''.'' \<notin> set t \<and> word_matches w t \<and> atoms_match ?as r"
        using Cons.prems(4) by (intro exI [of _ t] exI [of _ "dotted ts'"]) (simp add: dotted_Cons)
    qed
    also have "\<dots> \<longleftrightarrow> (\<exists>t ts'. ts = t # ts' \<and> ts' \<noteq> [] \<and> word_matches w t \<and> topic_matches ws ts')"
    proof -
      have "atoms_match ?as (dotted ts') \<longleftrightarrow> topic_matches ws ts'" if "ts = t # ts'" "ts' \<noteq> []" for t ts'
        using Cons.IH [OF False, of ts'] Cons.prems(2,4) that by simp
      then show ?thesis by blast
    qed
    also have "\<dots> \<longleftrightarrow> topic_matches (w # ws) ts"
      using none [OF False] more(2) by (auto split: list.split)
    finally show ?thesis .
  qed
qed simp

text \<open>The pattern is not of the form \<open>r/.../\<close>.\<close>

definition explicit_regex :: "string \<Rightarrow> bool" where
  "explicit_regex s \<longleftrightarrow> take 2 s = ''r/'' \<and> take 1 (rev s) = ''/'' \<and> length s > 3"

lemma set_dotted: "ws \<noteq> [] \<Longrightarrow> set (dotted ws) = \<Union> (set ` set ws) \<union> (if length ws > 1 then {CHR ''.''} else {})"
proof (induction ws)
  case (Cons w ws)
  then show ?case
    by (cases ws) auto
qed simp

lemma pattern_word_plain: "pattern_word w \<Longrightarrow> c \<in> set w \<Longrightarrow> plain c"
  by (auto simp: pattern_word_def literal_word_def plain_def)

lemma plain_dotted: "ws \<noteq> [] \<Longrightarrow> \<forall>w \<in> set ws. pattern_word w \<Longrightarrow> \<forall>c \<in> set (dotted ws). plain c"
  using pattern_word_plain by (auto simp: set_dotted plain_def split: if_splits)

text \<open>C25: On a transport without topic patterns of its own, the pattern made of the words \<open>ws\<close>, at least one of which is \<open>*\<close> or \<open>#\<close>, becomes
  an expression that matches exactly the topics in which every \<open>*\<close> is replaced by one nonempty word, every \<open>#\<close> by one or more words (whose text is
  not empty and has no end of a line), and any other word stands for itself. Those other words have no characters that are special in expressions.\<close>

theorem topic_words:
  assumes "boost_strings b" and "accepts_fragment valid" and "component \<noteq> RabbitMQ" and "component \<noteq> Redis"
    and "\<forall>w \<in> set ws. pattern_word w" and "''*'' \<in> set ws \<or> ''#'' \<in> set ws" and "\<not> explicit_regex (dotted ws)"
  shows "\<exists>e. parseTopic b valid component (dotted ws) = Inr (TopicRegex e) \<and>
    (\<forall>ts. ts \<noteq> [] \<longrightarrow> (\<forall>t \<in> set ts. CHR ''.'' \<notin> set t) \<longrightarrow>
      (regex_match e (dotted ts) \<longleftrightarrow> topic_matches ws ts))"
proof -
  let ?e = "concat (map (fst \<circ> topic_char) (dotted ws))"
  have ne: "ws \<noteq> []"
    using assms(6) by auto
  have star: "CHR ''*'' \<in> set (dotted ws) \<or> CHR ''#'' \<in> set (dotted ws)"
    using assms(6) by (force simp: set_dotted [OF ne])
  have atoms: "regex_atoms ?e = Some (map atom_of (dotted ws))"
    by (rule regex_atoms_stream [OF plain_dotted [OF ne assms(5)]])
  have "parseTopic b valid component (dotted ws) = Inr (TopicRegex ?e)"
    using assms(1-4,7) star atoms
    by (auto simp: parseTopic_def topic_stream make_regex_def accepts_fragment_def explicit_regex_def boost_strings.boost_laws
        numeral_2_eq_2)
  then show ?thesis
    using words_match [OF ne assms(5)] by (auto simp: regex_match_def atoms)
qed

theorem topic_words_witness:
  "\<exists>e. parseTopic boost_ref (\<lambda>_. True) Multicast (dotted [''a'', ''*'', ''c'', ''#'']) = Inr (TopicRegex e) \<and>
    (\<forall>ts. ts \<noteq> [] \<longrightarrow> (\<forall>t \<in> set ts. CHR ''.'' \<notin> set t) \<longrightarrow>
      (regex_match e (dotted ts) \<longleftrightarrow> topic_matches [''a'', ''*'', ''c'', ''#''] ts))"
  by (rule topic_words [OF boost_ref.boost_strings_axioms])
     (simp_all add: accepts_fragment_def pattern_word_def literal_word_def regex_special_def explicit_regex_def)

end
