(* ===== verification/Dispatch.thy ===== *)
theory Dispatch
  imports Channels
begin

text \<open>
  What the broadcast transports do with one message (src/singlecast/SinglecastComponent.cpp, src/multicast/MulticastComponent.cpp,
  src/zeromq/ZeroMQComponent.cpp, src/nng/NNGComponent.cpp): the envelope on the wire, and the delivery of a received message to
  the clients of a subscription.

  A client's callback takes its argument by rvalue reference and may move from it: \<open>leaves cb d\<close> is what it leaves of \<open>d\<close>. A
  \<open>std::string\<close> that was moved from is empty. \<open>rm e t\<close> is \<open>std::regex_match\<close>.
\<close>

section \<open>Names of channels\<close>

text \<open>The part of a locator that names the channel.\<close>

definition hostAndPort :: "ConnectionLocator \<Rightarrow> ConnectionLocator" where
  "hostAndPort d = \<lparr>host = host d, port = port d, userName = '''', password = '''', ident = '''', properties = []\<rparr>"

section \<open>Clients of a subscription\<close>

record ByteDataWithTopic =
  topic :: string
  content :: string

record 'c ClientCB =
  client_id :: uint32
  cb :: 'c
  client_hook :: "WireToUserHook option"

datatype EncodingChoice = CBOR | BinaryAdHoc

definition parseEncodingChoice :: "string \<Rightarrow> EncodingChoice" where
  "parseEncodingChoice s = (if s = ''binary'' \<or> s = ''binary-adhoc'' then BinaryAdHoc else CBOR)"

text \<open>The transports ZeroMQ and NNG have the CBOR envelope only.\<close>

record 'c OneSubscription =
  encodingChoice :: EncodingChoice
  sub_locator :: ConnectionLocator
  noFilterClients :: "'c ClientCB list"
  stringMatchClients :: "(string \<times> 'c ClientCB) list"
  regexMatchClients :: "(string \<times> 'c ClientCB) list"
  running :: bool

definition new_subscription :: "EncodingChoice \<Rightarrow> ConnectionLocator \<Rightarrow> 'c OneSubscription" where
  "new_subscription e l = \<lparr>encodingChoice = e, sub_locator = l, noFilterClients = [], stringMatchClients = [], regexMatchClients = [], running = True\<rparr>"

definition addSubscription :: "uint32 \<Rightarrow> topic_selection \<Rightarrow> 'c \<Rightarrow> WireToUserHook option \<Rightarrow> 'c OneSubscription \<Rightarrow> 'c OneSubscription" where
  "addSubscription i t handler w s =
     (let c = \<lparr>client_id = i, cb = handler, client_hook = w\<rparr> in
      case t of
        NoTopicSelection \<Rightarrow> s\<lparr>noFilterClients := noFilterClients s @ [c]\<rparr>
      | TopicString x \<Rightarrow> s\<lparr>stringMatchClients := stringMatchClients s @ [(x, c)]\<rparr>
      | TopicRegex e \<Rightarrow> s\<lparr>regexMatchClients := regexMatchClients s @ [(e, c)]\<rparr>)"

definition removeSubscription :: "uint32 \<Rightarrow> 'c OneSubscription \<Rightarrow> 'c OneSubscription" where
  "removeSubscription i s =
     s\<lparr>noFilterClients := filter (\<lambda>x. client_id x \<noteq> i) (noFilterClients s),
       stringMatchClients := filter (\<lambda>x. client_id (snd x) \<noteq> i) (stringMatchClients s),
       regexMatchClients := filter (\<lambda>x. client_id (snd x) \<noteq> i) (regexMatchClients s)\<rparr>"

definition checkWhetherNeedsToStop :: "'c OneSubscription \<Rightarrow> bool \<times> 'c OneSubscription" where
  "checkWhetherNeedsToStop s =
     (if noFilterClients s = [] \<and> stringMatchClients s = [] \<and> regexMatchClients s = []
      then (True, s\<lparr>running := False\<rparr>) else (False, s))"

section \<open>Delivery\<close>

text \<open>What the callback gets, and what is left of the message.\<close>

definition callClient :: "('c \<Rightarrow> ByteDataWithTopic \<Rightarrow> ByteDataWithTopic) \<Rightarrow> 'c ClientCB \<Rightarrow> ByteDataWithTopic
    \<Rightarrow> ('c \<times> ByteDataWithTopic) list \<times> ByteDataWithTopic" where
  "callClient leaves c d =
     (case client_hook c of
        Some h \<Rightarrow>
          (case h (content d) of
             Some b \<Rightarrow> ([(cb c, \<lparr>topic = topic d, content = b\<rparr>)], d\<lparr>topic := ''''\<rparr>)
           | None \<Rightarrow> ([], d))
      | None \<Rightarrow> ([(cb c, d)], leaves (cb c) d))"

text \<open>The clients in the order of the three loops, each with the condition on the message at that moment.\<close>

definition filtered_clients :: "(string \<Rightarrow> string \<Rightarrow> bool) \<Rightarrow> 'c OneSubscription
    \<Rightarrow> ((ByteDataWithTopic \<Rightarrow> bool) \<times> 'c ClientCB) list" where
  "filtered_clients rm s =
     map (\<lambda>f. (\<lambda>_. True, f)) (noFilterClients s) @
     map (\<lambda>(x, f). (\<lambda>d. topic d = x, f)) (stringMatchClients s) @
     map (\<lambda>(e, f). (\<lambda>d. rm e (topic d), f)) (regexMatchClients s)"

text \<open>Singlecast and multicast hand \<open>std::move(data)\<close> to each client.\<close>

fun deliver_moving :: "('c \<Rightarrow> ByteDataWithTopic \<Rightarrow> ByteDataWithTopic)
    \<Rightarrow> ((ByteDataWithTopic \<Rightarrow> bool) \<times> 'c ClientCB) list \<Rightarrow> ByteDataWithTopic \<Rightarrow> ('c \<times> ByteDataWithTopic) list" where
  "deliver_moving leaves [] d = []"
| "deliver_moving leaves ((accepts, f) # fs) d =
     (if accepts d then (let (r, d') = callClient leaves f d in r @ deliver_moving leaves fs d')
      else deliver_moving leaves fs d)"

text \<open>ZeroMQ and NNG hand a copy to each client.\<close>

fun deliver_copies :: "('c \<Rightarrow> ByteDataWithTopic \<Rightarrow> ByteDataWithTopic)
    \<Rightarrow> ((ByteDataWithTopic \<Rightarrow> bool) \<times> 'c ClientCB) list \<Rightarrow> ByteDataWithTopic \<Rightarrow> ('c \<times> ByteDataWithTopic) list" where
  "deliver_copies leaves [] d = []"
| "deliver_copies leaves ((accepts, f) # fs) d =
     (if accepts d then fst (callClient leaves f d) @ deliver_copies leaves fs d else deliver_copies leaves fs d)"

section \<open>Envelopes\<close>

text \<open>The four bytes of a \<open>uint32_t\<close> in memory, lowest first.\<close>

definition uint32_bytes :: "uint32 \<Rightarrow> string" where
  "uint32_bytes w = (let n = unat w in
     [char_of (n mod 256), char_of (n div 256 mod 256), char_of (n div 65536 mod 256), char_of (n div 16777216 mod 256)])"

definition bytes_uint32 :: "string \<Rightarrow> uint32" where
  "bytes_uint32 s = of_nat (of_char (s ! 0) + 256 * of_char (s ! 1) + 65536 * of_char (s ! 2) + 16777216 * of_char (s ! 3))"

text \<open>
  The sender's buffer: the length of the topic cut to 32 bits, that many bytes of the topic, the content, and the zeros of
  \<open>resize\<close> where nothing was copied.
\<close>

definition encode_binary :: "ByteDataWithTopic \<Rightarrow> string" where
  "encode_binary d =
     (let topicLen = unat (of_nat (length (topic d)) :: uint32) in
      uint32_bytes (of_nat (length (topic d))) @ take topicLen (topic d) @ content d @
      replicate (length (topic d) - topicLen) (CHR 0x00))"

definition decode_binary :: "string \<Rightarrow> (ByteDataWithTopic \<times> nat) option" where
  "decode_binary buffer =
     (if length buffer < 4 then None
      else (let topicLen = unat (bytes_uint32 (take 4 buffer)) in
        if length buffer < topicLen + 4 then None
        else Some (\<lparr>topic = take topicLen (drop 4 buffer), content = drop (4 + topicLen) buffer\<rparr>, length buffer)))"

definition encode_envelope :: "EncodingChoice \<Rightarrow> ByteDataWithTopic cbor \<Rightarrow> ByteDataWithTopic \<Rightarrow> string" where
  "encode_envelope e bc d = (case e of CBOR \<Rightarrow> encode_cbor bc d | BinaryAdHoc \<Rightarrow> encode_binary d)"

definition decode_envelope :: "EncodingChoice \<Rightarrow> ByteDataWithTopic cbor \<Rightarrow> string \<Rightarrow> ByteDataWithTopic option" where
  "decode_envelope e bc buffer =
     (case (case e of CBOR \<Rightarrow> decode_at bc buffer 0 | BinaryAdHoc \<Rightarrow> decode_binary buffer) of
        Some (d, n) \<Rightarrow> if n = length buffer then Some d else None
      | None \<Rightarrow> None)"

text \<open>
  The handler of received bytes of singlecast and multicast, with the error code of the receive operation, and whether it starts the
  next receive operation.
\<close>

definition handleReceive :: "ByteDataWithTopic cbor \<Rightarrow> (string \<Rightarrow> string \<Rightarrow> bool)
    \<Rightarrow> ('c \<Rightarrow> ByteDataWithTopic \<Rightarrow> ByteDataWithTopic) \<Rightarrow> 'c OneSubscription \<Rightarrow> bool \<Rightarrow> string
    \<Rightarrow> ('c \<times> ByteDataWithTopic) list \<times> bool" where
  "handleReceive bc rm leaves s err buffer =
     (if \<not> running s then ([], False)
      else if \<not> err then
        ((case decode_envelope (encodingChoice s) bc buffer of
            Some d \<Rightarrow> deliver_moving leaves (filtered_clients rm s) d
          | None \<Rightarrow> []), True)
      else ([], False))"

text \<open>What the loops of ZeroMQ and NNG do with a whole message.\<close>

definition deliver_whole :: "ByteDataWithTopic cbor \<Rightarrow> (string \<Rightarrow> string \<Rightarrow> bool)
    \<Rightarrow> ('c \<Rightarrow> ByteDataWithTopic \<Rightarrow> ByteDataWithTopic) \<Rightarrow> 'c OneSubscription \<Rightarrow> string \<Rightarrow> ('c \<times> ByteDataWithTopic) list" where
  "deliver_whole bc rm leaves s buffer =
     (case decode_at bc buffer 0 of
        Some (d, n) \<Rightarrow> if n = length buffer then deliver_copies leaves (filtered_clients rm s) d else []
      | None \<Rightarrow> [])"

text \<open>
  One turn of the ZeroMQ loop: what \<open>recv\<close> returned, and what \<open>running_\<close> is when it returns. The result also tells whether the
  loop goes on.
\<close>

datatype zmq_result = ZmqNothing | ZmqTruncated | ZmqMessage string

definition zeromq_turn :: "ByteDataWithTopic cbor \<Rightarrow> (string \<Rightarrow> string \<Rightarrow> bool)
    \<Rightarrow> ('c \<Rightarrow> ByteDataWithTopic \<Rightarrow> ByteDataWithTopic) \<Rightarrow> 'c OneSubscription \<Rightarrow> zmq_result
    \<Rightarrow> ('c \<times> ByteDataWithTopic) list \<times> bool" where
  "zeromq_turn bc rm leaves s res =
     (if \<not> running s then ([], False)
      else (case res of
        ZmqNothing \<Rightarrow> ([], True)
      | ZmqTruncated \<Rightarrow> ([], True)
      | ZmqMessage buffer \<Rightarrow> (deliver_whole bc rm leaves s buffer, True)))"

text \<open>
  The inner loop of NNG over the results of \<open>nng_recv\<close>: it ends after ten timeouts or at another error, and gives the results it
  has not used. \<open>missed\<close> is \<open>missedCount\<close>.
\<close>

datatype nng_result = NngTimeout | NngError | NngNoData | NngMessage string

fun nng_inner :: "ByteDataWithTopic cbor \<Rightarrow> (string \<Rightarrow> string \<Rightarrow> bool)
    \<Rightarrow> ('c \<Rightarrow> ByteDataWithTopic \<Rightarrow> ByteDataWithTopic) \<Rightarrow> 'c OneSubscription \<Rightarrow> nat \<Rightarrow> nng_result list
    \<Rightarrow> ('c \<times> ByteDataWithTopic) list \<times> nng_result list" where
  "nng_inner bc rm leaves s missed [] = ([], [])"
| "nng_inner bc rm leaves s missed (r # rs) =
     (if \<not> (running s \<and> missed < 10) then ([], r # rs)
      else (case r of
        NngTimeout \<Rightarrow> nng_inner bc rm leaves s (missed + 1) rs
      | NngError \<Rightarrow> ([], rs)
      | NngNoData \<Rightarrow> nng_inner bc rm leaves s missed rs
      | NngMessage buffer \<Rightarrow>
          (let (out, rest) = nng_inner bc rm leaves s missed rs in
           (deliver_whole bc rm leaves s buffer @ out, rest))))"

text \<open>
  What a publisher puts on the wire. The datagram is taken to be sent as it was when \<open>publish\<close> was called: singlecast and multicast hand
  \<open>async_send_to\<close> a local buffer, and that the operation may be deferred until the buffer is gone is not modelled.
\<close>

definition published :: "EncodingChoice \<Rightarrow> ByteDataWithTopic cbor \<Rightarrow> UserToWireHook option \<Rightarrow> ByteDataWithTopic \<Rightarrow> string" where
  "published e bc u d =
     (case u of
        Some h \<Rightarrow> encode_envelope e bc \<lparr>topic = topic d, content = h (content d)\<rparr>
      | None \<Rightarrow> encode_envelope e bc d)"

section \<open>The envelope\<close>

lemma uint32_parts: "n < 2 ^ 32 \<Longrightarrow>
    n mod 256 + 256 * (n div 256 mod 256) + 65536 * (n div 65536 mod 256) + 16777216 * (n div 16777216 mod 256) = (n::nat)"
proof -
  assume n: "n < 2 ^ 32"
  define a where "a = n div 256"
  define b where "b = a div 256"
  define c where "c = b div 256"
  have "n div 65536 = b" "n div 16777216 = c"
    by (simp_all add: a_def b_def c_def flip: div_mult2_eq)
  moreover have "c < 256"
    using n by (simp add: a_def b_def c_def div_less_iff_less_mult flip: div_mult2_eq)
  moreover have "n = 256 * a + n mod 256" "a = 256 * b + a mod 256" "b = 256 * c + b mod 256"
    by (simp_all add: a_def b_def c_def)
  moreover have "n div 256 = a"
    by (simp add: a_def)
  ultimately show ?thesis
    by (simp only: mod_less)
qed

lemma uint32_bytes_nth:
  "uint32_bytes w ! 0 = char_of (unat w mod 256)"
  "uint32_bytes w ! 1 = char_of (unat w div 256 mod 256)"
  "uint32_bytes w ! 2 = char_of (unat w div 65536 mod 256)"
  "uint32_bytes w ! 3 = char_of (unat w div 16777216 mod 256)"
  by (simp_all add: uint32_bytes_def Let_def numeral_2_eq_2 numeral_3_eq_3)

lemma bytes_uint32_bytes [simp]: "bytes_uint32 (uint32_bytes w) = w"
proof -
  have "unat w < 2 ^ 32"
    using unsigned_less [of w] by simp
  then have p: "unat w mod 256 + 256 * (unat w div 256 mod 256) + 65536 * (unat w div 65536 mod 256)
      + 16777216 * (unat w div 16777216 mod 256) = unat w"
    by (rule uint32_parts)
  have "bytes_uint32 (uint32_bytes w) = of_nat (unat w mod 256 + 256 * (unat w div 256 mod 256)
      + 65536 * (unat w div 65536 mod 256) + 16777216 * (unat w div 16777216 mod 256))"
    unfolding bytes_uint32_def uint32_bytes_nth by (simp only: of_char_of mod_mod_trivial)
  then show ?thesis
    unfolding p by simp
qed

lemma length_uint32_bytes [simp]: "length (uint32_bytes w) = 4"
  by (simp add: uint32_bytes_def Let_def)

lemma unat_length: "length s < 2 ^ 32 \<Longrightarrow> unat (of_nat (length s) :: uint32) = length s"
  by (simp add: unsigned_of_nat take_bit_eq_mod)

lemma decode_encode_binary:
  "length (topic d) < 2 ^ 32 \<Longrightarrow> decode_binary (encode_binary d) = Some (d, length (encode_binary d))"
  by (simp add: decode_binary_def encode_binary_def Let_def unat_length)

lemma decode_encode_envelope:
  assumes "cbor_law bc" "e = BinaryAdHoc \<Longrightarrow> length (topic d) < 2 ^ 32"
  shows "decode_envelope e bc (encode_envelope e bc d) = Some d"
  using assms cbor_law.decode_whole [OF assms(1)]
  by (cases e) (simp_all add: decode_envelope_def encode_envelope_def decode_encode_binary)

section \<open>Who gets what\<close>

text \<open>The filters look at the topic only.\<close>

lemma filtered_clients_topic:
  "(a, f) \<in> set (filtered_clients rm s) \<Longrightarrow> topic d = topic d' \<Longrightarrow> a d \<longleftrightarrow> a d'"
  by (auto simp: filtered_clients_def)

definition clients :: "'c OneSubscription \<Rightarrow> 'c ClientCB list" where
  "clients s = noFilterClients s @ map snd (stringMatchClients s) @ map snd (regexMatchClients s)"

lemma map_filtered_clients: "map snd (filtered_clients rm s) = clients s"
  by (auto simp: filtered_clients_def clients_def comp_def split_def)

text \<open>
  Who is to receive a message, from what was asked for: a request to subscribe names a topic selection, a callback and a hook, and
  stands until its identifier is removed. \<open>due\<close> are the callbacks of the standing requests whose selection accepts the topic,
  those without a selection first, then those for a text, then those for an expression.
\<close>

datatype 'c topic_request =
    Subscribe uint32 topic_selection 'c "WireToUserHook option"
  | Unsubscribe uint32

record 'c subscriber =
  asked_id :: uint32
  asked_topic :: topic_selection
  asked_cb :: 'c
  asked_hook :: "WireToUserHook option"

fun standing :: "'c topic_request list \<Rightarrow> 'c subscriber list \<Rightarrow> 'c subscriber list" where
  "standing [] xs = xs"
| "standing (Subscribe i t c w # rs) xs = standing rs (xs @ [\<lparr>asked_id = i, asked_topic = t, asked_cb = c, asked_hook = w\<rparr>])"
| "standing (Unsubscribe i # rs) xs = standing rs (filter (\<lambda>x. asked_id x \<noteq> i) xs)"

fun selects :: "(string \<Rightarrow> string \<Rightarrow> bool) \<Rightarrow> topic_selection \<Rightarrow> string \<Rightarrow> bool" where
  "selects rm NoTopicSelection tp \<longleftrightarrow> True"
| "selects rm (TopicString x) tp \<longleftrightarrow> tp = x"
| "selects rm (TopicRegex e) tp \<longleftrightarrow> rm e tp"

fun kind_of :: "topic_selection \<Rightarrow> nat" where
  "kind_of NoTopicSelection = 0"
| "kind_of (TopicString x) = 1"
| "kind_of (TopicRegex e) = 2"

definition by_kind :: "'c subscriber list \<Rightarrow> 'c subscriber list" where
  "by_kind xs = concat (map (\<lambda>k. filter (\<lambda>x. kind_of (asked_topic x) = k) xs) [0, 1, 2])"

definition due :: "(string \<Rightarrow> string \<Rightarrow> bool) \<Rightarrow> 'c subscriber list \<Rightarrow> string \<Rightarrow> 'c list" where
  "due rm xs tp = map asked_cb (filter (\<lambda>x. selects rm (asked_topic x) tp) (by_kind xs))"

text \<open>The requests carried out on a subscription, which stops when its last client is removed.\<close>

fun carry_out :: "'c topic_request \<Rightarrow> 'c OneSubscription \<Rightarrow> 'c OneSubscription" where
  "carry_out (Subscribe i t c w) s = addSubscription i t c w s"
| "carry_out (Unsubscribe i) s = snd (checkWhetherNeedsToStop (removeSubscription i s))"

definition client_of :: "'c subscriber \<Rightarrow> 'c ClientCB" where
  "client_of x = \<lparr>client_id = asked_id x, cb = asked_cb x, client_hook = asked_hook x\<rparr>"

text \<open>What the three lists of a subscription hold.\<close>

definition keeps :: "'c OneSubscription \<Rightarrow> 'c subscriber list \<Rightarrow> bool" where
  "keeps s xs \<longleftrightarrow> noFilterClients s = map client_of (filter (\<lambda>x. kind_of (asked_topic x) = 0) xs) \<and>
     stringMatchClients s = concat (map (\<lambda>x. case asked_topic x of TopicString t \<Rightarrow> [(t, client_of x)] | _ \<Rightarrow> []) xs) \<and>
     regexMatchClients s = concat (map (\<lambda>x. case asked_topic x of TopicRegex e \<Rightarrow> [(e, client_of x)] | _ \<Rightarrow> []) xs)"

lemma keeps_add: "keeps s xs \<Longrightarrow> keeps (addSubscription i t c w s) (xs @ [\<lparr>asked_id = i, asked_topic = t, asked_cb = c, asked_hook = w\<rparr>])"
  by (cases t) (simp_all add: keeps_def addSubscription_def client_of_def Let_def)

lemma keeps_remove: "keeps s xs \<Longrightarrow> keeps (snd (checkWhetherNeedsToStop (removeSubscription i s))) (filter (\<lambda>x. asked_id x \<noteq> i) xs)"
proof -
  have parts: "filter (\<lambda>x. client_id x \<noteq> i) (map client_of (filter (\<lambda>x. kind_of (asked_topic x) = 0) xs)) =
      map client_of (filter (\<lambda>x. kind_of (asked_topic x) = 0) (filter (\<lambda>x. asked_id x \<noteq> i) xs))"
    "filter (\<lambda>x. client_id (snd x) \<noteq> i) (concat (map (\<lambda>x. case asked_topic x of TopicString t \<Rightarrow> [(t, client_of x)] | _ \<Rightarrow> []) xs)) =
      concat (map (\<lambda>x. case asked_topic x of TopicString t \<Rightarrow> [(t, client_of x)] | _ \<Rightarrow> []) (filter (\<lambda>x. asked_id x \<noteq> i) xs))"
    "filter (\<lambda>x. client_id (snd x) \<noteq> i) (concat (map (\<lambda>x. case asked_topic x of TopicRegex e \<Rightarrow> [(e, client_of x)] | _ \<Rightarrow> []) xs)) =
      concat (map (\<lambda>x. case asked_topic x of TopicRegex e \<Rightarrow> [(e, client_of x)] | _ \<Rightarrow> []) (filter (\<lambda>x. asked_id x \<noteq> i) xs))"
    by (induction xs) (simp_all add: client_of_def split: topic_selection.split)
  assume "keeps s xs"
  then show ?thesis
    by (simp add: keeps_def removeSubscription_def checkWhetherNeedsToStop_def parts)
qed

lemma keeps_requests: "keeps s xs \<Longrightarrow> keeps (fold carry_out rs s) (standing rs xs)"
  by (induction rs xs arbitrary: s rule: standing.induct) (simp_all add: keeps_add keeps_remove)

lemma keeps_all: "keeps (fold carry_out rs (new_subscription e l)) (standing rs [])"
  by (rule keeps_requests) (simp add: keeps_def new_subscription_def)

lemma kind_of_nothing: "kind_of t = 0 \<Longrightarrow> t = NoTopicSelection"
  by (cases t) simp_all

text \<open>The loops visit the clients by their kinds, each with the condition its selection stands for.\<close>

lemma kept_clients:
  assumes "keeps s xs"
  shows "filtered_clients rm s = map (\<lambda>x. (\<lambda>d. selects rm (asked_topic x) (topic d), client_of x)) (by_kind xs)"
proof -
  have "map (\<lambda>f. (\<lambda>_. True, f)) (map client_of (filter (\<lambda>x. kind_of (asked_topic x) = 0) xs)) =
      map (\<lambda>x. (\<lambda>d. selects rm (asked_topic x) (topic d), client_of x)) (filter (\<lambda>x. kind_of (asked_topic x) = 0) xs)"
    "map (\<lambda>(x, f). (\<lambda>d. topic d = x, f)) (concat (map (\<lambda>x. case asked_topic x of TopicString t \<Rightarrow> [(t, client_of x)] | _ \<Rightarrow> []) xs)) =
      map (\<lambda>x. (\<lambda>d. selects rm (asked_topic x) (topic d), client_of x)) (filter (\<lambda>x. kind_of (asked_topic x) = 1) xs)"
    "map (\<lambda>(e, f). (\<lambda>d. rm e (topic d), f)) (concat (map (\<lambda>x. case asked_topic x of TopicRegex e \<Rightarrow> [(e, client_of x)] | _ \<Rightarrow> []) xs)) =
      map (\<lambda>x. (\<lambda>d. selects rm (asked_topic x) (topic d), client_of x)) (filter (\<lambda>x. kind_of (asked_topic x) = 2) xs)"
    by (induction xs) (auto dest!: kind_of_nothing split: topic_selection.split)
  note parts = this
  have k: "noFilterClients s = map client_of (filter (\<lambda>x. kind_of (asked_topic x) = 0) xs)"
    "stringMatchClients s = concat (map (\<lambda>x. case asked_topic x of TopicString t \<Rightarrow> [(t, client_of x)] | _ \<Rightarrow> []) xs)"
    "regexMatchClients s = concat (map (\<lambda>x. case asked_topic x of TopicRegex e \<Rightarrow> [(e, client_of x)] | _ \<Rightarrow> []) xs)"
    using assms by (simp_all add: keeps_def)
  show ?thesis
    unfolding filtered_clients_def k parts by_kind_def by simp
qed

lemma kept_members: "keeps s xs \<Longrightarrow> set (clients s) = client_of ` set xs"
proof -
  assume k: "keeps s xs"
  have "kind_of t = 0 \<or> kind_of t = 1 \<or> kind_of t = 2" for t
    by (cases t) simp_all
  then have "set (by_kind xs) = set xs"
    unfolding by_kind_def by (simp, blast)
  then show ?thesis
    using arg_cong [OF kept_clients [OF k, of "\<lambda>_ _. True"], of "\<lambda>l. set (map snd l)"]
    unfolding map_filtered_clients by (simp add: image_image)
qed

definition recipients :: "(string \<Rightarrow> string \<Rightarrow> bool) \<Rightarrow> 'c OneSubscription \<Rightarrow> ByteDataWithTopic \<Rightarrow> 'c list" where
  "recipients rm s d = map (cb \<circ> snd) (filter (\<lambda>(a, f). a d) (filtered_clients rm s))"

lemma recipients_due: "keeps s xs \<Longrightarrow> recipients rm s d = due rm xs (topic d)"
  by (simp add: recipients_def due_def kept_clients client_of_def filter_map comp_def split_def)

lemma callClient_hooked: "run_in (client_hook f) (content d') = Some x \<Longrightarrow> client_hook f \<noteq> None \<or> x = content d' \<Longrightarrow>
    fst (callClient leaves f d') = [(cb f, d'\<lparr>content := x\<rparr>)]"
  by (auto simp: callClient_def run_in_def split: option.splits)

lemma deliver_copies_hooked:
  "(\<And>a f. (a, f) \<in> set fs \<Longrightarrow> fst (callClient leaves f d') = [(cb f, d)] \<and> (a d' \<longleftrightarrow> a d)) \<Longrightarrow>
    deliver_copies leaves fs d' = map (\<lambda>c. (c, d)) (map (cb \<circ> snd) (filter (\<lambda>(a, f). a d) fs))"
proof (induction fs)
  case (Cons p fs)
  obtain a f where p: "p = (a, f)" by (cases p)
  have "fst (callClient leaves f d') = [(cb f, d)]" "a d' \<longleftrightarrow> a d"
    using Cons.prems [of a f] p by auto
  moreover have "deliver_copies leaves fs d' = map (\<lambda>c. (c, d)) (map (cb \<circ> snd) (filter (\<lambda>(a, f). a d) fs))"
    by (rule Cons.IH) (use Cons.prems in auto)
  ultimately show ?case
    by (simp add: p)
qed simp

text \<open>The message as it travels.\<close>

definition on_wire :: "UserToWireHook option \<Rightarrow> ByteDataWithTopic \<Rightarrow> ByteDataWithTopic" where
  "on_wire u d = d\<lparr>content := run_out u (content d)\<rparr>"

lemma published_on_wire: "published e bc u d = encode_envelope e bc (on_wire u d)"
  by (cases d) (simp add: published_def on_wire_def run_out_def split: option.split)

definition hooks_undo :: "'c OneSubscription \<Rightarrow> UserToWireHook option \<Rightarrow> ByteDataWithTopic \<Rightarrow> bool" where
  "hooks_undo s u d \<longleftrightarrow> (\<forall>f \<in> set (clients s). run_in (client_hook f) (run_out u (content d)) = Some (content d))"

lemma hooked_client:
  assumes "hooks_undo s u d" "f \<in> set (clients s)"
  shows "fst (callClient leaves f (on_wire u d)) = [(cb f, d)]"
proof -
  have "run_in (client_hook f) (content (on_wire u d)) = Some (content d)"
    using assms by (simp add: hooks_undo_def on_wire_def)
  moreover have "client_hook f \<noteq> None \<or> content d = content (on_wire u d)"
    using calculation by (cases "client_hook f") (simp_all add: run_in_def)
  ultimately show ?thesis
    using callClient_hooked [of f "on_wire u d" "content d" leaves] by (simp add: on_wire_def)
qed

lemma deliver_whole_published:
  assumes "cbor_law bc" "hooks_undo s u d"
  shows "deliver_whole bc rm leaves s (published CBOR bc u d) = map (\<lambda>c. (c, d)) (recipients rm s d)"
proof -
  have "deliver_whole bc rm leaves s (published CBOR bc u d) = deliver_copies leaves (filtered_clients rm s) (on_wire u d)"
    using cbor_law.decode_whole [OF assms(1)] by (simp add: deliver_whole_def published_on_wire encode_envelope_def)
  also have "\<dots> = map (\<lambda>c. (c, d)) (recipients rm s d)"
    unfolding recipients_def
  proof (rule deliver_copies_hooked)
    fix a f
    assume af: "(a, f) \<in> set (filtered_clients rm s)"
    then have "f \<in> set (clients s)"
      unfolding map_filtered_clients [of rm, symmetric] by force
    then show "fst (callClient leaves f (on_wire u d)) = [(cb f, d)] \<and> (a (on_wire u d) \<longleftrightarrow> a d)"
      using hooked_client [OF assms(2)] filtered_clients_topic [OF af, of "on_wire u d" d] by (simp add: on_wire_def)
  qed
  finally show ?thesis .
qed

definition sample_subscription :: "nat OneSubscription" where
  "sample_subscription = addSubscription 3 (TopicRegex ''x'') 30 None (addSubscription 2 (TopicString ''t'') 20 None
     (addSubscription 1 NoTopicSelection 10 None (new_subscription BinaryAdHoc sample_locator)))"

definition bdt_cbor :: "ByteDataWithTopic cbor" where
  "bdt_cbor = conv_cbor (\<lambda>d. (topic d, content d)) (\<lambda>(t, c). Some \<lparr>topic = t, content = c\<rparr>) (pair_cbor string_cbor string_cbor)"

interpretation bdt_cbor: cbor_law bdt_cbor
  unfolding bdt_cbor_def by (intro conv_law codec_laws) simp

text \<open>The hooks of the standing requests undo the publisher's.\<close>

definition subscribers_undo :: "'c subscriber list \<Rightarrow> UserToWireHook option \<Rightarrow> ByteDataWithTopic \<Rightarrow> bool" where
  "subscribers_undo xs u d \<longleftrightarrow> (\<forall>x \<in> set xs. run_in (asked_hook x) (run_out u (content d)) = Some (content d))"

lemma subscribers_hooks: "keeps s xs \<Longrightarrow> subscribers_undo xs u d \<Longrightarrow> hooks_undo s u d"
  by (simp add: hooks_undo_def subscribers_undo_def kept_members client_of_def)

text \<open>C23: After any requests to subscribe and to unsubscribe, a message published on ZeroMQ is delivered, unchanged, to exactly the
  callbacks of the requests that still stand and whose selection accepts its topic (a text that equals it, or an expression that matches it, or no selection),
  those without a selection first, then those for a text, then those for an expression; whatever each callback does with its copy. The
  subscription has not stopped, and the hooks of the standing requests undo the publisher's.\<close>

theorem zeromq_delivery:
  assumes "cbor_law bc" and "running (fold carry_out rs (new_subscription e l))" and "subscribers_undo (standing rs []) u d"
  shows "zeromq_turn bc rm leaves (fold carry_out rs (new_subscription e l)) (ZmqMessage (published CBOR bc u d)) =
    (map (\<lambda>c. (c, d)) (due rm (standing rs []) (topic d)), True)"
  using assms(2) deliver_whole_published [OF assms(1) subscribers_hooks [OF keeps_all assms(3)]]
  by (simp add: zeromq_turn_def recipients_due [OF keeps_all])

definition sample_requests :: "nat topic_request list" where
  "sample_requests = [Subscribe 1 (TopicRegex ''x'') 10 None, Subscribe 2 (TopicString ''t'') 20 None, Subscribe 3 NoTopicSelection 30 None,
     Subscribe 4 (TopicString ''u'') 40 None, Subscribe 5 (TopicString ''t'') 50 None, Unsubscribe 5]"

lemma sample_requests_ok:
  "running (fold carry_out sample_requests (new_subscription e sample_locator))" "subscribers_undo (standing sample_requests []) None d"
  "map asked_cb (by_kind (standing sample_requests [])) = [30, 20, 40, 10]"
  by (simp_all add: sample_requests_def new_subscription_def addSubscription_def removeSubscription_def checkWhetherNeedsToStop_def
      subscribers_undo_def run_in_def run_out_def Let_def by_kind_def)

theorem zeromq_delivery_witness:
  "zeromq_turn bdt_cbor (\<lambda>e t. e = ''x'') (\<lambda>c d. d\<lparr>topic := ''''\<rparr>) (fold carry_out sample_requests (new_subscription CBOR sample_locator))
     (ZmqMessage (published CBOR bdt_cbor None \<lparr>topic = ''t'', content = ''m''\<rparr>)) =
   (map (\<lambda>c. (c, \<lparr>topic = ''t'', content = ''m''\<rparr>)) [30, 20, 10], True)"
  using zeromq_delivery [OF bdt_cbor.cbor_law_axioms sample_requests_ok(1,2), where rm = "\<lambda>e t. e = ''x''" and e = CBOR and
    leaves = "\<lambda>c d. d\<lparr>topic := ''''\<rparr>" and d = "\<lparr>topic = ''t'', content = ''m''\<rparr>"]
  by (simp add: due_def by_kind_def sample_requests_def)

text \<open>As long as fewer than ten of the receive calls time out and none fails, the NNG loop delivers every message that arrives, in
  order and to exactly the clients that select its topic.\<close>

theorem nng_delivery:
  assumes "cbor_law bc" and "running s" and "\<forall>d. hooks_undo s u d"
    and "length (filter (\<lambda>r. r = NngTimeout) rs) + missed < 10"
    and "\<forall>r \<in> set rs. r = NngTimeout \<or> r = NngNoData \<or> (\<exists>d. r = NngMessage (published CBOR bc u d))"
  shows "nng_inner bc rm leaves s missed rs =
    (concat (map (\<lambda>r. case r of NngMessage buffer \<Rightarrow> deliver_whole bc rm leaves s buffer | _ \<Rightarrow> []) rs), []) \<and>
    (\<forall>d. deliver_whole bc rm leaves s (published CBOR bc u d) = map (\<lambda>c. (c, d)) (recipients rm s d))"
proof (intro conjI allI deliver_whole_published [OF assms(1) assms(3) [rule_format]])
  show "nng_inner bc rm leaves s missed rs =
    (concat (map (\<lambda>r. case r of NngMessage buffer \<Rightarrow> deliver_whole bc rm leaves s buffer | _ \<Rightarrow> []) rs), [])"
  using assms(4,5)
proof (induction rs arbitrary: missed)
  case (Cons r rs)
  have m: "missed < 10"
    using Cons.prems(1) by simp
  have rest: "length (filter (\<lambda>r. r = NngTimeout) rs) + (if r = NngTimeout then missed + 1 else missed) < 10"
    using Cons.prems(1) by (auto split: if_splits)
  have "\<forall>r \<in> set rs. r = NngTimeout \<or> r = NngNoData \<or> (\<exists>d. r = NngMessage (published CBOR bc u d))" "r \<noteq> NngError"
    using Cons.prems(2) by auto
  then show ?case
    using Cons.IH [OF rest] m assms(2) by (cases r) (auto split: if_splits)
qed simp
qed

theorem nng_delivery_witness:
  "nng_inner bdt_cbor (=) (\<lambda>c d. d) sample_subscription 0
     [NngTimeout, NngMessage (published CBOR bdt_cbor None \<lparr>topic = ''t'', content = ''m''\<rparr>)] =
   (concat (map (\<lambda>r. case r of NngMessage buffer \<Rightarrow> deliver_whole bdt_cbor (=) (\<lambda>c d. d) sample_subscription buffer | _ \<Rightarrow> [])
     [NngTimeout, NngMessage (published CBOR bdt_cbor None \<lparr>topic = ''t'', content = ''m''\<rparr>)]), []) \<and>
    (\<forall>d. deliver_whole bdt_cbor (=) (\<lambda>c d. d) sample_subscription (published CBOR bdt_cbor None d) =
      map (\<lambda>c. (c, d)) (recipients (=) sample_subscription d))"
  by (rule nng_delivery [OF bdt_cbor.cbor_law_axioms])
     (auto simp: sample_subscription_def new_subscription_def addSubscription_def Let_def hooks_undo_def clients_def
       run_in_def run_out_def)

text \<open>A client that is handed the message itself may leave it changed for the next.\<close>

lemma deliver_moving_copies:
  "\<forall>(a, f) \<in> set (butlast fs). a d \<longrightarrow> snd (callClient leaves f d) = d \<Longrightarrow> deliver_moving leaves fs d = deliver_copies leaves fs d"
proof (induction fs)
  case (Cons p fs)
  obtain a f where p: "p = (a, f)" by (cases p)
  show ?case
  proof (cases "fs = []")
    case True
    then show ?thesis
      by (simp add: p split: prod.split)
  next
    case False
    then have "deliver_moving leaves fs d = deliver_copies leaves fs d"
      using Cons by simp
    moreover have "a d \<Longrightarrow> snd (callClient leaves f d) = d"
      using Cons.prems False p by auto
    ultimately show ?thesis
      by (cases "a d"; cases "callClient leaves f d") (simp_all add: p)
  qed
qed simp

lemma received_published:
  assumes "cbor_law bc" and "running s" and "hooks_undo s u d" and "length (topic d) < 2 ^ 32"
    and "\<forall>(a, f) \<in> set (butlast (filtered_clients rm s)). a (on_wire u d) \<longrightarrow>
      snd (callClient leaves f (on_wire u d)) = on_wire u d"
  shows "handleReceive bc rm leaves s False (published (encodingChoice s) bc u d) = (map (\<lambda>c. (c, d)) (recipients rm s d), True)"
proof -
  have "decode_envelope (encodingChoice s) bc (published (encodingChoice s) bc u d) = Some (on_wire u d)"
    unfolding published_on_wire by (rule decode_encode_envelope [OF assms(1)]) (use assms(4) in \<open>simp add: on_wire_def\<close>)
  then have "handleReceive bc rm leaves s False (published (encodingChoice s) bc u d) =
      (deliver_copies leaves (filtered_clients rm s) (on_wire u d), True)"
    using assms(2) deliver_moving_copies [OF assms(5)] by (simp add: handleReceive_def)
  also have "deliver_copies leaves (filtered_clients rm s) (on_wire u d) =
      deliver_whole bc rm leaves s (published CBOR bc u d)"
    using cbor_law.decode_whole [OF assms(1)] by (simp add: deliver_whole_def published_on_wire encode_envelope_def)
  also have "\<dots> = map (\<lambda>c. (c, d)) (recipients rm s d)"
    by (rule deliver_whole_published [OF assms(1,3)])
  finally show ?thesis .
qed

lemma carry_out_encoding: "encodingChoice (fold carry_out rs s) = encodingChoice s"
proof (induction rs arbitrary: s)
  case (Cons r rs)
  then show ?case
    by (cases r) (simp_all add: addSubscription_def removeSubscription_def checkWhetherNeedsToStop_def Let_def split: topic_selection.split)
qed simp

text \<open>C24: After any requests to subscribe and to unsubscribe, a message published on singlecast or multicast, in either envelope, is delivered,
  unchanged, to exactly the callbacks of the requests that still stand and whose selection accepts its topic, in the order of the kinds of selection, provided that every
  client but the last, when it is called, leaves the message it was handed as it was (it has no hook and does not move from it; the next theorem shows what
  happens otherwise). The topic fits into 32 bits, the subscription has not stopped, and the hooks of the standing requests undo the publisher's.\<close>

theorem singlecast_delivery:
  assumes "cbor_law bc" and "running (fold carry_out rs (new_subscription e l))" and "subscribers_undo (standing rs []) u d"
    and "length (topic d) < 2 ^ 32"
    and "\<forall>x \<in> set (butlast (by_kind (standing rs []))). selects rm (asked_topic x) (topic d) \<longrightarrow>
      asked_hook x = None \<and> leaves (asked_cb x) (d\<lparr>content := run_out u (content d)\<rparr>) = d\<lparr>content := run_out u (content d)\<rparr>"
  shows "handleReceive bc rm leaves (fold carry_out rs (new_subscription e l)) False (published e bc u d) =
    (map (\<lambda>c. (c, d)) (due rm (standing rs []) (topic d)), True)"
proof -
  let ?s = "fold carry_out rs (new_subscription e l)"
  have "snd (callClient leaves (client_of x) (on_wire u d)) = on_wire u d"
    if "x \<in> set (butlast (by_kind (standing rs [])))" "selects rm (asked_topic x) (topic d)" for x
    using assms(5) that by (simp add: callClient_def client_of_def on_wire_def)
  then have "\<forall>(a, f) \<in> set (butlast (filtered_clients rm ?s)). a (on_wire u d) \<longrightarrow>
      snd (callClient leaves f (on_wire u d)) = on_wire u d"
    unfolding kept_clients [OF keeps_all] map_butlast [symmetric] by (auto simp: on_wire_def)
  moreover have "encodingChoice ?s = e"
    by (simp add: carry_out_encoding) (simp add: new_subscription_def)
  ultimately show ?thesis
    using received_published [OF assms(1,2) subscribers_hooks [OF keeps_all assms(3)] assms(4), of rm leaves]
    by (simp add: recipients_due [OF keeps_all])
qed

theorem singlecast_delivery_witness:
  "handleReceive bdt_cbor (\<lambda>e t. e = ''x'') (\<lambda>c d. d) (fold carry_out sample_requests (new_subscription BinaryAdHoc sample_locator)) False
     (published BinaryAdHoc bdt_cbor None \<lparr>topic = ''t'', content = ''m''\<rparr>) =
   (map (\<lambda>c. (c, \<lparr>topic = ''t'', content = ''m''\<rparr>)) [30, 20, 10], True)"
  using singlecast_delivery [OF bdt_cbor.cbor_law_axioms sample_requests_ok(1,2), where rm = "\<lambda>e t. e = ''x''" and e = BinaryAdHoc and
    leaves = "\<lambda>c d. d" and d = "\<lparr>topic = ''t'', content = ''m''\<rparr>"]
  by (simp add: due_def by_kind_def sample_requests_def run_out_def)

text \<open>When the first client of a singlecast or multicast subscription takes the topic out of the message it is handed, as the callback of
  the broadcast listener does and as every client with a hook does, a second client without topic selection gets the message with
  an empty topic, and no client that selects a nonempty topic by its text gets it at all.\<close>

theorem second_client_loses_topic:
  assumes "cbor_law bc" and "running s" and "length (topic d) < 2 ^ 32" and "noFilterClients s = [f, g]" and "regexMatchClients s = []"
    and "\<forall>(x, c) \<in> set (stringMatchClients s). x \<noteq> ''''"
    and "client_hook f = None" and "client_hook g = None"
    and "\<forall>d. leaves (cb f) d = d\<lparr>topic := ''''\<rparr>" and "\<forall>d. leaves (cb g) d = d\<lparr>topic := ''''\<rparr>"
  shows "handleReceive bc rm leaves s False (encode_envelope (encodingChoice s) bc d) = ([(cb f, d), (cb g, d\<lparr>topic := ''''\<rparr>)], True)"
proof -
  have none: "\<forall>(x, c) \<in> set ss. x \<noteq> '''' \<Longrightarrow>
      deliver_moving leaves (map (\<lambda>(x, f). (\<lambda>d. topic d = x, f)) ss) (d\<lparr>topic := ''''\<rparr>) = []" for ss
    by (induction ss) auto
  show ?thesis
    using assms decode_encode_envelope [OF assms(1,3)] none [OF assms(6)]
    by (simp add: handleReceive_def filtered_clients_def callClient_def)
qed

theorem second_client_loses_topic_witness:
  "handleReceive bdt_cbor (=) (\<lambda>c d. d\<lparr>topic := ''''\<rparr>)
     (addSubscription 3 (TopicString ''t'') (30::nat) None (addSubscription 2 NoTopicSelection 20 None
       (addSubscription 1 NoTopicSelection 10 None (new_subscription BinaryAdHoc sample_locator))))
     False (encode_envelope BinaryAdHoc bdt_cbor \<lparr>topic = ''t'', content = ''m''\<rparr>) =
   ([(10, \<lparr>topic = ''t'', content = ''m''\<rparr>), (20, \<lparr>topic = '''', content = ''m''\<rparr>)], True)"
  using second_client_loses_topic [OF bdt_cbor.cbor_law_axioms, of
     "addSubscription 3 (TopicString ''t'') (30::nat) None (addSubscription 2 NoTopicSelection 20 None
       (addSubscription 1 NoTopicSelection 10 None (new_subscription BinaryAdHoc sample_locator)))"
     "\<lparr>topic = ''t'', content = ''m''\<rparr>" "\<lparr>client_id = 1, cb = 10, client_hook = None\<rparr>" "\<lparr>client_id = 2, cb = 20, client_hook = None\<rparr>" "\<lambda>c d. d\<lparr>topic := ''''\<rparr>"
     "(=)"]
  by (simp add: addSubscription_def new_subscription_def Let_def)

end
