(* ===== verification/ClientTable.thy ===== *)
theory ClientTable
  imports Dispatch
begin

text \<open>
  The tables by which a broadcast transport finds its subscriptions and their clients. Singlecast, multicast, ZeroMQ and NNG keep the same
  ones (src/singlecast/SinglecastComponent.cpp and its siblings): a subscription object per channel, owned by a map from locators, and a map
  from client ids to pointers to these objects. The object a pointer points to is looked up in a heap, where a deleted object
  is absent, so that a use after deletion is visible. Each operation is a sequence of steps, one per critical section.
\<close>

section \<open>State\<close>

type_synonym pointer = nat

record 'c ComponentImpl =
  subscriptions :: "ConnectionLocator \<rightharpoonup> pointer"
  heap :: "pointer \<rightharpoonup> 'c OneSubscription"
  next_pointer :: pointer
  counter :: uint32
  idToSubscriptionMap :: "uint32 \<rightharpoonup> pointer"

definition initial_component :: "'c ComponentImpl" where
  "initial_component = \<lparr>subscriptions = Map.empty, heap = Map.empty, next_pointer = 0, counter = 0, idToSubscriptionMap = Map.empty\<rparr>"

definition hostAndPortAndIdentifier :: "ConnectionLocator \<Rightarrow> ConnectionLocator" where
  "hostAndPortAndIdentifier d =
     \<lparr>host = host d, port = port d, userName = '''', password = '''', ident = ident d, properties = []\<rparr>"

text \<open>\<open>opens\<close>: the constructor of a subscription does not throw. A use of a deleted object is a value, too.\<close>

datatype table_error = CannotOpen ConnectionLocator | UseAfterDelete pointer

text \<open>How a transport differs: its channel names, its envelopes, and which channels can be opened.\<close>

record transport =
  channel_of :: "ConnectionLocator \<Rightarrow> ConnectionLocator"
  envelope_of :: "ConnectionLocator \<Rightarrow> EncodingChoice"
  opens :: "ConnectionLocator \<Rightarrow> bool"

definition singlecast :: "boost \<Rightarrow> (ConnectionLocator \<Rightarrow> bool) \<Rightarrow> transport" where
  "singlecast b op = \<lparr>channel_of = hostAndPort, envelope_of = (\<lambda>d. parseEncodingChoice (query b d ''envelop'' ''cbor'')), opens = op\<rparr>"

definition multicast :: "boost \<Rightarrow> (ConnectionLocator \<Rightarrow> bool) \<Rightarrow> transport" where
  "multicast b op = \<lparr>channel_of = hostAndPort, envelope_of = (\<lambda>d. parseEncodingChoice (query b d ''envelop'' ''cbor'')), opens = op\<rparr>"

definition zeromq :: transport where
  "zeromq = \<lparr>channel_of = hostAndPortAndIdentifier, envelope_of = (\<lambda>_. CBOR), opens = (\<lambda>_. True)\<rparr>"

definition nng :: transport where
  "nng = \<lparr>channel_of = hostAndPort, envelope_of = (\<lambda>_. CBOR), opens = (\<lambda>_. True)\<rparr>"

section \<open>Steps\<close>

definition getOrStartSubscription :: "transport \<Rightarrow> ConnectionLocator \<Rightarrow> ('c ComponentImpl, table_error, pointer) call" where
  "getOrStartSubscription tr d c =
     (let k = channel_of tr d in
      case subscriptions c k of
        Some p \<Rightarrow> returnS p c
      | None \<Rightarrow>
          if opens tr k then
            returnS (next_pointer c)
              (c\<lparr>subscriptions := (subscriptions c)(k \<mapsto> next_pointer c),
                 heap := (heap c)(next_pointer c \<mapsto> new_subscription (envelope_of tr d) k),
                 next_pointer := next_pointer c + 1\<rparr>)
          else throwS (CannotOpen k) c)"

text \<open>Access to the object behind a pointer.\<close>

definition on_object :: "pointer \<Rightarrow> ('c OneSubscription \<Rightarrow> 'a \<times> 'c OneSubscription) \<Rightarrow> ('c ComponentImpl, table_error, 'a) call" where
  "on_object p f c =
     (case heap c p of
        Some s \<Rightarrow> (let (a, s') = f s in returnS a (c\<lparr>heap := (heap c)(p \<mapsto> s')\<rparr>))
      | None \<Rightarrow> throwS (UseAfterDelete p) c)"

definition register_client :: "pointer \<Rightarrow> topic_selection \<Rightarrow> 'c \<Rightarrow> WireToUserHook option \<Rightarrow> ('c ComponentImpl, table_error, uint32) call" where
  "register_client p t client w c =
     (let i = counter c + 1 in
      bindS (on_object p (\<lambda>s. ((), addSubscription i t client w s)))
        (\<lambda>_ c. returnS i (c\<lparr>idToSubscriptionMap := (idToSubscriptionMap c)(i \<mapsto> p)\<rparr>)) (c\<lparr>counter := i\<rparr>))"

definition addSubscriptionClient :: "transport \<Rightarrow> ConnectionLocator \<Rightarrow> topic_selection \<Rightarrow> 'c \<Rightarrow> WireToUserHook option
    \<Rightarrow> ('c ComponentImpl, table_error, uint32) call" where
  "addSubscriptionClient tr d t client w = bindS (getOrStartSubscription tr d) (\<lambda>p. register_client p t client w)"

definition forget_id :: "uint32 \<Rightarrow> ('c ComponentImpl, table_error, pointer option) call" where
  "forget_id i c =
     (case idToSubscriptionMap c i of
        None \<Rightarrow> returnS None c
      | Some p \<Rightarrow> returnS (Some p) (c\<lparr>idToSubscriptionMap := (idToSubscriptionMap c)(i := None)\<rparr>))"

definition potentiallyStopSubscription :: "pointer \<Rightarrow> ('c ComponentImpl, table_error, unit) call" where
  "potentiallyStopSubscription p =
     bindS (on_object p (\<lambda>s. ((fst (checkWhetherNeedsToStop s), sub_locator s), snd (checkWhetherNeedsToStop s))))
       (\<lambda>(stop, l) c.
          if stop then
            returnS () (case subscriptions c l of
               Some q \<Rightarrow> c\<lparr>subscriptions := (subscriptions c)(l := None), heap := (heap c)(q := None)\<rparr>
             | None \<Rightarrow> c)
          else returnS () c)"

definition removeSubscriptionClient :: "uint32 \<Rightarrow> ('c ComponentImpl, table_error, unit) call" where
  "removeSubscriptionClient i =
     bindS (forget_id i) (\<lambda>r. case r of
        None \<Rightarrow> returnS ()
      | Some p \<Rightarrow>
          bindS (on_object p (\<lambda>s. ((), removeSubscription i s))) (\<lambda>_. potentiallyStopSubscription p))"

section \<open>What the tables mean\<close>

text \<open>The clients: for each id the channel, the topic selection, the callback and the hook.\<close>

definition tagged_clients :: "'c OneSubscription \<Rightarrow> (topic_selection \<times> 'c ClientCB) list" where
  "tagged_clients s =
     map (\<lambda>f. (NoTopicSelection, f)) (noFilterClients s) @
     map (\<lambda>(x, f). (TopicString x, f)) (stringMatchClients s) @
     map (\<lambda>(e, f). (TopicRegex e, f)) (regexMatchClients s)"

definition client_entry :: "'c OneSubscription \<Rightarrow> topic_selection \<times> 'c ClientCB
    \<Rightarrow> ConnectionLocator \<times> topic_selection \<times> 'c \<times> WireToUserHook option" where
  "client_entry s = (\<lambda>(t, f). (sub_locator s, t, cb f, client_hook f))"

definition live :: "'c ComponentImpl \<Rightarrow> uint32 \<rightharpoonup> ConnectionLocator \<times> topic_selection \<times> 'c \<times> WireToUserHook option" where
  "live c i =
     (case Option.bind (idToSubscriptionMap c i) (heap c) of
        Some s \<Rightarrow> map_option (client_entry s) (List.find (\<lambda>(t, f). client_id f = i) (tagged_clients s))
      | None \<Rightarrow> None)"

definition ids :: "'c OneSubscription \<Rightarrow> uint32 set" where
  "ids s = client_id ` set (clients s)"

text \<open>The invariant; the objects in \<open>E\<close> may have no clients yet.\<close>

definition tables_ok :: "pointer set \<Rightarrow> 'c ComponentImpl \<Rightarrow> bool" where
  "tables_ok E c \<longleftrightarrow>
     (\<forall>l p. subscriptions c l = Some p \<longleftrightarrow> (\<exists>s. heap c p = Some s \<and> sub_locator s = l))
     \<and> (\<forall>p s. heap c p = Some s \<longrightarrow> p < next_pointer c \<and> running s \<and> (p \<notin> E \<longrightarrow> ids s \<noteq> {}))
     \<and> (\<forall>i p. idToSubscriptionMap c i = Some p \<longleftrightarrow> (\<exists>s. heap c p = Some s \<and> i \<in> ids s))
     \<and> (\<forall>i p. idToSubscriptionMap c i = Some p \<longrightarrow> unat i \<le> unat (counter c))"

lemma tables_okD:
  assumes "tables_ok E c"
  shows "subscriptions c l = Some p \<longleftrightarrow> (\<exists>s. heap c p = Some s \<and> sub_locator s = l)"
    and "heap c p = Some s \<Longrightarrow> p < next_pointer c" and "heap c p = Some s \<Longrightarrow> running s"
    and "heap c p = Some s \<Longrightarrow> p \<notin> E \<Longrightarrow> ids s \<noteq> {}"
    and "idToSubscriptionMap c i = Some p \<longleftrightarrow> (\<exists>s. heap c p = Some s \<and> i \<in> ids s)"
    and "idToSubscriptionMap c i = Some p \<Longrightarrow> unat i \<le> unat (counter c)"
  using assms unfolding tables_ok_def by blast+

text \<open>The counter has not come to its end.\<close>

definition room :: "'c ComponentImpl \<Rightarrow> bool" where
  "room c \<longleftrightarrow> unat (counter c) + 1 < 2 ^ 32"

lemma unat_next: "room c \<Longrightarrow> unat (counter c + 1) = unat (counter c) + 1"
  by (simp add: room_def unat_word_ariths)

section \<open>Objects\<close>

lemma find_append: "List.find P (xs @ ys) = (case List.find P xs of Some x \<Rightarrow> Some x | None \<Rightarrow> List.find P ys)"
  by (induction xs) auto

lemma find_filter_other: "(\<And>x. P x \<Longrightarrow> Q x) \<Longrightarrow> List.find P (filter Q xs) = List.find P xs"
  by (induction xs) auto

lemma find_map: "List.find P (map f xs) = map_option f (List.find (P \<circ> f) xs)"
  by (induction xs) auto

definition find_client :: "uint32 \<Rightarrow> 'c OneSubscription \<Rightarrow> (topic_selection \<times> 'c ClientCB) option" where
  "find_client i s = List.find (\<lambda>(t, f). client_id f = i) (tagged_clients s)"

lemma snd_tagged_clients: "map snd (tagged_clients s) = clients s"
  by (auto simp: tagged_clients_def clients_def comp_def split_def)

lemma find_client_None: "find_client i s = None \<longleftrightarrow> i \<notin> ids s"
  unfolding find_client_def find_None_iff ids_def snd_tagged_clients [symmetric] by force

lemma ids_add [simp]: "ids (addSubscription i t client w s) = insert i (ids s)"
  by (cases t) (auto simp: ids_def clients_def addSubscription_def Let_def)

lemma ids_remove [simp]: "ids (removeSubscription i s) = ids s - {i}"
  by (auto simp: ids_def clients_def removeSubscription_def)

lemma sub_locator_add [simp]: "sub_locator (addSubscription i t client w s) = sub_locator s"
  "running (addSubscription i t client w s) = running s"
  by (cases t; simp add: addSubscription_def Let_def)+

lemma sub_locator_remove [simp]: "sub_locator (removeSubscription i s) = sub_locator s"
  "running (removeSubscription i s) = running s"
  by (simp_all add: removeSubscription_def)

lemma find_client_add:
  "i \<notin> ids s \<Longrightarrow> find_client j (addSubscription i t client w s) =
    (if j = i then Some (t, \<lparr>client_id = i, cb = client, client_hook = w\<rparr>) else find_client j s)"
proof -
  assume i: "i \<notin> ids s"
  show ?thesis
  proof (cases "j = i")
    case True
    then show ?thesis
      using i find_client_None [of i s]
      by (cases t) (auto simp: find_client_def tagged_clients_def addSubscription_def Let_def find_append split: option.splits)
  next
    case False
    then show ?thesis
      by (cases t) (auto simp: find_client_def tagged_clients_def addSubscription_def Let_def find_append split: option.splits)
  qed
qed

lemma find_client_remove: "j \<noteq> i \<Longrightarrow> find_client j (removeSubscription i s) = find_client j s"
proof -
  assume "j \<noteq> i"
  have m: "tagged_clients (removeSubscription i s) = filter (\<lambda>(t, f). client_id f \<noteq> i) (tagged_clients s)"
    by (simp add: tagged_clients_def removeSubscription_def filter_map comp_def split_def)
  show ?thesis
    unfolding find_client_def m by (rule find_filter_other) (use \<open>j \<noteq> i\<close> in auto)
qed

lemma ids_new [simp]: "ids (new_subscription e l) = {}"
  by (simp add: ids_def clients_def new_subscription_def)

lemma stop_iff: "fst (checkWhetherNeedsToStop s) \<longleftrightarrow> ids s = {}"
  by (auto simp: checkWhetherNeedsToStop_def ids_def clients_def)

lemma stop_keeps: "\<not> fst (checkWhetherNeedsToStop s) \<Longrightarrow> snd (checkWhetherNeedsToStop s) = s"
  by (auto simp: checkWhetherNeedsToStop_def)

lemma live_alt: "live c i = (case Option.bind (idToSubscriptionMap c i) (heap c) of
    Some s \<Rightarrow> map_option (client_entry s) (find_client i s) | None \<Rightarrow> None)"
  unfolding live_def find_client_def ..

lemma live_same: "Option.bind (idToSubscriptionMap c' i) (heap c') = Option.bind (idToSubscriptionMap c i) (heap c) \<Longrightarrow>
    live c' i = live c i"
  by (simp add: live_alt)

lemma live_object: "idToSubscriptionMap c i = Some p \<Longrightarrow> heap c p = Some s \<Longrightarrow> live c i = map_option (client_entry s) (find_client i s)"
  by (simp add: live_alt)

section \<open>The operations on the tables\<close>

lemma getOrStart_ok:
  assumes ok: "tables_ok {} c"
  obtains (started) p c' s where "getOrStartSubscription tr d c = (Inr p, c')" "tables_ok {p} c'" "heap c' p = Some s"
      "sub_locator s = channel_of tr d" "live c' = live c" "counter c' = counter c"
      "dom (idToSubscriptionMap c') = dom (idToSubscriptionMap c)"
    | (closed) "getOrStartSubscription tr d c = (Inl (CannotOpen (channel_of tr d)), c)" "\<not> opens tr (channel_of tr d)"
proof (cases "subscriptions c (channel_of tr d)")
  case (Some p)
  then obtain s where "heap c p = Some s" "sub_locator s = channel_of tr d"
    using tables_okD(1) [OF ok] by blast
  moreover have "tables_ok {p} c"
    using ok unfolding tables_ok_def by blast
  ultimately show ?thesis
    using started [of p c s] Some by (simp add: getOrStartSubscription_def Let_def call_simps)
next
  case None
  show ?thesis
  proof (cases "opens tr (channel_of tr d)")
    case False
    then show ?thesis
      using closed None by (simp add: getOrStartSubscription_def Let_def call_simps)
  next
    case True
    let ?p = "next_pointer c" and ?s = "new_subscription (envelope_of tr d) (channel_of tr d) :: 'a OneSubscription"
    let ?c = "c\<lparr>subscriptions := (subscriptions c)(channel_of tr d \<mapsto> ?p), heap := (heap c)(?p \<mapsto> ?s), next_pointer := ?p + 1\<rparr>"
    have fresh: "heap c ?p = None"
      using tables_okD(2) [OF ok, of ?p] by (cases "heap c ?p") auto
    have unmapped: "idToSubscriptionMap c i \<noteq> Some ?p" for i
      using tables_okD(5) [OF ok, of i ?p] fresh by simp
    have new: "sub_locator ?s = channel_of tr d" "running ?s"
      by (simp_all add: new_subscription_def)
    have "tables_ok {?p} ?c"
      unfolding tables_ok_def
    proof (intro conjI allI impI)
      fix l p
      show "subscriptions ?c l = Some p \<longleftrightarrow> (\<exists>s. heap ?c p = Some s \<and> sub_locator s = l)"
        using tables_okD(1) [OF ok, of l p] fresh None new by (cases "p = ?p") auto
    next
      fix i p
      show "idToSubscriptionMap ?c i = Some p \<longleftrightarrow> (\<exists>s. heap ?c p = Some s \<and> i \<in> ids s)"
        using tables_okD(5) [OF ok, of i p] unmapped [of i] by (cases "p = ?p") auto
    qed (use tables_okD(2,3,4,6) [OF ok] new in \<open>auto split: if_splits simp: less_Suc_eq\<close>)
    moreover have "live ?c = live c"
    proof (rule ext, rule live_same)
      fix i
      show "Option.bind (idToSubscriptionMap ?c i) (heap ?c) = Option.bind (idToSubscriptionMap c i) (heap c)"
        using unmapped [of i] by (cases "idToSubscriptionMap c i") auto
    qed
    ultimately show ?thesis
      using started [of ?p ?c ?s] None True new by (simp add: getOrStartSubscription_def Let_def call_simps)
  qed
qed

lemma register_ok:
  assumes ok: "tables_ok {p} c" and p: "heap c p = Some s" and r: "room c"
  obtains c' where "register_client p t client w c = (Inr (counter c + 1), c')" "tables_ok {} c'"
    "live c' = (live c)(counter c + 1 \<mapsto> (sub_locator s, t, client, w))" "live c (counter c + 1) = None"
    "counter c' = counter c + 1"
proof -
  let ?i = "counter c + 1"
  let ?s = "addSubscription ?i t client w s"
  let ?c = "c\<lparr>counter := ?i, heap := (heap c)(p \<mapsto> ?s), idToSubscriptionMap := (idToSubscriptionMap c)(?i \<mapsto> p)\<rparr>"
  have fresh: "idToSubscriptionMap c ?i = None"
    using tables_okD(6) [OF ok, of ?i] unat_next [OF r] by (cases "idToSubscriptionMap c ?i") auto
  have nid: "?i \<notin> ids s'" if "heap c q = Some s'" for q s'
    using tables_okD(5) [OF ok, of ?i q] fresh that by auto
  have "tables_ok {} ?c"
    unfolding tables_ok_def
  proof (intro conjI allI impI)
    fix l q
    show "subscriptions ?c l = Some q \<longleftrightarrow> (\<exists>s. heap ?c q = Some s \<and> sub_locator s = l)"
      using tables_okD(1) [OF ok, of l q] p by (cases "q = p") auto
  next
    fix i q
    show "idToSubscriptionMap ?c i = Some q \<longleftrightarrow> (\<exists>s. heap ?c q = Some s \<and> i \<in> ids s)"
      using tables_okD(5) [OF ok, of i q] p nid [of q] by (cases "q = p"; cases "i = ?i") auto
  next
    fix i q
    assume "idToSubscriptionMap ?c i = Some q"
    then show "unat i \<le> unat (counter ?c)"
      using tables_okD(6) [OF ok, of i q] unat_next [OF r] by (auto split: if_splits)
  qed (use tables_okD(2,3,4) [OF ok] p in \<open>auto split: if_splits\<close>)
  moreover have "live ?c j = ((live c)(?i \<mapsto> (sub_locator s, t, client, w))) j" for j
  proof (cases "idToSubscriptionMap c j = Some p")
    case True
    then show ?thesis
      using fresh p live_object [of ?c j p ?s] live_object [of c j p s] nid [OF p]
      by (auto simp: find_client_add client_entry_def)
  next
    case False
    show ?thesis
    proof (cases "j = ?i")
      case True
      then show ?thesis
        using live_object [of ?c ?i p ?s] nid [OF p] by (simp add: find_client_add client_entry_def)
    next
      case False
      have "Option.bind (idToSubscriptionMap ?c j) (heap ?c) = Option.bind (idToSubscriptionMap c j) (heap c)"
        using False \<open>idToSubscriptionMap c j \<noteq> Some p\<close> by (cases "idToSubscriptionMap c j") auto
      then show ?thesis
        using False live_same [of ?c j c] by simp
    qed
  qed
  then have "live ?c = (live c)(?i \<mapsto> (sub_locator s, t, client, w))"
    by blast
  moreover have "live c ?i = None"
    by (simp add: live_alt fresh)
  ultimately show ?thesis
    using that [of ?c] p by (simp add: register_client_def Let_def on_object_def bindS_def call_simps)
qed

lemma add_ok:
  assumes ok: "tables_ok {} c" and r: "room c"
  shows "(\<exists>c'. addSubscriptionClient tr d t client w c = (Inr (counter c + 1), c') \<and> tables_ok {} c' \<and>
      live c' = (live c)(counter c + 1 \<mapsto> (channel_of tr d, t, client, w)) \<and> live c (counter c + 1) = None \<and> counter c' = counter c + 1) \<or>
    addSubscriptionClient tr d t client w c = (Inl (CannotOpen (channel_of tr d)), c)"
  using ok
proof (cases rule: getOrStart_ok [of _ tr d])
  case (started p c1 s)
  have "room c1"
    using r started(6) by (simp add: room_def)
  then obtain c' where "register_client p t client w c1 = (Inr (counter c1 + 1), c')" "tables_ok {} c'"
      "live c' = (live c1)(counter c1 + 1 \<mapsto> (sub_locator s, t, client, w))" "live c1 (counter c1 + 1) = None"
      "counter c' = counter c1 + 1"
    by (rule register_ok [OF started(2,3)])
  then show ?thesis
    using started by (simp add: addSubscriptionClient_def call_simps)
next
  case closed
  then show ?thesis
    by (simp add: addSubscriptionClient_def call_simps)
qed

lemma remove_ok:
  assumes ok: "tables_ok {} c"
  shows "\<exists>c'. removeSubscriptionClient i c = (Inr (), c') \<and> tables_ok {} c' \<and> live c' = (live c)(i := None) \<and> counter c' = counter c"
proof (cases "idToSubscriptionMap c i")
  case None
  then have "live c = (live c)(i := None)"
    by (simp add: live_alt fun_eq_iff)
  then show ?thesis
    using ok None by (intro exI [of _ c]) (simp add: removeSubscriptionClient_def forget_id_def call_simps)
next
  case (Some p)
  then obtain s where p: "heap c p = Some s" and i: "i \<in> ids s"
    using tables_okD(5) [OF ok] by blast
  let ?s = "removeSubscription i s"
  let ?c1 = "c\<lparr>idToSubscriptionMap := (idToSubscriptionMap c)(i := None), heap := (heap c)(p \<mapsto> ?s)\<rparr>"
  let ?c2 = "?c1\<lparr>subscriptions := (subscriptions c)(sub_locator s := None), heap := (heap c)(p := None)\<rparr>"
  let ?c' = "if ids s = {i} then ?c2 else ?c1"
  have empty: "ids ?s = {} \<longleftrightarrow> ids s = {i}"
    using i by auto
  have own: "subscriptions c (sub_locator s) = Some p"
    using tables_okD(1) [OF ok] p by blast
  have "removeSubscriptionClient i c = (Inr (), ?c')"
    using Some p own stop_iff [of ?s] stop_keeps [of ?s] empty
    by (simp add: removeSubscriptionClient_def forget_id_def potentiallyStopSubscription_def on_object_def bindS_def
        returnS_def Let_def)
  moreover have "tables_ok {} ?c'"
    unfolding tables_ok_def
  proof (intro conjI allI impI)
    fix l q
    have "subscriptions c l = Some q \<longleftrightarrow> (\<exists>s. heap c q = Some s \<and> sub_locator s = l)"
      by (rule tables_okD(1) [OF ok])
    then show "subscriptions ?c' l = Some q \<longleftrightarrow> (\<exists>s. heap ?c' q = Some s \<and> sub_locator s = l)"
      using p own by (cases "q = p"; cases "l = sub_locator s") auto
  next
    fix j q
    have "idToSubscriptionMap c j = Some q \<longleftrightarrow> (\<exists>s. heap c q = Some s \<and> j \<in> ids s)"
      by (rule tables_okD(5) [OF ok])
    then show "idToSubscriptionMap ?c' j = Some q \<longleftrightarrow> (\<exists>s. heap ?c' q = Some s \<and> j \<in> ids s)"
      using p i Some by (cases "q = p"; cases "j = i") auto
  qed (use tables_okD(2,3,4,6) [OF ok] p empty in \<open>auto split: if_splits\<close>)
  moreover have "live ?c' j = ((live c)(i := None)) j" for j
  proof (cases "j = i")
    case True
    then show ?thesis by (simp add: live_alt)
  next
    case False
    show ?thesis
    proof (cases "idToSubscriptionMap c j = Some p")
      case True
      then have "j \<in> ids s"
        using tables_okD(5) [OF ok, of j p] p by auto
      then have "?c' = ?c1"
        using False by auto
      moreover have "live ?c1 j = live c j"
        using False True p live_object [of ?c1 j p ?s] live_object [of c j p s]
        by (simp add: find_client_remove client_entry_def)
      ultimately show ?thesis
        using False by simp
    next
      case other: False
      have "Option.bind (idToSubscriptionMap ?c' j) (heap ?c') = Option.bind (idToSubscriptionMap c j) (heap c)"
        using False other by (cases "idToSubscriptionMap c j") auto
      then show ?thesis
        using False live_same [of ?c' j c] by simp
    qed
  qed
  then have "live ?c' = (live c)(i := None)"
    by blast
  ultimately show ?thesis
    by (intro exI [of _ ?c']) simp
qed

text \<open>Calls from one thread at a time, and the abstract registry they implement.\<close>

datatype 'c table_call = AddClient ConnectionLocator topic_selection 'c "WireToUserHook option" | RemoveClient uint32

fun do_call :: "transport \<Rightarrow> 'c table_call \<Rightarrow> ('c ComponentImpl, table_error, uint32 option) call" where
  "do_call tr (AddClient d t client w) = bindS (addSubscriptionClient tr d t client w) (\<lambda>i. returnS (Some i))"
| "do_call tr (RemoveClient i) = bindS (removeSubscriptionClient i) (\<lambda>_. returnS None)"

type_synonym 'c registry = "(uint32 \<rightharpoonup> ConnectionLocator \<times> topic_selection \<times> 'c \<times> WireToUserHook option) \<times> uint32"

fun registry_call :: "transport \<Rightarrow> 'c table_call \<Rightarrow> ('c registry, table_error, uint32 option) call" where
  "registry_call tr (AddClient d t client w) (m, n) =
     (if opens tr (channel_of tr d) \<or> channel_of tr d \<in> fst ` ran m
      then returnS (Some (n + 1)) (m(n + 1 \<mapsto> (channel_of tr d, t, client, w)), n + 1)
      else throwS (CannotOpen (channel_of tr d)) (m, n))"
| "registry_call tr (RemoveClient i) (m, n) = returnS None (m(i := None), n)"

lemma channel_live:
  assumes ok: "tables_ok {} c"
  shows "subscriptions c k \<noteq> None \<longleftrightarrow> k \<in> fst ` ran (live c)"
proof
  assume "subscriptions c k \<noteq> None"
  then obtain p s where p: "heap c p = Some s" "sub_locator s = k"
    using tables_okD(1) [OF ok] by blast
  then obtain i where i: "i \<in> ids s"
    using tables_okD(4) [OF ok] by blast
  then obtain tf where "find_client i s = Some tf"
    using find_client_None [of i s] by auto
  then have "live c i = Some (client_entry s tf)"
    using live_object [of c i p s] tables_okD(5) [OF ok, of i p] p i by simp
  moreover have "fst (client_entry s tf) = k"
    using p by (cases tf) (simp add: client_entry_def)
  ultimately show "k \<in> fst ` ran (live c)"
    by (metis image_eqI ranI)
next
  assume "k \<in> fst ` ran (live c)"
  then obtain i e where e: "live c i = Some e" "fst e = k"
    by (auto simp: ran_def)
  then obtain p s where "idToSubscriptionMap c i = Some p" "heap c p = Some s" "sub_locator s = k"
    by (auto simp: live_alt client_entry_def split: option.splits bind_splits)
  then show "subscriptions c k \<noteq> None"
    using tables_okD(1) [OF ok, of k p] by auto
qed

lemma add_fails:
  "subscriptions c (channel_of tr d) \<noteq> None \<or> opens tr (channel_of tr d) \<longleftrightarrow>
    fst (addSubscriptionClient tr d t client w c) \<noteq> Inl (CannotOpen (channel_of tr d))"
  by (auto simp: addSubscriptionClient_def getOrStartSubscription_def register_client_def on_object_def Let_def bindS_def
      call_simps split: option.split)

definition abs_registry :: "'c ComponentImpl \<Rightarrow> 'c registry" where
  "abs_registry c = (live c, counter c)"

lemma call_refines:
  assumes ok: "tables_ok {} c" and r: "room c"
  shows "\<exists>r c'. do_call tr x c = (r, c') \<and> tables_ok {} c' \<and> registry_call tr x (abs_registry c) = (r, abs_registry c')
    \<and> unat (counter c') \<le> unat (counter c) + 1"
proof (cases x)
  case (AddClient d t client w)
  then show ?thesis
    using add_ok [OF ok r, of tr d t client w] add_fails [of c tr d t client w] channel_live [OF ok, of "channel_of tr d"]
      unat_next [OF r]
    by (auto simp: abs_registry_def call_simps ok)
next
  case (RemoveClient i)
  then show ?thesis
    using remove_ok [OF ok, of i] by (auto simp: abs_registry_def call_simps)
qed

lemma calls_refine:
  "tables_ok {} c \<Longrightarrow> unat (counter c) + length xs < 2 ^ 32 \<Longrightarrow>
    \<exists>rs c'. run_calls (do_call tr) xs c = (rs, c') \<and> tables_ok {} c' \<and>
      run_calls (registry_call tr) xs (abs_registry c) = (rs, abs_registry c')"
proof (induction xs arbitrary: c)
  case (Cons x xs)
  have "room c"
    using Cons.prems(2) by (simp add: room_def)
  then obtain r c' where x: "do_call tr x c = (r, c')" "tables_ok {} c'"
      "registry_call tr x (abs_registry c) = (r, abs_registry c')" "unat (counter c') \<le> unat (counter c) + 1"
    using call_refines [OF Cons.prems(1)] by blast
  then obtain rs c'' where "run_calls (do_call tr) xs c' = (rs, c'')" "tables_ok {} c''"
      "run_calls (registry_call tr) xs (abs_registry c') = (rs, abs_registry c'')"
    using Cons.IH [of c'] Cons.prems(2) by auto
  then show ?case
    using x by auto
qed simp

lemma initial_ok: "tables_ok {} initial_component"
  by (simp add: tables_ok_def initial_component_def)

lemma abs_initial: "abs_registry initial_component = (Map.empty, 0)"
  by (auto simp: abs_registry_def initial_component_def live_alt)

text \<open>C6: The two tables of a broadcast transport and the subscription objects behind them implement a registry of clients by id: as long as
  the calls come one at a time and the 32-bit counter does not wrap, each call returns what the registry returns, ids are never
  reused, a channel is open exactly while it has clients, and no deleted object is ever touched.\<close>

theorem table_refines_registry:
  assumes "length xs < 2 ^ 32"
  shows "\<exists>rs c. run_calls (do_call tr) xs initial_component = (rs, c)
    \<and> run_calls (registry_call tr) xs (Map.empty, 0) = (rs, (live c, counter c))
    \<and> (\<forall>k. subscriptions c k \<noteq> None \<longleftrightarrow> k \<in> fst ` ran (live c))
    \<and> (\<forall>p. Inl (UseAfterDelete p) \<notin> set rs)"
proof -
  obtain rs c where c: "run_calls (do_call tr) xs initial_component = (rs, c)" "tables_ok {} c"
      "run_calls (registry_call tr) xs (Map.empty, 0) = (rs, (live c, counter c))"
    using calls_refine [OF initial_ok, of xs tr] assms
    unfolding abs_initial by (auto simp: initial_component_def abs_registry_def)
  have "Inl (UseAfterDelete p) \<notin> set (fst (run_calls (registry_call tr) ys m))" for p ys and m :: "'a registry"
  proof (induction ys arbitrary: m)
    case (Cons y ys)
    obtain r m' where y: "registry_call tr y m = (r, m')"
      by (cases "registry_call tr y m")
    then have "r \<noteq> Inl (UseAfterDelete p)"
      by (cases y; cases m) (auto simp: call_simps split: if_splits)
    then show ?case
      using Cons.IH [of m'] y by (auto split: prod.splits)
  qed simp
  then have "\<forall>p. Inl (UseAfterDelete p) \<notin> set rs"
    using c(3) by (metis fst_conv)
  then show ?thesis
    using c channel_live [OF c(2)] by blast
qed

theorem table_refines_registry_witness:
  "\<exists>rs c. run_calls (do_call nng) [AddClient sample_locator NoTopicSelection (7::nat) None, RemoveClient 1] initial_component = (rs, c)
    \<and> run_calls (registry_call nng) [AddClient sample_locator NoTopicSelection (7::nat) None, RemoveClient 1] (Map.empty, 0) =
      (rs, (live c, counter c))
    \<and> (\<forall>k. subscriptions c k \<noteq> None \<longleftrightarrow> k \<in> fst ` ran (live c))
    \<and> (\<forall>p. Inl (UseAfterDelete p) \<notin> set rs)"
  by (rule table_refines_registry) simp

text \<open>C39: Between looking up a subscription and registering with it, \<open>addSubscriptionClient\<close> holds no lock. When another thread removes the last
  client of that channel in between, the subscription is deleted and the registration uses the deleted object.\<close>

theorem add_races_with_remove:
  assumes "tables_ok {} c" and "subscriptions c (channel_of tr d) = Some p" and "heap c p = Some s" and "ids s = {i}"
  shows "fst (getOrStartSubscription tr d c) = Inr p \<and>
    fst (register_client p t client w (snd (removeSubscriptionClient i (snd (getOrStartSubscription tr d c))))) = Inl (UseAfterDelete p)"
proof -
  have l: "sub_locator s = channel_of tr d"
    using tables_okD(1) [OF assms(1)] assms(2,3) by auto
  have m: "idToSubscriptionMap c i = Some p"
    using tables_okD(5) [OF assms(1)] assms(3,4) by auto
  have "ids (removeSubscription i s) = {}"
    using assms(4) by simp
  then have stop: "fst (checkWhetherNeedsToStop (removeSubscription i s))"
    using stop_iff by blast
  show ?thesis
    using assms(2,3) l m stop
    by (simp add: getOrStartSubscription_def Let_def removeSubscriptionClient_def forget_id_def potentiallyStopSubscription_def
        on_object_def bindS_def returnS_def throwS_def register_client_def)
qed

definition one_client :: "nat ComponentImpl" where
  "one_client = snd (do_call nng (AddClient sample_locator NoTopicSelection 7 None) initial_component)"

lemma one_client_ok: "tables_ok {} one_client"
proof -
  have "room (initial_component :: nat ComponentImpl)"
    by (simp add: room_def initial_component_def)
  then show ?thesis
    unfolding one_client_def
    using call_refines [OF initial_ok, of nng "AddClient sample_locator NoTopicSelection (7::nat) None"] by (metis snd_conv)
qed

theorem add_races_with_remove_witness:
  "fst (getOrStartSubscription nng sample_locator one_client) = Inr 0 \<and>
    fst (register_client 0 NoTopicSelection 8 None
      (snd (removeSubscriptionClient 1 (snd (getOrStartSubscription nng sample_locator one_client))))) = Inl (UseAfterDelete 0)"
  by (rule add_races_with_remove [OF one_client_ok, of _ _ _ "addSubscription 1 NoTopicSelection 7 None (new_subscription CBOR (hostAndPort sample_locator))"])
     (simp_all add: one_client_def nng_def addSubscriptionClient_def getOrStartSubscription_def register_client_def
       on_object_def initial_component_def bindS_def returnS_def Let_def ids_def clients_def addSubscription_def new_subscription_def)

end
