(* ===== verification/Listener.thy ===== *)
theory Listener
  imports ClientTable HookFactory
begin

text \<open>
  The broadcast listener (class \<open>MultiTransportBroadcastListener\<close> of tm_kit/transport/MultiTransportBroadcastListener.hpp): it opens and
  closes subscriptions on the transports of its environment on request, and can be stopped and restarted. The transports are reached
  through the locale \<open>client_service\<close>; what a request publishes is the result of handling it.
\<close>

section \<open>State\<close>

type_synonym SubscriptionRecKey = "connection_type \<times> uint32"

text \<open>
  \<open>restartInfo\<close> is a map ordered by \<open>operator<\<close> of its keys, the requests: a list of entries ordered by \<open>subscription_key\<close>, which
  decides that order (theorem \<open>subscription_order\<close>). \<open>services\<close> is the state of the transports.
\<close>

record 's Listener =
  subs :: "(SubscriptionRecKey, AddSubscription) stdmap"
  restartInfo :: "(nat \<times> (string \<times> int \<times> string \<times> string \<times> (string, string) stdmap) \<times> string,
    AddSubscription \<times> SubscriptionRecKey) stdmap"
  stopped :: bool
  services :: 's

definition new_listener :: "'s \<Rightarrow> 's Listener" where
  "new_listener s = \<lparr>subs = [], restartInfo = [], stopped = False, services = s\<rparr>"

definition restart_insert :: "AddSubscription \<Rightarrow> SubscriptionRecKey \<Rightarrow> 's Listener \<Rightarrow> 's Listener" where
  "restart_insert x k l = l\<lparr>restartInfo := smap_insert (subscription_key x) (x, k) (restartInfo l)\<rparr>"

text \<open>The calls of the transports' components; \<open>supported\<close> says which of them the environment derives from.\<close>

record ('s, 'e) service =
  supported :: "connection_type \<Rightarrow> bool"
  add_client :: "connection_type \<Rightarrow> ConnectionLocator \<Rightarrow> topic_selection \<Rightarrow> WireToUserHook option \<Rightarrow> ('s, 'e, uint32) call"
  remove_client :: "connection_type \<Rightarrow> uint32 \<Rightarrow> ('s, 'e, unit) call"

datatype 'e listener_error = BadRegex regex_error | ServiceError 'e

text \<open>The parameters of a listener: its hook, the factories of its environment, and the libraries.\<close>

record 'ty listener_config =
  listenerHook :: "WireToUserHook option"
  hook_factories :: "'ty hook_env"
  data_type :: 'ty
  boost_library :: boost
  valid_regex :: "string \<Rightarrow> bool"

section \<open>Handling requests\<close>

definition actualHook :: "'ty listener_config \<Rightarrow> WireToUserHook option" where
  "actualHook cfg =
     (case listenerHook cfg of Some h \<Rightarrow> Some h | None \<Rightarrow> incomingHook (hook_factories cfg) (data_type cfg))"

text \<open>What is passed for the topic: RabbitMQ gets the text as it is, Redis its own form, the others a parsed selection.\<close>

definition topic_argument :: "'ty listener_config \<Rightarrow> AddSubscription \<Rightarrow> regex_error + topic_selection" where
  "topic_argument cfg x =
     (case connectionType x of
        RabbitMQ \<Rightarrow> Inr (TopicString (topicDescription x))
      | Redis \<Rightarrow> Inr (TopicString (redisTopicHelper (topicDescription x)))
      | t \<Rightarrow> parseTopic (boost_library cfg) (valid_regex cfg) t (topicDescription x))"

definition on_services :: "('s, 'e, 'a) call \<Rightarrow> ('s Listener, 'e listener_error, 'a) call" where
  "on_services m l =
     (case m (services l) of
        (Inr a, s) \<Rightarrow> (Inr a, l\<lparr>services := s\<rparr>)
      | (Inl e, s) \<Rightarrow> (Inl (ServiceError e), l\<lparr>services := s\<rparr>))"

definition handle_add :: "'ty listener_config \<Rightarrow> ('s, 'e) service \<Rightarrow> AddSubscription
    \<Rightarrow> ('s Listener, 'e listener_error, ListenerOutput list) call" where
  "handle_add cfg svc x l =
     (if stopped l then returnS [] (restart_insert x (connectionType x, - 1) l)
      else if supported svc (connectionType x) then
        (case topic_argument cfg x of
           Inl e \<Rightarrow> throwS (BadRegex e) l
         | Inr t \<Rightarrow>
             bindS (on_services (add_client svc (connectionType x) (connectionLocator x) t (actualHook cfg)))
               (\<lambda>res l. returnS [Added res]
                  (l\<lparr>subs := smap_insert (connectionType x, res) x (subs l)\<rparr>)) l)
      else returnS [Added 0] l)"

text \<open>The loop that erases the first entry with the given value.\<close>

fun erase_first :: "SubscriptionRecKey \<Rightarrow> ('k, AddSubscription \<times> SubscriptionRecKey) stdmap
    \<Rightarrow> ('k, AddSubscription \<times> SubscriptionRecKey) stdmap" where
  "erase_first k [] = []"
| "erase_first k ((q, x, k') # es) = (if k' = k then es else (q, x, k') # erase_first k es)"

definition handle_remove :: "('s, 'e) service \<Rightarrow> RemoveSubscription \<Rightarrow> ('s Listener, 'e listener_error, ListenerOutput list) call" where
  "handle_remove svc x l =
     (let k = (removedType x, subscriptionID x) in
      if stopped l then returnS [] (l\<lparr>restartInfo := erase_first k (restartInfo l)\<rparr>)
      else if supported svc (removedType x) then
        bindS (on_services (remove_client svc (removedType x) (subscriptionID x)))
          (\<lambda>_ l. returnS [Removed] (l\<lparr>subs := smap_erase k (subs l)\<rparr>)) l
      else returnS [Removed] l)"

text \<open>The loop over the subscriptions that closes each on its transport.\<close>

fun remove_each :: "('s, 'e) service \<Rightarrow> (SubscriptionRecKey \<times> AddSubscription) list \<Rightarrow> ('s Listener, 'e listener_error, unit) call" where
  "remove_each svc [] = returnS ()"
| "remove_each svc (((t, i), x) # xs) =
     (if supported svc t then bindS (on_services (remove_client svc t i)) (\<lambda>_. remove_each svc xs) else remove_each svc xs)"

definition handle_remove_all :: "('s, 'e) service \<Rightarrow> ('s Listener, 'e listener_error, ListenerOutput list) call" where
  "handle_remove_all svc l =
     bindS (remove_each svc (subs l))
       (\<lambda>_ l. let l' = (if stopped l then fold (\<lambda>e. restart_insert (snd e) (fst e)) (subs l) l else l) in
          returnS [RemovedAll] (l'\<lparr>subs := []\<rparr>)) l"

definition actuallyHandle :: "'ty listener_config \<Rightarrow> ('s, 'e) service \<Rightarrow> ListenerInput
    \<Rightarrow> ('s Listener, 'e listener_error, ListenerOutput list) call" where
  "actuallyHandle cfg svc i =
     (case i of Add x \<Rightarrow> handle_add cfg svc x | Remove x \<Rightarrow> handle_remove svc x | RemoveAll \<Rightarrow> handle_remove_all svc)"

fun handle_adds :: "'ty listener_config \<Rightarrow> ('s, 'e) service \<Rightarrow> AddSubscription list
    \<Rightarrow> ('s Listener, 'e listener_error, ListenerOutput list) call" where
  "handle_adds cfg svc [] = returnS []"
| "handle_adds cfg svc (x # xs) =
     bindS (actuallyHandle cfg svc (Add x)) (\<lambda>r. bindS (handle_adds cfg svc xs) (\<lambda>rs. returnS (r @ rs)))"

definition control :: "'ty listener_config \<Rightarrow> ('s, 'e) service \<Rightarrow> string
    \<Rightarrow> ('s Listener, 'e listener_error, ListenerOutput list) call" where
  "control cfg svc command l =
     (if command = ''stop'' then
        (if \<not> stopped l then actuallyHandle cfg svc RemoveAll (l\<lparr>stopped := True\<rparr>) else returnS [] l)
      else if command = ''restart'' then
        (if stopped l then
           (let infoCopy = map (fst \<circ> snd) (restartInfo l) in
            handle_adds cfg svc infoCopy (l\<lparr>restartInfo := [], stopped := False\<rparr>))
         else returnS [] l)
      else returnS [] l)"

section \<open>The interface to the transports\<close>

text \<open>
  What a listener relies on: a client that is added gets an id that no client of that transport has, and removing an id removes just
  that client. \<open>room s\<close> bounds the ids that are left; \<open>live s t\<close> are the clients of transport \<open>t\<close>.
\<close>

type_synonym client_info = "ConnectionLocator \<times> topic_selection \<times> WireToUserHook option"

locale client_service =
  fixes svc :: "('s, 'e) service"
    and ok :: "'s \<Rightarrow> bool" and room :: "nat \<Rightarrow> 's \<Rightarrow> bool"
    and live :: "'s \<Rightarrow> connection_type \<Rightarrow> uint32 \<rightharpoonup> client_info"
    and channel :: "connection_type \<Rightarrow> ConnectionLocator \<Rightarrow> ConnectionLocator"
  assumes add_law: "ok s \<Longrightarrow> room (Suc n) s \<Longrightarrow> supported svc t \<Longrightarrow>
      (\<exists>i s'. add_client svc t l tp w s = (Inr i, s') \<and> ok s' \<and> room n s' \<and> live s t i = None \<and>
         live s' = (live s)(t := (live s t)(i \<mapsto> (channel t l, tp, w)))) \<or>
      (\<exists>e. add_client svc t l tp w s = (Inl e, s))"
    and remove_law: "ok s \<Longrightarrow> supported svc t \<Longrightarrow>
      \<exists>s'. remove_client svc t i s = (Inr (), s') \<and> ok s' \<and> live s' = (live s)(t := (live s t)(i := None))"
    and remove_room: "ok s \<Longrightarrow> supported svc t \<Longrightarrow> room n s \<Longrightarrow> room n (snd (remove_client svc t i s))"
    and room_less: "room (Suc n) s \<Longrightarrow> room n s"

section \<open>Small facts\<close>

text \<open>Clients whose keys are in \<open>K\<close> are gone.\<close>

definition close_clients :: "SubscriptionRecKey set \<Rightarrow> (connection_type \<Rightarrow> uint32 \<rightharpoonup> client_info) \<Rightarrow> connection_type \<Rightarrow> uint32 \<rightharpoonup> client_info" where
  "close_clients K m = (\<lambda>t i. if (t, i) \<in> K then None else m t i)"

lemma close_none [simp]: "close_clients {} m = m"
  by (simp add: close_clients_def)

lemma close_one: "close_clients {(t, i)} m = m(t := (m t)(i := None))"
  by (auto simp: close_clients_def fun_eq_iff)

lemma close_close: "close_clients J (close_clients K m) = close_clients (J \<union> K) m"
  by (auto simp: close_clients_def fun_eq_iff)

lemma restart_insert_simps [simp]:
  "subs (restart_insert x k l) = subs l" "stopped (restart_insert x k l) = stopped l" "services (restart_insert x k l) = services l"
  by (simp_all add: restart_insert_def)

text \<open>The entries of \<open>restartInfo\<close>: their keys are the order keys of the requests in them.\<close>

definition restart_wf :: "'s Listener \<Rightarrow> bool" where
  "restart_wf l \<longleftrightarrow> smap_wf (restartInfo l) \<and> (\<forall>(q, x, k) \<in> set (restartInfo l). q = subscription_key x)"

definition restart_requests :: "'s Listener \<Rightarrow> AddSubscription list" where
  "restart_requests l = map (fst \<circ> snd) (restartInfo l)"

lemma restart_wf_insert: "restart_wf l \<Longrightarrow> restart_wf (restart_insert x k l)"
  using set_smap_assign [of "subscription_key x" "(x, k)" "restartInfo l"]
  by (auto simp: restart_wf_def restart_insert_def smap_wf_assign smap_insert_def split: option.splits)

lemma restart_keys: "restart_wf l \<Longrightarrow> map subscription_key (restart_requests l) = map fst (restartInfo l)"
  by (auto simp: restart_wf_def restart_requests_def)

lemma restart_keys_distinct: "restart_wf l \<Longrightarrow> distinct (map subscription_key (restart_requests l))"
  by (simp add: restart_keys restart_wf_def smap_wf_distinct)

lemma restart_insert_requests:
  "restart_wf l \<Longrightarrow> subscription_key ` set (restart_requests (restart_insert x k l)) =
     insert (subscription_key x) (subscription_key ` set (restart_requests l))"
proof -
  assume w: "restart_wf l"
  have "fst ` set (restartInfo (restart_insert x k l)) = insert (subscription_key x) (fst ` set (restartInfo l))"
    by (auto simp: restart_insert_def smap_insert_def smap_simps map_of_eq_None_iff split: option.split dest: map_of_SomeD
        intro: rev_image_eqI)
  then show ?thesis
    using restart_keys [OF w] restart_keys [OF restart_wf_insert [OF w, of x k]]
    by (metis list.set_map)
qed

lemma restart_insert_subset:
  "set (restart_requests (restart_insert x k l)) \<subseteq> insert x (set (restart_requests l))"
  using set_smap_assign [of "subscription_key x" "(x, k)" "restartInfo l"]
  by (auto simp: restart_requests_def restart_insert_def smap_insert_def split: option.split)

definition restart_all :: "(SubscriptionRecKey \<times> AddSubscription) list \<Rightarrow> 's Listener \<Rightarrow> 's Listener" where
  "restart_all es l = fold (\<lambda>e. restart_insert (snd e) (fst e)) es l"

lemma restart_all_props:
  "restart_wf l \<Longrightarrow> restart_wf (restart_all es l) \<and> subs (restart_all es l) = subs l \<and> stopped (restart_all es l) = stopped l
    \<and> services (restart_all es l) = services l
    \<and> subscription_key ` set (restart_requests (restart_all es l)) =
        subscription_key ` set (map snd es) \<union> subscription_key ` set (restart_requests l)
    \<and> set (restart_requests (restart_all es l)) \<subseteq> set (map snd es) \<union> set (restart_requests l)"
proof (induction es arbitrary: l)
  case (Cons e es)
  let ?l = "restart_insert (snd e) (fst e) l"
  have w: "restart_wf ?l"
    using Cons.prems by (rule restart_wf_insert)
  have "restart_all (e # es) l = restart_all es ?l"
    by (simp add: restart_all_def)
  moreover have "set (restart_requests (restart_all es ?l)) \<subseteq> set (map snd (e # es)) \<union> set (restart_requests l)"
    using Cons.IH [OF w] restart_insert_subset [of "snd e" "fst e" l] by force
  ultimately show ?case
    using Cons.IH [OF w] restart_insert_requests [OF Cons.prems, of "snd e" "fst e"] by simp
qed (simp add: restart_all_def)

lemma restart_all_info: "restartInfo a = restartInfo b \<Longrightarrow> restartInfo (restart_all es a) = restartInfo (restart_all es b)"
proof (induction es arbitrary: a b)
  case (Cons e es)
  have "restartInfo (restart_insert (snd e) (fst e) a) = restartInfo (restart_insert (snd e) (fst e) b)"
    using Cons.prems by (simp add: restart_insert_def)
  then show ?case
    using Cons.IH by (simp add: restart_all_def)
qed (simp add: restart_all_def)

lemma length_smap_insert: "map_of m k = None \<Longrightarrow> length (smap_insert k v m) = Suc (length m)"
  by (simp add: smap_insert_def length_smap_assign)

lemma set_smap_assign_new: "map_of m k = None \<Longrightarrow> set (smap_assign k v m) = insert (k, v) (set m)"
  by (induction m) (auto split: if_splits)

lemma length_smap_insert_le: "length (smap_insert k v m) \<le> Suc (length m)"
  by (cases "map_of m k") (simp_all add: smap_insert_def length_smap_assign)

lemma length_erase_first: "length (erase_first k es) \<le> length es"
  by (induction k es rule: erase_first.induct) auto

lemma erase_first_sub: "set (erase_first k es) \<subseteq> set es"
  by (induction k es rule: erase_first.induct) auto

lemma erase_first_wf: "smap_wf es \<Longrightarrow> smap_wf (erase_first k es)"
proof (induction k es rule: erase_first.induct)
  case (2 k q x k' es)
  then show ?case
    using erase_first_sub [of k es] by (auto simp: smap_wf_Cons)
qed simp

lemma restart_all_length: "length (restartInfo (restart_all es l)) \<le> length es + length (restartInfo l)"
proof (induction es arbitrary: l)
  case (Cons e es)
  have "length (restartInfo (restart_insert (snd e) (fst e) l)) \<le> Suc (length (restartInfo l))"
    by (simp add: restart_insert_def length_smap_insert_le)
  then show ?case
    using Cons.IH [of "restart_insert (snd e) (fst e) l"] by (simp add: restart_all_def)
qed (simp add: restart_all_def)

text \<open>What can be asked of a listener.\<close>

datatype listener_call = Request ListenerInput | Control string

fun do_listener_call :: "'ty listener_config \<Rightarrow> ('s, 'e) service \<Rightarrow> listener_call
    \<Rightarrow> ('s Listener, 'e listener_error, ListenerOutput list) call" where
  "do_listener_call cfg svc (Request i) = actuallyHandle cfg svc i"
| "do_listener_call cfg svc (Control command) = control cfg svc command"

section \<open>Correctness over the interface\<close>

context client_service
begin

definition listener_ok :: "'ty listener_config \<Rightarrow> 's Listener \<Rightarrow> bool" where
  "listener_ok cfg l \<longleftrightarrow> ok (services l) \<and> smap_wf (subs l) \<and> restart_wf l
     \<and> (stopped l \<longrightarrow> subs l = []) \<and> (\<not> stopped l \<longrightarrow> restartInfo l = [])
     \<and> (\<forall>t i x. map_of (subs l) (t, i) = Some x \<longrightarrow> supported svc t \<and> connectionType x = t \<and>
          (\<exists>tp. topic_argument cfg x = Inr tp \<and> live (services l) t i = Some (channel t (connectionLocator x), tp, actualHook cfg)))"

definition others :: "'s Listener \<Rightarrow> connection_type \<Rightarrow> uint32 \<rightharpoonup> client_info" where
  "others l = close_clients (fst ` set (subs l)) (live (services l))"

lemma okD:
  assumes "listener_ok cfg l"
  shows "ok (services l)" "smap_wf (subs l)" "restart_wf l" "stopped l \<Longrightarrow> subs l = []" "\<not> stopped l \<Longrightarrow> restartInfo l = []"
    and "map_of (subs l) (t, i) = Some x \<Longrightarrow> supported svc t" "map_of (subs l) (t, i) = Some x \<Longrightarrow> connectionType x = t"
    and "map_of (subs l) (t, i) = Some x \<Longrightarrow> \<exists>tp. topic_argument cfg x = Inr tp \<and>
      live (services l) t i = Some (channel t (connectionLocator x), tp, actualHook cfg)"
  using assms unfolding listener_ok_def by blast+

lemma on_services_simps:
  "m (services l) = (Inr a, s) \<Longrightarrow> on_services m l = (Inr a, l\<lparr>services := s\<rparr>)"
  "m (services l) = (Inl e, s) \<Longrightarrow> on_services m l = (Inl (ServiceError e), l\<lparr>services := s\<rparr>)"
  by (simp_all add: on_services_def)

lemma room_mono: "m \<le> n \<Longrightarrow> room n s \<Longrightarrow> room m s"
  by (induction n) (auto simp: le_Suc_eq dest: room_less)

text \<open>A request to add either fails and changes nothing, or opens one client and records it.\<close>

lemma handle_add_ok:
  assumes l: "listener_ok cfg l" and r: "room (Suc n) (services l)" and s: "\<not> stopped l" and t: "supported svc (connectionType x)"
  obtains (added) i l' where "handle_add cfg svc x l = (Inr [Added i], l')" "listener_ok cfg l'" "others l' = others l"
      "room n (services l')" "\<not> stopped l'" "subs l' = smap_insert (connectionType x, i) x (subs l)"
      "map_of (subs l) (connectionType x, i) = None" "restartInfo l' = []"
    | (failed) e where "handle_add cfg svc x l = (Inl e, l)"
proof (cases "topic_argument cfg x")
  case (Inl e)
  then show ?thesis
    using failed s t by (simp add: handle_add_def call_simps)
next
  case (Inr tp)
  let ?t = "connectionType x"
  from add_law [OF okD(1) [OF l] r t, of "connectionLocator x" tp "actualHook cfg"]
  show ?thesis
  proof (elim disjE exE conjE)
    fix e
    assume "add_client svc ?t (connectionLocator x) tp (actualHook cfg) (services l) = (Inl e, services l)"
    then show ?thesis
      using failed s t Inr by (simp add: handle_add_def bindS_def on_services_simps)
  next
    fix i s'
    assume a: "add_client svc ?t (connectionLocator x) tp (actualHook cfg) (services l) = (Inr i, s')"
      and s': "ok s'" "room n s'" and free: "live (services l) ?t i = None"
      and live': "live s' = (live (services l))(?t := (live (services l) ?t)(i \<mapsto> (channel ?t (connectionLocator x), tp, actualHook cfg)))"
    let ?l = "l\<lparr>services := s', subs := smap_insert (?t, i) x (subs l)\<rparr>"
    have fresh: "map_of (subs l) (?t, i) = None"
      using okD(8) [OF l, of ?t i] free by (cases "map_of (subs l) (?t, i)") auto
    have m: "map_of (subs ?l) k = (if k = (?t, i) then Some x else map_of (subs l) k)" for k
      using okD(2) [OF l] fresh by (auto simp: smap_simps)
    have "listener_ok cfg ?l"
      unfolding listener_ok_def m
      using okD [OF l] s s' t Inr live' fresh by (auto simp: restart_wf_def smap_wf_insert)
    moreover have "others ?l = others l"
    proof -
      have "fst ` set (subs ?l) = insert (?t, i) (fst ` set (subs l))"
        using fresh by (simp add: smap_insert_def smap_simps)
      then show ?thesis
        using live' free by (auto simp: others_def close_clients_def fun_eq_iff)
    qed
    moreover have "handle_add cfg svc x l = (Inr [Added i], ?l)"
      using s t Inr a by (simp add: handle_add_def bindS_def on_services_simps returnS_def)
    ultimately show ?thesis
      using added [of i ?l] s' s fresh okD(5) [OF l] by simp
  qed
qed

text \<open>Removing a subscription of one's own, or one that nobody has, touches nobody else.\<close>

lemma handle_remove_ok:
  assumes l: "listener_ok cfg l" and r: "room n (services l)" and s: "\<not> stopped l"
    and own: "map_of (subs l) (removedType x, subscriptionID x) \<noteq> None \<or> live (services l) (removedType x) (subscriptionID x) = None"
  obtains l' where "handle_remove svc x l = (Inr [Removed], l')" "listener_ok cfg l'" "others l' = others l" "room n (services l')"
    "subs l' = smap_erase (removedType x, subscriptionID x) (subs l)" "\<not> stopped l'"
proof (cases "supported svc (removedType x)")
  case True
  let ?t = "removedType x" and ?i = "subscriptionID x"
  obtain s' where rm: "remove_client svc ?t ?i (services l) = (Inr (), s')" and s': "ok s'"
      and live': "live s' = (live (services l))(?t := (live (services l) ?t)(?i := None))"
    using remove_law [OF okD(1) [OF l] True] by blast
  have r': "room n s'"
    using remove_room [OF okD(1) [OF l] True r, of ?i] rm by simp
  let ?l = "l\<lparr>services := s', subs := smap_erase (?t, ?i) (subs l)\<rparr>"
  have "listener_ok cfg ?l"
    unfolding listener_ok_def
    using okD [OF l] s s' live' by (auto simp: restart_wf_def smap_wf_erase smap_simps split: if_splits)
  moreover have "others ?l = others l"
  proof -
    have "fst ` set (subs ?l) = fst ` set (subs l) - {(?t, ?i)}"
      by (auto simp: smap_erase_def)
    moreover have "(?t, ?i) \<in> fst ` set (subs l) \<or> live (services l) ?t ?i = None"
      using own by (auto simp: map_of_eq_None_iff)
    ultimately show ?thesis
      using live' by (auto simp: others_def close_clients_def fun_eq_iff)
  qed
  moreover have "handle_remove svc x l = (Inr [Removed], ?l)"
    using s True rm by (simp add: handle_remove_def bindS_def on_services_simps returnS_def)
  ultimately show ?thesis
    using that [of ?l] r' s by simp
next
  case False
  then have "map_of (subs l) (removedType x, subscriptionID x) = None"
    using okD(6) [OF l, of "removedType x" "subscriptionID x"]
    by (cases "map_of (subs l) (removedType x, subscriptionID x)") auto
  then have "smap_erase (removedType x, subscriptionID x) (subs l) = subs l"
    unfolding smap_erase_def map_of_eq_None_iff by (intro filter_True ballI) force
  then show ?thesis
    using that [of l] l r s False by (simp add: handle_remove_def call_simps)
qed

lemma remove_each_ok:
  "ok (services l) \<Longrightarrow> (\<And>t i x. ((t, i), x) \<in> set xs \<Longrightarrow> supported svc t) \<Longrightarrow>
    \<exists>s'. remove_each svc xs l = (Inr (), l\<lparr>services := s'\<rparr>) \<and> ok s' \<and>
      live s' = close_clients (fst ` set xs) (live (services l)) \<and> (\<forall>n. room n (services l) \<longrightarrow> room n s')"
proof (induction xs arbitrary: l)
  case Nil
  then show ?case
    by (intro exI [of _ "services l"]) (simp add: call_simps)
next
  case (Cons e xs)
  obtain t i x where e: "e = ((t, i), x)"
    by (metis prod.exhaust)
  have t: "supported svc t"
    using Cons.prems(2) [of t i x] e by simp
  obtain s1 where rm: "remove_client svc t i (services l) = (Inr (), s1)" and s1: "ok s1"
      "live s1 = (live (services l))(t := (live (services l) t)(i := None))"
    using remove_law [OF Cons.prems(1) t] by blast
  have room1: "room n (services l) \<Longrightarrow> room n s1" for n
    using remove_room [OF Cons.prems(1) t, of n i] rm by simp
  let ?l = "l\<lparr>services := s1\<rparr>"
  have "\<exists>s'. remove_each svc xs ?l = (Inr (), ?l\<lparr>services := s'\<rparr>) \<and> ok s' \<and>
      live s' = close_clients (fst ` set xs) (live (services ?l)) \<and> (\<forall>n. room n (services ?l) \<longrightarrow> room n s')"
    by (rule Cons.IH) (use Cons.prems s1 in auto)
  then obtain s' where s': "remove_each svc xs ?l = (Inr (), ?l\<lparr>services := s'\<rparr>)" "ok s'"
      "live s' = close_clients (fst ` set xs) (live s1)" "\<forall>n. room n s1 \<longrightarrow> room n s'"
    by auto
  have "live s' = close_clients (fst ` set (e # xs)) (live (services l))"
    using s'(3) s1(2) by (simp add: close_close e flip: close_one)
  then show ?case
    using s' room1 t rm by (intro exI [of _ s']) (simp add: e bindS_def on_services_simps)
qed

lemma own_supported: "listener_ok cfg l \<Longrightarrow> ((t, i), x) \<in> set (subs l) \<Longrightarrow> supported svc t"
  using okD(2,6) by (metis map_of_is_SomeI smap_wf_distinct)

lemma handle_remove_all_ok:
  assumes l: "ok (services l)" and s: "\<And>t i x. ((t, i), x) \<in> set (subs l) \<Longrightarrow> supported svc t"
  obtains s' where "handle_remove_all svc l =
      (Inr [RemovedAll], (if stopped l then restart_all (subs l) else id) (l\<lparr>services := s'\<rparr>)\<lparr>subs := []\<rparr>)"
    "ok s'" "live s' = close_clients (fst ` set (subs l)) (live (services l))" "\<And>n. room n (services l) \<Longrightarrow> room n s'"
proof -
  obtain s' where "remove_each svc (subs l) l = (Inr (), l\<lparr>services := s'\<rparr>)" "ok s'"
      "live s' = close_clients (fst ` set (subs l)) (live (services l))" "\<forall>n. room n (services l) \<longrightarrow> room n s'"
    using remove_each_ok [OF l, of "subs l"] s by metis
  then show ?thesis
    using that [of s'] by (simp add: handle_remove_all_def bindS_def returnS_def Let_def restart_all_def)
qed

lemma remove_all_keeps:
  assumes l: "listener_ok cfg l" and s: "\<not> stopped l"
  obtains l' where "handle_remove_all svc l = (Inr [RemovedAll], l')" "listener_ok cfg l'" "others l' = others l" "subs l' = []"
    "\<not> stopped l'" "\<And>n. room n (services l) \<Longrightarrow> room n (services l')"
proof -
  obtain s' where h: "handle_remove_all svc l =
      (Inr [RemovedAll], (if stopped l then restart_all (subs l) else id) (l\<lparr>services := s'\<rparr>)\<lparr>subs := []\<rparr>)"
      "ok s'" "live s' = close_clients (fst ` set (subs l)) (live (services l))" "\<And>n. room n (services l) \<Longrightarrow> room n s'"
    by (rule handle_remove_all_ok [OF okD(1) [OF l]]) (use own_supported [OF l] in auto)
  then show ?thesis
    using that [of "l\<lparr>services := s', subs := []\<rparr>"] okD(3,5) [OF l] s
    by (simp add: listener_ok_def others_def restart_wf_def)
qed

text \<open>Stopping closes all own clients and keeps one request per order key.\<close>

lemma stop_ok:
  assumes l: "listener_ok cfg l" and s: "\<not> stopped l"
  obtains l' where "control cfg svc ''stop'' l = (Inr [RemovedAll], l')" "listener_ok cfg l'" "others l' = others l"
    "subs l' = []" "stopped l'" "\<And>n. room n (services l) \<Longrightarrow> room n (services l')"
    "subscription_key ` set (restart_requests l') = subscription_key ` set (map snd (subs l))"
    "set (restart_requests l') \<subseteq> set (map snd (subs l))"
    "restartInfo l' = restartInfo (restart_all (subs l) l)"
proof -
  let ?l = "l\<lparr>stopped := True\<rparr>"
  obtain s' where h: "handle_remove_all svc ?l = (Inr [RemovedAll], restart_all (subs ?l) (?l\<lparr>services := s'\<rparr>)\<lparr>subs := []\<rparr>)"
      and s': "ok s'" "live s' = close_clients (fst ` set (subs l)) (live (services l))" "\<And>n. room n (services l) \<Longrightarrow> room n s'"
    using handle_remove_all_ok [of ?l] okD(1) [OF l] own_supported [OF l] by auto
  let ?m = "restart_all (subs l) (?l\<lparr>services := s'\<rparr>)"
  have w: "restart_wf (?l\<lparr>services := s'\<rparr>)" and e: "restart_requests (?l\<lparr>services := s'\<rparr>) = []"
    using okD(3,5) [OF l] s by (simp_all add: restart_wf_def restart_requests_def)
  note m = restart_all_props [OF w, of "subs l"]
  have r: "restartInfo ?m = restartInfo (restart_all (subs l) l)"
    by (rule restart_all_info) simp
  show ?thesis
  proof (rule that)
    show "control cfg svc ''stop'' l = (Inr [RemovedAll], ?m\<lparr>subs := []\<rparr>)"
      using h s by (simp add: control_def actuallyHandle_def)
    show "listener_ok cfg (?m\<lparr>subs := []\<rparr>)"
      using m s'(1) by (simp add: listener_ok_def restart_wf_def)
    show "others (?m\<lparr>subs := []\<rparr>) = others l"
      using m s'(2) by (simp add: others_def)
    have "restart_requests (?m\<lparr>subs := []\<rparr>) = restart_requests ?m"
      by (simp add: restart_requests_def)
    then show "subscription_key ` set (restart_requests (?m\<lparr>subs := []\<rparr>)) = subscription_key ` set (map snd (subs l))"
      "set (restart_requests (?m\<lparr>subs := []\<rparr>)) \<subseteq> set (map snd (subs l))"
      using m e by simp_all
    show "room n (services l) \<Longrightarrow> room n (services (?m\<lparr>subs := []\<rparr>))" for n
      using m s'(3) by simp
    show "stopped (?m\<lparr>subs := []\<rparr>)"
      using m by simp
    show "restartInfo (?m\<lparr>subs := []\<rparr>) = restartInfo (restart_all (subs l) l)"
      using r by simp
  qed simp
qed

text \<open>Restarting issues the requests again.\<close>

lemma handle_adds_ok:
  assumes "\<forall>x \<in> set xs. supported svc (connectionType x)"
    and "listener_ok cfg l" "\<not> stopped l" "room (length xs + n) (services l)"
  shows "(\<exists>rs l'. handle_adds cfg svc xs l = (Inr rs, l') \<and> listener_ok cfg l' \<and> others l' = others l \<and> \<not> stopped l'
      \<and> room n (services l')
      \<and> set (map snd (subs l')) = set (map snd (subs l)) \<union> set xs \<and> length (subs l') = length (subs l) + length xs)
    \<or> (\<exists>e l'. handle_adds cfg svc xs l = (Inl e, l') \<and> listener_ok cfg l' \<and> others l' = others l \<and> \<not> stopped l'
      \<and> room n (services l') \<and> length (subs l') \<le> length (subs l) + length xs)"
  using assms
proof (induction xs arbitrary: l)
  case Nil
  then show ?case by (simp add: call_simps)
next
  case (Cons x xs)
  have rm: "room (Suc (length xs + n)) (services l)" and sx: "supported svc (connectionType x)"
    using Cons.prems(1,4) by simp_all
  show ?case
  proof (rule handle_add_ok [OF Cons.prems(2) rm Cons.prems(3) sx])
    fix i l1
    assume added: "handle_add cfg svc x l = (Inr [Added i], l1)" "listener_ok cfg l1" "others l1 = others l"
      "room (length xs + n) (services l1)" "\<not> stopped l1" "subs l1 = smap_insert (connectionType x, i) x (subs l)"
      "map_of (subs l) (connectionType x, i) = None" "restartInfo l1 = []"
    have set1: "set (map snd (subs l1)) = insert x (set (map snd (subs l)))"
      using added(6,7) by (simp add: smap_insert_def set_smap_assign_new)
    have len1: "length (subs l1) = Suc (length (subs l))"
      using added(6,7) by (simp add: length_smap_insert)
    note ih = Cons.IH [OF _ added(2,5,4)]
    have sup: "\<forall>x \<in> set xs. supported svc (connectionType x)"
      using Cons.prems(1) by simp
    from ih [OF sup] show ?thesis
    proof (elim disjE exE conjE)
      fix rs l'
      assume "handle_adds cfg svc xs l1 = (Inr rs, l')" "listener_ok cfg l'" "others l' = others l1" "\<not> stopped l'" "room n (services l')"
        "set (map snd (subs l')) = set (map snd (subs l1)) \<union> set xs" "length (subs l') = length (subs l1) + length xs"
      then show ?thesis
        using added(1,3) set1 len1
        by (intro disjI1 exI [of _ "[Added i] @ rs"] exI [of _ l']) (simp add: actuallyHandle_def bindS_def returnS_def)
    next
      fix e l'
      assume "handle_adds cfg svc xs l1 = (Inl e, l')" "listener_ok cfg l'" "others l' = others l1" "\<not> stopped l'"
        "room n (services l')" "length (subs l') \<le> length (subs l1) + length xs"
      then show ?thesis
        using added(1,3) len1 by (intro disjI2 exI [of _ e] exI [of _ l']) (simp add: actuallyHandle_def bindS_def returnS_def)
    qed
  next
    fix e
    assume "handle_add cfg svc x l = (Inl e, l)"
    moreover have "room n (services l)"
      using room_mono [OF _ Cons.prems(4)] by simp
    ultimately show ?thesis
      using Cons.prems(2,3) by (simp add: actuallyHandle_def bindS_def)
  qed
qed

lemma restart_ok:
  assumes l: "listener_ok cfg l" and s: "\<not> stopped l" and r: "room (length (subs l)) (services l)"
    and stop: "control cfg svc ''stop'' l = (r1, l1)" and restart: "control cfg svc ''restart'' l1 = (Inr r2, l2)"
  shows "listener_ok cfg l2 \<and> others l2 = others l \<and> \<not> stopped l2 \<and>
    subscription_key ` set (map snd (subs l2)) = subscription_key ` set (map snd (subs l)) \<and>
    length (subs l2) = card (subscription_key ` set (map snd (subs l)))"
proof -
  obtain l' where l': "control cfg svc ''stop'' l = (Inr [RemovedAll], l')" "listener_ok cfg l'" "others l' = others l"
    "subs l' = []" "stopped l'" "room (length (subs l)) (services l) \<Longrightarrow> room (length (subs l)) (services l')"
    "subscription_key ` set (restart_requests l') = subscription_key ` set (map snd (subs l))"
    "set (restart_requests l') \<subseteq> set (map snd (subs l))"
    using stop_ok [OF l s] by metis
  have e: "l1 = l'"
    using stop l'(1) by simp
  let ?l = "l'\<lparr>restartInfo := [], stopped := False\<rparr>" and ?xs = "restart_requests l'"
  have ok: "listener_ok cfg ?l" and ot: "others ?l = others l"
    using okD [OF l'(2)] l'(3,4) by (simp_all add: listener_ok_def others_def restart_wf_def)
  have len: "length ?xs = card (subscription_key ` set (map snd (subs l)))"
    using restart_keys_distinct [OF okD(3) [OF l'(2)]] l'(7) by (metis distinct_card length_map list.set_map)
  also have "\<dots> \<le> length (subs l)"
    by (metis card_image_le card_length le_trans length_map List.finite_set)
  finally have "room (length ?xs) (services ?l)"
    using l'(6) [OF r] room_mono by simp
  moreover have "\<forall>x \<in> set ?xs. supported svc (connectionType x)"
  proof
    fix x
    assume "x \<in> set ?xs"
    then obtain t i where "((t, i), x) \<in> set (subs l)"
      using l'(8) by force
    then have m: "map_of (subs l) (t, i) = Some x"
      using okD(2) [OF l] by (metis map_of_is_SomeI smap_wf_distinct)
    show "supported svc (connectionType x)"
      using okD(6,7) [OF l m] by simp
  qed
  moreover have "handle_adds cfg svc ?xs ?l = (Inr r2, l2)"
    using restart l'(5) by (simp add: e control_def restart_requests_def)
  ultimately have "listener_ok cfg l2 \<and> others l2 = others ?l \<and> \<not> stopped l2
      \<and> set (map snd (subs l2)) = set (map snd (subs ?l)) \<union> set ?xs \<and> length (subs l2) = length (subs ?l) + length ?xs"
    using handle_adds_ok [of ?xs cfg ?l 0] ok by auto
  then show ?thesis
    using ot l'(4,7) len by (simp add: others_def)
qed

text \<open>
  Any call. The room it needs is bounded by the requests the listener knows; requests to remove must not name a client of somebody else.
\<close>

definition known :: "'s Listener \<Rightarrow> nat" where
  "known l = length (subs l) + length (restartInfo l)"

definition harmless :: "'s Listener \<Rightarrow> listener_call \<Rightarrow> bool" where
  "harmless l c = (case c of Request (Remove x) \<Rightarrow> others l (removedType x) (subscriptionID x) = None | _ \<Rightarrow> True)"

definition keeps :: "'ty listener_config \<Rightarrow> nat \<Rightarrow> 's Listener \<Rightarrow> 's Listener \<Rightarrow> bool" where
  "keeps cfg n l l' \<longleftrightarrow> listener_ok cfg l' \<and> others l' = others l \<and> room n (services l') \<and> known l' \<le> known l + 1"

lemma keeps_same: "listener_ok cfg l \<Longrightarrow> room n (services l) \<Longrightarrow> keeps cfg n l l"
  by (simp add: keeps_def)

lemma add_keeps:
  assumes l: "listener_ok cfg l" and r: "room (Suc n) (services l)"
  shows "\<exists>v l'. handle_add cfg svc x l = (v, l') \<and> keeps cfg n l l'"
proof (cases "stopped l")
  case True
  let ?l = "restart_insert x (connectionType x, - 1) l"
  have "listener_ok cfg ?l"
    using l True restart_wf_insert [of l x] by (auto simp: listener_ok_def)
  moreover have "others ?l = others l"
    by (simp add: others_def)
  moreover have "known ?l \<le> known l + 1"
    using length_smap_insert_le [of "subscription_key x" "(x, (connectionType x, - 1))" "restartInfo l"]
    by (simp add: known_def restart_insert_def)
  ultimately show ?thesis
    using True room_less [OF r] by (simp add: handle_add_def returnS_def keeps_def)
next
  case False
  show ?thesis
  proof (cases "supported svc (connectionType x)")
    case True
    show ?thesis
    proof (rule handle_add_ok [OF l r False True])
      fix i l'
      assume "handle_add cfg svc x l = (Inr [Added i], l')" "listener_ok cfg l'" "others l' = others l"
        "room n (services l')" "\<not> stopped l'" "subs l' = smap_insert (connectionType x, i) x (subs l)"
        "map_of (subs l) (connectionType x, i) = None" "restartInfo l' = []"
      then show ?thesis
        by (simp add: keeps_def known_def length_smap_insert)
    next
      fix e
      assume "handle_add cfg svc x l = (Inl e, l)"
      then show ?thesis
        using keeps_same [OF l room_less [OF r]] by blast
    qed
  next
    case unsupported: False
    then show ?thesis
      using False keeps_same [OF l room_less [OF r]] by (simp add: handle_add_def returnS_def)
  qed
qed

lemma adds_keep:
  "listener_ok cfg l \<Longrightarrow> room (length xs + n) (services l) \<Longrightarrow>
    \<exists>v l'. handle_adds cfg svc xs l = (v, l') \<and> listener_ok cfg l' \<and> others l' = others l \<and> room n (services l')
      \<and> known l' \<le> known l + length xs"
proof (induction xs arbitrary: l)
  case (Cons x xs)
  obtain v l1 where x: "handle_add cfg svc x l = (v, l1)" and k: "keeps cfg (length xs + n) l l1"
    using add_keeps [OF Cons.prems(1), of "length xs + n" x] Cons.prems(2) by auto
  then obtain w l2 where y: "handle_adds cfg svc xs l1 = (w, l2)" "listener_ok cfg l2" "others l2 = others l1"
      "room n (services l2)" "known l2 \<le> known l1 + length xs"
    using Cons.IH [of l1] by (auto simp: keeps_def)
  show ?case
  proof (cases v)
    case (Inl e)
    moreover have "room n (services l1)"
      using k room_mono [of n "length xs + n"] by (simp add: keeps_def)
    ultimately show ?thesis
      using x k by (auto simp: keeps_def actuallyHandle_def bindS_def)
  next
    case (Inr r)
    then show ?thesis
      using x y k by (cases w) (auto simp: keeps_def actuallyHandle_def bindS_def returnS_def)
  qed
qed (simp add: call_simps)

lemma remove_keeps:
  assumes l: "listener_ok cfg l" and r: "room n (services l)" and h: "harmless l (Request (Remove x))"
  shows "\<exists>v l'. handle_remove svc x l = (v, l') \<and> keeps cfg n l l'"
proof (cases "stopped l")
  case True
  let ?l = "l\<lparr>restartInfo := erase_first (removedType x, subscriptionID x) (restartInfo l)\<rparr>"
  have "listener_ok cfg ?l"
    using l True erase_first_sub [of "(removedType x, subscriptionID x)" "restartInfo l"]
      erase_first_wf [of "restartInfo l" "(removedType x, subscriptionID x)"]
    by (auto simp: listener_ok_def restart_wf_def)
  moreover have "known ?l \<le> known l + 1"
    using length_erase_first [of "(removedType x, subscriptionID x)" "restartInfo l"] by (simp add: known_def)
  ultimately show ?thesis
    using True r by (simp add: handle_remove_def returnS_def Let_def keeps_def others_def)
next
  case False
  have "map_of (subs l) (removedType x, subscriptionID x) \<noteq> None \<or> live (services l) (removedType x) (subscriptionID x) = None"
    using h by (auto simp: harmless_def others_def close_clients_def map_of_eq_None_iff split: if_splits)
  then obtain l' where "handle_remove svc x l = (Inr [Removed], l')" "listener_ok cfg l'" "others l' = others l" "room n (services l')"
    "subs l' = smap_erase (removedType x, subscriptionID x) (subs l)" "\<not> stopped l'"
    using handle_remove_ok [OF l r False] by metis
  then show ?thesis
    using okD(5) [of cfg l'] by (auto simp: keeps_def known_def smap_erase_def intro: le_trans [OF length_filter_le])
qed

lemma call_keeps:
  assumes l: "listener_ok cfg l" and r: "room (known l + 1 + n) (services l)" and h: "harmless l c"
  shows "\<exists>v l'. do_listener_call cfg svc c l = (v, l') \<and> keeps cfg n l l'"
proof -
  have rn: "room n (services l)" "room (Suc n) (services l)"
    using room_mono [OF _ r] by simp_all
  have all: "\<exists>v l'. handle_remove_all svc l = (v, l') \<and> keeps cfg n l l'"
  proof (cases "stopped l")
    case True
    then have "handle_remove_all svc l = (Inr [RemovedAll], l)"
      by (simp add: handle_remove_all_def call_simps okD(4) [OF l] bindS_def)
    then show ?thesis
      using keeps_same [OF l rn(1)] by blast
  next
    case False
    then obtain l' where "handle_remove_all svc l = (Inr [RemovedAll], l')" "listener_ok cfg l'" "others l' = others l" "subs l' = []"
      "\<not> stopped l'" "\<And>n. room n (services l) \<Longrightarrow> room n (services l')"
      using remove_all_keeps [OF l] by metis
    then show ?thesis
      using rn okD(5) [of cfg l'] by (auto simp: keeps_def known_def)
  qed
  show ?thesis
  proof (cases c)
    case (Request i)
    then show ?thesis
      using add_keeps [OF l rn(2)] remove_keeps [OF l rn(1)] h all by (cases i) (simp_all add: actuallyHandle_def)
  next
    case (Control command)
    consider "command = ''stop''" "\<not> stopped l" | "command = ''restart''" "stopped l"
      | "control cfg svc command l = (Inr [], l)"
      by (cases "command = ''stop''"; cases "command = ''restart''"; cases "stopped l") (simp_all add: control_def returnS_def)
    then show ?thesis
    proof cases
      case 1
      obtain l' where l': "control cfg svc ''stop'' l = (Inr [RemovedAll], l')" "listener_ok cfg l'" "others l' = others l"
        "subs l' = []" "\<And>n. room n (services l) \<Longrightarrow> room n (services l')" "restartInfo l' = restartInfo (restart_all (subs l) l)"
        using stop_ok [OF l 1(2)] by metis
      have "known l' \<le> known l"
        using l'(4,6) restart_all_length [of "subs l" l] by (simp add: known_def)
      then show ?thesis
        using 1 l' rn Control by (auto simp: keeps_def)
    next
      case 2
      let ?l = "l\<lparr>restartInfo := [], stopped := False\<rparr>" and ?xs = "restart_requests l"
      have ok: "listener_ok cfg ?l" and ot: "others ?l = others l" and su: "subs l = []"
        using okD [OF l] 2(2) by (simp_all add: listener_ok_def others_def restart_wf_def)
      have len: "length ?xs = known l" and k0: "known ?l = 0"
        using su by (simp_all add: restart_requests_def known_def)
      have "room (length ?xs + n) (services ?l)"
        using room_mono [OF _ r, of "known l + n"] len by simp
      then obtain v l' where "handle_adds cfg svc ?xs ?l = (v, l')" "listener_ok cfg l'" "others l' = others ?l" "room n (services l')"
          "known l' \<le> known ?l + length ?xs"
        using adds_keep [OF ok] by metis
      then show ?thesis
        using 2 Control ot len k0 by (auto simp: control_def keeps_def restart_requests_def)
    qed (use keeps_same [OF l rn(1)] Control in simp)
  qed
qed

text \<open>Any list of calls.\<close>

lemma calls_keep:
  "listener_ok cfg l \<Longrightarrow> room (length cs * (known l + length cs)) (services l) \<Longrightarrow>
    (\<And>x. Request (Remove x) \<in> set cs \<Longrightarrow> others l (removedType x) (subscriptionID x) = None) \<Longrightarrow>
    \<exists>vs l'. run_calls (do_listener_call cfg svc) cs l = (vs, l') \<and> listener_ok cfg l' \<and> others l' = others l"
proof (induction cs arbitrary: l)
  case (Cons c cs)
  let ?m = "length cs"
  have "length (c # cs) * (known l + length (c # cs)) = known l + 1 + (?m * (known l + 1 + ?m) + ?m)"
    by (simp add: algebra_simps)
  then have "room (known l + 1 + ?m * (known l + 1 + ?m)) (services l)"
    using room_mono [OF _ Cons.prems(2), of "known l + 1 + ?m * (known l + 1 + ?m)"] by simp
  moreover have "harmless l c"
    using Cons.prems(3) by (auto simp: harmless_def split: listener_call.split ListenerInput.split)
  ultimately obtain v l1 where c: "do_listener_call cfg svc c l = (v, l1)" and k: "keeps cfg (?m * (known l + 1 + ?m)) l l1"
    using call_keeps [OF Cons.prems(1)] by blast
  have "?m * (known l1 + ?m) \<le> ?m * (known l + 1 + ?m)"
    using k by (intro mult_le_mono) (auto simp: keeps_def)
  then have "room (?m * (known l1 + ?m)) (services l1)"
    using k room_mono by (auto simp: keeps_def)
  then obtain vs l' where "run_calls (do_listener_call cfg svc) cs l1 = (vs, l')" "listener_ok cfg l'" "others l' = others l1"
    using Cons.IH [of l1] Cons.prems(3) k by (auto simp: keeps_def)
  then show ?case
    using c k by (auto simp: keeps_def)
qed simp

end

section \<open>The transports of the environment\<close>

text \<open>
  An environment with some of the transports of theory \<open>ClientTable\<close>, each with its tables; the callback is the listener's own.
  A client's entry in the tables also holds the callback, which the interface leaves out.
\<close>

type_synonym 'c transports = "connection_type \<Rightarrow> 'c ComponentImpl"

definition on_transport :: "connection_type \<Rightarrow> ('c ComponentImpl, 'e, 'a) call \<Rightarrow> ('c transports, 'e, 'a) call" where
  "on_transport t m s = (case m (s t) of (r, c) \<Rightarrow> (r, s(t := c)))"

definition table_service :: "(connection_type \<rightharpoonup> transport) \<Rightarrow> 'c \<Rightarrow> ('c transports, table_error) service" where
  "table_service trs client =
     \<lparr>supported = (\<lambda>t. trs t \<noteq> None),
      add_client = (\<lambda>t l tp w. case trs t of
         Some tr \<Rightarrow> on_transport t (addSubscriptionClient tr l tp client w) | None \<Rightarrow> throwS (CannotOpen l)),
      remove_client = (\<lambda>t i. case trs t of
         Some tr \<Rightarrow> on_transport t (removeSubscriptionClient i) | None \<Rightarrow> returnS ())\<rparr>"

definition transports_ok :: "'c transports \<Rightarrow> bool" where
  "transports_ok s \<longleftrightarrow> (\<forall>t. tables_ok {} (s t))"

definition transports_room :: "nat \<Rightarrow> 'c transports \<Rightarrow> bool" where
  "transports_room n s \<longleftrightarrow> (\<forall>t. unat (counter (s t)) + n < 2 ^ 32)"

definition entry_info :: "ConnectionLocator \<times> topic_selection \<times> 'c \<times> WireToUserHook option \<Rightarrow> client_info" where
  "entry_info e = (case e of (l, tp, c, w) \<Rightarrow> (l, tp, w))"

definition transports_live :: "'c transports \<Rightarrow> connection_type \<Rightarrow> uint32 \<rightharpoonup> client_info" where
  "transports_live s t i = map_option entry_info (live (s t) i)"

definition transport_channel :: "(connection_type \<rightharpoonup> transport) \<Rightarrow> connection_type \<Rightarrow> ConnectionLocator \<Rightarrow> ConnectionLocator" where
  "transport_channel trs t l = (case trs t of Some tr \<Rightarrow> channel_of tr l | None \<Rightarrow> l)"

interpretation table_service: client_service "table_service trs client" transports_ok transports_room transports_live
  "transport_channel trs"
proof
  fix s :: "'a transports" and n t l tp w
  assume ok: "transports_ok s" and r: "transports_room (Suc n) s" and t: "supported (table_service trs client) t"
  obtain tr where tr: "trs t = Some tr"
    using t by (auto simp: table_service_def)
  have r': "room (s t)"
    using r [unfolded transports_room_def, rule_format, of t] by (simp add: room_def)
  have add: "add_client (table_service trs client) t l tp w s = (case addSubscriptionClient tr l tp client w (s t) of (r, c) \<Rightarrow> (r, s(t := c)))"
    by (simp add: table_service_def tr on_transport_def)
  consider (added) c where "addSubscriptionClient tr l tp client w (s t) = (Inr (counter (s t) + 1), c)" "tables_ok {} c"
      "ClientTable.live c = (ClientTable.live (s t))(counter (s t) + 1 \<mapsto> (channel_of tr l, tp, client, w))"
      "ClientTable.live (s t) (counter (s t) + 1) = None" "counter c = counter (s t) + 1"
    | (failed) "addSubscriptionClient tr l tp client w (s t) = (Inl (CannotOpen (channel_of tr l)), s t)"
    using add_ok [of "s t" tr l tp client w] ok r' by (auto simp: transports_ok_def)
  then show "(\<exists>i s'. add_client (table_service trs client) t l tp w s = (Inr i, s') \<and> transports_ok s' \<and> transports_room n s'
        \<and> transports_live s t i = None
        \<and> transports_live s' = (transports_live s)(t := (transports_live s t)(i \<mapsto> (transport_channel trs t l, tp, w)))) \<or>
      (\<exists>e. add_client (table_service trs client) t l tp w s = (Inl e, s))"
  proof cases
    case added
    have "transports_room n (s(t := c))"
      unfolding transports_room_def
    proof
      fix u
      show "unat (counter ((s(t := c)) u)) + n < 2 ^ 32"
        using r [unfolded transports_room_def, rule_format, of u] added(5) unat_next [OF r'] by (cases "u = t") simp_all
    qed
    moreover have "transports_live (s(t := c)) =
        (transports_live s)(t := (transports_live s t)(counter (s t) + 1 \<mapsto> (transport_channel trs t l, tp, w)))"
      using added(3) by (auto simp: transports_live_def transport_channel_def tr entry_info_def fun_eq_iff)
    ultimately show ?thesis
      using added ok by (intro disjI1 exI [of _ "counter (s t) + 1"] exI [of _ "s(t := c)"])
        (simp add: add transports_ok_def transports_live_def)
  next
    case failed
    then show ?thesis by (simp add: add)
  qed
next
  fix s :: "'a transports" and t i
  assume ok: "transports_ok s" and t: "supported (table_service trs client) t"
  obtain tr where tr: "trs t = Some tr"
    using t by (auto simp: table_service_def)
  obtain c where c: "removeSubscriptionClient i (s t) = (Inr (), c)" "tables_ok {} c"
      "ClientTable.live c = (ClientTable.live (s t))(i := None)" "counter c = counter (s t)"
    using remove_ok [of "s t" i] ok by (auto simp: transports_ok_def)
  have rm: "remove_client (table_service trs client) t i s = (Inr (), s(t := c))"
    by (simp add: table_service_def tr on_transport_def c(1))
  show "\<exists>s'. remove_client (table_service trs client) t i s = (Inr (), s') \<and> transports_ok s'
      \<and> transports_live s' = (transports_live s)(t := (transports_live s t)(i := None))"
    using ok c rm by (intro exI [of _ "s(t := c)"]) (auto simp: transports_ok_def transports_live_def fun_eq_iff)
  show "transports_room n s \<Longrightarrow> transports_room n (snd (remove_client (table_service trs client) t i s))" for n
    using c(4) rm by (auto simp: transports_room_def)
qed (auto simp: transports_room_def intro: Suc_lessD)

lemma new_listener_ok: "transports_ok s \<Longrightarrow> table_service.listener_ok trs client cfg (new_listener s)"
  by (simp add: table_service.listener_ok_def new_listener_def restart_wf_def)

lemma reached_ok:
  assumes "transports_ok s" and "transports_room (length cs * length cs) s"
    and "\<forall>x. Request (Remove x) \<in> set cs \<longrightarrow> transports_live s (removedType x) (subscriptionID x) = None"
  obtains vs l where "run_calls (do_listener_call cfg (table_service trs client)) cs (new_listener s) = (vs, l)"
    "table_service.listener_ok trs client cfg l" "table_service.others l = transports_live s"
proof -
  have "table_service.others (new_listener s) = transports_live s" "table_service.known (new_listener s) = 0"
    by (simp_all add: table_service.others_def table_service.known_def new_listener_def)
  then show ?thesis
    using table_service.calls_keep [OF new_listener_ok [OF assms(1), of trs client cfg], of cs] assms(2,3) that
    by (auto simp: new_listener_def)
qed

text \<open>C5: Whatever the sequence of requests, stops and restarts, successful or not, the listener's table agrees with the transports: each
  subscription it lists is a client of the right transport, channel, topic and hook, under the id it was given, the clients of
  everybody else are as they were, and a stopped listener has no subscription open. Requests to remove may name only ids of its own
  or of nobody.\<close>

theorem listener_invariant:
  assumes "transports_ok s" and "transports_room (length cs * length cs) s"
    and "\<forall>x. Request (Remove x) \<in> set cs \<longrightarrow> transports_live s (removedType x) (subscriptionID x) = None"
  shows "\<exists>vs l. run_calls (do_listener_call cfg (table_service trs client)) cs (new_listener s) = (vs, l)
    \<and> (\<forall>t i x. map_of (subs l) (t, i) = Some x \<longrightarrow> connectionType x = t \<and> (\<exists>tp. topic_argument cfg x = Inr tp \<and>
        transports_live (services l) t i = Some (transport_channel trs t (connectionLocator x), tp, actualHook cfg)))
    \<and> (\<forall>t i. map_of (subs l) (t, i) = None \<longrightarrow> transports_live (services l) t i = transports_live s t i)
    \<and> (stopped l \<longrightarrow> subs l = [])"
  using assms
proof (rule reached_ok [of s cs cfg trs client])
  fix vs l
  assume l: "run_calls (do_listener_call cfg (table_service trs client)) cs (new_listener s) = (vs, l)"
    "table_service.listener_ok trs client cfg l" and o': "table_service.others l = transports_live s"
  have "transports_live (services l) t i = transports_live s t i" if "map_of (subs l) (t, i) = None" for t i
    using fun_cong [OF fun_cong [OF o', of t], of i] that
    by (simp add: table_service.others_def close_clients_def map_of_eq_None_iff)
  then show ?thesis
    using l table_service.okD [OF l(2)] by blast
qed

definition sample_config :: "nat listener_config" where
  "sample_config = \<lparr>listenerHook = None, hook_factories = \<lparr>outgoing_factory = (\<lambda>_. None), incoming_factory = (\<lambda>_. None), unwrapped = id\<rparr>,
     data_type = 0, boost_library = boost_ref, valid_regex = (\<lambda>_. True)\<rparr>"

definition four_transports :: "connection_type \<rightharpoonup> transport" where
  "four_transports t = (case t of Multicast \<Rightarrow> Some (multicast boost_ref (\<lambda>_. True)) | ZeroMQ \<Rightarrow> Some zeromq | NNG \<Rightarrow> Some nng
     | Singlecast \<Rightarrow> Some (singlecast boost_ref (\<lambda>_. True)) | _ \<Rightarrow> None)"

definition idle_transports :: "nat transports" where
  "idle_transports t = initial_component"

lemma idle_ok: "transports_ok idle_transports" "n < 2 ^ 32 \<Longrightarrow> transports_room n idle_transports"
  "transports_live idle_transports t i = None"
  using initial_ok [where 'a = nat]
  by (simp_all add: transports_ok_def transports_room_def transports_live_def idle_transports_def initial_component_def live_alt)

definition pipe :: "string \<Rightarrow> AddSubscription" where
  "pipe name = \<lparr>connectionType = ZeroMQ, connectionLocator = \<lparr>host = ''inproc'', port = 0, userName = '''', password = '''', ident = name,
     properties = []\<rparr>, topicDescription = ''''\<rparr>"

theorem listener_invariant_witness:
  "\<exists>vs l. run_calls (do_listener_call sample_config (table_service four_transports 5))
      [Request (Add (pipe ''a'')), Control ''stop'', Control ''restart''] (new_listener idle_transports) = (vs, l)
    \<and> (\<forall>t i x. map_of (subs l) (t, i) = Some x \<longrightarrow> connectionType x = t \<and> (\<exists>tp. topic_argument sample_config x = Inr tp \<and>
        transports_live (services l) t i = Some (transport_channel four_transports t (connectionLocator x), tp, actualHook sample_config)))
    \<and> (\<forall>t i. map_of (subs l) (t, i) = None \<longrightarrow> transports_live (services l) t i = transports_live idle_transports t i)
    \<and> (stopped l \<longrightarrow> subs l = [])"
  by (rule listener_invariant [OF idle_ok(1)]) (simp_all add: idle_ok)

text \<open>Stopping a listener and starting it again, when every request is accepted again, leaves it with exactly one subscription for each
  request it had, requests that \<open>operator<\<close> does not tell apart being one.\<close>

theorem listener_restart:
  assumes "transports_ok s" and "transports_room (length cs * length cs) s"
    and "\<forall>x. Request (Remove x) \<in> set cs \<longrightarrow> transports_live s (removedType x) (subscriptionID x) = None"
    and "run_calls (do_listener_call cfg (table_service trs client)) cs (new_listener s) = (vs, l)" and "\<not> stopped l"
    and "transports_room (length (subs l)) (services l)"
    and "control cfg (table_service trs client) ''stop'' l = (r1, l1)"
    and "control cfg (table_service trs client) ''restart'' l1 = (Inr r2, l2)"
  shows "subscription_key ` snd ` set (subs l2) = subscription_key ` snd ` set (subs l) \<and>
    length (subs l2) = card (subscription_key ` snd ` set (subs l)) \<and> \<not> stopped l2"
proof -
  have "table_service.listener_ok trs client cfg l"
    by (rule reached_ok [OF assms(1-3), of cfg trs client]) (use assms(4) in simp)
  then show ?thesis
    using table_service.restart_ok [OF _ assms(5,6,7,8)] by simp
qed

text \<open>A request to remove all subscriptions that arrives while the listener is stopped is answered, but does nothing: the requests remembered
  for the restart stay, so restarting opens the subscriptions again.\<close>

theorem remove_all_while_stopped:
  assumes "transports_ok s" and "transports_room (length cs * length cs) s"
    and "\<forall>x. Request (Remove x) \<in> set cs \<longrightarrow> transports_live s (removedType x) (subscriptionID x) = None"
    and "run_calls (do_listener_call cfg (table_service trs client)) cs (new_listener s) = (vs, l)" and "\<not> stopped l"
  shows "\<exists>l1. control cfg (table_service trs client) ''stop'' l = (Inr [RemovedAll], l1)
    \<and> subscription_key ` set (restart_requests l1) = subscription_key ` snd ` set (subs l)
    \<and> actuallyHandle cfg (table_service trs client) RemoveAll l1 = (Inr [RemovedAll], l1)"
proof -
  have ok: "table_service.listener_ok trs client cfg l"
    by (rule reached_ok [OF assms(1-3), of cfg trs client]) (use assms(4) in simp)
  obtain l1 where l1: "control cfg (table_service trs client) ''stop'' l = (Inr [RemovedAll], l1)" "subs l1 = []" "stopped l1"
      "subscription_key ` set (restart_requests l1) = subscription_key ` set (map snd (subs l))"
    using table_service.stop_ok [OF ok assms(5)] by metis
  then show ?thesis
    by (intro exI [of _ l1]) (simp add: actuallyHandle_def handle_remove_all_def bindS_def returnS_def)
qed

text \<open>Two channels within the process, which only their identifiers tell apart.\<close>

definition two_pipes :: "nat transports Listener" where
  "two_pipes = snd (run_calls (do_listener_call sample_config (table_service four_transports 5))
     [Request (Add (pipe ''a'')), Request (Add (pipe ''b''))] (new_listener idle_transports))"

definition two_pipes_stopped :: "nat transports Listener" where
  "two_pipes_stopped = snd (control sample_config (table_service four_transports 5) ''stop'' two_pipes)"

lemma two_pipes_subs: "subs two_pipes = [((ZeroMQ, 1), pipe ''a''), ((ZeroMQ, 2), pipe ''b'')]" "\<not> stopped two_pipes"
  by code_simp+

lemma two_pipes_counter: "unat (counter (services two_pipes t)) \<le> 2"
  by (cases t; simp only:; code_simp)

lemma two_pipes_room: "transports_room (length (subs two_pipes)) (services two_pipes)"
  unfolding transports_room_def two_pipes_subs
proof
  fix t
  show "unat (counter (services two_pipes t)) + length [((ZeroMQ, 1 :: 32 word), pipe ''a''), ((ZeroMQ, 2), pipe ''b'')] < 2 ^ 32"
    using two_pipes_counter [of t] by simp
qed

lemma two_pipes_restart:
  "fst (control sample_config (table_service four_transports 5) ''restart'' two_pipes_stopped) = Inr [Added 3]"
  "subs (snd (control sample_config (table_service four_transports 5) ''restart'' two_pipes_stopped)) = [((ZeroMQ, 3), pipe ''a'')]"
  by code_simp+

theorem listener_restart_witness:
  "subscription_key ` snd ` set (subs (snd (control sample_config (table_service four_transports 5) ''restart'' two_pipes_stopped))) =
      subscription_key ` snd ` set (subs two_pipes) \<and>
    length (subs (snd (control sample_config (table_service four_transports 5) ''restart'' two_pipes_stopped))) =
      card (subscription_key ` snd ` set (subs two_pipes)) \<and>
    \<not> stopped (snd (control sample_config (table_service four_transports 5) ''restart'' two_pipes_stopped))"
proof (rule listener_restart [OF idle_ok(1)])
  show "run_calls (do_listener_call sample_config (table_service four_transports 5))
      [Request (Add (pipe ''a'')), Request (Add (pipe ''b''))] (new_listener idle_transports) =
    (fst (run_calls (do_listener_call sample_config (table_service four_transports 5))
      [Request (Add (pipe ''a'')), Request (Add (pipe ''b''))] (new_listener idle_transports)), two_pipes)"
    unfolding two_pipes_def by (rule prod.collapse [symmetric])
  show "control sample_config (table_service four_transports 5) ''stop'' two_pipes =
      (fst (control sample_config (table_service four_transports 5) ''stop'' two_pipes), two_pipes_stopped)"
    unfolding two_pipes_stopped_def by (rule prod.collapse [symmetric])
  show "control sample_config (table_service four_transports 5) ''restart'' two_pipes_stopped =
      (Inr [Added 3], snd (control sample_config (table_service four_transports 5) ''restart'' two_pipes_stopped))"
    unfolding two_pipes_restart(1) [symmetric] by (rule prod.collapse [symmetric])
  show "transports_room (length (subs two_pipes)) (services two_pipes)"
    by (rule two_pipes_room)
  show "\<forall>x. Request (Remove x) \<in> set [Request (Add (pipe ''a'')), Request (Add (pipe ''b''))] \<longrightarrow>
      transports_live idle_transports (removedType x) (subscriptionID x) = None"
    by simp
  show "\<not> stopped two_pipes"
    by (rule two_pipes_subs(2))
  show "transports_room (length [Request (Add (pipe ''a'')), Request (Add (pipe ''b''))] *
      length [Request (Add (pipe ''a'')), Request (Add (pipe ''b''))]) idle_transports"
    by (rule idle_ok(2)) simp
qed

theorem remove_all_while_stopped_witness:
  "\<exists>l1. control sample_config (table_service four_transports 5) ''stop'' two_pipes = (Inr [RemovedAll], l1)
    \<and> subscription_key ` set (restart_requests l1) = subscription_key ` snd ` set (subs two_pipes)
    \<and> actuallyHandle sample_config (table_service four_transports 5) RemoveAll l1 = (Inr [RemovedAll], l1)"
proof (rule remove_all_while_stopped [OF idle_ok(1)])
  show "run_calls (do_listener_call sample_config (table_service four_transports 5))
      [Request (Add (pipe ''a'')), Request (Add (pipe ''b''))] (new_listener idle_transports) =
    (fst (run_calls (do_listener_call sample_config (table_service four_transports 5))
      [Request (Add (pipe ''a'')), Request (Add (pipe ''b''))] (new_listener idle_transports)), two_pipes)"
    unfolding two_pipes_def by (rule prod.collapse [symmetric])
  show "transports_room (length [Request (Add (pipe ''a'')), Request (Add (pipe ''b''))] *
      length [Request (Add (pipe ''a'')), Request (Add (pipe ''b''))]) idle_transports"
    by (rule idle_ok(2)) simp
  show "\<forall>x. Request (Remove x) \<in> set [Request (Add (pipe ''a'')), Request (Add (pipe ''b''))] \<longrightarrow>
      transports_live idle_transports (removedType x) (subscriptionID x) = None"
    by simp
  show "\<not> stopped two_pipes"
    by (rule two_pipes_subs(2))
qed

text \<open>Subscriptions to two channels whose locators differ only in the identifier, such as two ZeroMQ channels within the process, become
  one when the listener is stopped and started again: the second channel is lost.\<close>

theorem restart_loses_channel:
  "map (connectionLocator \<circ> snd) (subs two_pipes) = [connectionLocator (pipe ''a''), connectionLocator (pipe ''b'')] \<and>
   hostAndPortAndIdentifier (connectionLocator (pipe ''a'')) \<noteq> hostAndPortAndIdentifier (connectionLocator (pipe ''b'')) \<and>
   map (connectionLocator \<circ> snd) (subs (snd (control sample_config (table_service four_transports 5) ''restart'' two_pipes_stopped))) =
     [connectionLocator (pipe ''a'')]"
  by (simp add: two_pipes_subs two_pipes_restart) code_simp

end
