(* ===== verification/UrlCodec.thy ===== *)
theory UrlCodec
  imports CppStrings
begin

text \<open>
  Query strings of HTTP requests: how the clients write them (\<open>JsonRESTClientFacilityFactoryUtils\<close> of
  tm_kit/transport/json_rest/JsonRESTClientFacilityUtils.hpp) and how the server reads them (\<open>OneHandler::unescape\<close> and \<open>OneHandler::onRead\<close> of
  src/json_rest/JsonRESTComponent.cpp). A \<open>char\<close> is signed, as with the compilers for x86: a byte from 128 on is negative.
\<close>

section \<open>Writing\<close>

definition byte :: "char \<Rightarrow> nat" where
  "byte c = of_char c"

definition is_alnum :: "char \<Rightarrow> bool" where
  "is_alnum c \<longleftrightarrow> (48 \<le> byte c \<and> byte c \<le> 57) \<or> (65 \<le> byte c \<and> byte c \<le> 90) \<or> (97 \<le> byte c \<and> byte c \<le> 122)"

definition unreservedCharacters :: "char \<Rightarrow> bool" where
  "unreservedCharacters c \<longleftrightarrow> is_alnum c \<or> c = CHR ''-'' \<or> c = CHR ''.'' \<or> c = CHR ''_'' \<or> c = CHR ''~''"

text \<open>\<open>std::hex << std::uppercase\<close>, in a field of width 2 filled with zeros.\<close>

definition hex_digit :: "nat \<Rightarrow> char" where
  "hex_digit d = char_of (if d < 10 then 48 + d else 55 + d)"

fun hex_nat :: "nat \<Rightarrow> string" where
  "hex_nat n = (if n < 16 then [hex_digit n] else hex_nat (n div 16) @ [hex_digit (n mod 16)])"

declare hex_nat.simps [simp del]

definition hex_field :: "nat \<Rightarrow> string" where
  "hex_field n = replicate (2 - length (hex_nat n)) (CHR ''0'') @ hex_nat n"

text \<open>\<open>(unsigned) c\<close>: a negative \<open>char\<close> is extended to 32 bits.\<close>

definition unsigned_char :: "char \<Rightarrow> nat" where
  "unsigned_char c = (if byte c < 128 then byte c else 2 ^ 32 - 256 + byte c)"

definition escape_char :: "char \<Rightarrow> string" where
  "escape_char c =
     (if c = CHR '' '' then ''+''
      else if byte c \<ge> 128 then CHR ''%'' # hex_field (unsigned_char c)
      else if \<not> unreservedCharacters c then CHR ''%'' # hex_field (unsigned_char c)
      else [c])"

definition urlEscape :: "string \<Rightarrow> string" where
  "urlEscape input = concat (map escape_char input)"

fun query_string_from :: "bool \<Rightarrow> bool \<Rightarrow> (string \<times> string) list \<Rightarrow> string" where
  "query_string_from encodeConnectors start [] = []"
| "query_string_from encodeConnectors start ((name, value) # nvs) =
     (if \<not> start then (if encodeConnectors then ''%26'' else ''&'') else []) @
     urlEscape name @ (if encodeConnectors then ''%3D'' else ''='') @ urlEscape value @
     query_string_from encodeConnectors False nvs"

definition toQueryString :: "bool \<Rightarrow> (string \<times> string) list \<Rightarrow> string" where
  "toQueryString encodeConnectors nvs = query_string_from encodeConnectors True nvs"

section \<open>Reading\<close>

definition hex_value :: "char \<Rightarrow> nat option" where
  "hex_value c =
     (if 97 \<le> byte c \<and> byte c \<le> 102 then Some (byte c - 97 + 10)
      else if 65 \<le> byte c \<and> byte c \<le> 70 then Some (byte c - 65 + 10)
      else if 48 \<le> byte c \<and> byte c \<le> 57 then Some (byte c - 48)
      else None)"

text \<open>The loop stops where an escape is incomplete or no hexadecimal digit follows.\<close>

fun unescape :: "string \<Rightarrow> string" where
  "unescape [] = []"
| "unescape (c # s) =
     (if c = CHR ''+'' then CHR '' '' # unescape s
      else if c = CHR ''%'' then
        (case s of
           h # l # r \<Rightarrow>
             (case (hex_value h, hex_value l) of
                (Some x, Some y) \<Rightarrow> char_of (16 * x + y) # unescape r
              | _ \<Rightarrow> [])
         | _ \<Rightarrow> [])
      else c # unescape s)"

text \<open>The map from names to their values in the order they come.\<close>

type_synonym query_map = "string \<rightharpoonup> string list"

definition add_value :: "string \<Rightarrow> string \<Rightarrow> query_map \<Rightarrow> query_map" where
  "add_value n v m = (case m n of None \<Rightarrow> m(n \<mapsto> [v]) | Some vs \<Rightarrow> m(n \<mapsto> vs @ [v]))"

definition add_part :: "boost \<Rightarrow> string \<Rightarrow> query_map \<Rightarrow> query_map" where
  "add_part b q m =
     (case split_any b q ''='' of [n, v] \<Rightarrow> add_value (unescape n) (unescape v) m | _ \<Rightarrow> m)"

definition add_query :: "boost \<Rightarrow> string \<Rightarrow> query_map \<Rightarrow> query_map" where
  "add_query b queryStr m = fold (add_part b) (split_any b queryStr ''&'') m"

text \<open>The target of a request: the path, and the query up to a fragment.\<close>

definition split_target :: "string \<Rightarrow> string \<times> string option" where
  "split_target target =
     (if CHR ''?'' \<in> set target
      then (takeWhile (\<lambda>c. c \<noteq> CHR ''?'') target,
            Some (takeWhile (\<lambda>c. c \<noteq> CHR ''#'') (tl (dropWhile (\<lambda>c. c \<noteq> CHR ''?'') target))))
      else (target, None))"

definition read_target :: "boost \<Rightarrow> string \<Rightarrow> string \<times> query_map" where
  "read_target b target =
     (case split_target target of
        (path, Some query) \<Rightarrow> (path, add_query b query Map.empty)
      | (path, None) \<Rightarrow> (path, Map.empty))"

section \<open>What is written is read back\<close>

definition harmless_char :: "char \<Rightarrow> bool" where
  "harmless_char c \<longleftrightarrow> c \<noteq> CHR ''&'' \<and> c \<noteq> CHR ''='' \<and> c \<noteq> CHR ''#'' \<and> c \<noteq> CHR ''?''"

lemma byte_char_of [simp]: "byte (char_of n) = n mod 256"
  by (simp add: byte_def)

lemma char_of_byte [simp]: "char_of (byte c) = c"
  by (simp add: byte_def)

lemma byte_eq: "byte c = byte d \<longleftrightarrow> c = d"
  by (simp add: byte_def)

lemma byte_less [simp]: "byte c < 256"
  by (simp add: byte_def)

lemma byte_digit: "d < 16 \<Longrightarrow> byte (hex_digit d) = (if d < 10 then 48 + d else 55 + d)"
  by (simp add: hex_digit_def)

lemma hex_value_digit [simp]: "d < 16 \<Longrightarrow> hex_value (hex_digit d) = Some d"
  by (auto simp: hex_value_def byte_digit)

lemma zero_digit: "CHR ''0'' = hex_digit 0"
  by code_simp

lemma hex_field_byte:
  assumes "n < 256"
  shows "hex_field n = [hex_digit (n div 16), hex_digit (n mod 16)]"
proof (cases "n < 16")
  case False
  moreover have "n div 16 < 16"
    using assms by simp
  ultimately show ?thesis
    by (simp add: hex_field_def hex_nat.simps [of n] hex_nat.simps [of "n div 16"])
qed (simp add: hex_field_def hex_nat.simps [of n] zero_digit)

lemma hex_nat_digits: "c \<in> set (hex_nat n) \<Longrightarrow> \<exists>d < 16. c = hex_digit d"
proof (induction n rule: hex_nat.induct)
  case (1 n)
  then show ?case
    by (cases "n < 16") (auto simp: hex_nat.simps [of n] intro: exI [of _ n] exI [of _ "n mod 16"])
qed

lemma harmless_bytes: "harmless_char c \<longleftrightarrow> byte c \<notin> {38, 61, 35, 63}"
proof -
  have "byte (CHR ''&'') = 38" "byte (CHR ''='') = 61" "byte (CHR ''#'') = 35" "byte (CHR ''?'') = 63"
    by (simp_all add: byte_def)
  then show ?thesis
    unfolding harmless_char_def byte_eq [symmetric] by simp
qed

lemma hex_field_harmless: "c \<in> set (hex_field n) \<Longrightarrow> harmless_char c"
proof -
  assume "c \<in> set (hex_field n)"
  then have "c = hex_digit 0 \<or> c \<in> set (hex_nat n)"
    by (auto simp: hex_field_def zero_digit)
  then obtain d where "d < 16" "c = hex_digit d"
    using hex_nat_digits [of c n] by (metis zero_less_numeral)
  then show ?thesis
    by (auto simp: harmless_bytes byte_digit)
qed

lemma unreserved_bytes:
  assumes "unreservedCharacters c"
  shows "harmless_char c" "c \<noteq> CHR ''+''" "c \<noteq> CHR ''%''"
  using assms by (auto simp: unreservedCharacters_def is_alnum_def harmless_char_def byte_def)

lemma escape_harmless: "d \<in> set (escape_char c) \<Longrightarrow> harmless_char d"
  using hex_field_harmless [of d "unsigned_char c"] unreserved_bytes(1)
  by (auto simp: escape_char_def split: if_splits) (simp_all add: harmless_char_def)

lemma unescape_escape_char:
  assumes "byte c < 128"
  shows "unescape (escape_char c @ r) = c # unescape r"
proof -
  consider "c = CHR '' ''" | "unreservedCharacters c" "c \<noteq> CHR '' ''" | "\<not> unreservedCharacters c" "c \<noteq> CHR '' ''"
    by blast
  then show ?thesis
  proof cases
    case 2
    then show ?thesis
      using assms unreserved_bytes [of c] by (simp add: escape_char_def)
  next
    case 3
    have "16 * (byte c div 16) + byte c mod 16 = byte c"
      by (rule mult_div_mod_eq)
    then show ?thesis
      using 3 assms by (simp add: escape_char_def unsigned_char_def hex_field_byte)
  qed (simp add: escape_char_def)
qed

lemma unescape_urlEscape: "\<forall>c \<in> set s. byte c < 128 \<Longrightarrow> unescape (urlEscape s) = s"
proof (induction s)
  case (Cons c s)
  then show ?case
    by (simp add: urlEscape_def unescape_escape_char)
qed (simp add: urlEscape_def)

lemma urlEscape_harmless: "c \<in> set (urlEscape s) \<Longrightarrow> harmless_char c"
  by (auto simp: urlEscape_def dest: escape_harmless)

definition written_pair :: "string \<times> string \<Rightarrow> string" where
  "written_pair nv = urlEscape (fst nv) @ ''='' @ urlEscape (snd nv)"

lemma written_pair_harmless: "CHR ''&'' \<notin> set (written_pair nv)" "CHR ''#'' \<notin> set (written_pair nv)"
  using urlEscape_harmless [of "CHR ''&''"] urlEscape_harmless [of "CHR ''#''"] by (auto simp: written_pair_def harmless_char_def)

lemma query_string_later:
  "query_string_from False False nvs = concat (map (\<lambda>nv. CHR ''&'' # written_pair nv) nvs)"
  by (induction nvs) (auto simp: written_pair_def)

lemma query_string: "toQueryString False (nv # nvs) = written_pair nv @ concat (map (\<lambda>nv. CHR ''&'' # written_pair nv) nvs)"
  by (cases nv) (simp add: toQueryString_def query_string_later written_pair_def)

context boost_strings
begin

lemma split_parts: "split_any b (written_pair nv @ concat (map (\<lambda>nv. CHR ''&'' # written_pair nv) nvs)) ''&'' = map written_pair (nv # nvs)"
proof (induction nvs arbitrary: nv)
  case Nil
  then show ?case
    using written_pair_harmless(1) [of nv] by (simp add: split_char split_char_none)
next
  case (Cons nv' nvs)
  then show ?case
    using split_char_first [OF written_pair_harmless(1) [of nv]] by (simp add: split_char)
qed

lemma add_written_pair:
  assumes "\<forall>c \<in> set (fst nv) \<union> set (snd nv). byte c < 128"
  shows "add_part b (written_pair nv) m = add_value (fst nv) (snd nv) m"
proof -
  have e: "CHR ''='' \<notin> set (urlEscape s)" for s
    using urlEscape_harmless [of "CHR ''=''" s] by (auto simp: harmless_char_def)
  have "split_any b (written_pair nv) ''='' = [urlEscape (fst nv), urlEscape (snd nv)]"
    unfolding written_pair_def split_char by (simp add: split_char_first [OF e] split_char_none [OF e])
  then show ?thesis
    using assms by (simp add: add_part_def unescape_urlEscape)
qed

lemma add_written:
  "\<forall>nv \<in> set nvs. \<forall>c \<in> set (fst nv) \<union> set (snd nv). byte c < 128 \<Longrightarrow>
    fold (add_part b) (map written_pair nvs) m = fold (\<lambda>nv. add_value (fst nv) (snd nv)) nvs m"
  by (induction nvs arbitrary: m) (simp_all add: add_written_pair)

lemma query_back:
  assumes "\<forall>nv \<in> set nvs. \<forall>c \<in> set (fst nv) \<union> set (snd nv). byte c < 128"
  shows "add_query b (toQueryString False nvs) m = fold (\<lambda>nv. add_value (fst nv) (snd nv)) nvs m"
proof (cases nvs)
  case Nil
  then show ?thesis
    by (simp add: add_query_def toQueryString_def add_part_def split_char)
next
  case (Cons nv nvs')
  then show ?thesis
    unfolding add_query_def Cons query_string split_parts using add_written [of nvs m] assms by (simp add: Cons)
qed

lemma target_back:
  assumes "CHR ''?'' \<notin> set path" and "\<forall>nv \<in> set nvs. \<forall>c \<in> set (fst nv) \<union> set (snd nv). byte c < 128"
  shows "read_target b (path @ ''?'' @ toQueryString False nvs) = (path, fold (\<lambda>nv. add_value (fst nv) (snd nv)) nvs Map.empty)"
proof -
  have h: "CHR ''#'' \<notin> set (toQueryString False nvs)"
  proof (cases nvs)
    case (Cons nv nvs')
    then show ?thesis
      unfolding Cons query_string using written_pair_harmless(2) by auto
  qed (simp add: toQueryString_def)
  then have t: "takeWhile (\<lambda>c. c \<noteq> CHR ''#'') (toQueryString False nvs) = toQueryString False nvs"
    unfolding takeWhile_eq_all_conv by auto
  moreover have "\<forall>c \<in> set path. c \<noteq> CHR ''?''"
    using assms(1) by auto
  ultimately show ?thesis
    by (simp add: read_target_def split_target_def query_back [OF assms(2)] takeWhile_append2 dropWhile_append2 t)
qed

end

text \<open>C16: For names and values of ASCII characters only: the server reads from the target of a GET request the path and exactly the names and values the client
  wrote, in their order, values of one name together. The theorem on other characters shows that they are not read back.\<close>

theorem query_roundtrip:
  assumes "boost_strings b" and "CHR ''?'' \<notin> set path" and "\<forall>nv \<in> set nvs. \<forall>c \<in> set (fst nv) \<union> set (snd nv). byte c < 128"
  shows "read_target b (path @ ''?'' @ toQueryString False nvs) = (path, fold (\<lambda>nv. add_value (fst nv) (snd nv)) nvs Map.empty)"
  by (rule boost_strings.target_back [OF assms])

theorem query_roundtrip_witness:
  "read_target boost_ref (''/calc'' @ ''?'' @ toQueryString False [(''a b'', ''1&2''), (''x'', ''%''), (''a b'', ''='')]) =
    (''/calc'', fold (\<lambda>nv. add_value (fst nv) (snd nv)) [(''a b'', ''1&2''), (''x'', ''%''), (''a b'', ''='')] Map.empty)"
  by (rule query_roundtrip [OF boost_ref.boost_strings_axioms]) (simp_all add: byte_def)

lemma hex_nat_high: "0 < k \<Longrightarrow> n < 256 \<Longrightarrow> hex_nat (256 * k + n) = hex_nat k @ [hex_digit (n div 16), hex_digit (n mod 16)]"
proof -
  assume k: "0 < k" and n: "n < 256"
  have q: "n div 16 < 16" "n = n mod 16 + 16 * (n div 16)"
    using n by simp_all
  then have "256 * k + n = n mod 16 + 16 * (16 * k + n div 16)"
    by simp
  then have e: "(256 * k + n) div 16 = 16 * k + n div 16" "(256 * k + n) mod 16 = n mod 16"
    by (simp_all only: div_mult_self2 mod_mult_self2 zero_neq_numeral not_False_eq_True) simp_all
  have e': "(16 * k + n div 16) div 16 = k" "(16 * k + n div 16) mod 16 = n div 16"
    using q(1) by simp_all
  have "\<not> 256 * k + n < 16" "\<not> 16 * k + n div 16 < 16"
    using k by simp_all
  note big = this [THEN if_not_P]
  have "hex_nat (256 * k + n) = hex_nat (16 * k + n div 16) @ [hex_digit (n mod 16)]"
    unfolding hex_nat.simps [of "256 * k + n"] big e by (rule refl)
  also have "hex_nat (16 * k + n div 16) = hex_nat k @ [hex_digit (n div 16)]"
    unfolding hex_nat.simps [of "16 * k + n div 16"] big e' by (rule refl)
  finally show ?thesis
    by simp
qed

lemma six_digits: "hex_nat 16777215 = ''FFFFFF''"
proof -
  have d: "hex_digit 15 = CHR ''F''"
    by code_simp
  have "hex_nat 255 = [hex_digit 15, hex_digit 15]"
    by (simp add: hex_nat.simps [of 255] hex_nat.simps [of 15])
  then show ?thesis
    using hex_nat_high [of 255 255] hex_nat_high [of 65535 255] by (simp add: d)
qed

text \<open>A byte that is not ASCII is written as the eight hexadecimal digits of a negative 32-bit number, of which the server takes the first two: it
  reads the byte 255 and six more characters.\<close>

theorem non_ascii_not_read_back:
  assumes "byte c \<ge> 128"
  shows "urlEscape [c] = ''%FFFFFF'' @ [hex_digit (byte c div 16), hex_digit (byte c mod 16)] \<and>
    unescape (urlEscape [c]) = CHR 0xFF # ''FFFF'' @ [hex_digit (byte c div 16), hex_digit (byte c mod 16)]"
proof -
  have w: "urlEscape [c] = ''%FFFFFF'' @ [hex_digit (byte c div 16), hex_digit (byte c mod 16)]"
  proof -
    have "c \<noteq> CHR '' ''"
      using assms by (auto simp: byte_def)
    moreover have "2 ^ 32 - 256 + byte c = 256 * 16777215 + byte c"
      by simp
    ultimately show ?thesis
      using assms hex_nat_high [of 16777215 "byte c", OF _ byte_less]
      by (simp add: urlEscape_def escape_char_def unsigned_char_def hex_field_def six_digits)
  qed
  have digit: "unescape (hex_digit d # r) = hex_digit d # unescape r" if "d < 16" for d r
  proof -
    have "hex_digit d \<noteq> CHR ''+''" "hex_digit d \<noteq> CHR ''%''"
      using byte_digit [OF that] by (auto simp: byte_def split: if_splits)
    then show ?thesis
      by simp
  qed
  have "byte c div 16 < 16"
    by (simp only: div_less_iff_less_mult) simp
  then have h: "unescape [hex_digit (byte c div 16), hex_digit (byte c mod 16)] = [hex_digit (byte c div 16), hex_digit (byte c mod 16)]"
    by (simp del: unescape.simps(2) add: digit)
  have "hex_value (CHR ''F'') = Some 15" "char_of (16 * 15 + (15 :: nat)) = CHR 0xFF"
    by (simp add: hex_value_def byte_def) code_simp
  then show ?thesis
    unfolding w using h by (simp del: unescape.simps(2) add: unescape.simps(2) [of "CHR ''%''"] unescape.simps(2) [of "CHR ''F''"])
qed

theorem non_ascii_not_read_back_witness: "unescape (urlEscape [CHR 0xE9]) = CHR 0xFF # ''FFFFE9''"
proof -
  have "byte (CHR 0xE9) = 233" "hex_digit 14 = CHR ''E''" "hex_digit 9 = CHR ''9''"
    by (simp add: byte_def) code_simp+
  then show ?thesis
    using conjunct2 [OF non_ascii_not_read_back [of "CHR 0xE9"]] by simp
qed

end
