(* ===== verification/RemoteFacility.thy ===== *)
theory RemoteFacility
  imports Channels HookFactory UrlCodec "HOL-Library.Signed_Division"
begin

text \<open>
  Remote facilities (tm_kit/transport/MultiTransportRemoteFacility.hpp): the description of a facility's channel, the actions that
  register and deregister a server, their CBOR form, the class \<open>MultiTransportRemoteFacility\<close>, which sends each request to one of the
  registered servers, and the one-shot calls. The RPC components of the transports are parameters.
\<close>

section \<open>Channels and actions\<close>

datatype MultiTransportRemoteFacilityActionType = Register | Deregister

datatype MultiTransportRemoteFacilityConnectionType = RabbitMQ | Redis | SocketRPC | GrpcInterop | JsonREST | WebSocket

type_synonym action_type = MultiTransportRemoteFacilityActionType
type_synonym facility_type = MultiTransportRemoteFacilityConnectionType

definition MULTI_TRANSPORT_REMOTE_FACILITY_ACTION_TYPE_STR :: "string list" where
  "MULTI_TRANSPORT_REMOTE_FACILITY_ACTION_TYPE_STR = [''register'', ''deregister'']"

definition MULTI_TRANSPORT_REMOTE_FACILITY_CONNECTION_TYPE_STR :: "string list" where
  "MULTI_TRANSPORT_REMOTE_FACILITY_CONNECTION_TYPE_STR =
     [''rabbitmq'', ''redis'', ''socket_rpc'', ''grpc_interop'', ''json_rest'', ''websocket'']"

text \<open>\<open>static_cast\<close> between the enumerations and their positions.\<close>

definition action_index :: "action_type \<Rightarrow> nat" where
  "action_index t = (case t of Register \<Rightarrow> 0 | Deregister \<Rightarrow> 1)"

definition action_at :: "nat \<Rightarrow> action_type" where
  "action_at ii = [Register, Deregister] ! ii"

definition facility_index :: "facility_type \<Rightarrow> nat" where
  "facility_index t =
     (case t of RabbitMQ \<Rightarrow> 0 | Redis \<Rightarrow> 1 | SocketRPC \<Rightarrow> 2 | GrpcInterop \<Rightarrow> 3 | JsonREST \<Rightarrow> 4 | WebSocket \<Rightarrow> 5)"

definition facility_at :: "nat \<Rightarrow> facility_type" where
  "facility_at ii = [RabbitMQ, Redis, SocketRPC, GrpcInterop, JsonREST, WebSocket] ! ii"

definition facility_str :: "facility_type \<Rightarrow> string" where
  "facility_str t = MULTI_TRANSPORT_REMOTE_FACILITY_CONNECTION_TYPE_STR ! facility_index t"

fun parse_facility_from :: "boost \<Rightarrow> string \<Rightarrow> nat \<Rightarrow> string list \<Rightarrow> (facility_type \<times> ConnectionLocator) option" where
  "parse_facility_from b s ii [] = None"
| "parse_facility_from b s ii (item # items) =
     (if starts_with b s (item @ ''://'')
      then (case parse b (drop (length item + 3) s) of Inr locator \<Rightarrow> Some (facility_at ii, locator) | Inl _ \<Rightarrow> None)
      else parse_facility_from b s (ii + 1) items)"

definition parseMultiTransportRemoteFacilityChannel :: "boost \<Rightarrow> string \<Rightarrow> (facility_type \<times> ConnectionLocator) option" where
  "parseMultiTransportRemoteFacilityChannel b s = parse_facility_from b s 0 MULTI_TRANSPORT_REMOTE_FACILITY_CONNECTION_TYPE_STR"

record FacilityAction =
  actionType :: action_type
  facilityType :: facility_type
  facilityLocator :: ConnectionLocator
  description :: string

section \<open>CBOR\<close>

definition action_type_encode :: "string cbor \<Rightarrow> action_type \<Rightarrow> string" where
  "action_type_encode sc x = encode_cbor sc (MULTI_TRANSPORT_REMOTE_FACILITY_ACTION_TYPE_STR ! action_index x)"

definition action_type_decode :: "string cbor \<Rightarrow> string \<Rightarrow> nat \<Rightarrow> (action_type \<times> nat) option" where
  "action_type_decode sc data start =
     (case decode_at sc data start of
        Some (s, n) \<Rightarrow>
          (case find_type MULTI_TRANSPORT_REMOTE_FACILITY_ACTION_TYPE_STR s 0 of
             Some ii \<Rightarrow> Some (action_at ii, n) | None \<Rightarrow> None)
      | None \<Rightarrow> None)"

definition action_type_decode_in_place :: "string cbor \<Rightarrow> action_type \<Rightarrow> string \<Rightarrow> nat \<Rightarrow> action_type \<times> nat option" where
  "action_type_decode_in_place sc output data start =
     (case decode_at sc data start of
        Some (s, n) \<Rightarrow>
          (case find_type MULTI_TRANSPORT_REMOTE_FACILITY_ACTION_TYPE_STR s 0 of
             Some ii \<Rightarrow> (action_at ii, Some n) | None \<Rightarrow> (output, None))
      | None \<Rightarrow> (output, None))"

definition facility_type_encode :: "string cbor \<Rightarrow> facility_type \<Rightarrow> string" where
  "facility_type_encode sc x = encode_cbor sc (MULTI_TRANSPORT_REMOTE_FACILITY_CONNECTION_TYPE_STR ! facility_index x)"

definition facility_type_decode :: "string cbor \<Rightarrow> string \<Rightarrow> nat \<Rightarrow> (facility_type \<times> nat) option" where
  "facility_type_decode sc data start =
     (case decode_at sc data start of
        Some (s, n) \<Rightarrow>
          (case find_type MULTI_TRANSPORT_REMOTE_FACILITY_CONNECTION_TYPE_STR s 0 of
             Some ii \<Rightarrow> Some (facility_at ii, n) | None \<Rightarrow> None)
      | None \<Rightarrow> None)"

definition facility_type_decode_in_place :: "string cbor \<Rightarrow> facility_type \<Rightarrow> string \<Rightarrow> nat \<Rightarrow> facility_type \<times> nat option" where
  "facility_type_decode_in_place sc output data start =
     (case decode_at sc data start of
        Some (s, n) \<Rightarrow>
          (case find_type MULTI_TRANSPORT_REMOTE_FACILITY_CONNECTION_TYPE_STR s 0 of
             Some ii \<Rightarrow> (facility_at ii, Some n) | None \<Rightarrow> (output, None))
      | None \<Rightarrow> (output, None))"

definition action_type_cbor :: "string cbor \<Rightarrow> action_type cbor" where
  "action_type_cbor sc = \<lparr>encode_cbor = action_type_encode sc, decode_at = action_type_decode sc\<rparr>"

definition facility_type_cbor :: "string cbor \<Rightarrow> facility_type cbor" where
  "facility_type_cbor sc = \<lparr>encode_cbor = facility_type_encode sc, decode_at = facility_type_decode sc\<rparr>"

text \<open>\<open>ac\<close> is the serializer with a name list of tm\_basic for the four fields, made from serializers of the first three.\<close>

type_synonym action_codec =
  "string list \<Rightarrow> action_type cbor \<Rightarrow> facility_type cbor \<Rightarrow> ConnectionLocator cbor
    \<Rightarrow> (action_type \<times> facility_type \<times> ConnectionLocator \<times> string) cbor"

definition action_cbor :: "boost \<Rightarrow> string cbor \<Rightarrow> action_codec \<Rightarrow> (action_type \<times> facility_type \<times> ConnectionLocator \<times> string) cbor" where
  "action_cbor b sc ac =
     ac [''action_type'', ''connection_type'', ''connection_locator'', ''description'']
       (action_type_cbor sc) (facility_type_cbor sc) (locator_cbor b sc)"

definition action_encode :: "boost \<Rightarrow> string cbor \<Rightarrow> action_codec \<Rightarrow> FacilityAction \<Rightarrow> string" where
  "action_encode b sc ac x =
     encode_cbor (action_cbor b sc ac) (actionType x, facilityType x, facilityLocator x, description x)"

definition action_decode :: "boost \<Rightarrow> string cbor \<Rightarrow> action_codec \<Rightarrow> string \<Rightarrow> nat \<Rightarrow> (FacilityAction \<times> nat) option" where
  "action_decode b sc ac data start =
     (case decode_at (action_cbor b sc ac) data start of
        Some ((t, c, l, d), n) \<Rightarrow> Some (\<lparr>actionType = t, facilityType = c, facilityLocator = l, description = d\<rparr>, n)
      | None \<Rightarrow> None)"

locale action_codec_laws =
  fixes sc :: "string cbor" and ac :: action_codec
  assumes text_law: "cbor_law sc"
    and fields_law: "distinct ns \<Longrightarrow> length ns = 4 \<Longrightarrow> cbor_law tc \<Longrightarrow> cbor_law fc \<Longrightarrow> cbor_law_on P lc \<Longrightarrow>
      cbor_law_on (\<lambda>(t, c, l, d). P l) (ac ns tc fc lc)"
begin

lemma action_type_law: "cbor_law (action_type_cbor sc)"
proof
  fix pre post x
  show "decode_at (action_type_cbor sc) (pre @ encode_cbor (action_type_cbor sc) x @ post) (length pre) =
      Some (x, length (encode_cbor (action_type_cbor sc) x))"
    by (cases x) (simp_all add: action_type_cbor_def action_type_encode_def action_type_decode_def action_index_def action_at_def
        MULTI_TRANSPORT_REMOTE_FACILITY_ACTION_TYPE_STR_def cbor_law.decode_at_encode [OF text_law])
qed

lemma facility_type_law: "cbor_law (facility_type_cbor sc)"
proof
  fix pre post x
  show "decode_at (facility_type_cbor sc) (pre @ encode_cbor (facility_type_cbor sc) x @ post) (length pre) =
      Some (x, length (encode_cbor (facility_type_cbor sc) x))"
    by (cases x) (simp_all add: facility_type_cbor_def facility_type_encode_def facility_type_decode_def facility_index_def
        facility_at_def MULTI_TRANSPORT_REMOTE_FACILITY_CONNECTION_TYPE_STR_def cbor_law.decode_at_encode [OF text_law])
qed

sublocale action_type: cbor_law "action_type_cbor sc"
  by (rule action_type_law)

sublocale facility_type: cbor_law "facility_type_cbor sc"
  by (rule facility_type_law)

lemma action_law:
  assumes "boost_strings b"
  shows "cbor_law_on (\<lambda>(t, c, l, d). locator_ok l) (action_cbor b sc ac)"
  unfolding action_cbor_def
  by (rule fields_law [OF _ _ action_type_law facility_type_law locator_cbor_law [OF assms text_law]]) simp_all

lemma action_back:
  "boost_strings b \<Longrightarrow> locator_ok (facilityLocator x) \<Longrightarrow>
    action_decode b sc ac (pre @ action_encode b sc ac x @ post) (length pre) = Some (x, length (action_encode b sc ac x))"
  by (simp add: action_decode_def action_encode_def cbor_law_onD [OF action_law])

end

definition ref_action_codec :: action_codec where
  "ref_action_codec = (\<lambda>ns tc fc lc. named_cbor ns (pair_cbor tc (pair_cbor fc (pair_cbor lc string_cbor))))"

interpretation ref_action_codec: action_codec_laws string_cbor ref_action_codec
proof
  fix ns and tc :: "action_type cbor" and fc :: "facility_type cbor" and P :: "ConnectionLocator \<Rightarrow> bool" and lc
  assume c: "cbor_law tc" "cbor_law fc" "cbor_law_on P lc"
  have "cbor_law_on (\<lambda>(t, r). True \<and> (case r of (c, q) \<Rightarrow> True \<and> (case q of (l, d) \<Rightarrow> P l \<and> True))) (ref_action_codec ns tc fc lc)"
    unfolding ref_action_codec_def
    by (intro named_law_on pair_law_on c(3) cbor_law_everywhere c(1,2) string_cbor.cbor_law_axioms)
  then show "cbor_law_on (\<lambda>(t, c, l, d). P l) (ref_action_codec ns tc fc lc)"
    by (simp add: cbor_law_on_def)
qed

text \<open>An action with a well-formed locator, sent as CBOR anywhere inside a message, is received unchanged, with the number of its bytes.\<close>

theorem action_roundtrip:
  assumes "boost_strings b" and "action_codec_laws sc ac" and "locator_ok (facilityLocator x)"
  shows "action_decode b sc ac (pre @ action_encode b sc ac x @ post) (length pre) = Some (x, length (action_encode b sc ac x))"
  by (rule action_codec_laws.action_back [OF assms(2,1,3)])

theorem action_roundtrip_witness:
  "action_decode boost_ref string_cbor ref_action_codec (''p'' @ action_encode boost_ref string_cbor ref_action_codec
      \<lparr>actionType = Deregister, facilityType = JsonREST, facilityLocator = sample_locator, description = ''calc''\<rparr> @ ''q'') (length ''p'') =
    Some (\<lparr>actionType = Deregister, facilityType = JsonREST, facilityLocator = sample_locator, description = ''calc''\<rparr>,
      length (action_encode boost_ref string_cbor ref_action_codec
        \<lparr>actionType = Deregister, facilityType = JsonREST, facilityLocator = sample_locator, description = ''calc''\<rparr>))"
  by (rule action_roundtrip [OF boost_ref.boost_strings_axioms ref_action_codec.action_codec_laws_axioms])
     (simp add: sample_locator_is_ok)

section \<open>The class \<open>MultiTransportRemoteFacility\<close>\<close>

text \<open>
  A \<open>RequestSender\<close> is the closure that \<open>registerFacility\<close> builds: what it captures is the component it calls, the locator, the client's number
  at that component and the hooks. The facility owns the closures through \<open>unique_ptr\<close>s in a vector and, for the designated
  strategy, keeps plain pointers to them in a map. The object behind a pointer is looked up in a heap.
\<close>

datatype DispatchStrategy = Random | Designated

record request_sender =
  sender_type :: facility_type
  sender_locator :: ConnectionLocator
  sender_client :: uint32
  sender_hooks :: "ByteDataHookPair option"

record 's RemoteFacility =
  underlyingSenders :: "(ConnectionLocator \<times> nat) list"
  senderMap :: "ConnectionLocator \<rightharpoonup> nat"
  clientNumberRecord :: "ConnectionLocator \<rightharpoonup> uint32"
  sender_heap :: "nat \<rightharpoonup> request_sender"
  next_sender :: nat
  components :: 's

definition new_facility :: "'s \<Rightarrow> 's RemoteFacility" where
  "new_facility r = \<lparr>underlyingSenders = [], senderMap = Map.empty, clientNumberRecord = Map.empty, sender_heap = Map.empty,
     next_sender = 0, components = r\<rparr>"

text \<open>
  The transports' RPC components: which of them the environment derives from (\<open>has_component\<close>), which of these work with the identity and
  the types of the facility (\<open>usable\<close>), and their calls. The exceptions of a component's own class are caught, others are not; the
  use of a deleted object is an error of the model.
\<close>

datatype rpc_error = ComponentException string | OtherException string | DeletedObject nat

record 's rpc_service =
  has_component :: "facility_type \<Rightarrow> bool"
  usable :: "facility_type \<Rightarrow> bool"
  set_rpc_client :: "facility_type \<Rightarrow> ConnectionLocator \<Rightarrow> ByteDataHookPair option \<Rightarrow> ('s, rpc_error, uint32) call"
  remove_rpc_client :: "facility_type \<Rightarrow> ConnectionLocator \<Rightarrow> uint32 \<Rightarrow> 's \<Rightarrow> 's"

text \<open>The parameters of the class. \<open>identity_component\<close> is the component that attaches an identity to requests and checks it on replies, if any.\<close>

record ('ty, 'a, 'b) facility_config =
  strategy :: DispatchStrategy
  hookPairFactory :: "string \<Rightarrow> ConnectionLocator \<Rightarrow> ByteDataHookPair option"
  client_hooks_env :: "'ty hook_env"
  request_type :: 'ty
  reply_type :: 'ty
  serialize_request :: "'a \<Rightarrow> string"
  facility_boost :: boost
  csv_fields :: "'a \<Rightarrow> (string \<times> string) list option"
  json_text :: "'a \<Rightarrow> bool \<Rightarrow> string"
  raw_string_with_status :: bool
  deserialize_reply :: "string \<Rightarrow> 'b option"
  identity_component :: "((string \<Rightarrow> string) \<times> (string \<Rightarrow> string option)) option"

text \<open>The components that number their clients.\<close>

definition numbered :: "facility_type \<Rightarrow> bool" where
  "numbered t \<longleftrightarrow> t \<in> {RabbitMQ, Redis, WebSocket}"

text \<open>Adding a sender; \<open>insert\<close> of the map keeps an entry that is there.\<close>

definition push_sender :: "('ty, 'a, 'b) facility_config \<Rightarrow> request_sender \<Rightarrow> 's RemoteFacility \<Rightarrow> nat \<times> 's RemoteFacility" where
  "push_sender cfg req f =
     (let p = next_sender f; l = sender_locator req; us = underlyingSenders f @ [(l, p)] in
      (length us,
       f\<lparr>underlyingSenders := us,
         senderMap := (if strategy cfg = Designated \<and> senderMap f l = None then (senderMap f)(l \<mapsto> p) else senderMap f),
         sender_heap := (sender_heap f)(p \<mapsto> req), next_sender := p + 1\<rparr>))"

definition register_sender :: "('ty, 'a, 'b) facility_config \<Rightarrow> 's rpc_service \<Rightarrow> facility_type \<Rightarrow> ConnectionLocator \<Rightarrow> string
    \<Rightarrow> ('s RemoteFacility, rpc_error, nat) call" where
  "register_sender cfg svc t locator descr f =
     (if \<not> (has_component svc t \<and> usable svc t) then returnS 0 f
      else if t = JsonREST then
        (let (newSize, f') = push_sender cfg \<lparr>sender_type = t, sender_locator = locator, sender_client = 0, sender_hooks = None\<rparr> f in
         returnS newSize f')
      else
        (let hooks = supplyFacilityHookPair_ClientSide (client_hooks_env cfg) (request_type cfg) (reply_type cfg)
               (hookPairFactory cfg descr locator) in
         case set_rpc_client svc t locator hooks (components f) of
           (Inr n, r) \<Rightarrow>
             (let clientNumber = (if numbered t then n else 0);
                  (newSize, f') = push_sender cfg
                    \<lparr>sender_type = t, sender_locator = locator, sender_client = clientNumber, sender_hooks = hooks\<rparr> (f\<lparr>components := r\<rparr>) in
              returnS newSize
                (if numbered t then f'\<lparr>clientNumberRecord := (clientNumberRecord f')(locator \<mapsto> clientNumber)\<rparr> else f'))
         | (Inl e, r) \<Rightarrow> (case e of ComponentException m \<Rightarrow> returnS 0 | _ \<Rightarrow> throwS e) (f\<lparr>components := r\<rparr>)))"

text \<open>The result is a \<open>std::tuple<bool, std::size_t>\<close> built from the pair of the new size and \<open>true\<close>: both are converted.\<close>

definition registerFacility :: "('ty, 'a, 'b) facility_config \<Rightarrow> 's rpc_service \<Rightarrow> facility_type \<Rightarrow> ConnectionLocator \<Rightarrow> string
    \<Rightarrow> ('s RemoteFacility, rpc_error, bool \<times> nat) call" where
  "registerFacility cfg svc t locator descr =
     bindS (register_sender cfg svc t locator descr) (\<lambda>newSize. returnS (newSize \<noteq> 0, of_bool True))"

text \<open>Whatever the type, the senders with an equal locator are removed; the client's number is looked up and forgotten.\<close>

definition deregisterFacility :: "('ty, 'a, 'b) facility_config \<Rightarrow> 's rpc_service \<Rightarrow> facility_type \<Rightarrow> ConnectionLocator
    \<Rightarrow> ('s RemoteFacility, rpc_error, nat \<times> bool) call" where
  "deregisterFacility cfg svc t locator f =
     (if \<not> has_component svc t then returnS (0, True) f
      else
        (let clientNumber = (if numbered t then case clientNumberRecord f locator of Some n \<Rightarrow> n | None \<Rightarrow> 0 else 0);
             us = filter (\<lambda>x. \<not> locator_eq (fst x) locator) (underlyingSenders f);
             gone = snd ` set (filter (\<lambda>x. locator_eq (fst x) locator) (underlyingSenders f)) in
         returnS (length us, True)
           (f\<lparr>clientNumberRecord := (if numbered t then (clientNumberRecord f)(locator := None) else clientNumberRecord f),
              components := (if t = JsonREST then components f else remove_rpc_client svc t locator clientNumber (components f)),
              senderMap := (if strategy cfg = Designated then (senderMap f)(locator := None) else senderMap f),
              underlyingSenders := us,
              sender_heap := (sender_heap f) |` (- gone)\<rparr>)))"

text \<open>What the facility publishes for an action.\<close>

datatype facility_report = UnderlyingCount nat | ActionResult FacilityAction bool

definition report :: "('ty, 'a, 'b) facility_config \<Rightarrow> FacilityAction \<Rightarrow> nat \<times> bool \<Rightarrow> facility_report" where
  "report cfg action handled =
     (case strategy cfg of
        Random \<Rightarrow> UnderlyingCount (fst handled)
      | Designated \<Rightarrow> ActionResult action (snd handled))"

text \<open>The result of \<open>registerFacility\<close> is converted to a \<open>std::tuple<std::size_t, bool>\<close>.\<close>

definition actuallyHandleFacilityAction :: "('ty, 'a, 'b) facility_config \<Rightarrow> 's rpc_service \<Rightarrow> FacilityAction
    \<Rightarrow> ('s RemoteFacility, rpc_error, facility_report) call" where
  "actuallyHandleFacilityAction cfg svc action =
     (case actionType action of
        Register \<Rightarrow>
          bindS (registerFacility cfg svc (facilityType action) (facilityLocator action) (description action))
            (\<lambda>(b, n). returnS (report cfg action (of_bool b, n \<noteq> 0)))
      | Deregister \<Rightarrow>
          bindS (deregisterFacility cfg svc (facilityType action) (facilityLocator action))
            (\<lambda>handled. returnS (report cfg action handled)))"

text \<open>
  The sender a request goes to. \<open>r\<close> is what \<open>std::rand\<close> returns; the size is converted to \<open>int\<close>, and \<open>%\<close> on \<open>int\<close> truncates
  towards zero. An index out of range and a deleted sender are errors of the model.
\<close>

datatype dispatch_error = IndexOutOfRange int | DeletedSender nat

definition deref_sender :: "'s RemoteFacility \<Rightarrow> nat \<Rightarrow> dispatch_error + request_sender option" where
  "deref_sender f p = (case sender_heap f p of Some q \<Rightarrow> Inr (Some q) | None \<Rightarrow> Inl (DeletedSender p))"

definition random_index :: "int \<Rightarrow> nat \<Rightarrow> int" where
  "random_index r n = (let sz = sint (of_nat n :: 32 word) in if sz = 1 then 0 else r smod sz)"

definition pick_sender :: "('ty, 'a, 'b) facility_config \<Rightarrow> int \<Rightarrow> ConnectionLocator \<Rightarrow> 's RemoteFacility
    \<Rightarrow> dispatch_error + request_sender option" where
  "pick_sender cfg r target f =
     (case strategy cfg of
        Random \<Rightarrow>
          (if underlyingSenders f = [] then Inr None
           else (let idx = random_index r (length (underlyingSenders f)) in
             if 0 \<le> idx \<and> nat idx < length (underlyingSenders f)
             then deref_sender f (snd (underlyingSenders f ! nat idx))
             else Inl (IndexOutOfRange idx)))
      | Designated \<Rightarrow>
          (case senderMap f target of Some p \<Rightarrow> deref_sender f p | None \<Rightarrow> Inr None))"

text \<open>
  What a sender hands to its component: bytes, with the identity attached where there is one, or for JSON REST the query string and the body of an
  HTTP request, with the locator it goes to. \<open>pairs\<close> are the names and values of a request whose type has only simple fields, \<open>text_of w\<close> its JSON
  text, inside an object with the field \<open>request\<close> if \<open>w\<close>. \<open>raw\<close> is whether the reply's type is \<open>RawStringWithStatus\<close>, for which the headers of the response
  are asked for.
\<close>

datatype request_payload = Bytes string | HttpRequest ConnectionLocator string string

definition json_request :: "boost \<Rightarrow> bool \<Rightarrow> (string \<times> string) list option \<Rightarrow> (bool \<Rightarrow> string) \<Rightarrow> ConnectionLocator \<Rightarrow> request_payload" where
  "json_request b raw pairs text_of locator =
     (let noRequestResponseWrap = (query b locator ''no_wrap'' ''false'' = ''true'');
          to = (if raw then addProperty locator ''parse_header'' ''true'' else locator) in
      case pairs of
        Some nvs \<Rightarrow>
          if query b locator ''use_get'' ''false'' = ''true'' then HttpRequest to (toQueryString False nvs) ''''
          else HttpRequest to '''' (text_of (\<not> noRequestResponseWrap))
      | None \<Rightarrow> HttpRequest to '''' (text_of (\<not> noRequestResponseWrap)))"

definition request_payload_of :: "('ty, 'a, 'b) facility_config \<Rightarrow> request_sender \<Rightarrow> 'a \<Rightarrow> request_payload" where
  "request_payload_of cfg s data =
     (if sender_type s = JsonREST then
        json_request (facility_boost cfg) (raw_string_with_status cfg) (csv_fields cfg data) (json_text cfg data) (sender_locator s)
      else (case identity_component cfg of
        Some (attach, _) \<Rightarrow>
          Bytes (if sender_type s = GrpcInterop then serialize_request cfg data else attach (serialize_request cfg data))
      | None \<Rightarrow> Bytes (serialize_request cfg data)))"

definition actuallyHandleInput :: "('ty, 'a, 'b) facility_config \<Rightarrow> int \<Rightarrow> string \<Rightarrow> ConnectionLocator \<Rightarrow> 'a \<Rightarrow> 's RemoteFacility
    \<Rightarrow> dispatch_error + (request_sender \<times> string \<times> request_payload) option" where
  "actuallyHandleInput cfg r i target data f =
     bindE (pick_sender cfg r target f) (\<lambda>q. Inr (map_option (\<lambda>s. (s, i, request_payload_of cfg s data)) q))"

text \<open>The callback of a component with a reply, for the types whose replies are bytes: what is published.\<close>

definition handle_reply :: "('ty, 'a, 'b) facility_config \<Rightarrow> bool \<Rightarrow> string \<Rightarrow> string \<Rightarrow> (string \<times> 'b \<times> bool) option" where
  "handle_reply cfg isFinal i content =
     (case identity_component cfg of
        None \<Rightarrow> map_option (\<lambda>out. (i, out, isFinal)) (deserialize_reply cfg content)
      | Some (_, process) \<Rightarrow>
          (case process content of
             Some c \<Rightarrow> map_option (\<lambda>out. (i, out, isFinal)) (deserialize_reply cfg c)
           | None \<Rightarrow> None))"

text \<open>The callback for gRPC, where an absent reply may end the request.\<close>

datatype 'b grpc_effect = Published string 'b bool | EndOfRequest string | Ignored

definition handle_grpc_reply :: "('ty, 'a, 'b) facility_config \<Rightarrow> bool \<Rightarrow> string \<Rightarrow> string option \<Rightarrow> 'b grpc_effect" where
  "handle_grpc_reply cfg isFinal i content =
     (case content of
        Some c \<Rightarrow> (case deserialize_reply cfg c of Some out \<Rightarrow> Published i out isFinal | None \<Rightarrow> Ignored)
      | None \<Rightarrow> if isFinal then EndOfRequest i else Ignored)"

section \<open>The interface to the components\<close>

text \<open>
  What a facility relies on: a component that numbers its clients gives each one a number, never 0, that no other client of the same
  locator has, and removes just the client it is told to. \<open>clients s t l\<close> are the numbers in use; \<open>room\<close> bounds the numbers that are left.
\<close>

locale rpc_components =
  fixes svc :: "'s rpc_service"
    and ok :: "'s \<Rightarrow> bool" and room :: "nat \<Rightarrow> 's \<Rightarrow> bool"
    and clients :: "'s \<Rightarrow> facility_type \<Rightarrow> ConnectionLocator \<Rightarrow> uint32 set"
  assumes set_law: "ok s \<Longrightarrow> room (Suc n) s \<Longrightarrow> has_component svc t \<Longrightarrow> usable svc t \<Longrightarrow> t \<noteq> JsonREST \<Longrightarrow>
      ok (snd (set_rpc_client svc t l h s)) \<and> room n (snd (set_rpc_client svc t l h s)) \<and>
      (case fst (set_rpc_client svc t l h s) of
         Inr i \<Rightarrow>
           if numbered t then i \<notin> clients s t l \<and>
             clients (snd (set_rpc_client svc t l h s)) = (clients s)(t := (clients s t)(l := insert i (clients s t l)))
           else clients (snd (set_rpc_client svc t l h s)) = clients s
       | Inl e \<Rightarrow> clients (snd (set_rpc_client svc t l h s)) = clients s)"
    and remove_law: "ok s \<Longrightarrow> has_component svc t \<Longrightarrow> t \<noteq> JsonREST \<Longrightarrow>
      ok (remove_rpc_client svc t l i s) \<and> (room n s \<longrightarrow> room n (remove_rpc_client svc t l i s)) \<and>
      clients (remove_rpc_client svc t l i s) =
        (if numbered t then (clients s)(t := (clients s t)(l := clients s t l - {i})) else clients s)"
    and room_less: "room (Suc n) s \<Longrightarrow> room n s"
    and zero_unused: "ok s \<Longrightarrow> 0 \<notin> clients s t l"

text \<open>The senders a facility has, with the component and the client's number of each.\<close>

definition registered :: "'s RemoteFacility \<Rightarrow> ConnectionLocator \<rightharpoonup> facility_type \<times> uint32" where
  "registered f l = Option.bind (map_of (underlyingSenders f) l)
     (\<lambda>p. map_option (\<lambda>q. (sender_type q, sender_client q)) (sender_heap f p))"

text \<open>
  The registrations that a list of actions asks for, and lists in which a locator is registered when it is not, and
  deregistered, if it is, for the component it was registered for.
\<close>

definition wish :: "FacilityAction \<Rightarrow> (ConnectionLocator \<rightharpoonup> facility_type) \<Rightarrow> ConnectionLocator \<rightharpoonup> facility_type" where
  "wish a m = (case actionType a of Register \<Rightarrow> m(facilityLocator a \<mapsto> facilityType a) | Deregister \<Rightarrow> m(facilityLocator a := None))"

definition orderly_action :: "(ConnectionLocator \<rightharpoonup> facility_type) \<Rightarrow> FacilityAction \<Rightarrow> bool" where
  "orderly_action m a \<longleftrightarrow>
     (case actionType a of
        Register \<Rightarrow> m (facilityLocator a) = None
      | Deregister \<Rightarrow> m (facilityLocator a) \<in> {None, Some (facilityType a)})"

fun orderly :: "(ConnectionLocator \<rightharpoonup> facility_type) \<Rightarrow> FacilityAction list \<Rightarrow> bool" where
  "orderly m [] \<longleftrightarrow> True"
| "orderly m (a # as) \<longleftrightarrow> orderly_action m a \<and> orderly (wish a m) as"

lemma locator_eq_iff [simp]: "locator_eq x y \<longleftrightarrow> x = y"
  by (cases x; cases y) (simp add: locator_eq_def)

text \<open>
  The invariant: each locator has one sender, whose closure lives, is of the wished component and has its number in the record; the map of
  the designated strategy points to these senders and nothing else; there are no other closures.
\<close>

definition sender_ok :: "'s rpc_service \<Rightarrow> (ConnectionLocator \<rightharpoonup> facility_type) \<Rightarrow> 's RemoteFacility \<Rightarrow> ConnectionLocator \<times> nat \<Rightarrow> bool" where
  "sender_ok svc m f e \<longleftrightarrow> (\<exists>q. sender_heap f (snd e) = Some q \<and> sender_locator q = fst e \<and> m (fst e) = Some (sender_type q)
     \<and> has_component svc (sender_type q)
     \<and> clientNumberRecord f (fst e) = (if numbered (sender_type q) then Some (sender_client q) else None))"

definition senders_ok :: "('ty, 'a, 'b) facility_config \<Rightarrow> 's rpc_service \<Rightarrow> (ConnectionLocator \<rightharpoonup> facility_type) \<Rightarrow> 's RemoteFacility \<Rightarrow> bool" where
  "senders_ok cfg svc m f \<longleftrightarrow>
     distinct (map fst (underlyingSenders f)) \<and> distinct (map snd (underlyingSenders f))
     \<and> (\<forall>e \<in> set (underlyingSenders f). sender_ok svc m f e)
     \<and> dom (sender_heap f) = snd ` set (underlyingSenders f)
     \<and> (\<forall>p \<in> dom (sender_heap f). p < next_sender f)
     \<and> dom (clientNumberRecord f) \<subseteq> fst ` set (underlyingSenders f)
     \<and> senderMap f = (if strategy cfg = Designated then map_of (underlyingSenders f) else Map.empty)"

lemma senders_okD:
  assumes "senders_ok cfg svc m f"
  shows "distinct (map fst (underlyingSenders f))" "distinct (map snd (underlyingSenders f))"
    "(l, p) \<in> set (underlyingSenders f) \<Longrightarrow> sender_ok svc m f (l, p)"
    "dom (sender_heap f) = snd ` set (underlyingSenders f)" "sender_heap f p = Some q \<Longrightarrow> p < next_sender f"
    "dom (clientNumberRecord f) \<subseteq> fst ` set (underlyingSenders f)"
    "senderMap f = (if strategy cfg = Designated then map_of (underlyingSenders f) else Map.empty)"
  using assms unfolding senders_ok_def by blast+

lemma sender_okE:
  assumes "senders_ok cfg svc m f" and "map_of (underlyingSenders f) l = Some p"
  obtains q where "sender_heap f p = Some q" "sender_locator q = l" "m l = Some (sender_type q)" "has_component svc (sender_type q)"
    "clientNumberRecord f l = (if numbered (sender_type q) then Some (sender_client q) else None)"
    "registered f l = Some (sender_type q, sender_client q)"
proof -
  have "sender_ok svc m f (l, p)"
    using senders_okD(3) [OF assms(1)] assms(2) map_of_SomeD by fastforce
  then show thesis
    using that assms(2) by (auto simp: sender_ok_def registered_def)
qed

lemma registered_None: "senders_ok cfg svc m f \<Longrightarrow> registered f l = None \<longleftrightarrow> map_of (underlyingSenders f) l = None"
  by (cases "map_of (underlyingSenders f) l") (auto simp: registered_def elim: sender_okE)

lemma registered_wished: "senders_ok cfg svc m f \<Longrightarrow> registered f l = Some (t, n) \<Longrightarrow> m l = Some t \<and> has_component svc t"
  by (cases "map_of (underlyingSenders f) l") (auto simp: registered_def elim: sender_okE)

lemma unwished: "senders_ok cfg svc m f \<Longrightarrow> m l = None \<Longrightarrow> map_of (underlyingSenders f) l = None"
  by (cases "map_of (underlyingSenders f) l") (auto elim: sender_okE)

lemma senders_ok_components [simp]: "senders_ok cfg svc m (f\<lparr>components := r\<rparr>) = senders_ok cfg svc m f"
  by (simp add: senders_ok_def sender_ok_def)

lemma registered_components [simp]: "registered (f\<lparr>components := r\<rparr>) = registered f"
  by (simp add: registered_def fun_eq_iff)

text \<open>A wish for a locator that has no sender changes nothing.\<close>

lemma senders_ok_wish:
  assumes "senders_ok cfg svc m f" and "map_of (underlyingSenders f) l = None"
  shows "senders_ok cfg svc (m(l := x)) f"
proof -
  have "l \<notin> fst ` set (underlyingSenders f)"
    using assms(2) by (simp add: map_of_eq_None_iff)
  then have "sender_ok svc (m(l := x)) f e \<longleftrightarrow> sender_ok svc m f e" if "e \<in> set (underlyingSenders f)" for e
    using that by (auto simp: sender_ok_def)
  then show ?thesis
    using assms(1) by (simp add: senders_ok_def)
qed

text \<open>What registering leaves: the closure is stored, and its number recorded if the component numbers its clients.\<close>

definition with_sender :: "('ty, 'a, 'b) facility_config \<Rightarrow> request_sender \<Rightarrow> 's RemoteFacility \<Rightarrow> 's RemoteFacility" where
  "with_sender cfg q f =
     (let f' = snd (push_sender cfg q f) in
      if numbered (sender_type q) then f'\<lparr>clientNumberRecord := (clientNumberRecord f')(sender_locator q \<mapsto> sender_client q)\<rparr> else f')"

lemma with_sender_simps [simp]:
  "underlyingSenders (with_sender cfg q f) = underlyingSenders f @ [(sender_locator q, next_sender f)]"
  "sender_heap (with_sender cfg q f) = (sender_heap f)(next_sender f \<mapsto> q)"
  "next_sender (with_sender cfg q f) = next_sender f + 1"
  "components (with_sender cfg q f) = components f"
  "clientNumberRecord (with_sender cfg q f) =
     (if numbered (sender_type q) then (clientNumberRecord f)(sender_locator q \<mapsto> sender_client q) else clientNumberRecord f)"
  "senderMap (with_sender cfg q f) =
     (if strategy cfg = Designated \<and> senderMap f (sender_locator q) = None then (senderMap f)(sender_locator q \<mapsto> next_sender f) else senderMap f)"
  by (simp_all add: with_sender_def push_sender_def Let_def)

lemma with_sender_ok:
  assumes ok: "senders_ok cfg svc m f" and new: "map_of (underlyingSenders f) (sender_locator q) = None"
    and h: "has_component svc (sender_type q)"
  shows "senders_ok cfg svc (m(sender_locator q \<mapsto> sender_type q)) (with_sender cfg q f)"
    and "registered (with_sender cfg q f) = (registered f)(sender_locator q \<mapsto> (sender_type q, sender_client q))"
proof -
  let ?l = "sender_locator q" and ?p = "next_sender f" and ?g = "with_sender cfg q f" and ?m = "m(sender_locator q \<mapsto> sender_type q)"
  have l: "?l \<notin> fst ` set (underlyingSenders f)"
    using new by (simp add: map_of_eq_None_iff)
  have p: "?p \<notin> dom (sender_heap f)"
    using senders_okD(5) [OF ok] by blast
  have ps: "?p \<notin> snd ` set (underlyingSenders f)"
    using p senders_okD(4) [OF ok] by simp
  have rec: "clientNumberRecord f ?l = None"
    using l senders_okD(6) [OF ok] by blast
  have old: "sender_ok svc ?m ?g e" if "e \<in> set (underlyingSenders f)" for e
  proof -
    have "fst e \<noteq> ?l" "snd e \<noteq> ?p"
      using imageI [OF that] l ps by metis+
    moreover have "sender_ok svc m f e"
      using senders_okD(3) [OF ok] that by (metis prod.collapse)
    ultimately show ?thesis
      by (auto simp: sender_ok_def)
  qed
  have new_ok: "sender_ok svc ?m ?g (?l, ?p)"
    using rec h by (auto simp: sender_ok_def)
  have maps: "senderMap f ?l = None" if "strategy cfg = Designated"
    using senders_okD(7) [OF ok] new that by simp
  show "senders_ok cfg svc ?m ?g"
    unfolding senders_ok_def
  proof (intro conjI)
    show "distinct (map fst (underlyingSenders ?g))" "distinct (map snd (underlyingSenders ?g))"
      using senders_okD(1,2) [OF ok] l ps by auto
    show "\<forall>e \<in> set (underlyingSenders ?g). sender_ok svc ?m ?g e"
      using old new_ok by auto
    show "dom (sender_heap ?g) = snd ` set (underlyingSenders ?g)"
      using senders_okD(4) [OF ok] by auto
    show "\<forall>p \<in> dom (sender_heap ?g). p < next_sender ?g"
      using senders_okD(5) [OF ok] by (auto simp: less_Suc_eq)
    show "dom (clientNumberRecord ?g) \<subseteq> fst ` set (underlyingSenders ?g)"
      using senders_okD(6) [OF ok] by auto
    show "senderMap ?g = (if strategy cfg = Designated then map_of (underlyingSenders ?g) else Map.empty)"
      using senders_okD(7) [OF ok] maps new by (auto simp: fun_eq_iff map_add_def split: option.split)
  qed
  show "registered ?g = (registered f)(?l \<mapsto> (sender_type q, sender_client q))"
  proof
    fix k
    have "map_of (underlyingSenders f) k = Some p' \<Longrightarrow> p' \<noteq> ?p" for p'
      using ps by (force dest: map_of_SomeD)
    then show "registered ?g k = ((registered f)(?l \<mapsto> (sender_type q, sender_client q))) k"
      using new by (cases "map_of (underlyingSenders f) k") (auto simp: registered_def map_add_def)
  qed
qed

text \<open>What deregistering leaves.\<close>

lemma without_sender_ok:
  assumes ok: "senders_ok cfg svc m f"
    and us: "underlyingSenders g = filter (\<lambda>x. fst x \<noteq> l) (underlyingSenders f)"
    and hp: "sender_heap g = sender_heap f |` (- snd ` set (filter (\<lambda>x. fst x = l) (underlyingSenders f)))"
    and nx: "next_sender g = next_sender f"
    and rec: "clientNumberRecord g = (clientNumberRecord f)(l := None)"
    and sm: "senderMap g = (if strategy cfg = Designated then (senderMap f)(l := None) else senderMap f)"
  shows "senders_ok cfg svc (m(l := None)) g" and "registered g = (registered f)(l := None)"
proof -
  let ?U = "underlyingSenders f"
  have live: "p \<notin> snd ` set (filter (\<lambda>x. fst x = l) ?U)" if "(k, p) \<in> set ?U" "k \<noteq> l" for k p
  proof
    assume "p \<in> snd ` set (filter (\<lambda>x. fst x = l) ?U)"
    then have "(l, p) \<in> set ?U"
      by auto
    with that show False
      using senders_okD(2) [OF ok] by (metis eq_key_imp_eq_value distinct_map inj_on_def fst_conv snd_conv)
  qed
  have maps: "map_of (filter (\<lambda>x. fst x \<noteq> l) us) = (map_of us)(l := None)" for us :: "(ConnectionLocator \<times> nat) list"
    by (induction us) (auto simp: fun_eq_iff)
  show "senders_ok cfg svc (m(l := None)) g"
    unfolding senders_ok_def
  proof (intro conjI)
    show "distinct (map fst (underlyingSenders g))" "distinct (map snd (underlyingSenders g))"
      unfolding us using senders_okD(1,2) [OF ok] by (auto intro: distinct_map_filter)
    show "\<forall>e \<in> set (underlyingSenders g). sender_ok svc (m(l := None)) g e"
    proof
      fix e
      assume "e \<in> set (underlyingSenders g)"
      then have e: "e \<in> set ?U" "fst e \<noteq> l"
        by (auto simp: us)
      then have "sender_ok svc m f e"
        using senders_okD(3) [OF ok] by (metis prod.collapse)
      then show "sender_ok svc (m(l := None)) g e"
        using e live [of "fst e" "snd e"] by (auto simp: sender_ok_def hp rec)
    qed
    show "dom (sender_heap g) = snd ` set (underlyingSenders g)"
    proof -
      have vals: "snd ` A = {p. \<exists>k. (k, p) \<in> A}" for A :: "(ConnectionLocator \<times> nat) set"
        by force
      have "dom (sender_heap g) = {p. (\<exists>k. (k, p) \<in> set ?U) \<and> (l, p) \<notin> set ?U}"
        unfolding hp dom_restrict senders_okD(4) [OF ok] vals by auto
      moreover have "snd ` set (underlyingSenders g) = {p. \<exists>k. (k, p) \<in> set ?U \<and> k \<noteq> l}"
        unfolding us vals by simp
      moreover have "(l, p) \<notin> set ?U" if "(k, p) \<in> set ?U" "k \<noteq> l" for k p
        using live [OF that] unfolding vals by simp
      ultimately show ?thesis
        by blast
    qed
    show "\<forall>p \<in> dom (sender_heap g). p < next_sender g"
      using senders_okD(5) [OF ok] by (auto simp: hp nx restrict_map_def split: if_splits)
    show "dom (clientNumberRecord g) \<subseteq> fst ` set (underlyingSenders g)"
    proof -
      have "fst ` set (underlyingSenders g) = fst ` set ?U - {l}"
        by (auto simp: us image_iff)
      then show ?thesis
        using senders_okD(6) [OF ok] by (auto simp: rec)
    qed
    show "senderMap g = (if strategy cfg = Designated then map_of (underlyingSenders g) else Map.empty)"
      using senders_okD(7) [OF ok] by (simp add: sm us maps)
  qed
  show "registered g = (registered f)(l := None)"
  proof
    fix k
    show "registered g k = ((registered f)(l := None)) k"
    proof (cases "map_of ?U k")
      case (Some p)
      then have "k \<noteq> l \<Longrightarrow> p \<notin> snd ` set (filter (\<lambda>x. fst x = l) ?U)"
        using live map_of_SomeD by fast
      then show ?thesis
        using Some by (auto simp: registered_def us maps hp)
    qed (simp add: registered_def us maps)
  qed
qed

text \<open>The ways registering can go: no sender, or one more sender; then the size is reported.\<close>

lemma register_sender_cases:
  assumes "register_sender cfg svc t l d f = (r, f')"
  obtains (unsupported) "\<not> (has_component svc t \<and> usable svc t)" "r = Inr 0" "f' = f"
    | (json) q where "has_component svc t" "usable svc t" "t = JsonREST" "sender_type q = t" "sender_locator q = l"
        "f' = with_sender cfg q f" "r = Inr (length (underlyingSenders f) + 1)"
    | (opened) q n h s' where "has_component svc t" "usable svc t" "t \<noteq> JsonREST" "set_rpc_client svc t l h (components f) = (Inr n, s')"
        "sender_type q = t" "sender_locator q = l" "numbered t \<Longrightarrow> sender_client q = n"
        "f' = with_sender cfg q (f\<lparr>components := s'\<rparr>)" "r = Inr (length (underlyingSenders f) + 1)"
    | (refused) e h s' where "has_component svc t" "usable svc t" "t \<noteq> JsonREST" "set_rpc_client svc t l h (components f) = (Inl e, s')"
        "f' = f\<lparr>components := s'\<rparr>" "r = Inr 0 \<or> r = Inl e"
proof (cases "has_component svc t \<and> usable svc t")
  case False
  then show thesis
    using assms unsupported by (simp add: register_sender_def returnS_def)
next
  case sup: True
  show thesis
  proof (cases "t = JsonREST")
    case True
    then show thesis
      using assms sup
      by (intro json [of "\<lparr>sender_type = t, sender_locator = l, sender_client = 0, sender_hooks = None\<rparr>"])
        (auto simp: register_sender_def returnS_def with_sender_def push_sender_def numbered_def Let_def)
  next
    case nj: False
    define h where "h = supplyFacilityHookPair_ClientSide (client_hooks_env cfg) (request_type cfg) (reply_type cfg) (hookPairFactory cfg d l)"
    obtain o' s' where o': "set_rpc_client svc t l h (components f) = (o', s')"
      by fastforce
    show thesis
    proof (cases o')
      case (Inr n)
      define q where "q = \<lparr>sender_type = t, sender_locator = l, sender_client = (if numbered t then n else 0), sender_hooks = h\<rparr>"
      have "f' = with_sender cfg q (f\<lparr>components := s'\<rparr>)" "r = Inr (length (underlyingSenders f) + 1)"
        using assms sup nj o' Inr
        by (auto simp: register_sender_def returnS_def with_sender_def push_sender_def Let_def h_def [symmetric] q_def)
      then show thesis
        using sup nj o' Inr by (intro opened [of h n s' q]) (auto simp: q_def)
    next
      case (Inl e)
      then have "f' = f\<lparr>components := s'\<rparr>" "r = Inr 0 \<or> r = Inl e"
        using assms sup nj o'
        by (auto simp: register_sender_def returnS_def throwS_def Let_def h_def [symmetric] split: rpc_error.splits)
      then show thesis
        using sup nj o' Inl by (intro refused [of h e s']) auto
    qed
  qed
qed

context rpc_components
begin

definition facility_ok :: "('ty, 'a, 'b) facility_config \<Rightarrow> (ConnectionLocator \<rightharpoonup> facility_type)
    \<Rightarrow> (facility_type \<Rightarrow> ConnectionLocator \<Rightarrow> uint32 set) \<Rightarrow> 's RemoteFacility \<Rightarrow> bool" where
  "facility_ok cfg m base f \<longleftrightarrow> senders_ok cfg svc m f \<and> ok (components f)
     \<and> clients (components f) = (\<lambda>t l. base t l \<union> {n. numbered t \<and> registered f l = Some (t, n)})
     \<and> (\<forall>t l n. numbered t \<and> registered f l = Some (t, n) \<longrightarrow> n \<notin> base t l)"

lemma facility_okD:
  assumes "facility_ok cfg m base f"
  shows "senders_ok cfg svc m f" "ok (components f)"
    "clients (components f) = (\<lambda>t l. base t l \<union> {n. numbered t \<and> registered f l = Some (t, n)})"
    "numbered t \<Longrightarrow> registered f l = Some (t, n) \<Longrightarrow> n \<notin> base t l"
  using assms unfolding facility_ok_def by blast+

lemma facility_ok_wish:
  "facility_ok cfg m base f \<Longrightarrow> map_of (underlyingSenders f) l = None \<Longrightarrow> facility_ok cfg (m(l := x)) base f"
  by (simp add: facility_ok_def senders_ok_wish)

lemma register_action_ok:
  assumes f: "facility_ok cfg m base f" and r: "room (Suc k) (components f)" and l: "m l = None"
    and g: "register_sender cfg svc t l d f = (res, f')"
  shows "facility_ok cfg (m(l \<mapsto> t)) base f' \<and> room k (components f')"
  using g
proof (cases rule: register_sender_cases)
  case unsupported
  then show ?thesis
    using facility_ok_wish [OF f unwished [OF facility_okD(1) [OF f] l]] room_less [OF r] by simp
next
  case (json q)
  have none: "map_of (underlyingSenders f) (sender_locator q) = None"
    using unwished [OF facility_okD(1) [OF f] l] json by simp
  have "registered f l = None"
    using none json registered_None [OF facility_okD(1) [OF f]] by simp
  then show ?thesis
    using with_sender_ok [OF facility_okD(1) [OF f] none] json facility_okD [OF f] room_less [OF r]
    by (auto simp: facility_ok_def numbered_def fun_eq_iff)
next
  case (opened q n h s')
  have none: "map_of (underlyingSenders (f\<lparr>components := s'\<rparr>)) (sender_locator q) = None"
    using unwished [OF facility_okD(1) [OF f] l] opened by simp
  have old: "registered f l = None"
    using none opened registered_None [OF facility_okD(1) [OF f]] by simp
  have law: "ok s'" "room k s'" "numbered t \<Longrightarrow> n \<notin> clients (components f) t l"
      "clients s' = (if numbered t then (clients (components f))(t := (clients (components f) t)(l := insert n (clients (components f) t l)))
         else clients (components f))"
    using set_law [OF facility_okD(2) [OF f] r opened(1-3), of l h] opened(4) by (auto split: if_splits)
  have cf: "components f' = s'"
    using opened(8) by simp
  have reg: "registered f' = (registered f)(l \<mapsto> (t, sender_client q))"
    using with_sender_ok(2) [of cfg svc m "f\<lparr>components := s'\<rparr>" q] facility_okD(1) [OF f] none opened by simp
  have "senders_ok cfg svc (m(l \<mapsto> t)) f'"
    using with_sender_ok(1) [of cfg svc m "f\<lparr>components := s'\<rparr>" q] facility_okD(1) [OF f] none opened by simp
  moreover have "clients (components f') = (\<lambda>t l. base t l \<union> {n. numbered t \<and> registered f' l = Some (t, n)})"
    using law(4) opened(7) facility_okD(3) [OF f] old by (auto simp: reg cf fun_eq_iff)
  moreover have "numbered u \<and> registered f' k' = Some (u, i) \<longrightarrow> i \<notin> base u k'" for u k' i
    using law(3) opened(7) facility_okD(3,4) [OF f] by (auto simp: reg)
  ultimately show ?thesis
    using law(1,2) by (simp add: facility_ok_def cf)
next
  case (refused e h s')
  then have "ok s'" "room k s'" "clients s' = clients (components f)"
    using set_law [OF facility_okD(2) [OF f] r refused(1-3), of l h] by auto
  then show ?thesis
    using facility_ok_wish [OF f unwished [OF facility_okD(1) [OF f] l]] refused(5) by (simp add: facility_ok_def)
qed

lemma deregister_action_ok:
  assumes f: "facility_ok cfg m base f" and r: "room k (components f)" and l: "m l \<in> {None, Some t}"
    and g: "deregisterFacility cfg svc t l f = (res, f')"
  shows "facility_ok cfg (m(l := None)) base f' \<and> room k (components f') \<and> registered f' = (registered f)(l := None)
    \<and> (\<exists>n. res = Inr (n, True))"
proof (cases "has_component svc t")
  case False
  have "map_of (underlyingSenders f) l = None"
  proof (rule ccontr)
    assume "map_of (underlyingSenders f) l \<noteq> None"
    then have "registered f l \<noteq> None"
      using registered_None [OF facility_okD(1) [OF f]] by simp
    then obtain u n where "registered f l = Some (u, n)"
      by auto
    then show False
      using registered_wished [OF facility_okD(1) [OF f]] l False by auto
  qed
  moreover from this have "registered f l = None"
    using registered_None [OF facility_okD(1) [OF f]] by simp
  ultimately show ?thesis
    using g False f r facility_ok_wish [OF f] by (auto simp: deregisterFacility_def returnS_def)
next
  case True
  define i where "i = (if numbered t then case clientNumberRecord f l of Some n \<Rightarrow> n | None \<Rightarrow> 0 else 0)"
  have f': "underlyingSenders f' = filter (\<lambda>x. fst x \<noteq> l) (underlyingSenders f)"
      "sender_heap f' = sender_heap f |` (- snd ` set (filter (\<lambda>x. fst x = l) (underlyingSenders f)))"
      "next_sender f' = next_sender f"
      "senderMap f' = (if strategy cfg = Designated then (senderMap f)(l := None) else senderMap f)"
      "components f' = (if t = JsonREST then components f else remove_rpc_client svc t l i (components f))"
      "clientNumberRecord f' = (if numbered t then (clientNumberRecord f)(l := None) else clientNumberRecord f)"
      "\<exists>n. res = Inr (n, True)"
    using g True by (auto simp: deregisterFacility_def returnS_def Let_def i_def)
  have rec: "clientNumberRecord f l = (case registered f l of Some (u, n) \<Rightarrow> if numbered u then Some n else None | None \<Rightarrow> None)"
  proof (cases "map_of (underlyingSenders f) l")
    case None
    then have "clientNumberRecord f l = None"
      using senders_okD(6) [OF facility_okD(1) [OF f]] by (auto simp: map_of_eq_None_iff)
    then show ?thesis
      using None by (simp add: registered_def)
  next
    case (Some p)
    then show ?thesis
      by (rule sender_okE [OF facility_okD(1) [OF f]]) simp
  qed
  have own: "registered f l = None \<or> (\<exists>n. registered f l = Some (t, n))"
    using registered_wished [OF facility_okD(1) [OF f], of l] l by (cases "registered f l") auto
  then have "\<not> numbered t \<Longrightarrow> clientNumberRecord f l = None"
    using rec by auto
  then have rec': "clientNumberRecord f' = (clientNumberRecord f)(l := None)"
    using f'(6) by (auto simp: fun_eq_iff)
  note g' = without_sender_ok [OF facility_okD(1) [OF f] f'(1,2,3) rec' f'(4)]
  have law: "ok (components f') \<and> room k (components f') \<and> clients (components f') =
      (if numbered t then (clients (components f))(t := (clients (components f) t)(l := clients (components f) t l - {i})) else clients (components f))"
  proof (cases "t = JsonREST")
    case False
    then show ?thesis
      using remove_law [OF facility_okD(2) [OF f] True False, of l i k] r f'(5) by simp
  qed (use f'(5) facility_okD(2) [OF f] r in \<open>simp add: numbered_def\<close>)
  have i: "i = n" if "numbered t" "registered f l = Some (t, n)" for n
    using that rec by (simp add: i_def)
  have zero: "0 \<notin> clients (components f) t l"
    using zero_unused [OF facility_okD(2) [OF f]] by simp
  have fresh: "registered f l = None \<Longrightarrow> numbered t \<Longrightarrow> i = 0"
    using rec by (simp add: i_def)
  have "clients (components f') u k' = base u k' \<union> {n. numbered u \<and> registered f' k' = Some (u, n)}" for u k'
  proof (cases "numbered t \<and> u = t \<and> k' = l")
    case True
    then show ?thesis
      using law own i fresh zero facility_okD(3,4) [OF f] by (auto simp: g'(2))
  next
    case False
    then show ?thesis
      using law own facility_okD(3) [OF f] by (auto simp: g'(2) split: if_splits)
  qed
  then show ?thesis
    using g' law f'(7) facility_okD(4) [OF f] by (auto simp: facility_ok_def fun_eq_iff)
qed

text \<open>Every orderly action keeps the invariant; deregistering never fails.\<close>

lemma action_ok:
  assumes f: "facility_ok cfg m base f" and r: "room (Suc k) (components f)" and a: "orderly_action m a"
    and g: "actuallyHandleFacilityAction cfg svc a f = (res, f')"
  shows "facility_ok cfg (wish a m) base f' \<and> room k (components f')"
proof (cases "actionType a")
  case Register
  obtain o1 f1 where o1: "register_sender cfg svc (facilityType a) (facilityLocator a) (description a) f = (o1, f1)"
    by fastforce
  moreover have "f' = f1"
    using g o1 Register
    by (cases o1) (auto simp: actuallyHandleFacilityAction_def registerFacility_def bindS_def returnS_def)
  ultimately show ?thesis
    using register_action_ok [OF f r _ o1] a Register by (auto simp: orderly_action_def wish_def)
next
  case Deregister
  obtain o1 f1 where o1: "deregisterFacility cfg svc (facilityType a) (facilityLocator a) f = (o1, f1)"
    by fastforce
  moreover have "f' = f1"
    using g o1 Deregister by (cases o1) (auto simp: actuallyHandleFacilityAction_def bindS_def returnS_def)
  ultimately show ?thesis
    using deregister_action_ok [OF f room_less [OF r] _ o1] a Deregister by (auto simp: orderly_action_def wish_def)
qed

lemma actions_ok:
  assumes "facility_ok cfg m base f" and "room (length as) (components f)" and "orderly m as"
    and "run_calls (actuallyHandleFacilityAction cfg svc) as f = (rs, f')"
  shows "facility_ok cfg (fold wish as m) base f'"
  using assms
proof (induction as arbitrary: m f rs)
  case (Cons a as)
  obtain r1 f1 where one: "actuallyHandleFacilityAction cfg svc a f = (r1, f1)"
    by fastforce
  with Cons.prems(4) obtain rs' where rest: "run_calls (actuallyHandleFacilityAction cfg svc) as f1 = (rs', f')"
    by (auto split: prod.splits)
  have "facility_ok cfg (wish a m) base f1 \<and> room (length as) (components f1)"
    using action_ok [OF Cons.prems(1) _ _ one] Cons.prems(2,3) by simp
  then show ?case
    using Cons.IH [OF _ _ _ rest] Cons.prems(3) by simp
qed simp

text \<open>Where no component refuses, every wish for a component that is there is fulfilled.\<close>

lemma register_registered:
  assumes f: "facility_ok cfg m base f" and l: "m l = None" and g: "register_sender cfg svc t l d f = (res, f')"
    and works: "has_component svc t \<Longrightarrow> usable svc t \<Longrightarrow> t \<noteq> JsonREST \<Longrightarrow>
      \<forall>h. \<exists>n. fst (set_rpc_client svc t l h (components f)) = Inr n"
  shows "if has_component svc t \<and> usable svc t then \<exists>n. registered f' = (registered f)(l \<mapsto> (t, n)) else registered f' = registered f"
  using g
proof (cases rule: register_sender_cases)
  case unsupported
  then show ?thesis
    by auto
next
  case (json q)
  have none: "map_of (underlyingSenders f) (sender_locator q) = None"
    using unwished [OF facility_okD(1) [OF f] l] json by simp
  then show ?thesis
    using with_sender_ok(2) [OF facility_okD(1) [OF f] none] json by auto
next
  case (opened q n h s')
  have none: "map_of (underlyingSenders (f\<lparr>components := s'\<rparr>)) (sender_locator q) = None"
    using unwished [OF facility_okD(1) [OF f] l] opened by simp
  then show ?thesis
    using with_sender_ok(2) [of cfg svc m "f\<lparr>components := s'\<rparr>" q] facility_okD(1) [OF f] opened by auto
next
  case (refused e h s')
  then obtain n where "fst (set_rpc_client svc t l h (components f)) = Inr n"
    using works by blast
  then show ?thesis
    using refused by simp
qed

lemma actions_registered:
  assumes works: "\<And>t l h s. ok s \<Longrightarrow> has_component svc t \<Longrightarrow> t \<noteq> JsonREST \<Longrightarrow> good l \<Longrightarrow> \<exists>n. fst (set_rpc_client svc t l h s) = Inr n"
    and "facility_ok cfg m base f" and "room (length as) (components f)" and "orderly m as"
    and "\<forall>a \<in> set as. actionType a = Register \<longrightarrow> good (facilityLocator a)"
    and "\<forall>l t. m l = Some t \<and> has_component svc t \<and> usable svc t \<longrightarrow> registered f l \<noteq> None"
    and "run_calls (actuallyHandleFacilityAction cfg svc) as f = (rs, f')"
  shows "\<forall>l t. fold wish as m l = Some t \<and> has_component svc t \<and> usable svc t \<longrightarrow> registered f' l \<noteq> None"
  using assms(2-)
proof (induction as arbitrary: m f rs)
  case (Cons a as)
  obtain r1 f1 where one: "actuallyHandleFacilityAction cfg svc a f = (r1, f1)"
    by fastforce
  with Cons.prems(6) obtain rs' where rest: "run_calls (actuallyHandleFacilityAction cfg svc) as f1 = (rs', f')"
    by (auto split: prod.splits)
  have ok1: "facility_ok cfg (wish a m) base f1 \<and> room (length as) (components f1)"
    using action_ok [OF Cons.prems(1) _ _ one] Cons.prems(2,3) by simp
  have "\<forall>l t. wish a m l = Some t \<and> has_component svc t \<and> usable svc t \<longrightarrow> registered f1 l \<noteq> None"
  proof (cases "actionType a")
    case Register
    obtain o1 where o1: "register_sender cfg svc (facilityType a) (facilityLocator a) (description a) f = (o1, f1)"
      using one Register by (cases "register_sender cfg svc (facilityType a) (facilityLocator a) (description a) f")
        (auto simp: actuallyHandleFacilityAction_def registerFacility_def bindS_def returnS_def split: sum.splits prod.splits)
    have "m (facilityLocator a) = None"
      using Cons.prems(3) Register by (simp add: orderly_action_def)
    from register_registered [OF Cons.prems(1) this o1] show ?thesis
      using works [OF facility_okD(2) [OF Cons.prems(1)]] Cons.prems(4,5) Register
      by (auto simp: wish_def split: if_splits)
  next
    case Deregister
    obtain o1 where o1: "deregisterFacility cfg svc (facilityType a) (facilityLocator a) f = (o1, f1)"
      using one Deregister by (cases "deregisterFacility cfg svc (facilityType a) (facilityLocator a) f")
        (auto simp: actuallyHandleFacilityAction_def bindS_def returnS_def split: sum.splits)
    have "registered f1 = (registered f)(facilityLocator a := None)"
      using deregister_action_ok [OF Cons.prems(1) Cons.prems(2) _ o1] Cons.prems(3) Deregister by (simp add: orderly_action_def)
    then show ?thesis
      using Cons.prems(5) Deregister by (auto simp: wish_def)
  qed
  then show ?case
    using Cons.IH [OF conjunct1 [OF ok1] conjunct2 [OF ok1] _ _ _ rest] Cons.prems(3,4) by simp
qed simp

lemma new_facility_ok: "ok s \<Longrightarrow> facility_ok cfg Map.empty (clients s) (new_facility s)"
  by (auto simp: facility_ok_def senders_ok_def new_facility_def registered_def)

end

section \<open>Sending requests\<close>

text \<open>A designated request goes to the sender of its locator, if there is one.\<close>

lemma pick_designated:
  assumes "senders_ok cfg svc m f" and "strategy cfg = Designated"
  shows "case registered f target of
      None \<Rightarrow> pick_sender cfg r target f = Inr None
    | Some (t, n) \<Rightarrow> \<exists>q. pick_sender cfg r target f = Inr (Some q) \<and> sender_locator q = target \<and> sender_type q = t \<and> sender_client q = n"
proof (cases "map_of (underlyingSenders f) target")
  case None
  then show ?thesis
    using assms senders_okD(7) [OF assms(1)] by (simp add: registered_def pick_sender_def)
next
  case (Some p)
  then show ?thesis
    using assms(2) senders_okD(7) [OF assms(1)]
    by (rule_tac sender_okE [OF assms(1) Some]) (auto simp: pick_sender_def deref_sender_def)
qed

text \<open>The index into the vector is in range as long as its size fits an \<open>int\<close>.\<close>

lemma random_index_range:
  assumes "0 \<le> r" and "0 < n" and "n < 2 ^ 31"
  shows "0 \<le> random_index r n \<and> nat (random_index r n) < n"
proof -
  have s: "sint (of_nat n :: 32 word) = int n"
    using assms(3) by (simp add: signed_of_nat signed_take_bit_int_eq_self)
  have "r smod int n = r mod int n"
    using assms by (cases "r = 0") (simp_all add: signed_modulo_int_def)
  then show ?thesis
    using assms by (cases "n = 1") (auto simp: random_index_def s nat_less_iff)
qed

lemma pick_random:
  assumes "senders_ok cfg svc m f" and "strategy cfg = Random" and "0 \<le> r" and "length (underlyingSenders f) < 2 ^ 31"
  shows "if underlyingSenders f = [] then pick_sender cfg r target f = Inr None
    else \<exists>q. pick_sender cfg r target f = Inr (Some q) \<and> registered f (sender_locator q) = Some (sender_type q, sender_client q)"
proof (cases "underlyingSenders f = []")
  case False
  then have ix: "0 \<le> random_index r (length (underlyingSenders f))"
      "nat (random_index r (length (underlyingSenders f))) < length (underlyingSenders f)"
    using random_index_range [OF assms(3) _ assms(4)] by simp_all
  obtain l p where lp: "underlyingSenders f ! nat (random_index r (length (underlyingSenders f))) = (l, p)"
    by fastforce
  then have "(l, p) \<in> set (underlyingSenders f)"
    using ix(2) by (metis nth_mem)
  then have "map_of (underlyingSenders f) l = Some p"
    using senders_okD(1) [OF assms(1)] by simp
  then show ?thesis
    using False assms(2) ix lp by (auto simp: pick_sender_def deref_sender_def Let_def elim!: sender_okE [OF assms(1)])
qed (use assms(2) in \<open>simp add: pick_sender_def\<close>)

section \<open>What is reported\<close>

text \<open>A configuration and components for examples: Redis only, with a counter as its state.\<close>

definition sample_facility_config :: "DispatchStrategy \<Rightarrow> (nat, string, string) facility_config" where
  "sample_facility_config s = \<lparr>strategy = s, hookPairFactory = (\<lambda>_ _. None), client_hooks_env = \<lparr>outgoing_factory = (\<lambda>_. None),
     incoming_factory = (\<lambda>_. None), unwrapped = (\<lambda>t. t)\<rparr>, request_type = 0, reply_type = 1,
     serialize_request = (\<lambda>x. x), facility_boost = boost_ref, csv_fields = (\<lambda>_. None), json_text = (\<lambda>x _. x), raw_string_with_status = False, deserialize_reply = Some,
     identity_component = None\<rparr>"

definition one_client_service :: "unit rpc_service" where
  "one_client_service = \<lparr>has_component = (\<lambda>t. t = Redis), usable = (\<lambda>_. True), set_rpc_client = (\<lambda>_ _ _. returnS 1),
     remove_rpc_client = (\<lambda>_ _ _ s. s)\<rparr>"

lemma register_sender_size:
  assumes "register_sender cfg svc t l d f = (Inr n, f')"
  shows "(n \<noteq> 0 \<and> length (underlyingSenders f') = length (underlyingSenders f) + 1)
    \<or> (n = 0 \<and> underlyingSenders f' = underlyingSenders f)"
  using assms by (cases rule: register_sender_cases) auto

text \<open>
  What is published after an action. After a registration the number of senders that is published is only whether one was added, 1 or 0,
  although after a deregistration it is how many there are; with designated dispatch a registration is always reported as done, also when
  the environment has no such component or the component refused it.
\<close>

theorem registration_report:
  assumes "actuallyHandleFacilityAction cfg svc a f = (Inr r, f')" and "has_component svc (facilityType a) \<or> actionType a = Register"
  shows "r = (case strategy cfg of
      Designated \<Rightarrow> ActionResult a True
    | Random \<Rightarrow> UnderlyingCount
        (case actionType a of
           Register \<Rightarrow> of_bool (length (underlyingSenders f) < length (underlyingSenders f'))
         | Deregister \<Rightarrow> length (underlyingSenders f')))"
proof (cases "actionType a")
  case Register
  then obtain n where "register_sender cfg svc (facilityType a) (facilityLocator a) (description a) f = (Inr n, f')"
      "r = report cfg a (of_bool (n \<noteq> 0), True)"
    using assms(1) by (auto simp: actuallyHandleFacilityAction_def registerFacility_def returnS_def elim!: bindS_cases)
  then show ?thesis
    using register_sender_size Register by (fastforce simp: report_def split: DispatchStrategy.split)
next
  case Deregister
  then show ?thesis
    using assms by (auto simp: actuallyHandleFacilityAction_def deregisterFacility_def report_def returnS_def bindS_def Let_def
        split: DispatchStrategy.split)
qed

theorem registration_report_witness:
  "let cfg = sample_facility_config Random;
       act = (\<lambda>l. actuallyHandleFacilityAction cfg one_client_service
         \<lparr>actionType = Register, facilityType = Redis, facilityLocator = sample_locator\<lparr>ident := l\<rparr>, description = ''d''\<rparr>)
   in fst (act ''b'' (snd (act ''a'' (new_facility ())))) = Inr (UnderlyingCount 1)
     \<and> length (underlyingSenders (snd (act ''b'' (snd (act ''a'' (new_facility ())))))) = 2"
proof -
  let ?a = "\<lambda>l. \<lparr>actionType = Register, facilityType = Redis, facilityLocator = sample_locator\<lparr>ident := l\<rparr>, description = ''d''\<rparr>"
  let ?act = "\<lambda>l. actuallyHandleFacilityAction (sample_facility_config Random) one_client_service (?a l)"
  let ?f1 = "snd (?act ''a'' (new_facility ()))"
  have step: "\<exists>r f'. ?act l f = (Inr r, f') \<and> length (underlyingSenders f') = length (underlyingSenders f) + 1" for l f
    by (simp add: actuallyHandleFacilityAction_def registerFacility_def register_sender_def push_sender_def one_client_service_def
        bindS_def returnS_def Let_def numbered_def)
  obtain r1 f1 where one: "?act ''a'' (new_facility ()) = (Inr r1, f1)" "length (underlyingSenders f1) = 1"
    using step [of "''a''" "new_facility ()"] by (auto simp: new_facility_def)
  obtain r2 f2 where two: "?act ''b'' f1 = (Inr r2, f2)" "length (underlyingSenders f2) = 2"
    using step [of "''b''" f1] one by auto
  have "r2 = UnderlyingCount 1"
    using registration_report [OF two(1)] two(2) one(2) by (simp add: sample_facility_config_def)
  then show ?thesis
    using one two by simp
qed

end
