(* ===== verification/RedisRpc.thy ===== *)
theory RedisRpc
  imports RemoteFacility Dispatch
begin

text \<open>
  Requests and replies over Redis (src/redis/RedisComponent.cpp, tm_kit/transport/redis/RedisComponent.hpp). A client publishes requests on the
  channel of the locator's identifier and listens to a channel of its own, whose name it sends along; a server publishes its replies there.
  The client objects live in a heap, where a deleted object is absent.
\<close>

section \<open>The server and its channels\<close>

record ByteDataWithID =
  data_id :: string
  data_content :: string

text \<open>The serializers of tm\_basic for the three messages, and the laws they have.\<close>

record rpc_codecs =
  topic_codec :: "ByteDataWithTopic cbor"
  id_codec :: "ByteDataWithID cbor"
  reply_codec :: "(bool \<times> ByteDataWithID) cbor"

locale rpc_codec_laws =
  fixes cs :: rpc_codecs
  assumes topic_law: "cbor_law (topic_codec cs)"
    and id_law: "cbor_law (id_codec cs)"
    and reply_law: "cbor_law (reply_codec cs)"

definition bdi_cbor :: "ByteDataWithID cbor" where
  "bdi_cbor = conv_cbor (\<lambda>d. (data_id d, data_content d)) (\<lambda>(i, c). Some \<lparr>data_id = i, data_content = c\<rparr>) (pair_cbor string_cbor string_cbor)"

definition bool_cbor :: "bool cbor" where
  "bool_cbor = conv_cbor of_bool (\<lambda>n. Some (n = 1)) nat_cbor"

definition ref_rpc_codecs :: rpc_codecs where
  "ref_rpc_codecs = \<lparr>topic_codec = bdt_cbor, id_codec = bdi_cbor, reply_codec = pair_cbor bool_cbor bdi_cbor\<rparr>"

lemma bdi_law: "cbor_law bdi_cbor"
  unfolding bdi_cbor_def by (intro conv_law codec_laws) simp

lemma bool_law: "cbor_law bool_cbor"
  unfolding bool_cbor_def by (rule conv_law [OF nat_law]) simp

interpretation ref_rpc_codecs: rpc_codec_laws ref_rpc_codecs
  by (rule rpc_codec_laws.intro) (simp_all add: ref_rpc_codecs_def bdi_law bool_law pair_law bdt_cbor.cbor_law_axioms)

text \<open>
  The surroundings: the answer of the server to an \<open>AUTH\<close> command on a connection to a locator, and the names that the
  caller's \<open>clientCommunicationIDCreator\<close> gives one after another.
\<close>

record redis_env =
  accepts :: "ConnectionLocator \<Rightarrow> string list \<Rightarrow> bool"
  new_communication_id :: "nat \<Rightarrow> string"
  rpc_codecs_of :: rpc_codecs

definition auth_command :: "ConnectionLocator \<Rightarrow> string list option" where
  "auth_command l =
     (if password l = '''' then None
      else if userName l \<noteq> '''' then Some [''AUTH'', c_str (userName l), c_str (password l)]
      else Some [''AUTH'', c_str (password l)])"

definition auth :: "redis_env \<Rightarrow> ConnectionLocator \<Rightarrow> rpc_error + unit" where
  "auth e l =
     (case auth_command l of
        None \<Rightarrow> Inr ()
      | Some cmd \<Rightarrow>
          if accepts e l cmd then Inr ()
          else Inl (OtherException (''Failure to authenticate with Redis server for '' @ toSerializationFormat l)))"

text \<open>What \<open>redisGetReply\<close> gives to a loop, with the elements of an array, and what a message on a channel looks like.\<close>

datatype reply_element = StringElement string | OtherElement string

datatype redis_read = TimeoutNotSet | EndOfStream | ReadFailed | NoReply | SingleReply | ArrayReply "reply_element list"

definition element_text :: "reply_element \<Rightarrow> string" where
  "element_text x = (case x of StringElement s \<Rightarrow> s | OtherElement s \<Rightarrow> s)"

definition channel_message :: "string \<Rightarrow> redis_read \<Rightarrow> string option" where
  "channel_message channel r =
     (case r of
        ArrayReply [x, t, d] \<Rightarrow> if x = StringElement ''message'' \<and> element_text t = channel then Some (element_text d) else None
      | _ \<Rightarrow> None)"

definition ends_loop :: "redis_read \<Rightarrow> bool" where
  "ends_loop r \<longleftrightarrow> r = TimeoutNotSet \<or> r = EndOfStream"

text \<open>A message as it is published: the connection, the channel, the content. The channel is passed as a C string.\<close>

type_synonym publication = "ConnectionLocator \<times> string \<times> string"

definition publish :: "ConnectionLocator \<Rightarrow> ByteDataWithTopic \<Rightarrow> publication" where
  "publish sender data = (sender, c_str (topic data), content data)"

text \<open>A message that must be decoded to its last byte.\<close>

definition decode_all :: "'a cbor \<Rightarrow> string \<Rightarrow> 'a option" where
  "decode_all c s = (case decode_at c s 0 of Some (x, n) \<Rightarrow> if n = length s then Some x else None | None \<Rightarrow> None)"

lemma decode_all_encode: "cbor_law c \<Longrightarrow> decode_all c (encode_cbor c x) = Some x"
  by (simp add: decode_all_def cbor_law.decode_whole)

section \<open>A client's connection\<close>

record 'c rpc_client =
  rpc_callback :: 'c
  rpc_hook :: "WireToUserHook option"

text \<open>
  The order of \<open>clients\_\<close> is not observed, only its size; \<open>clientToIDMap\_\<close> maps clients to the sets of their requests' identifiers.
\<close>

record 'c OneRedisRPCClientConnection =
  rpcTopic :: string
  myCommunicationID :: string
  clientCounter :: uint32
  rpc_clients :: "(uint32, 'c rpc_client) stdmap"
  clientToIDMap :: "uint32 \<rightharpoonup> string set"
  idToClientMap :: "string \<rightharpoonup> uint32"
  client_running :: bool
  client_sender :: ConnectionLocator

definition new_client_connection :: "ConnectionLocator \<Rightarrow> string \<Rightarrow> ConnectionLocator \<Rightarrow> 'c OneRedisRPCClientConnection" where
  "new_client_connection l cid sender = \<lparr>rpcTopic = ident l, myCommunicationID = cid, clientCounter = 0, rpc_clients = [],
     clientToIDMap = Map.empty, idToClientMap = Map.empty, client_running = True, client_sender = sender\<rparr>"

definition addClient :: "'c \<Rightarrow> WireToUserHook option \<Rightarrow> 'c OneRedisRPCClientConnection \<Rightarrow> uint32 \<times> 'c OneRedisRPCClientConnection" where
  "addClient callback w c =
     (let n = clientCounter c + 1 in
      (n, c\<lparr>clientCounter := n, rpc_clients := smap_assign n \<lparr>rpc_callback = callback, rpc_hook = w\<rparr> (rpc_clients c)\<rparr>))"

definition removeClient :: "uint32 \<Rightarrow> 'c OneRedisRPCClientConnection \<Rightarrow> nat \<times> 'c OneRedisRPCClientConnection" where
  "removeClient n c =
     (let c' = (case clientToIDMap c n of
            Some ids \<Rightarrow> c\<lparr>idToClientMap := idToClientMap c |` (- ids), clientToIDMap := (clientToIDMap c)(n := None)\<rparr>
          | None \<Rightarrow> c);
          left = smap_erase n (rpc_clients c') in
      (length left, c'\<lparr>rpc_clients := left\<rparr>))"

definition ids_of :: "'c OneRedisRPCClientConnection \<Rightarrow> uint32 \<Rightarrow> string set" where
  "ids_of c n = (case clientToIDMap c n of Some s \<Rightarrow> s | None \<Rightarrow> {})"

definition sendRequest :: "rpc_codecs \<Rightarrow> uint32 \<Rightarrow> ByteDataWithID \<Rightarrow> 'c OneRedisRPCClientConnection
    \<Rightarrow> publication \<times> 'c OneRedisRPCClientConnection" where
  "sendRequest cs n data c =
     (publish (client_sender c) \<lparr>topic = rpcTopic c, content = encode_cbor (topic_codec cs)
        \<lparr>topic = myCommunicationID c, content = encode_cbor (id_codec cs) data\<rparr>\<rparr>,
      c\<lparr>clientToIDMap := (clientToIDMap c)(n \<mapsto> insert (data_id data) (ids_of c n)),
        idToClientMap := (idToClientMap c)(data_id data \<mapsto> n)\<rparr>)"

text \<open>What a reply does: at most one callback, with the data after the client's hook.\<close>

definition handle_client_reply :: "bool \<times> ByteDataWithID \<Rightarrow> 'c OneRedisRPCClientConnection
    \<Rightarrow> ('c \<times> bool \<times> ByteDataWithID) list \<times> 'c OneRedisRPCClientConnection" where
  "handle_client_reply m c =
     (let (isFinal, d) = m in
      case idToClientMap c (data_id d) of
        None \<Rightarrow> ([], c)
      | Some n \<Rightarrow>
          (case map_of (rpc_clients c) n of
             Some info \<Rightarrow>
               (case rpc_hook info of
                  Some h \<Rightarrow>
                    (case h (data_content d) of
                       Some x \<Rightarrow> [(rpc_callback info, isFinal, \<lparr>data_id = data_id d, data_content = x\<rparr>)]
                     | None \<Rightarrow> [])
                | None \<Rightarrow> [(rpc_callback info, isFinal, d)])
           | None \<Rightarrow> [],
           if isFinal
           then c\<lparr>clientToIDMap := (clientToIDMap c)(n \<mapsto> ids_of c n - {data_id d}),
                  idToClientMap := (idToClientMap c)(data_id d := None)\<rparr>
           else c))"

text \<open>One turn of the loop, with whether it goes on.\<close>

definition client_turn :: "rpc_codecs \<Rightarrow> redis_read \<Rightarrow> 'c OneRedisRPCClientConnection
    \<Rightarrow> (('c \<times> bool \<times> ByteDataWithID) list \<times> bool) \<times> 'c OneRedisRPCClientConnection" where
  "client_turn cs r c =
     (if \<not> client_running c \<or> ends_loop r then (([], False), c)
      else (case Option.bind (channel_message (myCommunicationID c) r) (decode_all (reply_codec cs)) of
        Some m \<Rightarrow> (let (out, c') = handle_client_reply m c in ((out, True), c'))
      | None \<Rightarrow> (([], True), c)))"

section \<open>A server's connection\<close>

record 's OneRedisRPCServerConnection =
  server_topic :: string
  server_callback :: 's
  server_hook :: "WireToUserHook option"
  replyTopicMap :: "string \<rightharpoonup> string"
  server_running :: bool
  server_sender :: ConnectionLocator

definition new_server_connection :: "ConnectionLocator \<Rightarrow> 's \<Rightarrow> WireToUserHook option \<Rightarrow> ConnectionLocator
    \<Rightarrow> 's OneRedisRPCServerConnection" where
  "new_server_connection l callback w sender = \<lparr>server_topic = ident l, server_callback = callback, server_hook = w,
     replyTopicMap = Map.empty, server_running = True, server_sender = sender\<rparr>"

definition handle_request :: "string \<times> ByteDataWithID \<Rightarrow> 's OneRedisRPCServerConnection
    \<Rightarrow> ('s \<times> ByteDataWithID) list \<times> 's OneRedisRPCServerConnection" where
  "handle_request m s =
     (let (replyTopic, d) = m; s' = s\<lparr>replyTopicMap := (replyTopicMap s)(data_id d \<mapsto> replyTopic)\<rparr> in
      (case server_hook s of
         Some h \<Rightarrow>
           (case h (data_content d) of
              Some x \<Rightarrow> [(server_callback s, \<lparr>data_id = data_id d, data_content = x\<rparr>)]
            | None \<Rightarrow> [])
       | None \<Rightarrow> [(server_callback s, d)], s'))"

definition decode_request :: "rpc_codecs \<Rightarrow> string \<Rightarrow> (string \<times> ByteDataWithID) option" where
  "decode_request cs m =
     (case decode_all (topic_codec cs) m of
        Some t \<Rightarrow> map_option (\<lambda>d. (topic t, d)) (decode_all (id_codec cs) (content t))
      | None \<Rightarrow> None)"

definition server_turn :: "rpc_codecs \<Rightarrow> redis_read \<Rightarrow> 's OneRedisRPCServerConnection
    \<Rightarrow> (('s \<times> ByteDataWithID) list \<times> bool) \<times> 's OneRedisRPCServerConnection" where
  "server_turn cs r s =
     (if \<not> server_running s \<or> ends_loop r then (([], False), s)
      else (case Option.bind (channel_message (server_topic s) r) (decode_request cs) of
        Some m \<Rightarrow> (let (out, s') = handle_request m s in ((out, True), s'))
      | None \<Rightarrow> (([], True), s)))"

definition sendReply :: "rpc_codecs \<Rightarrow> bool \<Rightarrow> ByteDataWithID \<Rightarrow> 's OneRedisRPCServerConnection
    \<Rightarrow> publication option \<times> 's OneRedisRPCServerConnection" where
  "sendReply cs isFinal data s =
     (case replyTopicMap s (data_id data) of
        None \<Rightarrow> (None, s)
      | Some replyTopic \<Rightarrow>
          (Some (publish (server_sender s) \<lparr>topic = replyTopic, content = encode_cbor (reply_codec cs) (isFinal, data)\<rparr>),
           if isFinal then s\<lparr>replyTopicMap := (replyTopicMap s)(data_id data := None)\<rparr> else s))"

section \<open>The component\<close>

record ('c, 's) RedisComponentImpl =
  senders :: "ConnectionLocator \<rightharpoonup> ConnectionLocator"
  rpcClientConnections :: "ConnectionLocator \<rightharpoonup> nat"
  client_conns :: "nat \<rightharpoonup> 'c OneRedisRPCClientConnection"
  next_conn :: nat
  rpcServerConnections :: "ConnectionLocator \<rightharpoonup> 's OneRedisRPCServerConnection"
  ids_drawn :: nat

definition initial_redis :: "('c, 's) RedisComponentImpl" where
  "initial_redis = \<lparr>senders = Map.empty, rpcClientConnections = Map.empty, client_conns = Map.empty, next_conn = 0,
     rpcServerConnections = Map.empty, ids_drawn = 0\<rparr>"

text \<open>A sender is opened with the credentials of the first locator that needs it.\<close>

definition getOrStartSenderNoLock :: "redis_env \<Rightarrow> ConnectionLocator \<Rightarrow> (('c, 's) RedisComponentImpl, rpc_error, ConnectionLocator) call" where
  "getOrStartSenderNoLock e d c =
     (let k = hostAndPort d in
      case senders c k of
        Some _ \<Rightarrow> returnS k c
      | None \<Rightarrow> (case auth e d of Inr _ \<Rightarrow> returnS k (c\<lparr>senders := (senders c)(k \<mapsto> d)\<rparr>) | Inl x \<Rightarrow> throwS x c))"

definition draw_id :: "redis_env \<Rightarrow> (('c, 's) RedisComponentImpl, rpc_error, string) call" where
  "draw_id e c = returnS (new_communication_id e (ids_drawn c)) (c\<lparr>ids_drawn := ids_drawn c + 1\<rparr>)"

definition authS :: "redis_env \<Rightarrow> ConnectionLocator \<Rightarrow> (('c, 's) RedisComponentImpl, rpc_error, unit) call" where
  "authS e l c = (auth e l, c)"

definition createRpcClientConnection :: "redis_env \<Rightarrow> ConnectionLocator \<Rightarrow> (('c, 's) RedisComponentImpl, rpc_error, nat) call" where
  "createRpcClientConnection e l c =
     (case rpcClientConnections c l of
        Some p \<Rightarrow> returnS p c
      | None \<Rightarrow>
          bindS (draw_id e) (\<lambda>cid. bindS (getOrStartSenderNoLock e l) (\<lambda>k. bindS (authS e l) (\<lambda>_ c.
            returnS (next_conn c)
              (c\<lparr>rpcClientConnections := (rpcClientConnections c)(l \<mapsto> next_conn c),
                 client_conns := (client_conns c)(next_conn c \<mapsto> new_client_connection l cid k),
                 next_conn := next_conn c + 1\<rparr>)))) c)"

text \<open>Access to the connection behind a pointer.\<close>

definition on_client :: "nat \<Rightarrow> ('c OneRedisRPCClientConnection \<Rightarrow> 'a \<times> 'c OneRedisRPCClientConnection)
    \<Rightarrow> (('c, 's) RedisComponentImpl, rpc_error, 'a) call" where
  "on_client p f c =
     (case client_conns c p of
        Some conn \<Rightarrow> (let (a, conn') = f conn in returnS a (c\<lparr>client_conns := (client_conns c)(p \<mapsto> conn')\<rparr>))
      | None \<Rightarrow> throwS (DeletedObject p) c)"

text \<open>What the function that sends requests captures, and its call.\<close>

record requester =
  req_connection :: nat
  req_number :: uint32
  req_hook :: "UserToWireHook option"

definition setRPCClient :: "redis_env \<Rightarrow> ConnectionLocator \<Rightarrow> 'c \<Rightarrow> ByteDataHookPair option
    \<Rightarrow> (('c, 's) RedisComponentImpl, rpc_error, requester \<times> uint32) call" where
  "setRPCClient e l callback hooks =
     bindS (createRpcClientConnection e l) (\<lambda>p.
       bindS (on_client p (addClient callback (Option.bind hooks wireToUser))) (\<lambda>n.
         returnS (\<lparr>req_connection = p, req_number = n, req_hook = Option.bind hooks userToWire\<rparr>, n)))"

definition request :: "redis_env \<Rightarrow> requester \<Rightarrow> ByteDataWithID \<Rightarrow> (('c, 's) RedisComponentImpl, rpc_error, publication) call" where
  "request e rq data =
     on_client (req_connection rq) (sendRequest (rpc_codecs_of e) (req_number rq)
       (case req_hook rq of Some h \<Rightarrow> \<lparr>data_id = data_id data, data_content = h (data_content data)\<rparr> | None \<Rightarrow> data))"

text \<open>A connection without clients is deleted. Its thread was detached, so nothing waits for the end of the loop.\<close>

definition removeRPCClient :: "ConnectionLocator \<Rightarrow> uint32 \<Rightarrow> (('c, 's) RedisComponentImpl, rpc_error, unit) call" where
  "removeRPCClient l n c =
     (case rpcClientConnections c l of
        None \<Rightarrow> returnS () c
      | Some p \<Rightarrow>
          bindS (on_client p (removeClient n)) (\<lambda>left c.
            returnS ()
              (if left = 0
               then c\<lparr>rpcClientConnections := (rpcClientConnections c)(l := None), client_conns := (client_conns c)(p := None)\<rparr>
               else c)) c)"

definition reader_turn :: "redis_env \<Rightarrow> nat \<Rightarrow> redis_read
    \<Rightarrow> (('c, 's) RedisComponentImpl, rpc_error, ('c \<times> bool \<times> ByteDataWithID) list \<times> bool) call" where
  "reader_turn e p r = on_client p (client_turn (rpc_codecs_of e) r)"

text \<open>Servers are never removed.\<close>

definition createRpcServerConnection :: "redis_env \<Rightarrow> ConnectionLocator \<Rightarrow> 's \<Rightarrow> WireToUserHook option
    \<Rightarrow> (('c, 's) RedisComponentImpl, rpc_error, unit) call" where
  "createRpcServerConnection e l handler w c =
     (if rpcServerConnections c l \<noteq> None
      then throwS (ComponentException (''Cannot create duplicate RPC server connection for '' @ toSerializationFormat l)) c
      else bindS (getOrStartSenderNoLock e l) (\<lambda>k. bindS (authS e l) (\<lambda>_ c.
        returnS () (c\<lparr>rpcServerConnections := (rpcServerConnections c)(l \<mapsto> new_server_connection l handler w k)\<rparr>))) c)"

record replier =
  rep_server :: ConnectionLocator
  rep_hook :: "UserToWireHook option"

definition setRPCServer :: "redis_env \<Rightarrow> ConnectionLocator \<Rightarrow> 's \<Rightarrow> ByteDataHookPair option
    \<Rightarrow> (('c, 's) RedisComponentImpl, rpc_error, replier) call" where
  "setRPCServer e l handler hooks =
     bindS (createRpcServerConnection e l handler (Option.bind hooks wireToUser))
       (\<lambda>_. returnS \<lparr>rep_server = l, rep_hook = Option.bind hooks userToWire\<rparr>)"

definition on_server :: "ConnectionLocator \<Rightarrow> ('s OneRedisRPCServerConnection \<Rightarrow> 'a \<times> 's OneRedisRPCServerConnection)
    \<Rightarrow> (('c, 's) RedisComponentImpl, rpc_error, 'a option) call" where
  "on_server l f c =
     (case rpcServerConnections c l of
        Some s \<Rightarrow> (let (a, s') = f s in returnS (Some a) (c\<lparr>rpcServerConnections := (rpcServerConnections c)(l \<mapsto> s')\<rparr>))
      | None \<Rightarrow> returnS None c)"

definition reply :: "redis_env \<Rightarrow> replier \<Rightarrow> bool \<Rightarrow> ByteDataWithID \<Rightarrow> (('c, 's) RedisComponentImpl, rpc_error, publication option option) call" where
  "reply e rp isFinal data =
     on_server (rep_server rp) (sendReply (rpc_codecs_of e) isFinal
       (case rep_hook rp of Some h \<Rightarrow> \<lparr>data_id = data_id data, data_content = h (data_content data)\<rparr> | None \<Rightarrow> data))"

definition server_reader_turn :: "redis_env \<Rightarrow> ConnectionLocator \<Rightarrow> redis_read
    \<Rightarrow> (('c, 's) RedisComponentImpl, rpc_error, (('s \<times> ByteDataWithID) list \<times> bool) option) call" where
  "server_reader_turn e l r = on_server l (server_turn (rpc_codecs_of e) r)"

text \<open>What a facility sees of the component; \<open>callback\<close> stands for the facility's callback.\<close>

definition redis_service :: "redis_env \<Rightarrow> 'c \<Rightarrow> ('c, 's) RedisComponentImpl rpc_service" where
  "redis_service e callback =
     \<lparr>has_component = (\<lambda>t. t = Redis), usable = (\<lambda>_. True),
      set_rpc_client = (\<lambda>t l hooks. bindS (setRPCClient e l callback hooks) (\<lambda>r. returnS (snd r))),
      remove_rpc_client = (\<lambda>t l n c. snd (removeRPCClient l n c))\<rparr>"

text \<open>
  The invariant: the connections in the map and those in the heap correspond, each has a client, the clients' numbers lie between 1 and the
  counter, and each pending request is listed with its client.
\<close>

definition conn_ok :: "'c OneRedisRPCClientConnection \<Rightarrow> bool" where
  "conn_ok c \<longleftrightarrow> smap_wf (rpc_clients c) \<and> client_running c
     \<and> (\<forall>n \<in> fst ` set (rpc_clients c). 0 < unat n \<and> unat n \<le> unat (clientCounter c))"

definition belongs_to :: "ConnectionLocator \<Rightarrow> 'c OneRedisRPCClientConnection \<Rightarrow> bool" where
  "belongs_to l conn \<longleftrightarrow> rpcTopic conn = ident l \<and> client_sender conn = hostAndPort l"

definition redis_ok :: "('c, 's) RedisComponentImpl \<Rightarrow> bool" where
  "redis_ok c \<longleftrightarrow> (\<forall>k l p. rpcClientConnections c k = Some p \<and> rpcClientConnections c l = Some p \<longrightarrow> k = l)
     \<and> (\<forall>l p. rpcClientConnections c l = Some p \<longrightarrow> client_conns c p \<noteq> None)
     \<and> (\<forall>p. client_conns c p \<noteq> None \<longrightarrow> (\<exists>l. rpcClientConnections c l = Some p))
     \<and> (\<forall>l p conn. rpcClientConnections c l = Some p \<and> client_conns c p = Some conn \<longrightarrow> belongs_to l conn)
     \<and> (\<forall>p conn. client_conns c p = Some conn \<longrightarrow> p < next_conn c \<and> conn_ok conn \<and> rpc_clients conn \<noteq> [])"

definition client_numbers :: "('c, 's) RedisComponentImpl \<Rightarrow> facility_type \<Rightarrow> ConnectionLocator \<Rightarrow> uint32 set" where
  "client_numbers c t l =
     (if t = Redis
      then (case Option.bind (rpcClientConnections c l) (client_conns c) of
        Some conn \<Rightarrow> fst ` set (rpc_clients conn) | None \<Rightarrow> {})
      else {})"

definition numbers_left :: "nat \<Rightarrow> ('c, 's) RedisComponentImpl \<Rightarrow> bool" where
  "numbers_left n c \<longleftrightarrow> n < 2 ^ 32 \<and> (\<forall>p conn. client_conns c p = Some conn \<longrightarrow> unat (clientCounter conn) + n < 2 ^ 32)"

lemma redis_okD:
  assumes "redis_ok c"
  shows "rpcClientConnections c k = Some p \<Longrightarrow> rpcClientConnections c l = Some p \<Longrightarrow> k = l"
    "rpcClientConnections c l = Some p \<Longrightarrow> \<exists>conn. client_conns c p = Some conn"
    "client_conns c p = Some conn \<Longrightarrow> \<exists>l. rpcClientConnections c l = Some p"
    "client_conns c p = Some conn \<Longrightarrow> p < next_conn c" "client_conns c p = Some conn \<Longrightarrow> conn_ok conn"
    "client_conns c p = Some conn \<Longrightarrow> rpc_clients conn \<noteq> []"
    "rpcClientConnections c l = Some p \<Longrightarrow> client_conns c p = Some conn \<Longrightarrow> belongs_to l conn"
  using assms unfolding redis_ok_def by blast+

text \<open>The connection a locator has or would get.\<close>

definition connection_at :: "redis_env \<Rightarrow> ConnectionLocator \<Rightarrow> ('c, 's) RedisComponentImpl \<Rightarrow> nat \<times> 'c OneRedisRPCClientConnection" where
  "connection_at e l c =
     (case rpcClientConnections c l of
        Some p \<Rightarrow> (p, the (client_conns c p))
      | None \<Rightarrow> (next_conn c, new_client_connection l (new_communication_id e (ids_drawn c)) (hostAndPort l)))"

lemma setRPCClient_cases:
  assumes ok: "redis_ok c" and s: "setRPCClient e l callback hooks c = (r, c')"
  obtains (refused) m where "r = Inl (OtherException m)" "client_conns c' = client_conns c" "rpcClientConnections c' = rpcClientConnections c"
      "next_conn c' = next_conn c" "auth e l \<noteq> Inr ()"
    | (added) p conn n conn' where "connection_at e l c = (p, conn)" "addClient callback (Option.bind hooks wireToUser) conn = (n, conn')"
      "r = Inr (\<lparr>req_connection = p, req_number = n, req_hook = Option.bind hooks userToWire\<rparr>, n)"
      "client_conns c' = (client_conns c)(p \<mapsto> conn')" "rpcClientConnections c' = (rpcClientConnections c)(l \<mapsto> p)"
      "next_conn c' = (if rpcClientConnections c l = None then next_conn c + 1 else next_conn c)"
proof (cases "rpcClientConnections c l")
  case (Some p)
  then obtain conn where "client_conns c p = Some conn"
    using redis_okD(2) [OF ok] by blast
  moreover obtain n conn' where "addClient callback (Option.bind hooks wireToUser) conn = (n, conn')"
    by fastforce
  ultimately show thesis
    using s Some by (intro added [of p conn n conn']) (auto simp: connection_at_def setRPCClient_def createRpcClientConnection_def bindS_def
        returnS_def on_client_def fun_upd_idem)
next
  case None
  define d where "d = c\<lparr>ids_drawn := ids_drawn c + 1\<rparr>"
  have err: "\<exists>m. auth e k = Inl (OtherException m)" if "auth e k \<noteq> Inr ()" for k
    using that by (auto simp: auth_def split: option.splits if_splits)
  obtain o1 d1 where o1: "getOrStartSenderNoLock e l d = (o1, d1)"
    by fastforce
  have d1: "client_conns d1 = client_conns c" "rpcClientConnections d1 = rpcClientConnections c" "next_conn d1 = next_conn c"
    using o1 by (auto simp: getOrStartSenderNoLock_def d_def returnS_def throwS_def Let_def split: option.splits sum.splits)
  have create: "createRpcClientConnection e l c = bindS (getOrStartSenderNoLock e l) (\<lambda>k. bindS (authS e l) (\<lambda>_ c'.
        returnS (next_conn c')
          (c'\<lparr>rpcClientConnections := (rpcClientConnections c')(l \<mapsto> next_conn c'),
             client_conns := (client_conns c')(next_conn c' \<mapsto> new_client_connection l (new_communication_id e (ids_drawn c)) k),
             next_conn := next_conn c' + 1\<rparr>))) d"
    using None by (simp add: createRpcClientConnection_def bindS_def draw_id_def returnS_def d_def)
  show thesis
  proof (cases "auth e l")
    case (Inl x)
    moreover obtain m where "x = OtherException m"
      using err [of l] Inl by auto
    moreover have "o1 = Inl x \<or> (\<exists>k. o1 = Inr k)"
      using o1 Inl by (auto simp: getOrStartSenderNoLock_def returnS_def throwS_def Let_def split: option.splits)
    ultimately show thesis
      using s create o1 d1 by (intro refused [of m]) (auto simp: setRPCClient_def bindS_def authS_def)
  next
    case (Inr u)
    let ?conn = "new_client_connection l (new_communication_id e (ids_drawn c)) (hostAndPort l)"
    have "o1 = Inr (hostAndPort l)"
      using o1 Inr by (auto simp: getOrStartSenderNoLock_def returnS_def Let_def split: option.splits)
    moreover obtain n conn' where "addClient callback (Option.bind hooks wireToUser) ?conn = (n, conn')"
      by fastforce
    ultimately show thesis
      using s create o1 d1 Inr None
      by (intro added [of "next_conn c" ?conn n conn'])
        (auto simp: setRPCClient_def bindS_def authS_def returnS_def on_client_def connection_at_def)
  qed
qed

lemma conn_ok_add:
  assumes "conn_ok conn" and "addClient callback w conn = (n, conn')" and "unat (clientCounter conn) + 1 < 2 ^ 32"
  shows "conn_ok conn'" "fst ` set (rpc_clients conn') = insert n (fst ` set (rpc_clients conn))" "n \<notin> fst ` set (rpc_clients conn)"
    "unat (clientCounter conn') = unat (clientCounter conn) + 1" "rpc_clients conn' \<noteq> []"
    "map_of (rpc_clients conn') = (map_of (rpc_clients conn))(n \<mapsto> \<lparr>rpc_callback = callback, rpc_hook = w\<rparr>)"
proof -
  have n: "unat n = unat (clientCounter conn) + 1"
    using assms(2,3) by (auto simp: addClient_def Let_def unat_word_ariths)
  have c: "clientCounter conn' = n" "client_running conn' = client_running conn"
      "rpc_clients conn' = smap_assign n \<lparr>rpc_callback = callback, rpc_hook = w\<rparr> (rpc_clients conn)"
    using assms(2) by (auto simp: addClient_def Let_def)
  show ks: "fst ` set (rpc_clients conn') = insert n (fst ` set (rpc_clients conn))"
    by (simp add: c smap_simps)
  show "n \<notin> fst ` set (rpc_clients conn)"
    using assms(1) n unfolding conn_ok_def by fastforce
  show "unat (clientCounter conn') = unat (clientCounter conn) + 1"
    by (simp add: c n)
  show "rpc_clients conn' \<noteq> []"
    using ks by auto
  show "conn_ok conn'"
    unfolding conn_ok_def ks using assms(1) n by (auto simp: conn_ok_def c smap_wf_assign)
  show "map_of (rpc_clients conn') = (map_of (rpc_clients conn))(n \<mapsto> \<lparr>rpc_callback = callback, rpc_hook = w\<rparr>)"
    using assms(1) by (simp add: conn_ok_def c smap_simps)
qed

lemma removeClient_simps:
  "rpc_clients (snd (removeClient n conn)) = smap_erase n (rpc_clients conn)"
  "clientCounter (snd (removeClient n conn)) = clientCounter conn"
  "client_running (snd (removeClient n conn)) = client_running conn"
  "fst (removeClient n conn) = length (smap_erase n (rpc_clients conn))"
  by (auto simp: removeClient_def Let_def split: option.split)

lemma conn_ok_remove: "conn_ok conn \<Longrightarrow> conn_ok (snd (removeClient n conn))"
  unfolding conn_ok_def removeClient_simps using smap_wf_erase by (auto simp: smap_erase_def)

lemma keys_erase: "fst ` set (smap_erase n m) = fst ` set m - {n}"
  by (auto simp: smap_erase_def)

lemma belongs_to_add: "addClient k w conn = (n, conn') \<Longrightarrow> belongs_to l conn \<Longrightarrow> belongs_to l conn'"
  by (auto simp: addClient_def Let_def belongs_to_def)

lemma belongs_to_remove: "belongs_to l conn \<Longrightarrow> belongs_to l (snd (removeClient n conn))"
  by (auto simp: removeClient_def Let_def belongs_to_def split: option.split)

lemma keys_add: "addClient k w conn = (n, conn') \<Longrightarrow> fst ` set (rpc_clients conn') = insert n (fst ` set (rpc_clients conn))"
proof -
  assume "addClient k w conn = (n, conn')"
  then have "rpc_clients conn' = smap_assign n \<lparr>rpc_callback = k, rpc_hook = w\<rparr> (rpc_clients conn)"
    by (auto simp: addClient_def Let_def)
  then show ?thesis
    by (simp only: keys_smap_assign)
qed

text \<open>Adding a client keeps the invariant and gives the client a number of its own.\<close>

lemma set_client_ok:
  assumes ok: "redis_ok c" and left: "numbers_left (Suc k) c" and s: "setRPCClient e l callback hooks c = (Inr (rq, n), c')"
  shows "redis_ok c'" "numbers_left k c'" "n \<notin> client_numbers c Redis l"
    "client_numbers c' = (client_numbers c)(Redis := (client_numbers c Redis)(l := insert n (client_numbers c Redis l)))"
proof -
  obtain p conn conn' where a: "connection_at e l c = (p, conn)" "addClient callback (Option.bind hooks wireToUser) conn = (n, conn')"
      and c': "client_conns c' = (client_conns c)(p \<mapsto> conn')" "rpcClientConnections c' = (rpcClientConnections c)(l \<mapsto> p)"
      "next_conn c' = (if rpcClientConnections c l = None then next_conn c + 1 else next_conn c)"
    by (rule setRPCClient_cases [OF ok s]) auto
  have old: "rpcClientConnections c l = Some p \<and> client_conns c p = Some conn
      \<or> rpcClientConnections c l = None \<and> p = next_conn c \<and> client_conns c p = None \<and> rpc_clients conn = [] \<and> clientCounter conn = 0
        \<and> client_running conn \<and> belongs_to l conn"
    using a(1) redis_okD(2,4) [OF ok]
    by (fastforce simp: belongs_to_def connection_at_def new_client_connection_def split: option.splits)
  have "conn_ok conn"
    using old redis_okD(5) [OF ok] by (auto simp: conn_ok_def)
  moreover have cnt: "unat (clientCounter conn) + Suc k < 2 ^ 32"
    using old left unfolding numbers_left_def by fastforce
  ultimately have conn': "conn_ok conn'" "fst ` set (rpc_clients conn') = insert n (fst ` set (rpc_clients conn))"
      "n \<notin> fst ` set (rpc_clients conn)" "unat (clientCounter conn') = unat (clientCounter conn) + 1" "rpc_clients conn' \<noteq> []"
    using conn_ok_add [OF _ a(2)] by simp_all
  have one: "rpcClientConnections c k' = Some p \<Longrightarrow> k' = l" for k'
    using old redis_okD(1) [OF ok] redis_okD(2) [OF ok, of k' p] by auto
  show "redis_ok c'"
    unfolding redis_ok_def
  proof (intro conjI allI impI)
    fix k' l' q
    assume "rpcClientConnections c' k' = Some q \<and> rpcClientConnections c' l' = Some q"
    then show "k' = l'"
      using one redis_okD(1) [OF ok] by (auto simp: c' split: if_splits)
  next
    fix l' q
    assume "rpcClientConnections c' l' = Some q"
    then show "client_conns c' q \<noteq> None"
      using redis_okD(2) [OF ok] by (auto simp: c' split: if_splits)
  next
    fix q
    assume q: "client_conns c' q \<noteq> None"
    show "\<exists>l'. rpcClientConnections c' l' = Some q"
    proof (cases "q = p")
      case False
      then obtain l' where "rpcClientConnections c l' = Some q"
        using q redis_okD(3) [OF ok] by (auto simp: c')
      moreover have "l' \<noteq> l"
        using calculation False old by auto
      ultimately show ?thesis
        by (auto simp: c' intro: exI [of _ l'])
    qed (auto simp: c')
  next
    fix l' q x
    assume "rpcClientConnections c' l' = Some q \<and> client_conns c' q = Some x"
    then have l: "rpcClientConnections c' l' = Some q" and q: "client_conns c' q = Some x"
      by simp_all
    show "belongs_to l' x"
    proof (cases "q = p")
      case True
      then have "l' = l"
        using l one by (auto simp: c' split: if_splits)
      moreover have "x = conn'"
        using q True by (simp add: c')
      moreover have "belongs_to l conn"
        using old redis_okD(7) [OF ok, of l p conn] by blast
      ultimately show ?thesis
        using belongs_to_add [OF a(2)] by simp
    next
      case False
      then show ?thesis
        using l q redis_okD(7) [OF ok, of l' q x] by (auto simp: c' split: if_splits)
    qed
  next
    fix q x
    assume "client_conns c' q = Some x"
    then show "q < next_conn c'" "conn_ok x" "rpc_clients x \<noteq> []"
      using conn' redis_okD(4,5,6) [OF ok] old by (auto simp: c' less_Suc_eq split: if_splits)
  qed
  show "numbers_left k c'"
    using left cnt conn'(4) by (fastforce simp: numbers_left_def c')
  have at: "client_numbers c Redis l = fst ` set (rpc_clients conn)"
    using old by (elim disjE) (simp_all add: client_numbers_def)
  show "n \<notin> client_numbers c Redis l"
    using at conn'(3) by simp
  show "client_numbers c' = (client_numbers c)(Redis := (client_numbers c Redis)(l := insert n (client_numbers c Redis l)))"
  proof (intro ext)
    fix t k'
    have "k' \<noteq> l \<Longrightarrow> client_numbers c' Redis k' = client_numbers c Redis k'"
      using one [of k'] by (cases "rpcClientConnections c k'") (auto simp: client_numbers_def c')
    moreover have "client_numbers c' Redis l = insert n (client_numbers c Redis l)"
      unfolding at by (simp add: client_numbers_def c' conn'(2))
    moreover have "t \<noteq> Redis \<Longrightarrow> client_numbers c' t k' = client_numbers c t k'"
      by (simp add: client_numbers_def)
    ultimately show "client_numbers c' t k' = ((client_numbers c)(Redis := (client_numbers c Redis)(l := insert n (client_numbers c Redis l)))) t k'"
      by auto
  qed
qed

lemma refused_ok:
  assumes "redis_ok c" and "setRPCClient e l callback hooks c = (Inl x, c')"
  shows "redis_ok c'" "client_numbers c' = client_numbers c" "numbers_left k c \<Longrightarrow> numbers_left k c'" "auth e l \<noteq> Inr ()"
proof -
  have same: "client_conns c' = client_conns c" "rpcClientConnections c' = rpcClientConnections c" "next_conn c' = next_conn c"
      "auth e l \<noteq> Inr ()"
    by (rule setRPCClient_cases [OF assms]; simp)+
  then show "numbers_left k c \<Longrightarrow> numbers_left k c'" "auth e l \<noteq> Inr ()"
    by (simp_all add: numbers_left_def)
  show "redis_ok c'"
    using assms(1) unfolding redis_ok_def same .
  show "client_numbers c' = client_numbers c"
    unfolding client_numbers_def same ..
qed

text \<open>Removing one takes just this number away.\<close>

lemma remove_client_ok:
  assumes ok: "redis_ok c" and r: "removeRPCClient l n c = (r, c')"
  shows "redis_ok c'" "numbers_left k c \<Longrightarrow> numbers_left k c'" "r = Inr ()"
    "client_numbers c' = (client_numbers c)(Redis := (client_numbers c Redis)(l := client_numbers c Redis l - {n}))"
proof -
  have "redis_ok c' \<and> (numbers_left k c \<longrightarrow> numbers_left k c') \<and> r = Inr () \<and>
    client_numbers c' = (client_numbers c)(Redis := (client_numbers c Redis)(l := client_numbers c Redis l - {n}))"
  proof (cases "rpcClientConnections c l")
    case None
    then show ?thesis
      using ok r by (auto simp: removeRPCClient_def returnS_def client_numbers_def fun_eq_iff)
  next
    case (Some p)
    then obtain conn where conn: "client_conns c p = Some conn"
      using redis_okD(2) [OF ok] by blast
    define conn' where "conn' = snd (removeClient n conn)"
    have keys: "fst ` set (rpc_clients conn') = fst ` set (rpc_clients conn) - {n}"
      by (simp add: conn'_def removeClient_simps keys_erase)
    have one: "rpcClientConnections c k' = Some p \<Longrightarrow> k' = l" for k'
      using redis_okD(1) [OF ok] Some by blast
    have len: "fst (removeClient n conn) = length (rpc_clients conn')"
      by (simp add: conn'_def removeClient_simps)
    have c': "r = Inr ()" "c' = (if rpc_clients conn' = []
        then c\<lparr>client_conns := (client_conns c)(p := None), rpcClientConnections := (rpcClientConnections c)(l := None)\<rparr>
        else c\<lparr>client_conns := (client_conns c)(p \<mapsto> conn')\<rparr>)"
      using r Some conn len by (auto simp: removeRPCClient_def on_client_def bindS_def returnS_def split_def conn'_def [symmetric])
    have ok': "conn_ok conn'" "clientCounter conn' = clientCounter conn"
      using redis_okD(5) [OF ok conn] by (simp_all add: conn'_def conn_ok_remove removeClient_simps)
    have own: "belongs_to l conn'"
      using redis_okD(7) [OF ok Some conn] by (simp add: conn'_def belongs_to_remove)
    have "redis_ok c'"
    proof (cases "rpc_clients conn' = []")
      case True
      have "\<exists>l'. l' \<noteq> l \<and> rpcClientConnections c l' = Some q" if "client_conns c q \<noteq> None" "q \<noteq> p" for q
        using redis_okD(3) [OF ok, of q] that Some by (metis not_None_eq option.inject)
      then show ?thesis
        using True one redis_okD [OF ok] unfolding redis_ok_def c'(2) by (simp split: if_splits) metis
    next
      case False
      then show ?thesis
        using ok' own one redis_okD [OF ok] conn unfolding redis_ok_def c'(2) by (auto split: if_splits)
    qed
    moreover have "numbers_left k c \<longrightarrow> numbers_left k c'"
      using conn ok'(2) by (auto simp: numbers_left_def c'(2))
    moreover have "client_numbers c' t k' =
        ((client_numbers c)(Redis := (client_numbers c Redis)(l := client_numbers c Redis l - {n}))) t k'" for t k'
    proof (cases "t = Redis \<and> k' = l")
      case True
      then show ?thesis
        using Some conn keys by (auto simp: client_numbers_def c'(2))
    next
      case False
      then show ?thesis
        using one [of k'] by (cases "rpcClientConnections c k'") (auto simp: client_numbers_def c'(2))
    qed
    ultimately show ?thesis
      using c'(1) by (simp add: fun_eq_iff)
  qed
  then show "redis_ok c'" "numbers_left k c \<Longrightarrow> numbers_left k c'" "r = Inr ()"
    "client_numbers c' = (client_numbers c)(Redis := (client_numbers c Redis)(l := client_numbers c Redis l - {n}))"
    by simp_all
qed

interpretation redis_rpc: rpc_components "redis_service e callback :: ('c, 's) RedisComponentImpl rpc_service"
    redis_ok numbers_left client_numbers
  for e and callback :: 'c
proof
  fix s :: "('c, 's) RedisComponentImpl" and n t l h
  assume a: "redis_ok s" "numbers_left (Suc n) s" "has_component (redis_service e callback) t"
  obtain r s' where r: "setRPCClient e l callback h s = (r, s')"
    by fastforce
  have t: "t = Redis" "numbered t"
    using a(3) by (simp_all add: redis_service_def numbered_def)
  have f: "set_rpc_client (redis_service e callback) t l h s = (map_sum (\<lambda>x. x) snd r, s')"
    using r by (cases r) (simp_all add: redis_service_def bindS_def returnS_def)
  have less: "numbers_left n s"
    using a(2) by (fastforce simp: numbers_left_def)
  show "redis_ok (snd (set_rpc_client (redis_service e callback) t l h s)) \<and>
      numbers_left n (snd (set_rpc_client (redis_service e callback) t l h s)) \<and>
      (case fst (set_rpc_client (redis_service e callback) t l h s) of
         Inr i \<Rightarrow>
           if numbered t then i \<notin> client_numbers s t l \<and>
             client_numbers (snd (set_rpc_client (redis_service e callback) t l h s)) =
               (client_numbers s)(t := (client_numbers s t)(l := insert i (client_numbers s t l)))
           else client_numbers (snd (set_rpc_client (redis_service e callback) t l h s)) = client_numbers s
       | Inl e' \<Rightarrow> client_numbers (snd (set_rpc_client (redis_service e callback) t l h s)) = client_numbers s)"
  proof (cases r)
    case (Inl x)
    then show ?thesis
      using refused_ok [OF a(1), of e l callback h x s'] r less by (simp add: f)
  next
    case (Inr q)
    obtain rq i where "q = (rq, i)"
      by fastforce
    then show ?thesis
      unfolding f using set_client_ok [OF a(1,2), of e l callback h rq i s'] r Inr t by simp
  qed
next
  fix s :: "('c, 's) RedisComponentImpl" and t l i n
  assume a: "redis_ok s" "has_component (redis_service e callback) t"
  then have t: "t = Redis" "numbered t"
    by (simp_all add: redis_service_def numbered_def)
  obtain r s' where r: "removeRPCClient l i s = (r, s')"
    by fastforce
  show "redis_ok (remove_rpc_client (redis_service e callback) t l i s) \<and>
      (numbers_left n s \<longrightarrow> numbers_left n (remove_rpc_client (redis_service e callback) t l i s)) \<and>
      client_numbers (remove_rpc_client (redis_service e callback) t l i s) =
        (if numbered t then (client_numbers s)(t := (client_numbers s t)(l := client_numbers s t l - {i})) else client_numbers s)"
    using remove_client_ok [OF a(1) r] t r by (simp add: redis_service_def)
next
  fix s :: "('c, 's) RedisComponentImpl" and n
  assume "numbers_left (Suc n) s"
  then show "numbers_left n s"
    by (fastforce simp: numbers_left_def)
next
  fix s :: "('c, 's) RedisComponentImpl" and t l
  assume ok: "redis_ok s"
  show "0 \<notin> client_numbers s t l"
  proof -
    have "0 \<notin> fst ` set (rpc_clients conn)" if "client_conns s p = Some conn" for p conn
      using redis_okD(5) [OF ok that] by (auto simp: conn_ok_def)
    then show ?thesis
      by (cases "rpcClientConnections s l") (auto simp: client_numbers_def split: option.split)
  qed
qed

section \<open>The calls of the component in any order\<close>

datatype ('c, 's) redis_call =
    SetRPCClient ConnectionLocator 'c "ByteDataHookPair option"
  | RemoveRPCClient ConnectionLocator uint32
  | Request requester ByteDataWithID
  | ReaderTurn nat redis_read
  | SetRPCServer ConnectionLocator 's "ByteDataHookPair option"
  | Reply replier bool ByteDataWithID
  | ServerTurn ConnectionLocator redis_read

definition do_redis_call :: "redis_env \<Rightarrow> ('c, 's) redis_call \<Rightarrow> (('c, 's) RedisComponentImpl, rpc_error, unit) call" where
  "do_redis_call e x =
     (case x of
        SetRPCClient l callback hooks \<Rightarrow> bindS (setRPCClient e l callback hooks) (\<lambda>_. returnS ())
      | RemoveRPCClient l n \<Rightarrow> removeRPCClient l n
      | Request rq data \<Rightarrow> bindS (request e rq data) (\<lambda>_. returnS ())
      | ReaderTurn p r \<Rightarrow> bindS (reader_turn e p r) (\<lambda>_. returnS ())
      | SetRPCServer l handler hooks \<Rightarrow> bindS (setRPCServer e l handler hooks) (\<lambda>_. returnS ())
      | Reply rp isFinal data \<Rightarrow> bindS (reply e rp isFinal data) (\<lambda>_. returnS ())
      | ServerTurn l r \<Rightarrow> bindS (server_reader_turn e l r) (\<lambda>_. returnS ()))"

text \<open>The calls that leave the clients alone.\<close>

definition same_clients :: "'c OneRedisRPCClientConnection \<Rightarrow> 'c OneRedisRPCClientConnection \<Rightarrow> bool" where
  "same_clients x y \<longleftrightarrow> rpc_clients y = rpc_clients x \<and> clientCounter y = clientCounter x \<and> client_running y = client_running x
     \<and> rpcTopic y = rpcTopic x \<and> client_sender y = client_sender x \<and> myCommunicationID y = myCommunicationID x"

lemma same_clients_request: "same_clients x (snd (sendRequest cs n d x))"
  by (simp add: same_clients_def sendRequest_def)

lemma same_clients_reply: "same_clients x (snd (handle_client_reply m x))"
  by (cases m) (auto simp: same_clients_def handle_client_reply_def split: option.split)

lemma same_clients_turn: "same_clients x (snd (client_turn cs r x))"
  using same_clients_reply [of x]
  by (auto simp: client_turn_def same_clients_def split_def Let_def split: option.split)

definition same_tables :: "('c, 's) RedisComponentImpl \<Rightarrow> ('c, 's) RedisComponentImpl \<Rightarrow> bool" where
  "same_tables c c' \<longleftrightarrow> rpcClientConnections c' = rpcClientConnections c \<and> next_conn c' = next_conn c
     \<and> (\<forall>p. rel_option same_clients (client_conns c p) (client_conns c' p))"

lemma same_clients_refl: "same_clients x x"
  by (simp add: same_clients_def)

lemma same_tables_conns: "rpcClientConnections c' = rpcClientConnections c \<Longrightarrow> next_conn c' = next_conn c \<Longrightarrow>
    client_conns c' = client_conns c \<Longrightarrow> same_tables c c'"
  by (simp add: same_tables_def option.rel_refl same_clients_refl)

lemma same_tables_on_client:
  assumes "\<And>x. same_clients x (snd (f x))"
  shows "same_tables c (snd (on_client p f c))"
proof (cases "client_conns c p")
  case (Some x)
  then show ?thesis
    using assms [of x] by (auto simp: same_tables_def on_client_def returnS_def split_def Let_def option.rel_refl same_clients_refl)
qed (simp add: on_client_def throwS_def same_tables_conns)

lemma sender_keeps:
  "rpcClientConnections (snd (getOrStartSenderNoLock e l c)) = rpcClientConnections c"
  "next_conn (snd (getOrStartSenderNoLock e l c)) = next_conn c" "client_conns (snd (getOrStartSenderNoLock e l c)) = client_conns c"
  by (auto simp: getOrStartSenderNoLock_def Let_def returnS_def throwS_def split: option.split sum.split)

lemma same_tables_server: "same_tables c (snd (setRPCServer e l handler hooks c))"
  using sender_keeps [of e l c]
  by (auto simp: setRPCServer_def createRpcServerConnection_def bindS_def returnS_def throwS_def authS_def
      intro!: same_tables_conns split: prod.split sum.split)

lemma same_tables_on_server: "same_tables c (snd (on_server l f c))"
  by (auto simp: on_server_def returnS_def split_def Let_def intro!: same_tables_conns split: option.split)

lemma snd_bindS_returnS: "snd (bindS m (\<lambda>_. returnS ()) c) = snd (m c)"
  by (auto simp: bindS_def returnS_def split: prod.split sum.split)

lemma same_tables_calls:
  assumes "\<not> (\<exists>l k h. x = SetRPCClient l k h)" and "\<not> (\<exists>l n. x = RemoveRPCClient l n)"
  shows "same_tables c (snd (do_redis_call e x c))"
  using assms
  by (cases x) (auto simp: do_redis_call_def snd_bindS_returnS request_def reader_turn_def reply_def server_reader_turn_def
      intro!: same_tables_on_client same_clients_request same_clients_turn same_tables_server same_tables_on_server)

lemma same_tablesD:
  assumes "same_tables c c'"
  shows "rpcClientConnections c' = rpcClientConnections c" "next_conn c' = next_conn c"
    "client_conns c' p = Some y \<Longrightarrow> \<exists>x. client_conns c p = Some x \<and> same_clients x y"
    "client_conns c p = Some x \<Longrightarrow> \<exists>y. client_conns c' p = Some y \<and> same_clients x y"
    "client_conns c' p = None \<longleftrightarrow> client_conns c p = None"
proof -
  have r: "rel_option same_clients (client_conns c p) (client_conns c' p)"
    using assms unfolding same_tables_def by blast
  show "rpcClientConnections c' = rpcClientConnections c" "next_conn c' = next_conn c"
    using assms by (simp_all add: same_tables_def)
  show "client_conns c' p = Some y \<Longrightarrow> \<exists>x. client_conns c p = Some x \<and> same_clients x y"
    "client_conns c p = Some x \<Longrightarrow> \<exists>y. client_conns c' p = Some y \<and> same_clients x y"
    "client_conns c' p = None \<longleftrightarrow> client_conns c p = None"
    using r by (cases "client_conns c p"; cases "client_conns c' p"; simp)+
qed

lemma same_tables_ok:
  assumes "same_tables c c'" and "redis_ok c"
  shows "redis_ok c'" "numbers_left k c \<Longrightarrow> numbers_left k c'"
proof -
  have conn: "conn_ok y \<and> rpc_clients y \<noteq> [] \<and> p < next_conn c'" if y: "client_conns c' p = Some y" for p y
  proof -
    obtain x where x: "client_conns c p = Some x" "same_clients x y"
      using same_tablesD(3) [OF assms(1) y] by blast
    then show ?thesis
      using redis_okD(4,5,6) [OF assms(2) x(1)] same_tablesD(2) [OF assms(1)] by (auto simp: same_clients_def conn_ok_def)
  qed
  have "(\<forall>k l p. rpcClientConnections c' k = Some p \<and> rpcClientConnections c' l = Some p \<longrightarrow> k = l)"
    using redis_okD(1) [OF assms(2)] same_tablesD(1) [OF assms(1)] by simp
  moreover have "\<forall>l p. rpcClientConnections c' l = Some p \<longrightarrow> client_conns c' p \<noteq> None"
    using redis_okD(2) [OF assms(2)] by (simp add: same_tablesD(1,5) [OF assms(1)])
  moreover have "\<forall>p. client_conns c' p \<noteq> None \<longrightarrow> (\<exists>l. rpcClientConnections c' l = Some p)"
    using redis_okD(3) [OF assms(2)] unfolding same_tablesD(1,5) [OF assms(1)] by blast
  moreover have "\<forall>l p y. rpcClientConnections c' l = Some p \<and> client_conns c' p = Some y \<longrightarrow> belongs_to l y"
    using redis_okD(7) [OF assms(2)] same_tablesD(1,3) [OF assms(1)] by (fastforce simp: belongs_to_def same_clients_def)
  ultimately show "redis_ok c'"
    using conn unfolding redis_ok_def by blast
  show "numbers_left k c \<Longrightarrow> numbers_left k c'"
    using same_tablesD(3) [OF assms(1)] by (fastforce simp: numbers_left_def same_clients_def)
qed

text \<open>The connection of a locator serves a client.\<close>

definition serves :: "ConnectionLocator \<Rightarrow> nat \<Rightarrow> uint32 \<Rightarrow> ('c, 's) RedisComponentImpl \<Rightarrow> bool" where
  "serves l p n c \<longleftrightarrow> rpcClientConnections c l = Some p \<and>
     (\<exists>conn. client_conns c p = Some conn \<and> n \<in> fst ` set (rpc_clients conn))"

lemma serves_same: "same_tables c c' \<Longrightarrow> serves l p n c \<Longrightarrow> serves l p n c'"
  unfolding serves_def using same_tablesD(1,4) [of c c'] unfolding same_clients_def by metis

lemma serves_set:
  assumes ok: "redis_ok c" and s: "setRPCClient e l' k h c = (r, c')" and p: "serves l p n c"
  shows "serves l p n c'"
  using ok s
proof (cases rule: setRPCClient_cases)
  case refused
  then show ?thesis
    using p by (simp add: serves_def)
next
  case (added q conn i conn')
  then show ?thesis
    using p redis_okD(1) [OF ok, of l p l'] redis_okD(4) [OF ok, of p] keys_add [OF added(2)]
    by (cases "rpcClientConnections c l'") (auto simp: serves_def connection_at_def)
qed

lemma serves_remove:
  assumes ok: "redis_ok c" and r: "removeRPCClient l' i c = (r, c')" and p: "serves l p n c" and other: "(l', i) \<noteq> (l, n)"
  shows "serves l p n c'"
proof (cases "rpcClientConnections c l'")
  case None
  then show ?thesis
    using r p by (simp add: removeRPCClient_def returnS_def)
next
  case (Some q)
  then obtain conn where conn: "client_conns c q = Some conn"
    using redis_okD(2) [OF ok] by blast
  define conn' where "conn' = snd (removeClient i conn)"
  have len: "fst (removeClient i conn) = length (rpc_clients conn')"
    by (simp add: conn'_def removeClient_simps)
  have c': "c' = (if rpc_clients conn' = []
      then c\<lparr>client_conns := (client_conns c)(q := None), rpcClientConnections := (rpcClientConnections c)(l' := None)\<rparr>
      else c\<lparr>client_conns := (client_conns c)(q \<mapsto> conn')\<rparr>)"
    using r Some conn len by (auto simp: removeRPCClient_def on_client_def bindS_def returnS_def split_def conn'_def [symmetric])
  show ?thesis
  proof (cases "l' = l")
    case False
    then have "q \<noteq> p"
      using Some p redis_okD(1) [OF ok] by (auto simp: serves_def)
    then show ?thesis
      using p False by (auto simp: serves_def c')
  next
    case True
    then have "q = p" "n \<in> fst ` set (rpc_clients conn')"
      using Some p conn other by (auto simp: serves_def conn'_def removeClient_simps keys_erase)
    moreover from this have "rpc_clients conn' \<noteq> []"
      by auto
    ultimately show ?thesis
      using p conn Some by (auto simp: serves_def c' conn'_def)
  qed
qed

text \<open>Every call keeps the invariant and uses up at most one number; a client is served until it is removed.\<close>

lemma redis_call_ok:
  assumes ok: "redis_ok c" and left: "numbers_left (Suc k) c" and d: "do_redis_call e x c = (r, c')"
  shows "redis_ok c'" "numbers_left k c'" "serves l p n c \<Longrightarrow> x \<noteq> RemoveRPCClient l n \<Longrightarrow> serves l p n c'"
proof -
  have less: "numbers_left k c"
    by (rule redis_rpc.room_less [OF left])
  have "redis_ok c' \<and> numbers_left k c' \<and> (serves l p n c \<and> x \<noteq> RemoveRPCClient l n \<longrightarrow> serves l p n c')"
  proof (cases "(\<exists>l k h. x = SetRPCClient l k h) \<or> (\<exists>l n. x = RemoveRPCClient l n)")
    case False
    have "same_tables c (snd (do_redis_call e x c))"
      by (rule same_tables_calls) (use False in blast)+
    then show ?thesis
      using same_tables_ok [OF _ ok] less serves_same d by auto
  next
    case True
    then show ?thesis
    proof (elim disjE exE)
      fix l' k' h
      assume x: "x = SetRPCClient l' k' h"
      obtain o1 where "setRPCClient e l' k' h c = (o1, c')"
        using d snd_bindS_returnS [of "setRPCClient e l' k' h" c] by (cases "setRPCClient e l' k' h c") (auto simp: x do_redis_call_def)
      then show ?thesis
        using set_client_ok [OF ok left] refused_ok [OF ok] less serves_set [OF ok] by (cases o1) (auto simp: x)
    next
      fix l' i
      assume "x = RemoveRPCClient l' i"
      then show ?thesis
        using d remove_client_ok [OF ok] less serves_remove [OF ok] by (auto simp: do_redis_call_def)
    qed
  qed
  then show "redis_ok c'" "numbers_left k c'" "serves l p n c \<Longrightarrow> x \<noteq> RemoveRPCClient l n \<Longrightarrow> serves l p n c'"
    by blast+
qed

lemma redis_calls_ok:
  assumes "redis_ok c" and "numbers_left (length xs) c" and "run_calls (do_redis_call e) xs c = (rs, c')"
  shows "redis_ok c' \<and> (serves l p n c \<and> RemoveRPCClient l n \<notin> set xs \<longrightarrow> serves l p n c')"
  using assms
proof (induction xs arbitrary: c rs)
  case (Cons x xs)
  obtain r c1 where one: "do_redis_call e x c = (r, c1)"
    by fastforce
  with Cons.prems(3) obtain rs' where "run_calls (do_redis_call e) xs c1 = (rs', c')"
    by (auto split: prod.splits)
  then show ?case
    using Cons.IH redis_call_ok [OF Cons.prems(1) _ one] Cons.prems(2) by (metis length_Cons list.set_intros)
qed simp

lemma serves_new:
  assumes ok: "redis_ok c" and left: "numbers_left (Suc k) c"
    and s: "setRPCClient e l k' h c = (Inr (rq, n), c')"
  shows "serves l (req_connection rq) n c'" "req_number rq = n"
proof -
  have "serves l (req_connection rq) n c' \<and> req_number rq = n"
    using ok s
  proof (cases rule: setRPCClient_cases)
    case (added q conn i conn')
    then show ?thesis
      using added keys_add [OF added(2)] by (auto simp: serves_def)
  qed simp
  then show "serves l (req_connection rq) n c'" "req_number rq = n"
    by simp_all
qed

lemma serves_request:
  assumes "redis_ok c" and "serves l (req_connection rq) n c"
  shows "\<exists>m c'. request e rq data c = (Inr (hostAndPort l, c_str (ident l), m), c')"
proof -
  obtain conn where "client_conns c (req_connection rq) = Some conn" "rpcClientConnections c l = Some (req_connection rq)"
    using assms(2) by (auto simp: serves_def)
  moreover from this have "belongs_to l conn"
    using redis_okD(7) [OF assms(1)] by blast
  ultimately show ?thesis
    by (auto simp: request_def on_client_def sendRequest_def publish_def returnS_def belongs_to_def)
qed

text \<open>
  C12: The function that sends a client's requests works for as long as the client has not been removed, whatever other calls the component
  gets in between, as long as a connection does not give out all of its 2 ^ 32 - 1 numbers: it never reaches a deleted connection, and publishes
  each request on the server and channel of the client's locator.
\<close>

theorem requester_stays_usable:
  assumes "redis_ok c" and "numbers_left (Suc (length xs)) c"
    and "setRPCClient e l callback hooks c = (Inr (rq, n), c1)"
    and "RemoveRPCClient l n \<notin> set xs" and "run_calls (do_redis_call e) xs c1 = (rs, c2)"
  shows "\<exists>m c3. request e rq data c2 = (Inr (hostAndPort l, c_str (ident l), m), c3)"
proof -
  have s: "serves l (req_connection rq) n c1"
    by (rule serves_new(1) [OF assms(1-3)])
  have "redis_ok c1" "numbers_left (length xs) c1"
    using set_client_ok [OF assms(1-3)] by simp_all
  then have "redis_ok c2" "serves l (req_connection rq) n c2"
    using redis_calls_ok [OF _ _ assms(5)] s assms(4) by blast+
  then show ?thesis
    by (rule serves_request)
qed

text \<open>An environment for examples: no authentication, and communication identifiers of growing length.\<close>

definition sample_redis :: redis_env where
  "sample_redis = \<lparr>accepts = (\<lambda>_ _. True), new_communication_id = (\<lambda>n. replicate n (CHR ''i'')), rpc_codecs_of = ref_rpc_codecs\<rparr>"

lemma initial_redis_ok: "redis_ok initial_redis" "n < 2 ^ 32 \<Longrightarrow> numbers_left n initial_redis"
  "client_numbers initial_redis = (\<lambda>_ _. {})"
  by (simp_all add: redis_ok_def initial_redis_def numbers_left_def client_numbers_def fun_eq_iff)

lemma auth_open: "password l = '''' \<Longrightarrow> auth e l = Inr ()"
  by (simp add: auth_def auth_command_def)

text \<open>A client can be set where there is no authentication.\<close>

lemma set_client_works:
  assumes "redis_ok c" and "auth e l = Inr ()"
  obtains rq n c' where "setRPCClient e l callback hooks c = (Inr (rq, n), c')"
proof -
  obtain r c' where r: "setRPCClient e l callback hooks c = (r, c')"
    by fastforce
  show thesis
  proof (cases r)
    case (Inl x)
    then show thesis
      using refused_ok(4) [OF assms(1)] r assms(2) by blast
  next
    case (Inr q)
    then show thesis
      using that r by (cases q) simp
  qed
qed

definition open_locator :: ConnectionLocator where
  "open_locator = sample_locator\<lparr>password := ''''\<rparr>"

lemma open_auth [simp]: "auth e open_locator = Inr ()"
  by (rule auth_open) (simp add: open_locator_def)

theorem requester_stays_usable_witness:
  "\<exists>rq n c1 c2 m c3. setRPCClient sample_redis open_locator (7 :: nat) None (initial_redis :: (nat, nat) RedisComponentImpl) = (Inr (rq, n), c1)
    \<and> snd (run_calls (do_redis_call sample_redis) [SetRPCClient open_locator 8 None, RemoveRPCClient open_locator (n + 1)] c1) = c2
    \<and> request sample_redis rq \<lparr>data_id = ''i'', data_content = ''q''\<rparr> c2 = (Inr (hostAndPort open_locator, c_str (ident open_locator), m), c3)"
proof -
  obtain rq n c1 where one: "setRPCClient sample_redis open_locator (7 :: nat) None (initial_redis :: (nat, nat) RedisComponentImpl) = (Inr (rq, n), c1)"
    by (rule set_client_works [OF initial_redis_ok(1) open_auth])
  obtain rs c2 where two: "run_calls (do_redis_call sample_redis) [SetRPCClient open_locator 8 None, RemoveRPCClient open_locator (n + 1)] c1 = (rs, c2)"
    by fastforce
  have "\<exists>m c3. request sample_redis rq \<lparr>data_id = ''i'', data_content = ''q''\<rparr> c2 =
      (Inr (hostAndPort open_locator, c_str (ident open_locator), m), c3)"
    by (rule requester_stays_usable [OF initial_redis_ok(1) initial_redis_ok(2) one _ two]) simp_all
  then show ?thesis
    using one two by (intro exI [of _ rq] exI [of _ n] exI [of _ c1] exI [of _ c2]) auto
qed

text \<open>
  The thread of a connection was detached, so removing the last client deletes the connection while the thread may still be in its loop: its next
  turn, and a request sent through a function that was kept, use a deleted object.
\<close>

theorem reader_outlives_connection:
  assumes "redis_ok c" and "numbers_left 1 c" and "rpcClientConnections c l = None"
    and "setRPCClient e l callback hooks c = (Inr (rq, n), c1)"
  shows "\<exists>c2. removeRPCClient l n c1 = (Inr (), c2)
    \<and> reader_turn e (req_connection rq) r c2 = (Inl (DeletedObject (req_connection rq)), c2)
    \<and> request e rq data c2 = (Inl (DeletedObject (req_connection rq)), c2)"
proof -
  have l: "numbers_left (Suc 0) c"
    using assms(2) by simp
  have s: "serves l (req_connection rq) n c1"
    by (rule serves_new(1) [OF assms(1) l assms(4)])
  note ok1 = set_client_ok [OF assms(1) l assms(4)]
  obtain r2 c2 where two: "removeRPCClient l n c1 = (r2, c2)"
    by fastforce
  note ok2 = remove_client_ok [OF ok1(1) two]
  have "client_numbers c1 Redis l = {n}"
    using assms(3) by (simp add: ok1(4)) (simp add: client_numbers_def)
  then have none: "client_numbers c2 Redis l = {}"
    by (simp add: ok2(4))
  have "client_conns c2 (req_connection rq) = None"
  proof (rule ccontr)
    assume "client_conns c2 (req_connection rq) \<noteq> None"
    then obtain conn k where conn: "client_conns c2 (req_connection rq) = Some conn" "rpcClientConnections c2 k = Some (req_connection rq)"
      using redis_okD(3) [OF ok2(1)] by blast
    have "rpcClientConnections c1 k = Some (req_connection rq)"
      using two conn(2) by (auto simp: removeRPCClient_def on_client_def bindS_def returnS_def throwS_def
          split: option.splits if_splits prod.splits)
    then have "k = l"
      using s redis_okD(1) [OF ok1(1)] by (auto simp: serves_def)
    then have "fst ` set (rpc_clients conn) = {}"
      using conn none by (simp add: client_numbers_def)
    then show False
      using redis_okD(6) [OF ok2(1) conn(1)] by simp
  qed
  then show ?thesis
    using two ok2(3) by (auto simp: reader_turn_def request_def on_client_def throwS_def)
qed

theorem reader_outlives_connection_witness:
  "\<exists>rq n c1 c2. setRPCClient sample_redis open_locator (7 :: nat) None (initial_redis :: (nat, nat) RedisComponentImpl) = (Inr (rq, n), c1)
    \<and> removeRPCClient open_locator n c1 = (Inr (), c2)
    \<and> reader_turn sample_redis (req_connection rq) NoReply c2 = (Inl (DeletedObject (req_connection rq)), c2)"
proof -
  obtain rq n c1 where one: "setRPCClient sample_redis open_locator (7 :: nat) None (initial_redis :: (nat, nat) RedisComponentImpl) = (Inr (rq, n), c1)"
    by (rule set_client_works [OF initial_redis_ok(1) open_auth])
  have "rpcClientConnections (initial_redis :: (nat, nat) RedisComponentImpl) open_locator = None"
    by (simp add: initial_redis_def)
  from reader_outlives_connection [OF initial_redis_ok(1) initial_redis_ok(2) this one, of NoReply] one show ?thesis
    by auto
qed

end
