(* ===== verification/RedisRequests.thy ===== *)
theory RedisRequests
  imports RedisRpc
begin

text \<open>
  What the Redis connections for requests and replies promise: a connection implements a table of pending requests, a request and its replies
  make the round trip, and a remote facility over Redis sends each request to a client that is there.
\<close>

section \<open>The table of pending requests\<close>

text \<open>
  The specification knows the clients and, for each identifier, the client that waits for replies. A client that is removed waits no
  longer. The index from clients to identifiers of the code is not part of it.
\<close>

record 'c rpc_spec =
  spec_clients :: "uint32 \<rightharpoonup> 'c rpc_client"
  pending :: "string \<rightharpoonup> uint32"
  last_number :: uint32
  spec_sender :: ConnectionLocator
  spec_topic :: string
  spec_id :: string

datatype 'c conn_call = AddClient 'c "WireToUserHook option" | RemoveClient uint32 | SendRequest uint32 ByteDataWithID | Receive redis_read

datatype 'c conn_result = Number uint32 | ClientsLeft nat | Sent publication | Delivered "('c \<times> bool \<times> ByteDataWithID) list" bool

definition conn_step :: "rpc_codecs \<Rightarrow> 'c conn_call \<Rightarrow> 'c OneRedisRPCClientConnection \<Rightarrow> 'c conn_result \<times> 'c OneRedisRPCClientConnection" where
  "conn_step cs x c =
     (case x of
        AddClient k h \<Rightarrow> apfst Number (addClient k h c)
      | RemoveClient n \<Rightarrow> apfst ClientsLeft (removeClient n c)
      | SendRequest n d \<Rightarrow> apfst Sent (sendRequest cs n d c)
      | Receive r \<Rightarrow> apfst (\<lambda>(out, go). Delivered out go) (client_turn cs r c))"

definition spec_deliveries :: "'c rpc_spec \<Rightarrow> bool \<Rightarrow> ByteDataWithID \<Rightarrow> ('c \<times> bool \<times> ByteDataWithID) list" where
  "spec_deliveries a isFinal d =
     (case Option.bind (pending a (data_id d)) (spec_clients a) of
        Some info \<Rightarrow>
          (case run_in (rpc_hook info) (data_content d) of
             Some x \<Rightarrow> [(rpc_callback info, isFinal, d\<lparr>data_content := x\<rparr>)]
           | None \<Rightarrow> [])
      | None \<Rightarrow> [])"

definition spec_step :: "rpc_codecs \<Rightarrow> 'c conn_call \<Rightarrow> 'c rpc_spec \<Rightarrow> 'c conn_result \<times> 'c rpc_spec" where
  "spec_step cs x a =
     (case x of
        AddClient k h \<Rightarrow>
          (Number (last_number a + 1),
           a\<lparr>last_number := last_number a + 1, spec_clients := (spec_clients a)(last_number a + 1 \<mapsto> \<lparr>rpc_callback = k, rpc_hook = h\<rparr>)\<rparr>)
      | RemoveClient n \<Rightarrow>
          (ClientsLeft (card (dom ((spec_clients a)(n := None)))),
           a\<lparr>spec_clients := (spec_clients a)(n := None), pending := (\<lambda>i. if pending a i = Some n then None else pending a i)\<rparr>)
      | SendRequest n d \<Rightarrow>
          (Sent (publish (spec_sender a) \<lparr>topic = spec_topic a, content = encode_cbor (topic_codec cs)
             \<lparr>topic = spec_id a, content = encode_cbor (id_codec cs) d\<rparr>\<rparr>),
           a\<lparr>pending := (pending a)(data_id d \<mapsto> n)\<rparr>)
      | Receive r \<Rightarrow>
          (case (if ends_loop r then None else Option.bind (channel_message (spec_id a) r) (decode_all (reply_codec cs))) of
             Some (isFinal, d) \<Rightarrow>
               (Delivered (spec_deliveries a isFinal d) True, if isFinal then a\<lparr>pending := (pending a)(data_id d := None)\<rparr> else a)
           | None \<Rightarrow> (Delivered [] (\<not> ends_loop r), a)))"

definition abs_conn :: "'c OneRedisRPCClientConnection \<Rightarrow> 'c rpc_spec" where
  "abs_conn c = \<lparr>spec_clients = map_of (rpc_clients c), pending = idToClientMap c, last_number = clientCounter c,
     spec_sender = client_sender c, spec_topic = rpcTopic c, spec_id = myCommunicationID c\<rparr>"

text \<open>The index is right.\<close>

definition index_ok :: "'c OneRedisRPCClientConnection \<Rightarrow> bool" where
  "index_ok c \<longleftrightarrow> smap_wf (rpc_clients c) \<and> client_running c \<and> (\<forall>i n. i \<in> ids_of c n \<longleftrightarrow> idToClientMap c i = Some n)"

text \<open>No client takes an identifier that another client waits for.\<close>

fun own_ids :: "rpc_codecs \<Rightarrow> 'c conn_call list \<Rightarrow> 'c rpc_spec \<Rightarrow> bool" where
  "own_ids cs [] a \<longleftrightarrow> True"
| "own_ids cs (x # xs) a \<longleftrightarrow>
     (case x of SendRequest n d \<Rightarrow> pending a (data_id d) \<in> {None, Some n} | _ \<Rightarrow> True) \<and> own_ids cs xs (snd (spec_step cs x a))"

lemma removeClient_index:
  assumes "index_ok c"
  shows "idToClientMap (snd (removeClient n c)) = (\<lambda>i. if idToClientMap c i = Some n then None else idToClientMap c i)"
    "ids_of (snd (removeClient n c)) = (ids_of c)(n := {})"
proof -
  have i: "idToClientMap c i = Some m \<longleftrightarrow> i \<in> ids_of c m" for i m
    using assms by (simp add: index_ok_def)
  show "idToClientMap (snd (removeClient n c)) = (\<lambda>i. if idToClientMap c i = Some n then None else idToClientMap c i)"
    using i [of _ n] by (auto simp: removeClient_def ids_of_def Let_def restrict_map_def fun_eq_iff split: option.splits)
  show "ids_of (snd (removeClient n c)) = (ids_of c)(n := {})"
    by (auto simp: removeClient_def ids_of_def Let_def fun_eq_iff split: option.splits)
qed

lemma conn_step_refines:
  assumes ok: "index_ok c" and own: "case x of SendRequest n d \<Rightarrow> idToClientMap c (data_id d) \<in> {None, Some n} | _ \<Rightarrow> True"
    and s: "conn_step cs x c = (r, c')"
  shows "spec_step cs x (abs_conn c) = (r, abs_conn c') \<and> index_ok c'"
proof (cases x)
  case (AddClient k h)
  then show ?thesis
    using ok s by (auto simp: conn_step_def spec_step_def abs_conn_def addClient_def Let_def index_ok_def smap_simps smap_wf_assign ids_of_def)
next
  case (RemoveClient n)
  have c': "c' = snd (removeClient n c)" and r: "r = ClientsLeft (length (smap_erase n (rpc_clients c)))"
    using s RemoveClient by (auto simp: conn_step_def apfst_def map_prod_def split_def simp flip: removeClient_simps(4))
  have wf: "smap_wf (smap_erase n (rpc_clients c))"
    using ok by (simp add: index_ok_def smap_wf_erase)
  have "card (dom ((map_of (rpc_clients c))(n := None))) = length (smap_erase n (rpc_clients c))"
    unfolding map_of_smap_erase [symmetric] dom_map_of_conv_image_fst
    using distinct_card [OF smap_wf_distinct [OF wf]] by simp
  moreover have "removeClient n c = (fst (removeClient n c), snd (removeClient n c))"
    by simp
  moreover have "client_sender c' = client_sender c" "rpcTopic c' = rpcTopic c" "myCommunicationID c' = myCommunicationID c"
    by (auto simp: c' removeClient_def Let_def split: option.split)
  moreover have "index_ok c'"
    using ok wf removeClient_index [OF ok, of n] by (auto simp: index_ok_def c' removeClient_simps)
  ultimately show ?thesis
    using RemoveClient r removeClient_index [OF ok, of n]
    by (simp add: spec_step_def abs_conn_def c' removeClient_simps map_of_smap_erase cong: if_cong)
next
  case (SendRequest n d)
  have c': "c' = snd (sendRequest cs n d c)" "r = Sent (fst (sendRequest cs n d c))"
    using s SendRequest by (cases "sendRequest cs n d c"; simp add: conn_step_def)+
  have "ids_of c' = (ids_of c)(n := insert (data_id d) (ids_of c n))"
    by (auto simp: c' sendRequest_def ids_of_def fun_eq_iff)
  then have "index_ok c'"
    using ok own SendRequest by (auto simp: index_ok_def c' sendRequest_def)
  then show ?thesis
    using SendRequest c' by (simp add: spec_step_def abs_conn_def sendRequest_def)
next
  case (Receive rd)
  show ?thesis
  proof (cases "if ends_loop rd then None else Option.bind (channel_message (myCommunicationID c) rd) (decode_all (reply_codec cs))")
    case None
    then show ?thesis
      using ok s Receive by (auto simp: conn_step_def spec_step_def client_turn_def index_ok_def abs_conn_def split: if_splits)
  next
    case (Some m)
    obtain isFinal d where m: "m = (isFinal, d)"
      by fastforce
    have c': "c' = snd (handle_client_reply m c)" "r = Delivered (fst (handle_client_reply m c)) True"
      using s Some Receive ok by (auto simp: conn_step_def client_turn_def index_ok_def split: if_splits prod.splits)
    have "fst (handle_client_reply m c) = spec_deliveries (abs_conn c) isFinal d"
      by (cases d) (auto simp: handle_client_reply_def spec_deliveries_def abs_conn_def m run_in_def split: option.split)
    moreover have "abs_conn c' = (if isFinal then (abs_conn c)\<lparr>pending := (pending (abs_conn c))(data_id d := None)\<rparr> else abs_conn c)"
      by (auto simp: c' handle_client_reply_def abs_conn_def m fun_upd_idem split: option.split)
    moreover have "index_ok c'"
    proof (cases "idToClientMap c (data_id d)")
      case (Some n)
      then have "i \<in> ids_of c' k \<longleftrightarrow> idToClientMap c' i = Some k" for i k
        using ok by (auto simp: c' handle_client_reply_def m index_ok_def ids_of_def split: if_splits)
      then show ?thesis
        using ok Some by (simp add: index_ok_def c' handle_client_reply_def m)
    qed (use ok in \<open>simp add: c' handle_client_reply_def m\<close>)
    ultimately show ?thesis
      using Some Receive m c' by (simp add: spec_step_def abs_conn_def split: if_splits)
  qed
qed

lemma conn_steps_refine:
  assumes "index_ok c" and "own_ids cs xs (abs_conn c)" and "run_calls (conn_step cs) xs c = (rs, c')"
  shows "run_calls (spec_step cs) xs (abs_conn c) = (rs, abs_conn c')"
  using assms
proof (induction xs arbitrary: c rs)
  case (Cons x xs)
  obtain r c1 where one: "conn_step cs x c = (r, c1)"
    by fastforce
  with Cons.prems(3) obtain rs' where rest: "run_calls (conn_step cs) xs c1 = (rs', c')" "rs = r # rs'"
    by (auto split: prod.splits)
  have step: "spec_step cs x (abs_conn c) = (r, abs_conn c1) \<and> index_ok c1"
    by (rule conn_step_refines [OF Cons.prems(1) _ one]) (use Cons.prems(2) in \<open>cases x; simp add: abs_conn_def\<close>)
  then show ?case
    using Cons.IH [OF _ _ rest(1)] Cons.prems(2) rest(2) by simp
qed simp

text \<open>
  C11: A connection implements the table of pending requests: the numbers it gives out, what it publishes, and the callbacks it makes for the
  messages it receives are those of the specification, for any sequence of calls in which no client takes an identifier that another one waits for.
  So replies go to the client that sent the request, none goes to a client that was removed, and after the final one there are none.
\<close>

theorem pending_requests_refined:
  assumes "own_ids cs xs (abs_conn (new_client_connection l cid sender))"
    and "run_calls (conn_step cs) xs (new_client_connection l cid sender) = (rs, c)"
  shows "run_calls (spec_step cs) xs
      \<lparr>spec_clients = Map.empty, pending = Map.empty, last_number = 0, spec_sender = sender, spec_topic = ident l, spec_id = cid\<rparr> = (rs, abs_conn c)"
proof -
  have "index_ok (new_client_connection l cid sender)"
    by (simp add: index_ok_def new_client_connection_def ids_of_def)
  from conn_steps_refine [OF this assms] show ?thesis
    by (simp add: abs_conn_def new_client_connection_def)
qed

theorem pending_requests_refined_witness:
  "let xs = [AddClient (7 :: nat) None, AddClient 8 None, SendRequest 1 \<lparr>data_id = ''a'', data_content = ''q''\<rparr>,
       SendRequest 2 \<lparr>data_id = ''b'', data_content = ''q''\<rparr>, RemoveClient 1] in
   fst (run_calls (conn_step ref_rpc_codecs) xs (new_client_connection sample_locator ''me'' sample_locator)) =
   fst (run_calls (spec_step ref_rpc_codecs) xs \<lparr>spec_clients = Map.empty, pending = Map.empty, last_number = 0,
     spec_sender = sample_locator, spec_topic = ident sample_locator, spec_id = ''me''\<rparr>)"
  unfolding Let_def
  by (rule pending_requests_refined [THEN arg_cong [of _ _ fst], unfolded fst_conv, symmetric, OF _ prod.collapse [symmetric]])
     (simp add: abs_conn_def new_client_connection_def spec_step_def)

section \<open>The round trip\<close>

text \<open>How a published message arrives at a subscriber of its channel.\<close>

definition as_message :: "publication \<Rightarrow> redis_read" where
  "as_message m = (case m of (_, channel, x) \<Rightarrow> ArrayReply [StringElement ''message'', StringElement channel, StringElement x])"

text \<open>A server answers a request, each reply through the outgoing hook \<open>h\<close>; what the client's callback gets.\<close>

fun answers :: "rpc_codecs \<Rightarrow> UserToWireHook option \<Rightarrow> string \<Rightarrow> (bool \<times> string) list \<Rightarrow> 's OneRedisRPCServerConnection
    \<Rightarrow> 'c OneRedisRPCClientConnection
    \<Rightarrow> ('c \<times> bool \<times> ByteDataWithID) list \<times> 's OneRedisRPCServerConnection \<times> 'c OneRedisRPCClientConnection" where
  "answers cs h i [] s c = ([], s, c)"
| "answers cs h i ((f, x) # rs) s c =
     (let (pub, s') = sendReply cs f \<lparr>data_id = i, data_content = run_out h x\<rparr> s;
          ((out, _), c') = (case pub of Some m \<Rightarrow> client_turn cs (as_message m) c | None \<Rightarrow> (([], True), c));
          (outs, s'', c'') = answers cs h i rs s' c' in
      (out @ outs, s'', c''))"

text \<open>The replies up to the final one.\<close>

fun until_final :: "(bool \<times> string) list \<Rightarrow> (bool \<times> string) list" where
  "until_final [] = []"
| "until_final ((f, x) # rs) = (f, x) # (if f then [] else until_final rs)"

lemma answers_after_final: "replyTopicMap s i = None \<Longrightarrow> answers cs h i rs s c = ([], s, c)"
  by (induction rs) (auto simp: sendReply_def)

lemma channel_message_published: "nul_free (topic d) \<Longrightarrow> topic d = channel \<Longrightarrow>
    channel_message channel (as_message (publish sender d)) = Some (content d)"
  by (simp add: channel_message_def as_message_def publish_def element_text_def)

lemma as_message_goes_on [simp]: "\<not> ends_loop (as_message m)"
  by (simp add: ends_loop_def as_message_def split: prod.split)

context rpc_codec_laws
begin

lemma reply_arrives:
  assumes "client_running c" and "nul_free (myCommunicationID c)"
  shows "client_turn cs (as_message (publish k \<lparr>topic = myCommunicationID c, content = encode_cbor (reply_codec cs) m\<rparr>)) c =
    ((fst (handle_client_reply m c), True), snd (handle_client_reply m c))"
  using assms by (simp add: client_turn_def channel_message_published decode_all_encode [OF reply_law] split: prod.split)

lemma request_arrives:
  assumes "server_running s" and "nul_free (server_topic s)" and "rpcTopic c = server_topic s"
  shows "server_turn cs (as_message (fst (sendRequest cs n d c))) s =
    ((fst (handle_request (myCommunicationID c, d) s), True), snd (handle_request (myCommunicationID c, d) s))"
  using assms by (simp add: server_turn_def sendRequest_def channel_message_published decode_request_def
      decode_all_encode [OF topic_law] decode_all_encode [OF id_law] split: prod.split)

lemma answers_delivered:
  assumes "client_running c" and "nul_free (myCommunicationID c)"
    and "map_of (rpc_clients c) n = Some info" and "\<forall>x. run_in (rpc_hook info) (run_out h x) = Some x"
    and "replyTopicMap s i = Some (myCommunicationID c)" and "idToClientMap c i = Some n"
    and "answers cs h i rs s c = (outs, s', c')"
  shows "outs = map (\<lambda>(f, x). (rpc_callback info, f, \<lparr>data_id = i, data_content = x\<rparr>)) (until_final rs)
    \<and> ((\<exists>x. (True, x) \<in> set rs) \<longrightarrow> replyTopicMap s' i = None \<and> idToClientMap c' i = None)"
  using assms
proof (induction rs arbitrary: s c outs)
  case (Cons q rs)
  obtain f x where q: "q = (f, x)"
    by fastforce
  let ?d = "\<lparr>data_id = i, data_content = run_out h x\<rparr>"
  let ?c = "if f then c\<lparr>clientToIDMap := (clientToIDMap c)(n \<mapsto> ids_of c n - {i}), idToClientMap := (idToClientMap c)(i := None)\<rparr> else c"
  let ?s = "if f then s\<lparr>replyTopicMap := (replyTopicMap s)(i := None)\<rparr> else s"
  have hook: "run_in (rpc_hook info) (run_out h x) = Some x"
    using Cons.prems(4) by blast
  have "handle_client_reply (f, ?d) c = ([(rpc_callback info, f, \<lparr>data_id = i, data_content = x\<rparr>)], ?c)"
    using Cons.prems(3,6) hook by (cases "rpc_hook info") (simp_all add: handle_client_reply_def run_in_def)
  then have turn: "client_turn cs (as_message (publish (server_sender s) \<lparr>topic = myCommunicationID c,
      content = encode_cbor (reply_codec cs) (f, ?d)\<rparr>)) c = (([(rpc_callback info, f, \<lparr>data_id = i, data_content = x\<rparr>)], True), ?c)"
    using reply_arrives [OF Cons.prems(1,2)] by simp
  have "sendReply cs f ?d s = (Some (publish (server_sender s) \<lparr>topic = myCommunicationID c,
      content = encode_cbor (reply_codec cs) (f, ?d)\<rparr>), ?s)"
    using Cons.prems(5) by (simp add: sendReply_def)
  then obtain outs' where rest: "answers cs h i rs ?s ?c = (outs', s', c')"
      "outs = (rpc_callback info, f, \<lparr>data_id = i, data_content = x\<rparr>) # outs'"
    using Cons.prems(7) turn by (auto simp: q split: prod.splits)
  show ?case
  proof (cases f)
    case True
    then show ?thesis
      using rest answers_after_final [of ?s i cs h rs ?c] by (auto simp: q)
  next
    case False
    then show ?thesis
      using Cons.IH [OF Cons.prems(1-6), of outs'] rest by (auto simp: q)
  qed
qed simp

end

text \<open>
  C10: A request sent over Redis reaches the server's handler as the user wrote it, and all the replies the server gives, up to and including the first
  final one, reach the callback of the client that sent the request, in order and as the handler wrote them, when the hooks on both sides
  undo each other. The final reply ends the request on both sides; later replies are not sent.
\<close>

theorem rpc_roundtrip:
  assumes "rpc_codec_laws cs" and "client_running c" and "server_running s"
    and "rpcTopic c = server_topic s" and "nul_free (server_topic s)" and "nul_free (myCommunicationID c)"
    and "map_of (rpc_clients c) n = Some info"
    and "run_in (server_hook s) (run_out hc q) = Some q" and "\<forall>x. run_in (rpc_hook info) (run_out hs x) = Some x"
    and "sendRequest cs n \<lparr>data_id = i, data_content = run_out hc q\<rparr> c = (m, c1)"
    and "server_turn cs (as_message m) s = ((out, go), s1)"
    and "answers cs hs i rs s1 c1 = (outs, s2, c2)"
  shows "out = [(server_callback s, \<lparr>data_id = i, data_content = q\<rparr>)]
    \<and> outs = map (\<lambda>(f, x). (rpc_callback info, f, \<lparr>data_id = i, data_content = x\<rparr>)) (until_final rs)
    \<and> ((\<exists>x. (True, x) \<in> set rs) \<longrightarrow> replyTopicMap s2 i = None \<and> idToClientMap c2 i = None)"
proof -
  have m: "m = fst (sendRequest cs n \<lparr>data_id = i, data_content = run_out hc q\<rparr> c)"
    "c1 = snd (sendRequest cs n \<lparr>data_id = i, data_content = run_out hc q\<rparr> c)"
    by (simp_all add: assms(10))
  have s1: "out = [(server_callback s, \<lparr>data_id = i, data_content = q\<rparr>)]" "replyTopicMap s1 i = Some (myCommunicationID c)"
    using assms(11) assms(8) rpc_codec_laws.request_arrives [OF assms(1,3,5,4), of n "\<lparr>data_id = i, data_content = run_out hc q\<rparr>"]
    unfolding m by (cases "server_hook s"; auto simp: handle_request_def run_in_def)+
  have c1: "client_running c1" "nul_free (myCommunicationID c1)" "map_of (rpc_clients c1) n = Some info" "idToClientMap c1 i = Some n"
      "myCommunicationID c1 = myCommunicationID c"
    using assms(2,6,7) by (simp_all add: m sendRequest_def)
  show ?thesis
    using rpc_codec_laws.answers_delivered [OF assms(1) c1(1-3) assms(9) _ c1(4) assms(12)] s1 c1(5) by simp
qed

definition waiting_client :: "nat OneRedisRPCClientConnection" where
  "waiting_client = snd (addClient 7 (wireToUser tag_hooks) (new_client_connection open_locator ''me'' (hostAndPort open_locator)))"

definition waiting_server :: "nat OneRedisRPCServerConnection" where
  "waiting_server = new_server_connection open_locator 9 (wireToUser reverse_hooks) (hostAndPort open_locator)"

theorem rpc_roundtrip_witness:
  "let d = \<lparr>data_id = ''a'', data_content = rev ''qr''\<rparr>;
       c1 = snd (sendRequest ref_rpc_codecs 1 d waiting_client);
       s1 = snd (server_turn ref_rpc_codecs (as_message (fst (sendRequest ref_rpc_codecs 1 d waiting_client))) waiting_server)
   in fst (answers ref_rpc_codecs (userToWire tag_hooks) ''a'' [(False, ''x''), (True, ''y''), (False, ''z'')] s1 c1) =
     [(7, False, \<lparr>data_id = ''a'', data_content = ''x''\<rparr>), (7, True, \<lparr>data_id = ''a'', data_content = ''y''\<rparr>)]"
proof -
  let ?d = "\<lparr>data_id = ''a'', data_content = run_out (userToWire reverse_hooks) ''qr''\<rparr>"
  obtain m c1 where one: "sendRequest ref_rpc_codecs 1 ?d waiting_client = (m, c1)"
    by fastforce
  obtain out go s1 where two: "server_turn ref_rpc_codecs (as_message m) waiting_server = ((out, go), s1)"
    by (metis surj_pair)
  obtain outs s2 c2 where three: "answers ref_rpc_codecs (userToWire tag_hooks) ''a'' [(False, ''x''), (True, ''y''), (False, ''z'')] s1 c1 = (outs, s2, c2)"
    by (metis surj_pair)
  have "nul_free (ident open_locator)" "nul_free ''me''"
    by (simp_all add: open_locator_def sample_locator_def nul_free_def)
  then have "outs = map (\<lambda>(f, x). (rpc_callback \<lparr>rpc_callback = 7, rpc_hook = wireToUser tag_hooks\<rparr>, f, \<lparr>data_id = ''a'', data_content = x\<rparr>))
      (until_final [(False, ''x''), (True, ''y''), (False, ''z'')])"
    by (intro rpc_roundtrip [OF ref_rpc_codecs.rpc_codec_laws_axioms _ _ _ _ _ _ _ _ one two three, THEN conjunct2, THEN conjunct1])
       (simp_all add: waiting_client_def waiting_server_def new_client_connection_def new_server_connection_def
          addClient_def reverse_hooks.undo tag_hooks.undo)
  moreover have "run_out (userToWire reverse_hooks) ''qr'' = rev ''qr''"
    by (simp add: reverse_hooks_def run_out_def)
  ultimately show ?thesis
    using one two three by (simp add: Let_def del: answers.simps)
qed

section \<open>A remote facility over Redis\<close>

lemma redis_service_works:
  assumes "redis_ok s" and "auth e l = Inr ()"
  shows "\<exists>n. fst (set_rpc_client (redis_service e k) t l h s) = Inr n"
proof -
  obtain rq n s' where "setRPCClient e l k h s = (Inr (rq, n), s')"
    by (rule set_client_works [OF assms])
  then show ?thesis
    by (simp add: redis_service_def bindS_def returnS_def)
qed

text \<open>What any orderly list of actions leaves, starting from a facility without senders.\<close>

lemma facility_over_redis:
  fixes s :: "('c, 's) RedisComponentImpl"
  assumes ok: "redis_ok s" and left: "numbers_left (length as) s" and ord: "orderly Map.empty as"
    and au: "\<forall>a \<in> set as. actionType a = Register \<longrightarrow> auth e (facilityLocator a) = Inr ()"
    and run: "run_calls (actuallyHandleFacilityAction cfg (redis_service e k)) as (new_facility s) = (rs, f)"
  shows "senders_ok cfg (redis_service e k) (fold wish as Map.empty) f"
    and "case registered f l of
        Some (t, n) \<Rightarrow> t = Redis \<and> fold wish as Map.empty l = Some Redis \<and> n \<notin> client_numbers s Redis l
          \<and> client_numbers (components f) Redis l = insert n (client_numbers s Redis l)
      | None \<Rightarrow> fold wish as Map.empty l \<noteq> Some Redis \<and> client_numbers (components f) Redis l = client_numbers s Redis l"
proof -
  let ?svc = "redis_service e k :: ('c, 's) RedisComponentImpl rpc_service"
  have start: "redis_rpc.facility_ok e k cfg Map.empty (client_numbers s) (new_facility s)" "components (new_facility s) = s"
    using redis_rpc.new_facility_ok [OF ok] by (simp_all add: new_facility_def)
  have f: "redis_rpc.facility_ok e k cfg (fold wish as Map.empty) (client_numbers s) f"
    by (rule redis_rpc.actions_ok [OF start(1) _ ord run]) (simp add: start(2) left)
  have reg: "\<forall>l t. fold wish as Map.empty l = Some t \<and> has_component ?svc t \<and> usable ?svc t \<longrightarrow> registered f l \<noteq> None"
    using redis_rpc.actions_registered [of e k "\<lambda>l. auth e l = Inr ()", OF redis_service_works start(1) _ ord au _ run]
    by (simp add: start(2) left)
  show "senders_ok cfg ?svc (fold wish as Map.empty) f"
    by (rule redis_rpc.facility_okD(1) [OF f])
  show "case registered f l of
        Some (t, n) \<Rightarrow> t = Redis \<and> fold wish as Map.empty l = Some Redis \<and> n \<notin> client_numbers s Redis l
          \<and> client_numbers (components f) Redis l = insert n (client_numbers s Redis l)
      | None \<Rightarrow> fold wish as Map.empty l \<noteq> Some Redis \<and> client_numbers (components f) Redis l = client_numbers s Redis l"
  proof (cases "registered f l")
    case None
    have "fold wish as Map.empty l \<noteq> Some Redis"
      using reg None by (auto simp: redis_service_def)
    then show ?thesis
      using None redis_rpc.facility_okD(3) [OF f] by simp
  next
    case (Some p)
    obtain t n where p: "p = (t, n)"
      by fastforce
    have "fold wish as Map.empty l = Some t" "t = Redis"
      using registered_wished [OF redis_rpc.facility_okD(1) [OF f]] Some p by (auto simp: redis_service_def)
    then show ?thesis
      using Some p redis_rpc.facility_okD(3,4) [OF f] by (auto simp: numbered_def)
  qed
qed

lemma designated_send:
  assumes "redis_ok s" and "numbers_left (length as) s" and "orderly Map.empty as" and "strategy cfg = Designated"
    and "\<forall>a \<in> set as. actionType a = Register \<longrightarrow> auth e (facilityLocator a) = Inr ()"
    and "run_calls (actuallyHandleFacilityAction cfg (redis_service e k)) as (new_facility s) = (rs, f)"
  shows "if fold wish as Map.empty l = Some Redis
    then \<exists>q. pick_sender cfg r l f = Inr (Some q) \<and> sender_locator q = l \<and> sender_client q \<notin> client_numbers s Redis l
      \<and> client_numbers (components f) Redis l = insert (sender_client q) (client_numbers s Redis l)
    else pick_sender cfg r l f = Inr None \<and> client_numbers (components f) Redis l = client_numbers s Redis l"
  using facility_over_redis(2) [OF assms(1-3,5,6), of l] pick_designated [OF facility_over_redis(1) [OF assms(1-3,5,6)] assms(4), of r l]
  by (auto split: option.splits)

text \<open>
  C13: After any orderly list of registrations and deregistrations of servers on Redis, a request for a designated server goes to the
  sender registered for its locator, which is a client that the Redis component has, and is dropped exactly if the server is not registered. The
  component has no clients left from earlier registrations.
\<close>

theorem designated_request:
  assumes "redis_ok s" and "numbers_left (length as) s" and "orderly Map.empty as" and "strategy cfg = Designated"
    and "\<forall>a \<in> set as. actionType a = Register \<longrightarrow> auth e (facilityLocator a) = Inr ()"
    and "run_calls (actuallyHandleFacilityAction cfg (redis_service e k)) as (new_facility s) = (rs, f)"
  shows "if fold wish as Map.empty l = Some Redis
    then \<exists>q. pick_sender cfg r l f = Inr (Some q) \<and> sender_locator q = l \<and> sender_client q \<notin> client_numbers s Redis l
      \<and> client_numbers (components f) Redis l = insert (sender_client q) (client_numbers s Redis l)
    else pick_sender cfg r l f = Inr None \<and> client_numbers (components f) Redis l = client_numbers s Redis l"
  by (rule designated_send [OF assms])

theorem designated_request_witness:
  "let a = (\<lambda>x t. \<lparr>actionType = x, facilityType = Redis, facilityLocator = open_locator\<lparr>ident := t\<rparr>, description = ''d''\<rparr>);
       f = snd (run_calls (actuallyHandleFacilityAction (sample_facility_config Designated) (redis_service sample_redis (7::nat)))
         [a Register ''p'', a Register ''q'', a Deregister ''p''] (new_facility (initial_redis :: (nat, nat) RedisComponentImpl)))
   in (\<exists>q. pick_sender (sample_facility_config Designated) 0 (open_locator\<lparr>ident := ''q''\<rparr>) f = Inr (Some q) \<and> sender_locator q = open_locator\<lparr>ident := ''q''\<rparr>)
     \<and> pick_sender (sample_facility_config Designated) 0 (open_locator\<lparr>ident := ''p''\<rparr>) f = Inr None"
proof -
  let ?a = "\<lambda>x t. \<lparr>actionType = x, facilityType = Redis, facilityLocator = open_locator\<lparr>ident := t\<rparr>, description = ''d''\<rparr>"
  let ?as = "[?a Register ''p'', ?a Register ''q'', ?a Deregister ''p'']" and ?cfg = "sample_facility_config Designated"
  obtain rs f where run: "run_calls (actuallyHandleFacilityAction ?cfg (redis_service sample_redis (7::nat))) ?as
      (new_facility (initial_redis :: (nat, nat) RedisComponentImpl)) = (rs, f)"
    by fastforce
  have ne: "open_locator\<lparr>ident := ''p''\<rparr> \<noteq> open_locator\<lparr>ident := ''q''\<rparr>"
    by (auto dest: arg_cong [of _ _ ident])
  have au: "auth sample_redis (open_locator\<lparr>ident := t\<rparr>) = Inr ()" for t
    by (rule auth_open) (simp add: open_locator_def)
  have "orderly Map.empty ?as" and w: "fold wish ?as Map.empty = [open_locator\<lparr>ident := ''q''\<rparr> \<mapsto> Redis]"
    using ne by (auto simp: orderly_action_def wish_def fun_eq_iff)
  note d = designated_request [OF initial_redis_ok(1) initial_redis_ok(2) this(1) _ _ run, of _ 0]
  have cfg: "strategy ?cfg = Designated"
    by (simp add: sample_facility_config_def)
  have aa: "\<forall>a \<in> set ?as. actionType a = Register \<longrightarrow> auth sample_redis (facilityLocator a) = Inr ()"
    by (simp add: au)
  show ?thesis
    using d [OF _ cfg aa, of "open_locator\<lparr>ident := ''q''\<rparr>"] d [OF _ cfg aa, of "open_locator\<lparr>ident := ''p''\<rparr>"] ne
    unfolding w run Let_def by auto
qed

text \<open>
  With random dispatch the index is within the vector whatever the random number is, as long as the number of senders fits an \<open>int\<close>: a request is
  dropped only if no server is registered, and goes to a registered one otherwise.
\<close>

theorem random_request:
  assumes "redis_ok s" and "numbers_left (length as) s" and "orderly Map.empty as" and "strategy cfg = Random"
    and "\<forall>a \<in> set as. actionType a = Register \<longrightarrow> auth e (facilityLocator a) = Inr ()"
    and "run_calls (actuallyHandleFacilityAction cfg (redis_service e k)) as (new_facility s) = (rs, f)"
    and "0 \<le> r" and "length (underlyingSenders f) < 2 ^ 31"
  shows "if \<exists>l. fold wish as Map.empty l = Some Redis
    then \<exists>q. pick_sender cfg r target f = Inr (Some q) \<and> fold wish as Map.empty (sender_locator q) = Some Redis
      \<and> sender_client q \<in> client_numbers (components f) Redis (sender_locator q)
    else pick_sender cfg r target f = Inr None"
proof -
  note fr = facility_over_redis [OF assms(1-3,5,6)]
  have none: "underlyingSenders f = [] \<longleftrightarrow> \<not> (\<exists>l. fold wish as Map.empty l = Some Redis)"
  proof
    assume "underlyingSenders f = []"
    then have "registered f l = None" for l
      by (simp add: registered_def)
    then show "\<not> (\<exists>l. fold wish as Map.empty l = Some Redis)"
      using fr(2) by fastforce
  next
    assume no: "\<not> (\<exists>l. fold wish as Map.empty l = Some Redis)"
    have "registered f l = None" for l
      using fr(2) [of l] no by (auto split: option.splits)
    then show "underlyingSenders f = []"
      using registered_None [OF fr(1), of "fst (hd (underlyingSenders f))"] by (cases "underlyingSenders f") auto
  qed
  have sound: "fold wish as Map.empty k' = Some Redis \<and> n \<in> client_numbers (components f) Redis k'"
    if "registered f k' = Some (t, n)" for k' t n
    using fr(2) [of k'] that by simp
  show ?thesis
  proof (cases "underlyingSenders f = []")
    case True
    then show ?thesis
      using pick_random [OF fr(1) assms(4,7,8), of target] none by simp
  next
    case False
    then obtain q where "pick_sender cfg r target f = Inr (Some q)" "registered f (sender_locator q) = Some (sender_type q, sender_client q)"
      using pick_random [OF fr(1) assms(4,7,8), of target] by auto
    then show ?thesis
      using sound False none by auto
  qed
qed

theorem random_request_witness:
  "\<exists>f q. f = snd (run_calls (actuallyHandleFacilityAction (sample_facility_config Random) (redis_service sample_redis (7::nat)))
       [\<lparr>actionType = Register, facilityType = Redis, facilityLocator = open_locator, description = ''d''\<rparr>]
       (new_facility (initial_redis :: (nat, nat) RedisComponentImpl)))
     \<and> pick_sender (sample_facility_config Random) 5 sample_locator f = Inr (Some q) \<and> sender_client q \<in> client_numbers (components f) Redis (sender_locator q)"
proof -
  let ?as = "[\<lparr>actionType = Register, facilityType = Redis, facilityLocator = open_locator, description = ''d''\<rparr>]"
  let ?cfg = "sample_facility_config Random"
  obtain rs f where run: "run_calls (actuallyHandleFacilityAction ?cfg (redis_service sample_redis (7::nat))) ?as
      (new_facility (initial_redis :: (nat, nat) RedisComponentImpl)) = (rs, f)"
    by fastforce
  have ord: "orderly Map.empty ?as" and au: "\<forall>a \<in> set ?as. actionType a = Register \<longrightarrow> auth sample_redis (facilityLocator a) = Inr ()"
      and w: "fold wish ?as Map.empty = [open_locator \<mapsto> Redis]" and st: "strategy ?cfg = Random" and nl: "length ?as < 2 ^ 32"
    by (simp_all add: orderly_action_def wish_def sample_facility_config_def)
  have ex: "\<exists>l. [open_locator \<mapsto> Redis] l = Some Redis"
    by (rule exI [of _ open_locator]) simp
  have sizes: "register_sender ?cfg (redis_service sample_redis (7::nat)) Redis open_locator ''d'' (new_facility (initial_redis :: (nat, nat) RedisComponentImpl)) = (res, f)
      \<Longrightarrow> length (underlyingSenders f) \<le> 1" for res
    by (erule register_sender_cases) (auto simp: new_facility_def)
  have "length (underlyingSenders f) \<le> 1"
    using run sizes by (auto simp: actuallyHandleFacilityAction_def registerFacility_def bindS_def returnS_def split: prod.splits sum.splits)
  then have small: "length (underlyingSenders f) < 2 ^ 31"
    by simp
  have "\<exists>q. pick_sender ?cfg 5 sample_locator f = Inr (Some q) \<and> sender_client q \<in> client_numbers (components f) Redis (sender_locator q)"
    using random_request [OF initial_redis_ok(1) initial_redis_ok(2) ord st au run, of 5 sample_locator] nl small
    unfolding w if_P [OF ex] by auto
  then show ?thesis
    using run by auto
qed

text \<open>A request that the server's hook rejects leaves its entry behind: its handler never hears of it, so nothing will take the entry out.\<close>

lemma rejected_request_kept:
  assumes "server_hook s = Some h" and "h (data_content d) = None"
  shows "fst (handle_request (t, d) s) = [] \<and> replyTopicMap (snd (handle_request (t, d) s)) (data_id d) = Some t"
  using assms by (simp add: handle_request_def)

end
