(* ===== verification/RedisSubscriptions.thy ===== *)
theory RedisSubscriptions
  imports RedisRpc
begin

text \<open>
  Subscriptions on Redis (src/redis/RedisComponent.cpp): one object per server and topic, owned by a map from servers to maps from topics, and a
  map from client ids to plain pointers to these objects. A deleted object is absent from the heap.
\<close>

section \<open>One subscription\<close>

record 'c OneRedisSubscription =
  rsub_locator :: ConnectionLocator
  rsub_topic :: string
  rsub_clients :: "'c ClientCB list"
  rsub_running :: bool

definition new_redis_subscription :: "ConnectionLocator \<Rightarrow> string \<Rightarrow> 'c OneRedisSubscription" where
  "new_redis_subscription l t = \<lparr>rsub_locator = l, rsub_topic = t, rsub_clients = [], rsub_running = True\<rparr>"

definition redis_addSubscription :: "uint32 \<Rightarrow> 'c \<Rightarrow> WireToUserHook option \<Rightarrow> 'c OneRedisSubscription \<Rightarrow> unit \<times> 'c OneRedisSubscription" where
  "redis_addSubscription i handler w s =
     ((), s\<lparr>rsub_clients := rsub_clients s @ [\<lparr>client_id = i, cb = handler, client_hook = w\<rparr>]\<rparr>)"

definition redis_removeSubscription :: "uint32 \<Rightarrow> 'c OneRedisSubscription \<Rightarrow> unit \<times> 'c OneRedisSubscription" where
  "redis_removeSubscription i s = ((), s\<lparr>rsub_clients := filter (\<lambda>x. client_id x \<noteq> i) (rsub_clients s)\<rparr>)"

definition redis_checkWhetherNeedsToStop :: "'c OneRedisSubscription \<Rightarrow> bool \<times> 'c OneRedisSubscription" where
  "redis_checkWhetherNeedsToStop s = (if rsub_clients s = [] then (True, s\<lparr>rsub_running := False\<rparr>) else (False, s))"

text \<open>Each client gets a copy of the message.\<close>

definition redis_callClient :: "'c ClientCB \<Rightarrow> ByteDataWithTopic \<Rightarrow> ('c \<times> ByteDataWithTopic) list" where
  "redis_callClient c d =
     (case client_hook c of
        Some h \<Rightarrow> (case h (content d) of Some b \<Rightarrow> [(cb c, \<lparr>topic = topic d, content = b\<rparr>)] | None \<Rightarrow> [])
      | None \<Rightarrow> [(cb c, d)])"

definition pattern_message :: "redis_read \<Rightarrow> ByteDataWithTopic option" where
  "pattern_message r =
     (case r of
        ArrayReply [x, p, t, d] \<Rightarrow>
          if x = StringElement ''pmessage'' then Some \<lparr>topic = element_text t, content = element_text d\<rparr> else None
      | _ \<Rightarrow> None)"

definition subscription_turn :: "redis_read \<Rightarrow> 'c OneRedisSubscription \<Rightarrow> (('c \<times> ByteDataWithTopic) list \<times> bool) \<times> 'c OneRedisSubscription" where
  "subscription_turn r s =
     (if \<not> rsub_running s \<or> ends_loop r then (([], False), s)
      else (case pattern_message r of
        Some d \<Rightarrow> ((concat (map (\<lambda>c. redis_callClient c d) (rsub_clients s)), True), s)
      | None \<Rightarrow> (([], True), s)))"

section \<open>The tables\<close>

record 'c RedisSubscriptionTables =
  redis_subscriptions :: "ConnectionLocator \<rightharpoonup> (string \<times> nat) list"
  subscription_heap :: "nat \<rightharpoonup> 'c OneRedisSubscription"
  next_subscription :: nat
  redis_counter :: uint32
  redis_idToSubscriptionMap :: "uint32 \<rightharpoonup> nat"

definition no_subscriptions :: "'c RedisSubscriptionTables" where
  "no_subscriptions = \<lparr>redis_subscriptions = Map.empty, subscription_heap = Map.empty, next_subscription = 0, redis_counter = 0,
     redis_idToSubscriptionMap = Map.empty\<rparr>"

text \<open>The entry of the server is made before the subscription is opened, and stays if that fails.\<close>

definition redis_getOrStartSubscription :: "redis_env \<Rightarrow> ConnectionLocator \<Rightarrow> string \<Rightarrow> ('c RedisSubscriptionTables, rpc_error, nat) call" where
  "redis_getOrStartSubscription e d t c =
     (let k = hostAndPort d; inner = (case redis_subscriptions c k of Some m \<Rightarrow> m | None \<Rightarrow> []) in
      case map_of inner t of
        Some p \<Rightarrow> returnS p c
      | None \<Rightarrow>
          (case auth e d of
             Inl x \<Rightarrow> throwS x (c\<lparr>redis_subscriptions := (redis_subscriptions c)(k \<mapsto> inner)\<rparr>)
           | Inr _ \<Rightarrow>
               returnS (next_subscription c)
                 (c\<lparr>redis_subscriptions := (redis_subscriptions c)(k \<mapsto> (t, next_subscription c) # inner),
                    subscription_heap := (subscription_heap c)(next_subscription c \<mapsto> new_redis_subscription d t),
                    next_subscription := next_subscription c + 1\<rparr>)))"

definition on_subscription :: "nat \<Rightarrow> ('c OneRedisSubscription \<Rightarrow> 'a \<times> 'c OneRedisSubscription) \<Rightarrow> ('c RedisSubscriptionTables, rpc_error, 'a) call" where
  "on_subscription p f c =
     (case subscription_heap c p of
        Some s \<Rightarrow> (let (a, s') = f s in returnS a (c\<lparr>subscription_heap := (subscription_heap c)(p \<mapsto> s')\<rparr>))
      | None \<Rightarrow> throwS (DeletedObject p) c)"

definition redis_addSubscriptionClient :: "redis_env \<Rightarrow> ConnectionLocator \<Rightarrow> string \<Rightarrow> 'c \<Rightarrow> WireToUserHook option
    \<Rightarrow> ('c RedisSubscriptionTables, rpc_error, uint32) call" where
  "redis_addSubscriptionClient e d t client w =
     bindS (redis_getOrStartSubscription e d t) (\<lambda>p c.
       let i = redis_counter c + 1 in
       bindS (on_subscription p (redis_addSubscription i client w))
         (\<lambda>_ c. returnS i (c\<lparr>redis_idToSubscriptionMap := (redis_idToSubscriptionMap c)(i \<mapsto> p)\<rparr>)) (c\<lparr>redis_counter := i\<rparr>))"

text \<open>The subscription that stops takes the entry of its whole server with it, and so the objects of all topics there.\<close>

definition redis_potentiallyStopSubscription :: "nat \<Rightarrow> ('c RedisSubscriptionTables, rpc_error, unit) call" where
  "redis_potentiallyStopSubscription p =
     bindS (on_subscription p (\<lambda>s. ((fst (redis_checkWhetherNeedsToStop s), rsub_locator s), snd (redis_checkWhetherNeedsToStop s))))
       (\<lambda>(stop, l) c.
          if stop then
            (let k = hostAndPort l; inner = (case redis_subscriptions c k of Some m \<Rightarrow> m | None \<Rightarrow> []) in
             returnS () (c\<lparr>redis_subscriptions := (redis_subscriptions c)(k := None),
               subscription_heap := subscription_heap c |` (- snd ` set inner)\<rparr>))
          else returnS () c)"

definition redis_removeSubscriptionClient :: "uint32 \<Rightarrow> ('c RedisSubscriptionTables, rpc_error, unit) call" where
  "redis_removeSubscriptionClient i c =
     (case redis_idToSubscriptionMap c i of
        None \<Rightarrow> returnS () c
      | Some p \<Rightarrow>
          bindS (on_subscription p (redis_removeSubscription i)) (\<lambda>_. redis_potentiallyStopSubscription p)
            (c\<lparr>redis_idToSubscriptionMap := (redis_idToSubscriptionMap c)(i := None)\<rparr>))"

definition subscription_reader_turn :: "nat \<Rightarrow> redis_read \<Rightarrow> ('c RedisSubscriptionTables, rpc_error, ('c \<times> ByteDataWithTopic) list \<times> bool) call" where
  "subscription_reader_turn p r = on_subscription p (subscription_turn r)"

section \<open>Publishing\<close>

definition redis_publisher :: "ConnectionLocator \<Rightarrow> UserToWireHook option \<Rightarrow> ByteDataWithTopic \<Rightarrow> publication" where
  "redis_publisher sender u d =
     (case u of
        Some h \<Rightarrow> publish sender \<lparr>topic = topic d, content = h (content d)\<rparr>
      | None \<Rightarrow> publish sender d)"

text \<open>How a published message arrives at a subscriber to a pattern.\<close>

definition as_pattern_message :: "string \<Rightarrow> publication \<Rightarrow> redis_read" where
  "as_pattern_message pattern m =
     (case m of (_, channel, x) \<Rightarrow> ArrayReply [StringElement ''pmessage'', StringElement pattern, StringElement channel, StringElement x])"

text \<open>
  A message published on Redis is handed, unchanged, to every client of a subscription whose pattern the server matches with its topic, in the
  order in which they subscribed, when their hooks undo the publisher's.
\<close>

theorem redis_delivery:
  assumes "rsub_running s" and "nul_free (topic d)"
    and "\<forall>f \<in> set (rsub_clients s). run_in (client_hook f) (run_out u (content d)) = Some (content d)"
  shows "subscription_turn (as_pattern_message pattern (redis_publisher sender u d)) s = ((map (\<lambda>f. (cb f, d)) (rsub_clients s), True), s)"
proof -
  let ?d = "\<lparr>topic = topic d, content = run_out u (content d)\<rparr>"
  have "pattern_message (as_pattern_message pattern (redis_publisher sender u d)) = Some ?d"
    using assms(2) by (simp add: redis_publisher_def run_out_def publish_def as_pattern_message_def pattern_message_def element_text_def
        split: option.split)
  moreover have "\<not> ends_loop (as_pattern_message pattern (redis_publisher sender u d))"
    by (simp add: ends_loop_def as_pattern_message_def split: prod.split)
  moreover have "redis_callClient f ?d = [(cb f, d)]" if "f \<in> set (rsub_clients s)" for f
    using assms(3) that by (cases d) (auto simp: redis_callClient_def run_in_def split: option.splits)
  then have "concat (map (\<lambda>c. redis_callClient c ?d) fs) = map (\<lambda>f. (cb f, d)) fs" if "set fs \<subseteq> set (rsub_clients s)" for fs
    using that by (induction fs) auto
  ultimately show ?thesis
    using assms(1) by (simp add: subscription_turn_def)
qed

theorem redis_delivery_witness:
  "fst (subscription_turn (as_pattern_message ''a.*'' (redis_publisher open_locator (userToWire tag_hooks) \<lparr>topic = ''a.b'', content = ''m''\<rparr>))
     (snd (redis_addSubscription 1 (7 :: nat) (wireToUser tag_hooks) (new_redis_subscription open_locator ''a.*'')))) =
   ([(7, \<lparr>topic = ''a.b'', content = ''m''\<rparr>)], True)"
  by (subst redis_delivery)
     (simp_all add: redis_addSubscription_def new_redis_subscription_def nul_free_def tag_hooks.undo)

section \<open>Several topics on one server\<close>

text \<open>Which objects there are.\<close>

definition subscriptions_ok :: "'c RedisSubscriptionTables \<Rightarrow> bool" where
  "subscriptions_ok c \<longleftrightarrow>
     (\<forall>p s. subscription_heap c p = Some s \<longrightarrow> p < next_subscription c
        \<and> (\<exists>m. redis_subscriptions c (hostAndPort (rsub_locator s)) = Some m \<and> (rsub_topic s, p) \<in> set m))
     \<and> (\<forall>k m p. redis_subscriptions c k = Some m \<and> p \<in> snd ` set m \<longrightarrow> (\<exists>s. subscription_heap c p = Some s \<and> hostAndPort (rsub_locator s) = k))"

lemma subscriptions_okD:
  assumes "subscriptions_ok c" and "subscription_heap c p = Some s"
  obtains m where "redis_subscriptions c (hostAndPort (rsub_locator s)) = Some m" "p \<in> snd ` set m"
proof -
  obtain m where m: "redis_subscriptions c (hostAndPort (rsub_locator s)) = Some m" "(rsub_topic s, p) \<in> set m"
    using assms unfolding subscriptions_ok_def by blast
  then have "p \<in> snd ` set m"
    by (metis snd_conv image_eqI)
  then show thesis
    using that m(1) by blast
qed

text \<open>
  C40: When the last client of one topic is removed, the subscriptions to all other topics on the same server are deleted with it, although
  they have clients: their threads and the removal of these clients then use deleted objects.
\<close>

theorem removal_deletes_other_topics:
  assumes "subscriptions_ok c"
    and "redis_idToSubscriptionMap c i = Some p" and "subscription_heap c p = Some s" and "\<forall>x \<in> set (rsub_clients s). client_id x = i"
    and "redis_idToSubscriptionMap c j = Some q" and "subscription_heap c q = Some s'" and "q \<noteq> p"
    and "hostAndPort (rsub_locator s') = hostAndPort (rsub_locator s)" and "i \<noteq> j"
  shows "\<exists>c'. redis_removeSubscriptionClient i c = (Inr (), c') \<and> redis_idToSubscriptionMap c' j = Some q
    \<and> fst (subscription_reader_turn q r c') = Inl (DeletedObject q)
    \<and> fst (redis_removeSubscriptionClient j c') = Inl (DeletedObject q)"
proof -
  let ?k = "hostAndPort (rsub_locator s)"
  obtain m where m: "redis_subscriptions c ?k = Some m" "p \<in> snd ` set m"
    by (rule subscriptions_okD [OF assms(1,3)])
  have q: "q \<in> snd ` set m"
    by (rule subscriptions_okD [OF assms(1,6)]) (use m(1) assms(8) in simp)
  have none: "filter (\<lambda>x. client_id x \<noteq> i) (rsub_clients s) = []"
    using assms(4) by (simp add: filter_empty_conv)
  obtain c' where c': "redis_removeSubscriptionClient i c = (Inr (), c')"
      "redis_idToSubscriptionMap c' = (redis_idToSubscriptionMap c)(i := None)" "subscription_heap c' q = None"
    using assms(2,3) m(1) q none
    by (simp add: redis_removeSubscriptionClient_def redis_potentiallyStopSubscription_def on_subscription_def redis_removeSubscription_def
        redis_checkWhetherNeedsToStop_def bindS_def returnS_def Let_def restrict_map_def)
  then show ?thesis
    using assms(5,9)
    by (auto simp: subscription_reader_turn_def redis_removeSubscriptionClient_def on_subscription_def bindS_def throwS_def)
qed

definition two_topics :: "nat RedisSubscriptionTables" where
  "two_topics = snd (redis_addSubscriptionClient sample_redis open_locator ''b'' 8 None
     (snd (redis_addSubscriptionClient sample_redis open_locator ''a'' 7 None no_subscriptions)))"

lemma two_topics_tables:
  "redis_subscriptions two_topics = [hostAndPort open_locator \<mapsto> [(''b'', 1), (''a'', 0)]]"
  "subscription_heap two_topics =
     [0 \<mapsto> \<lparr>rsub_locator = open_locator, rsub_topic = ''a'', rsub_clients = [\<lparr>client_id = 1, cb = 7, client_hook = None\<rparr>], rsub_running = True\<rparr>,
      1 \<mapsto> \<lparr>rsub_locator = open_locator, rsub_topic = ''b'', rsub_clients = [\<lparr>client_id = 2, cb = 8, client_hook = None\<rparr>], rsub_running = True\<rparr>]"
  "redis_idToSubscriptionMap two_topics = [1 \<mapsto> 0, 2 \<mapsto> 1]" "next_subscription two_topics = 2"
  by (simp_all add: two_topics_def redis_addSubscriptionClient_def redis_getOrStartSubscription_def on_subscription_def bindS_def returnS_def
      no_subscriptions_def redis_addSubscription_def new_redis_subscription_def Let_def fun_upd_twist)

theorem removal_deletes_other_topics_witness:
  "\<exists>c'. redis_removeSubscriptionClient 1 two_topics = (Inr (), c') \<and> redis_idToSubscriptionMap c' 2 = Some 1
    \<and> fst (subscription_reader_turn 1 NoReply c') = Inl (DeletedObject 1)
    \<and> fst (redis_removeSubscriptionClient 2 c') = Inl (DeletedObject 1)"
proof (rule removal_deletes_other_topics [where p = 0 and
      s = "\<lparr>rsub_locator = open_locator, rsub_topic = ''a'', rsub_clients = [\<lparr>client_id = 1, cb = 7, client_hook = None\<rparr>], rsub_running = True\<rparr>" and
      s' = "\<lparr>rsub_locator = open_locator, rsub_topic = ''b'', rsub_clients = [\<lparr>client_id = 2, cb = 8, client_hook = None\<rparr>], rsub_running = True\<rparr>"])
  show "subscriptions_ok two_topics"
    by (auto simp: subscriptions_ok_def two_topics_tables split: if_splits)
qed (auto simp: two_topics_tables)

end
