(* ===== verification/ServerDiscovery.thy ===== *)
theory ServerDiscovery
  imports RedisRequests Heartbeat "HOL-Library.Multiset"
begin

text \<open>
  From heartbeats to facility actions (tm_kit/transport/HeartbeatMessageToRemoteFacilityCommand.hpp): the converter remembers the servers it
  has heard of and emits the registrations and deregistrations of their facilities.
\<close>

section \<open>Facility descriptions in heartbeats\<close>

type_synonym facility_spec = "facility_type \<times> ConnectionLocator"

definition parse_spec_as :: "boost \<Rightarrow> string \<Rightarrow> facility_type \<Rightarrow> string \<Rightarrow> facility_spec option" where
  "parse_spec_as b s t prefix = (case parse b (drop (length prefix) s) of Inr l \<Rightarrow> Some (t, l) | Inl _ \<Rightarrow> None)"

definition parseServerSpec :: "boost \<Rightarrow> string \<Rightarrow> facility_spec option" where
  "parseServerSpec b s =
     (if starts_with b s ''rabbitmq://'' then parse_spec_as b s RabbitMQ ''rabbitmq://''
      else if starts_with b s ''redis://'' then parse_spec_as b s Redis ''redis://''
      else if starts_with b s ''socket_rpc://'' then parse_spec_as b s SocketRPC ''socket_rpc://''
      else if starts_with b s ''grpc_interop://'' then parse_spec_as b s GrpcInterop ''grpc_interop://''
      else if starts_with b s ''json_rest://'' then parse_spec_as b s JsonREST ''json_rest://''
      else None)"

text \<open>C28: The converter reads a facility's description as the facility itself does, except that it knows no WebSocket facilities: a server that
  announces one is never registered.\<close>

theorem parseServerSpec_channel:
  "parseServerSpec b s =
    (case parseMultiTransportRemoteFacilityChannel b s of
       Some (t, l) \<Rightarrow> if t = WebSocket then None else Some (t, l)
     | None \<Rightarrow> None)"
proof -
  have as: "(case parse b x of Inr l \<Rightarrow> Some (t, l) | Inl _ \<Rightarrow> None) = map_option (Pair t) (case parse b x of Inr l \<Rightarrow> Some l | Inl _ \<Rightarrow> None)"
    for x t
    by (simp split: sum.split)
  have drop_ws: "(case map_option (Pair t) y of Some (u, l) \<Rightarrow> if u = WebSocket then None else Some (u, l) | None \<Rightarrow> None) =
      (if t = WebSocket then None else map_option (Pair t) y)" for y :: "ConnectionLocator option" and t
    by (cases y) simp_all
  have channel: "parseMultiTransportRemoteFacilityChannel b s =
      (if starts_with b s ''rabbitmq://'' then parse_spec_as b s RabbitMQ ''rabbitmq://''
       else if starts_with b s ''redis://'' then parse_spec_as b s Redis ''redis://''
       else if starts_with b s ''socket_rpc://'' then parse_spec_as b s SocketRPC ''socket_rpc://''
       else if starts_with b s ''grpc_interop://'' then parse_spec_as b s GrpcInterop ''grpc_interop://''
       else if starts_with b s ''json_rest://'' then parse_spec_as b s JsonREST ''json_rest://''
       else if starts_with b s ''websocket://'' then parse_spec_as b s WebSocket ''websocket://''
       else None)"
    unfolding parseMultiTransportRemoteFacilityChannel_def MULTI_TRANSPORT_REMOTE_FACILITY_CONNECTION_TYPE_STR_def
      parse_facility_from.simps parse_spec_as_def facility_at_def append.simps
    by (simp only: list.size nth_Cons_0 nth_Cons_Suc add_0 add_0_right One_nat_def add_Suc_right add_Suc numeral_3_eq_3)
  show ?thesis
    unfolding channel parseServerSpec_def parse_spec_as_def as
    by (simp only: if_distrib [of "case_option None (\<lambda>(u, l). if u = WebSocket then None else Some (u, l))"] drop_ws option.case
        MultiTransportRemoteFacilityConnectionType.distinct if_False if_True if_cancel refl cong: if_cong)
qed

section \<open>The converter\<close>

record OneServerInfo =
  good :: bool
  distinguishedFacilityLocators :: "facility_spec list"
  nonDistinguishedFacilityLocators :: "facility_spec list"
  lastGoodTime :: int

text \<open>The parameters of a converter; times are counts of clock ticks.\<close>

record converter =
  senderRE :: "string \<Rightarrow> bool"
  distinguishedFacilityNames :: "string list"
  nonDistinguishedFacilityNames :: "string list"
  ttl :: int

type_synonym server_infos = "(string, OneServerInfo) stdmap"

definition default_spec :: facility_spec where
  "default_spec = (RabbitMQ, default_locator)"

definition new_server_info :: "converter \<Rightarrow> OneServerInfo" where
  "new_server_info cv = \<lparr>good = False, distinguishedFacilityLocators = map (\<lambda>_. default_spec) (distinguishedFacilityNames cv),
     nonDistinguishedFacilityLocators = map (\<lambda>_. default_spec) (nonDistinguishedFacilityNames cv), lastGoodTime = 0\<rparr>"

type_synonym server_specs = "facility_spec list \<times> facility_spec list"

definition specs_of :: "OneServerInfo \<Rightarrow> server_specs" where
  "specs_of i = (distinguishedFacilityLocators i, nonDistinguishedFacilityLocators i)"

definition hasSameInfo :: "OneServerInfo \<Rightarrow> OneServerInfo \<Rightarrow> bool" where
  "hasSameInfo i j \<longleftrightarrow> distinguishedFacilityLocators i = distinguishedFacilityLocators j
     \<and> nonDistinguishedFacilityLocators i = nonDistinguishedFacilityLocators j"

text \<open>The loop over the names; what was written before a failure stays.\<close>

fun fill_specs :: "boost \<Rightarrow> (string \<rightharpoonup> string) \<Rightarrow> string list \<Rightarrow> nat \<Rightarrow> facility_spec list \<Rightarrow> bool \<times> facility_spec list" where
  "fill_specs b chans [] ii ls = (True, ls)"
| "fill_specs b chans (nm # nms) ii ls =
     (case chans nm of
        None \<Rightarrow> (False, ls)
      | Some s \<Rightarrow>
          (case parseServerSpec b s of
             None \<Rightarrow> (False, ls)
           | Some spec \<Rightarrow> fill_specs b chans nms (ii + 1) (ls[ii := spec])))"

text \<open>A group of commands: the same action for all facilities of a server.\<close>

definition commands :: "converter \<Rightarrow> action_type \<times> server_specs \<Rightarrow> FacilityAction list \<times> FacilityAction list" where
  "commands cv g =
     (let act = (\<lambda>(t, l) nm. \<lparr>actionType = fst g, facilityType = t, facilityLocator = l, description = nm\<rparr>) in
      (map2 act (fst (snd g)) (distinguishedFacilityNames cv), map2 act (snd (snd g)) (nonDistinguishedFacilityNames cv)))"

definition become_good :: "string \<Rightarrow> OneServerInfo \<Rightarrow> server_infos \<Rightarrow> (action_type \<times> server_specs) list \<times> server_infos" where
  "become_good uuid i m =
     (let duplicates = map fst (filter (\<lambda>e. fst e \<noteq> uuid \<and> hasSameInfo (snd e) i) m);
          m' = filter (\<lambda>e. fst e \<notin> set duplicates) m in
      ((if duplicates \<noteq> [] then [(Deregister, specs_of i)] else []) @ [(Register, specs_of i)], smap_assign uuid i m'))"

definition handleHeartbeat :: "boost \<Rightarrow> converter \<Rightarrow> int \<Rightarrow> 't HeartbeatMessage \<Rightarrow> server_infos
    \<Rightarrow> (action_type \<times> server_specs) list \<times> server_infos" where
  "handleHeartbeat b cv now h m =
     (if \<not> senderRE cv (senderDescription h) then ([], m)
      else
        (let uuid = uuidStr h;
             i = (case map_of m uuid of Some i \<Rightarrow> i | None \<Rightarrow> new_server_info cv);
             chans = map_of (facilityChannels h) in
         if good i then ([], smap_assign uuid (i\<lparr>lastGoodTime := now\<rparr>) m)
         else
           (let (ok1, ds) = fill_specs b chans (distinguishedFacilityNames cv) 0 (distinguishedFacilityLocators i) in
            if \<not> ok1 then ([], smap_assign uuid (i\<lparr>distinguishedFacilityLocators := ds\<rparr>) m)
            else
              (let (ok2, ns) = fill_specs b chans (nonDistinguishedFacilityNames cv) 0 (nonDistinguishedFacilityLocators i);
                   i' = i\<lparr>distinguishedFacilityLocators := ds, nonDistinguishedFacilityLocators := ns\<rparr> in
               if \<not> ok2 then ([], smap_assign uuid i' m)
               else become_good uuid (i'\<lparr>good := True, lastGoodTime := now\<rparr>) m))))"

text \<open>\<open>order\<close> is the order in which the unordered map is traversed.\<close>

definition expired :: "converter \<Rightarrow> int \<Rightarrow> OneServerInfo \<Rightarrow> bool" where
  "expired cv tp i \<longleftrightarrow> good i \<and> lastGoodTime i + ttl cv < tp"

definition handleTimer :: "converter \<Rightarrow> (string list \<Rightarrow> string list) \<Rightarrow> int \<Rightarrow> server_infos
    \<Rightarrow> (action_type \<times> server_specs) list \<times> server_infos" where
  "handleTimer cv order tp m =
     (let toDelete = filter (\<lambda>u. case map_of m u of Some i \<Rightarrow> expired cv tp i | None \<Rightarrow> False) (order (map fst m)) in
      (map (\<lambda>u. (Deregister, specs_of (the (map_of m u)))) toDelete, filter (\<lambda>e. fst e \<notin> set toDelete) m))"

datatype 't discovery_event = Beat int "'t HeartbeatMessage" | Tick "string list \<Rightarrow> string list" int

definition discover :: "boost \<Rightarrow> converter \<Rightarrow> 't discovery_event \<Rightarrow> server_infos \<Rightarrow> (action_type \<times> server_specs) list \<times> server_infos" where
  "discover b cv ev m = (case ev of Beat now h \<Rightarrow> handleHeartbeat b cv now h m | Tick order tp \<Rightarrow> handleTimer cv order tp m)"

section \<open>The servers that are registered\<close>

definition good_specs :: "server_infos \<Rightarrow> server_specs set" where
  "good_specs m = {specs_of i |u i. map_of m u = Some i \<and> good i}"

definition infos_ok :: "server_infos \<Rightarrow> bool" where
  "infos_ok m \<longleftrightarrow> smap_wf m \<and>
     (\<forall>u v i j. map_of m u = Some i \<and> map_of m v = Some j \<and> good i \<and> good j \<and> specs_of i = specs_of j \<longrightarrow> u = v)"

text \<open>What the groups of commands add up to.\<close>

definition apply_group :: "action_type \<times> server_specs \<Rightarrow> server_specs set \<Rightarrow> server_specs set" where
  "apply_group g R = (case fst g of Register \<Rightarrow> insert (snd g) R | Deregister \<Rightarrow> R - {snd g})"

fun orderly_groups :: "server_specs set \<Rightarrow> (action_type \<times> server_specs) list \<Rightarrow> bool" where
  "orderly_groups R [] \<longleftrightarrow> True"
| "orderly_groups R (g # gs) \<longleftrightarrow> (fst g = Register \<longrightarrow> snd g \<notin> R) \<and> orderly_groups (apply_group g R) gs"

lemma orderly_groups_append: "orderly_groups R (gs @ hs) \<longleftrightarrow> orderly_groups R gs \<and> orderly_groups (fold apply_group gs R) hs"
  by (induction gs arbitrary: R) auto

lemma good_specs_iff: "x \<in> good_specs m \<longleftrightarrow> (\<exists>u i. map_of m u = Some i \<and> good i \<and> specs_of i = x)"
  by (auto simp: good_specs_def)

lemma good_specsI: "map_of m u = Some i \<Longrightarrow> good i \<Longrightarrow> specs_of i \<in> good_specs m"
  by (auto simp: good_specs_def)

lemma good_specs_Nil [simp]: "good_specs [] = {}"
  by (simp add: good_specs_def)

lemma infos_ok_inj: "infos_ok m \<Longrightarrow> map_of m u = Some i \<Longrightarrow> map_of m v = Some j \<Longrightarrow> good i \<Longrightarrow> good j \<Longrightarrow> specs_of i = specs_of j \<Longrightarrow> u = v"
  unfolding infos_ok_def by blast

text \<open>Entries that are not good do not matter, and a good one may get a new time.\<close>

lemma assign_same_specs:
  assumes ok: "infos_ok m" and i: "\<not> good i \<and> (\<forall>j. map_of m u = Some j \<longrightarrow> \<not> good j) \<or> (\<exists>j. map_of m u = Some j \<and> good j \<and> good i \<and> specs_of i = specs_of j)"
  shows "infos_ok (smap_assign u i m) \<and> good_specs (smap_assign u i m) = good_specs m"
proof -
  have wf: "smap_wf m"
    using ok by (simp add: infos_ok_def)
  have m: "map_of (smap_assign u i m) = (map_of m)(u \<mapsto> i)"
    by (rule map_of_smap_assign [OF wf])
  have old: "\<exists>j'. map_of m v = Some j' \<and> good j' \<and> specs_of j' = specs_of j" if "map_of (smap_assign u i m) v = Some j" "good j" for v j
    using that i by (auto simp: m split: if_splits)
  have new: "\<exists>j'. map_of (smap_assign u i m) v = Some j' \<and> good j' \<and> specs_of j' = specs_of j" if "map_of m v = Some j" "good j" for v j
    using that i by (auto simp: m)
  have "infos_ok (smap_assign u i m)"
    unfolding infos_ok_def
  proof (intro conjI allI impI)
    fix v w j k
    assume "map_of (smap_assign u i m) v = Some j \<and> map_of (smap_assign u i m) w = Some k \<and> good j \<and> good k \<and> specs_of j = specs_of k"
    then show "v = w"
      using old [of v j] old [of w k] infos_ok_inj [OF ok, of v _ w] by metis
  qed (rule smap_wf_assign [OF wf])
  moreover have "good_specs (smap_assign u i m) \<subseteq> good_specs m"
    by (intro subsetI) (metis old good_specs_iff)
  moreover have "good_specs m \<subseteq> good_specs (smap_assign u i m)"
    by (intro subsetI) (metis new good_specs_iff)
  ultimately show ?thesis
    by blast
qed

lemma map_of_filter_keys: "map_of (filter (\<lambda>e. fst e \<notin> K) m) u = (if u \<in> K then None else map_of m u)"
  by (induction m) auto

lemma smap_wf_filter: "smap_wf m \<Longrightarrow> smap_wf (filter P m)"
  by (induction m) (auto simp: smap_wf_Cons)

lemma filter_infos_ok: "infos_ok m \<Longrightarrow> infos_ok (filter (\<lambda>e. fst e \<notin> K) m)"
  unfolding infos_ok_def map_of_filter_keys by (simp add: smap_wf_filter)

lemma become_good_tracks:
  assumes ok: "infos_ok m" and i: "good i" and u: "\<forall>j. map_of m u = Some j \<longrightarrow> \<not> good j"
    and b: "become_good u i m = (gs, m')"
  shows "infos_ok m' \<and> fold apply_group gs (good_specs m) = good_specs m' \<and> orderly_groups (good_specs m) gs"
proof -
  define dups where "dups = map fst (filter (\<lambda>e. fst e \<noteq> u \<and> hasSameInfo (snd e) i) m)"
  have wf: "smap_wf m"
    using ok by (simp add: infos_ok_def)
  have same: "hasSameInfo j i \<longleftrightarrow> specs_of j = specs_of i" for j
    by (auto simp: hasSameInfo_def specs_of_def)
  have dups: "v \<in> set dups \<longleftrightarrow> v \<noteq> u \<and> (\<exists>j. map_of m v = Some j \<and> specs_of j = specs_of i)" for v
    unfolding dups_def using smap_wf_distinct [OF wf] by (auto simp: same image_iff)
  have gs: "gs = (if dups \<noteq> [] then [(Deregister, specs_of i)] else []) @ [(Register, specs_of i)]"
      and m': "m' = smap_assign u i (filter (\<lambda>e. fst e \<notin> set dups) m)"
    using b by (auto simp: become_good_def Let_def dups_def)
  have wf': "smap_wf (filter (\<lambda>e. fst e \<notin> set dups) m)"
    by (rule smap_wf_filter [OF wf])
  have look: "map_of m' v = (if v = u then Some i else if v \<in> set dups then None else map_of m v)" for v
    by (simp add: m' map_of_smap_assign [OF wf'] map_of_filter_keys)
  have "infos_ok m'"
    unfolding infos_ok_def
  proof (intro conjI allI impI)
    fix v w j k
    assume a: "map_of m' v = Some j \<and> map_of m' w = Some k \<and> good j \<and> good k \<and> specs_of j = specs_of k"
    then show "v = w"
      using infos_ok_inj [OF ok, of v j w k] dups by (auto simp: look split: if_splits)
  qed (simp add: m' smap_wf_assign [OF wf'])
  moreover have "good_specs m' = insert (specs_of i) (good_specs m)"
  proof (intro equalityI subsetI)
    fix x
    assume "x \<in> good_specs m'"
    then show "x \<in> insert (specs_of i) (good_specs m)"
      by (auto simp: good_specs_def look split: if_splits)
  next
    fix x
    assume "x \<in> insert (specs_of i) (good_specs m)"
    then consider "x = specs_of i" | v j where "map_of m v = Some j" "good j" "x = specs_of j" "x \<noteq> specs_of i"
      by (auto simp: good_specs_def)
    then show "x \<in> good_specs m'"
    proof cases
      case 1
      then show ?thesis
        using good_specsI [of m' u i] i by (simp add: look)
    next
      case 2
      then have "map_of m' v = Some j"
        using u dups by (auto simp: look)
      then show ?thesis
        using good_specsI 2 by blast
    qed
  qed
  moreover have "specs_of i \<notin> good_specs m" if "dups = []"
  proof
    assume "specs_of i \<in> good_specs m"
    then obtain v j where v: "map_of m v = Some j" "good j" "specs_of j = specs_of i"
      by (auto simp: good_specs_def)
    then have "v \<in> set dups"
      using u dups by auto
    then show False
      using that by simp
  qed
  ultimately show ?thesis
    by (auto simp: gs apply_group_def)
qed

lemma fold_deregister: "fold apply_group (map (\<lambda>u. (Deregister, f u)) us) R = R - f ` set us"
  by (induction us arbitrary: R) (auto simp: apply_group_def)

lemma orderly_deregister: "orderly_groups R (map (\<lambda>u. (Deregister, f u)) us)"
  by (induction us arbitrary: R) auto

lemma timer_tracks:
  assumes ok: "infos_ok m" and o: "set (order (map fst m)) = fst ` set m" and t: "handleTimer cv order tp m = (gs, m')"
  shows "infos_ok m' \<and> fold apply_group gs (good_specs m) = good_specs m' \<and> orderly_groups (good_specs m) gs"
    and "map_of m' u = (case map_of m u of Some i \<Rightarrow> if expired cv tp i then None else Some i | None \<Rightarrow> None)"
proof -
  define del where "del = filter (\<lambda>u. case map_of m u of Some i \<Rightarrow> expired cv tp i | None \<Rightarrow> False) (order (map fst m))"
  have gs: "gs = map (\<lambda>u. (Deregister, specs_of (the (map_of m u)))) del" and m': "m' = filter (\<lambda>e. fst e \<notin> set del) m"
    using t by (auto simp: handleTimer_def Let_def del_def)
  have "map_of m u = Some i \<Longrightarrow> u \<in> fst ` set m" for u i
    using map_of_SomeD by force
  then have del: "u \<in> set del \<longleftrightarrow> (\<exists>i. map_of m u = Some i \<and> expired cv tp i)" for u
    using o by (auto simp: del_def split: option.splits)
  have look: "map_of m' u = (case map_of m u of Some i \<Rightarrow> if expired cv tp i then None else Some i | None \<Rightarrow> None)" for u
    using del [of u] by (auto simp: m' map_of_filter_keys split: option.split)
  then show "map_of m' u = (case map_of m u of Some i \<Rightarrow> if expired cv tp i then None else Some i | None \<Rightarrow> None)"
    by blast
  have "good_specs m' = good_specs m - (\<lambda>u. specs_of (the (map_of m u))) ` set del"
  proof (intro equalityI subsetI)
    fix x
    assume "x \<in> good_specs m'"
    then obtain u i where u: "map_of m u = Some i" "\<not> expired cv tp i" "good i" "x = specs_of i"
      by (auto simp: good_specs_def look split: option.splits if_splits)
    have "x \<noteq> specs_of (the (map_of m v))" if v: "v \<in> set del" for v
    proof
      assume x: "x = specs_of (the (map_of m v))"
      obtain j where j: "map_of m v = Some j" "expired cv tp j"
        using v del by blast
      have "u = v"
        by (rule infos_ok_inj [OF ok u(1) j(1) u(3)]) (use j(2) x u(4) j(1) in \<open>simp_all add: expired_def\<close>)
      then show False
        using u(1,2) j by simp
    qed
    then show "x \<in> good_specs m - (\<lambda>u. specs_of (the (map_of m u))) ` set del"
      using good_specsI [OF u(1,3)] u(4) by blast
  next
    fix x
    assume "x \<in> good_specs m - (\<lambda>u. specs_of (the (map_of m u))) ` set del"
    then obtain u i where u: "map_of m u = Some i" "good i" "x = specs_of i" and x: "x \<notin> (\<lambda>u. specs_of (the (map_of m u))) ` set del"
      by (auto simp: good_specs_def)
    have "u \<notin> set del"
      using x u(1,3) by (metis image_eqI option.sel)
    then have "map_of m' u = Some i"
      using del [of u] u(1) by (simp add: look)
    then show "x \<in> good_specs m'"
      using good_specsI u(2,3) by blast
  qed
  then show "infos_ok m' \<and> fold apply_group gs (good_specs m) = good_specs m' \<and> orderly_groups (good_specs m) gs"
    using filter_infos_ok [OF ok] by (simp add: gs m' fold_deregister orderly_deregister)
qed

lemma heartbeat_tracks:
  assumes ok: "infos_ok m" and h: "handleHeartbeat b cv now h m = (gs, m')"
  shows "infos_ok m' \<and> fold apply_group gs (good_specs m) = good_specs m' \<and> orderly_groups (good_specs m) gs"
proof (cases "senderRE cv (senderDescription h)")
  case False
  then show ?thesis
    using ok h by (simp add: handleHeartbeat_def)
next
  case True
  define u where "u = uuidStr h"
  define i where "i = (case map_of m u of Some i \<Rightarrow> i | None \<Rightarrow> new_server_info cv)"
  show ?thesis
  proof (cases "good i")
    case True
    then have "map_of m u = Some i"
      by (auto simp: i_def new_server_info_def split: option.splits)
    then have "\<exists>j. map_of m u = Some j \<and> good j \<and> good (i\<lparr>lastGoodTime := now\<rparr>) \<and> specs_of (i\<lparr>lastGoodTime := now\<rparr>) = specs_of j"
      using True by (simp add: specs_of_def)
    moreover have "gs = [] \<and> m' = smap_assign u (i\<lparr>lastGoodTime := now\<rparr>) m"
      using h True \<open>senderRE cv (senderDescription h)\<close> by (simp add: handleHeartbeat_def Let_def u_def i_def)
    ultimately show ?thesis
      using assign_same_specs [OF ok] by auto
  next
    case False
    then have u: "\<forall>j. map_of m u = Some j \<longrightarrow> \<not> good j"
      by (auto simp: i_def)
    obtain ok1 ds where f1: "fill_specs b (map_of (facilityChannels h)) (distinguishedFacilityNames cv) 0 (distinguishedFacilityLocators i) = (ok1, ds)"
      by fastforce
    obtain ok2 ns where f2: "fill_specs b (map_of (facilityChannels h)) (nonDistinguishedFacilityNames cv) 0 (nonDistinguishedFacilityLocators i) = (ok2, ns)"
      by fastforce
    let ?i1 = "i\<lparr>distinguishedFacilityLocators := ds\<rparr>"
    let ?i2 = "i\<lparr>distinguishedFacilityLocators := ds, nonDistinguishedFacilityLocators := ns\<rparr>"
    have "gs = [] \<and> m' = smap_assign u ?i1 m \<or> gs = [] \<and> m' = smap_assign u ?i2 m
        \<or> become_good u (?i2\<lparr>good := True, lastGoodTime := now\<rparr>) m = (gs, m')"
      using h False True f1 f2
      by (simp add: handleHeartbeat_def Let_def u_def [symmetric] i_def [symmetric] split: if_splits)
    moreover have "infos_ok (smap_assign u ?i1 m) \<and> good_specs (smap_assign u ?i1 m) = good_specs m"
      "infos_ok (smap_assign u ?i2 m) \<and> good_specs (smap_assign u ?i2 m) = good_specs m"
      by (rule assign_same_specs [OF ok]; use False u in simp)+
    ultimately show ?thesis
      using become_good_tracks [OF ok _ u, of "?i2\<lparr>good := True, lastGoodTime := now\<rparr>" gs m'] by auto
  qed
qed

definition orders_ok :: "'t discovery_event list \<Rightarrow> bool" where
  "orders_ok evs \<longleftrightarrow> (\<forall>order tp ks. Tick order tp \<in> set evs \<longrightarrow> mset (order ks) = mset ks)"

lemma discover_tracks:
  assumes "infos_ok m" and "orders_ok [ev]" and "discover b cv ev m = (gs, m')"
  shows "infos_ok m' \<and> fold apply_group gs (good_specs m) = good_specs m' \<and> orderly_groups (good_specs m) gs"
proof (cases ev)
  case (Beat now h)
  then show ?thesis
    using heartbeat_tracks [OF assms(1)] assms(3) by (simp add: discover_def)
next
  case (Tick order tp)
  then have "mset (order (map fst m)) = mset (map fst m)"
    using assms(2) by (simp add: orders_ok_def)
  then have "set (order (map fst m)) = fst ` set m"
    by (metis set_mset_mset list.set_map)
  then show ?thesis
    using timer_tracks(1) [OF assms(1)] assms(3) Tick by (simp add: discover_def)
qed

lemma run_discover_tracks:
  assumes "infos_ok m" and "orders_ok evs" and "run_calls (discover b cv) evs m = (gss, m')"
  shows "infos_ok m' \<and> fold apply_group (concat gss) (good_specs m) = good_specs m' \<and> orderly_groups (good_specs m) (concat gss)"
  using assms
proof (induction evs arbitrary: m gss)
  case (Cons ev evs)
  obtain gs m1 where one: "discover b cv ev m = (gs, m1)"
    by fastforce
  with Cons.prems(3) obtain gss' where rest: "run_calls (discover b cv) evs m1 = (gss', m')" "gss = gs # gss'"
    by (auto split: prod.splits)
  have "orders_ok [ev]" "orders_ok evs"
    using Cons.prems(2) by (simp_all add: orders_ok_def)
  then show ?case
    using discover_tracks [OF Cons.prems(1) _ one] Cons.IH [OF _ _ rest(1)] rest(2)
    by (auto simp: orderly_groups_append)
qed simp

text \<open>
  C15: Whatever heartbeats and timer events arrive, and in whatever order the table is traversed, the commands that the converter has emitted add up to
  the registration of exactly the servers it holds to be good, no two of which have the same facilities; a server is never registered while one
  with the same facilities is.
\<close>

theorem discovery_tracks_servers:
  assumes "orders_ok evs" and "run_calls (discover b cv) evs [] = (gss, m)"
  shows "fold apply_group (concat gss) {} = {specs_of i |u i. map_of m u = Some i \<and> good i} \<and> orderly_groups {} (concat gss)
    \<and> (\<forall>u v i j. map_of m u = Some i \<and> map_of m v = Some j \<and> good i \<and> good j \<and> specs_of i = specs_of j \<longrightarrow> u = v)"
proof -
  have "infos_ok []"
    by (simp add: infos_ok_def)
  from run_discover_tracks [OF this assms] show ?thesis
    by (auto simp: good_specs_def infos_ok_def)
qed

text \<open>
  A timer event takes out exactly the good servers whose last heartbeat is longer ago than the time to live, deregistering each of them once, and
  leaves all other entries as they are.
\<close>

theorem timer_expires:
  assumes "smap_wf m" and "mset (order (map fst m)) = mset (map fst m)" and "handleTimer cv order tp m = (gs, m')"
  shows "m' = filter (\<lambda>(u, i). \<not> (good i \<and> lastGoodTime i + ttl cv < tp)) m
    \<and> mset gs = image_mset (\<lambda>(u, i). (Deregister, specs_of i)) (filter_mset (\<lambda>(u, i). good i \<and> lastGoodTime i + ttl cv < tp) (mset m))"
proof -
  let ?late = "\<lambda>u. case map_of m u of Some i \<Rightarrow> expired cv tp i | None \<Rightarrow> False"
  have d: "distinct (map fst m)"
    by (rule smap_wf_distinct [OF assms(1)])
  have look: "map_of m u = Some i" if "(u, i) \<in> set m" for u i
    using d that by simp
  have late: "?late u = expired cv tp i" if "(u, i) \<in> set m" for u i
    using look [OF that] by simp
  have so: "set (order (map fst m)) = fst ` set m"
    using assms(2) by (metis set_mset_mset list.set_map)
  have gs: "gs = map (\<lambda>u. (Deregister, specs_of (the (map_of m u)))) (filter ?late (order (map fst m)))"
      and m': "m' = filter (\<lambda>e. fst e \<notin> set (filter ?late (order (map fst m)))) m"
    using assms(3) by (auto simp: handleTimer_def Let_def)
  have kept: "m' = filter (\<lambda>(u, i). \<not> expired cv tp i) m"
    unfolding m' by (rule filter_cong [OF refl]) (use so late in \<open>auto simp: image_iff\<close>)
  have "mset gs = image_mset (\<lambda>u. (Deregister, specs_of (the (map_of m u)))) (filter_mset ?late (image_mset fst (mset m)))"
    unfolding gs mset_map mset_filter assms(2) ..
  also have "\<dots> = image_mset (\<lambda>e. (Deregister, specs_of (the (map_of m (fst e))))) (filter_mset (\<lambda>e. ?late (fst e)) (mset m))"
    by (simp add: filter_mset_image_mset image_mset.compositionality comp_def)
  also have "\<dots> = image_mset (\<lambda>(u, i). (Deregister, specs_of i)) (filter_mset (\<lambda>(u, i). expired cv tp i) (mset m))"
  proof -
    have "filter_mset (\<lambda>e. ?late (fst e)) (mset m) = filter_mset (\<lambda>(u, i). expired cv tp i) (mset m)"
      by (rule filter_mset_cong [OF refl]) (use late in auto)
    then show ?thesis
      using look by (auto intro!: image_mset_cong)
  qed
  finally show ?thesis
    using kept by (simp add: expired_def)
qed

section \<open>From heartbeats to dispatch\<close>

text \<open>A converter for one facility, and the specifications that the heartbeats announce for it.\<close>

definition one_facility :: "converter \<Rightarrow> string \<Rightarrow> bool" where
  "one_facility cv nm \<longleftrightarrow> distinguishedFacilityNames cv = [nm] \<and> nonDistinguishedFacilityNames cv = []"

definition announced :: "boost \<Rightarrow> string \<Rightarrow> 't discovery_event list \<Rightarrow> facility_spec set" where
  "announced b nm evs = {s. \<exists>now h chan. Beat now h \<in> set evs \<and> map_of (facilityChannels h) nm = Some chan \<and> parseServerSpec b chan = Some s}"

lemma announced_mono: "set evs \<subseteq> set evs' \<Longrightarrow> announced b nm evs \<subseteq> announced b nm evs'"
  unfolding announced_def by blast

definition single_info :: "facility_spec set \<Rightarrow> OneServerInfo \<Rightarrow> bool" where
  "single_info S i \<longleftrightarrow> (\<exists>s. specs_of i = ([s], []) \<and> (good i \<longrightarrow> s \<in> S))"

lemma single_infoI: "specs_of i = ([s], []) \<Longrightarrow> good i \<longrightarrow> s \<in> S \<Longrightarrow> single_info S i"
  unfolding single_info_def by blast

definition single_infos :: "facility_spec set \<Rightarrow> server_infos \<Rightarrow> bool" where
  "single_infos S m \<longleftrightarrow> (\<forall>u i. map_of m u = Some i \<longrightarrow> single_info S i)"

definition single_groups :: "facility_spec set \<Rightarrow> (action_type \<times> server_specs) list \<Rightarrow> bool" where
  "single_groups S gs \<longleftrightarrow> (\<forall>g \<in> set gs. \<exists>s \<in> S. snd g = ([s], []))"

lemma single_assign:
  assumes "smap_wf m" and "single_infos S m" and "specs_of i = ([s], [])" and "good i \<longrightarrow> s \<in> S"
  shows "single_infos S (smap_assign u i m)"
  using assms single_infoI [OF assms(3,4)] by (auto simp: single_infos_def map_of_smap_assign)

lemma single_filter: "single_infos S m \<Longrightarrow> single_infos S (filter (\<lambda>e. fst e \<notin> K) m)"
  by (auto simp: single_infos_def map_of_filter_keys split: if_splits)

lemma single_heartbeat:
  assumes cv: "one_facility cv nm" and wf: "smap_wf m" and m: "single_infos S m" and S: "announced b nm [Beat now h] \<subseteq> S"
    and h: "handleHeartbeat b cv now h m = (gs, m')"
  shows "single_infos S m' \<and> single_groups S gs"
proof (cases "senderRE cv (senderDescription h)")
  case False
  then show ?thesis
    using m h by (simp add: handleHeartbeat_def single_groups_def)
next
  case True
  define u where "u = uuidStr h"
  define i where "i = (case map_of m u of Some i \<Rightarrow> i | None \<Rightarrow> new_server_info cv)"
  have "single_info S (new_server_info cv)"
    using cv by (auto intro!: single_infoI [of _ default_spec] simp: new_server_info_def specs_of_def one_facility_def)
  then have "single_info S i"
    using m by (auto simp: i_def single_infos_def split: option.split)
  then obtain s0 where s0: "specs_of i = ([s0], [])" "good i \<longrightarrow> s0 \<in> S"
    unfolding single_info_def by blast
  show ?thesis
  proof (cases "good i")
    case True
    have "specs_of (i\<lparr>lastGoodTime := now\<rparr>) = ([s0], [])" "good (i\<lparr>lastGoodTime := now\<rparr>) \<longrightarrow> s0 \<in> S"
      using s0 by (simp_all add: specs_of_def)
    then show ?thesis
      using single_assign [OF wf m, of "i\<lparr>lastGoodTime := now\<rparr>" s0] h True \<open>senderRE cv (senderDescription h)\<close>
      by (auto simp: handleHeartbeat_def Let_def u_def [symmetric] i_def [symmetric] single_groups_def)
  next
    case False
    have ls: "distinguishedFacilityLocators i = [s0]" "nonDistinguishedFacilityLocators i = []"
      using s0 by (simp_all add: specs_of_def)
    show ?thesis
    proof (cases "Option.bind (map_of (facilityChannels h) nm) (parseServerSpec b)")
      case None
      then have f: "fill_specs b (map_of (facilityChannels h)) (distinguishedFacilityNames cv) 0 (distinguishedFacilityLocators i) = (False, [s0])"
        using cv ls by (auto simp: one_facility_def split: option.split)
      have "specs_of (i\<lparr>distinguishedFacilityLocators := [s0]\<rparr>) = ([s0], [])"
        using ls by (simp add: specs_of_def)
      moreover have "gs = [] \<and> m' = smap_assign u (i\<lparr>distinguishedFacilityLocators := [s0]\<rparr>) m"
        using h True False f by (simp add: handleHeartbeat_def Let_def u_def [symmetric] i_def [symmetric])
      ultimately show ?thesis
        using single_assign [OF wf m, of "i\<lparr>distinguishedFacilityLocators := [s0]\<rparr>" s0 u] False by (simp add: single_groups_def)
    next
      case (Some s)
      then obtain chan where t: "map_of (facilityChannels h) nm = Some chan" "parseServerSpec b chan = Some s"
        by (cases "map_of (facilityChannels h) nm") auto
      then have f: "fill_specs b (map_of (facilityChannels h)) (distinguishedFacilityNames cv) 0 (distinguishedFacilityLocators i) = (True, [s])"
        using cv ls by (simp add: one_facility_def)
      have f2: "fill_specs b (map_of (facilityChannels h)) (nonDistinguishedFacilityNames cv) 0 (nonDistinguishedFacilityLocators i) = (True, [])"
        using cv ls by (simp add: one_facility_def)
      have s: "s \<in> S"
        using t S by (auto simp: announced_def)
      let ?i = "i\<lparr>distinguishedFacilityLocators := [s], nonDistinguishedFacilityLocators := [], good := True, lastGoodTime := now\<rparr>"
      have sp: "specs_of ?i = ([s], [])"
        by (simp add: specs_of_def)
      have "become_good u ?i m = (gs, m')"
        using h True False f f2 by (simp add: handleHeartbeat_def Let_def u_def [symmetric] i_def [symmetric])
      then have gs: "set gs \<subseteq> {(Deregister, ([s], [])), (Register, ([s], []))}"
          and m': "\<exists>K. m' = smap_assign u ?i (filter (\<lambda>e. fst e \<notin> K) m)"
        using sp by (auto simp: become_good_def Let_def)
      have "single_infos S m'"
        using m' single_assign [OF smap_wf_filter [OF wf] single_filter [OF m], of ?i s] sp s by auto
      then show ?thesis
        using gs s by (auto simp: single_groups_def)
    qed
  qed
qed

lemma single_timer:
  assumes m: "single_infos S m" and t: "handleTimer cv order tp m = (gs, m')"
  shows "single_infos S m' \<and> single_groups S gs"
proof -
  have one: "\<exists>s \<in> S. specs_of i = ([s], [])" if "map_of m u = Some i" "good i" for u i
    using m that unfolding single_infos_def single_info_def by blast
  have "single_groups S gs"
    unfolding single_groups_def
  proof
    fix g
    assume "g \<in> set gs"
    then obtain u where u: "snd g = specs_of (the (map_of m u))" "case map_of m u of Some i \<Rightarrow> expired cv tp i | None \<Rightarrow> False"
      using t by (auto simp: handleTimer_def Let_def)
    then obtain i where "map_of m u = Some i" "good i"
      by (auto simp: expired_def split: option.splits)
    then show "\<exists>s \<in> S. snd g = ([s], [])"
      using one [of u i] u(1) by simp
  qed
  moreover have "m' = snd (handleTimer cv order tp m)"
    by (simp add: t)
  then have "\<exists>K. m' = filter (\<lambda>e. fst e \<notin> K) m"
    unfolding handleTimer_def Let_def snd_conv by blast
  ultimately show ?thesis
    using single_filter [OF m] by auto
qed

lemma run_single:
  assumes "one_facility cv nm" and "infos_ok m" and "single_infos S m" and "orders_ok evs" and "announced b nm evs \<subseteq> S"
    and "run_calls (discover b cv) evs m = (gss, m')"
  shows "single_infos S m' \<and> single_groups S (concat gss)"
  using assms(2-)
proof (induction evs arbitrary: m gss)
  case (Cons ev evs)
  obtain gs m1 where one: "discover b cv ev m = (gs, m1)"
    by fastforce
  with Cons.prems(5) obtain gss' where rest: "run_calls (discover b cv) evs m1 = (gss', m')" "gss = gs # gss'"
    by (auto split: prod.splits)
  have ev: "orders_ok [ev]" "orders_ok evs" "announced b nm [ev] \<subseteq> S" "announced b nm evs \<subseteq> S"
    using Cons.prems(3,4) order_trans [OF announced_mono [of "[ev]" "ev # evs" b nm]] order_trans [OF announced_mono [of evs "ev # evs" b nm]]
    by (simp_all add: orders_ok_def subset_insertI)
  have wf: "smap_wf m"
    using Cons.prems(1) by (simp add: infos_ok_def)
  have "single_infos S m1 \<and> single_groups S gs"
  proof (cases ev)
    case (Beat now h)
    then show ?thesis
      using single_heartbeat [OF assms(1) wf Cons.prems(2), of b now h gs m1] one ev(3) by (simp add: discover_def)
  next
    case (Tick order tp)
    then show ?thesis
      using single_timer [OF Cons.prems(2), of cv order tp gs m1] one by (simp add: discover_def)
  qed
  moreover have "infos_ok m1"
    using discover_tracks [OF Cons.prems(1) ev(1) one] by simp
  ultimately show ?case
    using Cons.IH [OF _ _ ev(2,4) rest(1)] rest(2) by (auto simp: single_groups_def)
qed (simp add: single_groups_def)

text \<open>The actions for one facility, and how the registrations they ask for follow the groups.\<close>

definition facility_actions :: "converter \<Rightarrow> (action_type \<times> server_specs) list \<Rightarrow> FacilityAction list" where
  "facility_actions cv gs = concat (map (\<lambda>g. fst (commands cv g)) gs)"

definition follows :: "(ConnectionLocator \<rightharpoonup> facility_type) \<Rightarrow> server_specs set \<Rightarrow> bool" where
  "follows w R \<longleftrightarrow> (\<forall>l t. w l = Some t \<longleftrightarrow> ([(t, l)], []) \<in> R)"

lemma follows_actions:
  assumes "one_facility cv nm" and "single_groups S gs" and "inj_on snd S" and "R \<subseteq> {([s], []) |s. s \<in> S}" and "follows w R"
    and "orderly_groups R gs"
  shows "orderly w (facility_actions cv gs) \<and> follows (fold wish (facility_actions cv gs) w) (fold apply_group gs R)"
  using assms(2,4,5,6)
proof (induction gs arbitrary: R w)
  case (Cons g gs)
  obtain a t l where g: "g = (a, ([(t, l)], []))" and tl: "(t, l) \<in> S"
    using Cons.prems(1) by (cases g) (auto simp: single_groups_def)
  define x where "x = \<lparr>actionType = a, facilityType = t, facilityLocator = l, description = nm\<rparr>"
  have acts: "facility_actions cv (g # gs) = x # facility_actions cv gs"
    using assms(1) by (simp add: facility_actions_def commands_def g x_def one_facility_def Let_def)
  have same: "t' = t" if "([(t', l)], []) \<in> R" for t'
  proof -
    have "(t', l) \<in> S"
      using that Cons.prems(2) by blast
    then show ?thesis
      using inj_onD [OF assms(3), of "(t', l)" "(t, l)"] tl by simp
  qed
  have w: "w k = Some u \<longleftrightarrow> ([(u, k)], []) \<in> R" for k u
    using Cons.prems(3) by (simp add: follows_def)
  have new: "a = Register \<Longrightarrow> ([(t, l)], []) \<notin> R"
    using Cons.prems(4) g by simp
  have "orderly_action w x"
  proof (cases a)
    case Register
    then have "w l \<noteq> Some u" for u
      using w same new by auto
    then show ?thesis
      using Register by (cases "w l") (auto simp: orderly_action_def x_def)
  next
    case Deregister
    then show ?thesis
      using w [of l] same by (cases "w l") (auto simp: orderly_action_def x_def)
  qed
  moreover have "follows (wish x w) (apply_group g R)"
    unfolding follows_def
  proof (intro allI)
    fix k u
    show "wish x w k = Some u \<longleftrightarrow> ([(u, k)], []) \<in> apply_group g R"
      using w [of k u] same [of u] new
      by (cases a; cases "k = l") (auto simp: wish_def apply_group_def g x_def)
  qed
  moreover have "apply_group g R \<subseteq> {([s], []) |s. s \<in> S}"
    using Cons.prems(2) tl by (auto simp: apply_group_def g split: MultiTransportRemoteFacilityActionType.split)
  ultimately show ?case
    using Cons.IH [of "apply_group g R" "wish x w"] Cons.prems(1,4) by (simp add: acts single_groups_def)
qed (simp add: facility_actions_def)

text \<open>
  C14: Heartbeats in, requests out, for a converter that serves a single facility (\<open>one_facility\<close>): when its commands are carried out by a remote facility over Redis,
  a request for a designated server is sent to it, by a client that the Redis component has, if the converter holds a server on Redis with that
  locator to be good, and is dropped otherwise; no client is left behind for a server that expired. No two announcements may give one locator
  different transports, and none may be refused by the authentication. With two facilities the property fails, as the theorem after the example shows.
\<close>

theorem discovered_servers_get_requests:
  assumes "one_facility cv nm" and "orders_ok evs" and "run_calls (discover b cv) evs [] = (gss, m)"
    and "inj_on snd (announced b nm evs)" and "\<forall>s \<in> announced b nm evs. auth e (snd s) = Inr ()"
    and "redis_ok s" and "numbers_left (length (facility_actions cv (concat gss))) s" and "strategy cfg = Designated"
    and "run_calls (actuallyHandleFacilityAction cfg (redis_service e k)) (facility_actions cv (concat gss)) (new_facility s) = (rs, f)"
  shows "if \<exists>u i. map_of m u = Some i \<and> good i \<and> distinguishedFacilityLocators i = [(Redis, l)]
    then \<exists>q. pick_sender cfg r l f = Inr (Some q) \<and> sender_locator q = l \<and> sender_client q \<in> client_numbers (components f) Redis l
    else pick_sender cfg r l f = Inr None \<and> client_numbers (components f) Redis l = client_numbers s Redis l"
proof -
  let ?S = "announced b nm evs" and ?as = "facility_actions cv (concat gss)"
  have start: "infos_ok []" "single_infos ?S []"
    by (simp_all add: infos_ok_def single_infos_def)
  have sh: "single_infos ?S m" "single_groups ?S (concat gss)"
    using run_single [OF assms(1) start assms(2) subset_refl assms(3)] by simp_all
  have tr: "fold apply_group (concat gss) {} = good_specs m" "orderly_groups {} (concat gss)"
    using run_discover_tracks [OF start(1) assms(2,3)] by simp_all
  have "follows Map.empty {}"
    by (simp add: follows_def)
  from follows_actions [OF assms(1) sh(2) assms(4) _ this tr(2)]
  have ord: "orderly Map.empty ?as" and w: "follows (fold wish ?as Map.empty) (good_specs m)"
    by (simp_all add: tr(1))
  have au: "\<forall>a \<in> set ?as. actionType a = Register \<longrightarrow> auth e (facilityLocator a) = Inr ()"
  proof
    fix a
    assume "a \<in> set ?as"
    then obtain g where g: "g \<in> set (concat gss)" "a \<in> set (fst (commands cv g))"
      by (auto simp: facility_actions_def)
    then obtain t l where "(t, l) \<in> ?S" "snd g = ([(t, l)], [])"
      using sh(2) unfolding single_groups_def by (metis surj_pair)
    then show "actionType a = Register \<longrightarrow> auth e (facilityLocator a) = Inr ()"
      using g(2) assms(1,5) by (auto simp: commands_def one_facility_def Let_def)
  qed
  have "([(Redis, l)], []) \<in> good_specs m \<longleftrightarrow> (\<exists>u i. map_of m u = Some i \<and> good i \<and> distinguishedFacilityLocators i = [(Redis, l)])"
  proof -
    have "map_of m u = Some i \<Longrightarrow> nonDistinguishedFacilityLocators i = []" for u i
      using sh(1) by (force simp: single_infos_def single_info_def specs_of_def)
    then show ?thesis
      unfolding good_specs_iff specs_of_def by (metis prod.inject)
  qed
  then have "fold wish ?as Map.empty l = Some Redis \<longleftrightarrow> (\<exists>u i. map_of m u = Some i \<and> good i \<and> distinguishedFacilityLocators i = [(Redis, l)])"
    using w by (simp add: follows_def)
  then show ?thesis
    using designated_send [OF assms(6,7) ord assms(8) au assms(9), of l r] by (auto split: if_splits)
qed

section \<open>An example\<close>

definition sample_beat :: "nat HeartbeatMessage" where
  "sample_beat = \<lparr>uuidStr = ''u'', heartbeatTime = 0, host = ''h'', pid = 1, senderDescription = ''d'', broadcastChannels = [],
     facilityChannels = [(''f'', ''redis://h:1'')], details = []\<rparr>"

definition sample_converter :: converter where
  "sample_converter = \<lparr>senderRE = (\<lambda>_. True), distinguishedFacilityNames = [''f''], nonDistinguishedFacilityNames = [], ttl = 10\<rparr>"

definition short_locator :: ConnectionLocator where
  "short_locator = (case parse boost_ref ''h:1'' of Inr l \<Rightarrow> l)"

lemma sample_spec: "parseServerSpec boost_ref ''redis://h:1'' = Some (Redis, short_locator)" "password short_locator = ''''"
  by (simp_all add: parseServerSpec_def parse_spec_as_def boost_ref_def short_locator_def parse_short [unfolded boost_ref_def])

lemma sample_discovery: "discover boost_ref sample_converter (Beat now sample_beat) [] =
    ([(Register, ([(Redis, short_locator)], []))],
     [(''u'', \<lparr>good = True, distinguishedFacilityLocators = [(Redis, short_locator)], nonDistinguishedFacilityLocators = [], lastGoodTime = now\<rparr>)])"
  by (simp add: discover_def handleHeartbeat_def become_good_def sample_beat_def sample_converter_def new_server_info_def sample_spec specs_of_def
      Let_def)

lemma sample_run: "run_calls (discover boost_ref sample_converter) [Beat 0 sample_beat] [] =
    ([[(Register, ([(Redis, short_locator)], []))]],
     [(''u'', \<lparr>good = True, distinguishedFacilityLocators = [(Redis, short_locator)], nonDistinguishedFacilityLocators = [], lastGoodTime = 0\<rparr>)])"
  by (simp add: sample_discovery)

lemma sample_facility: "one_facility sample_converter ''f''" "announced boost_ref ''f'' [Beat 0 sample_beat] = {(Redis, short_locator)}"
  by (auto simp: one_facility_def sample_converter_def announced_def sample_beat_def sample_spec)

theorem discovery_tracks_servers_witness:
  "fold apply_group (concat (fst (run_calls (discover boost_ref sample_converter) [Beat 0 sample_beat] []))) {} = {([(Redis, short_locator)], [])}"
proof -
  have "orders_ok [Beat 0 sample_beat]"
    by (simp add: orders_ok_def)
  have "{specs_of i |u i. map_of [(''u'', x)] u = Some i \<and> good i} = (if good x then {specs_of x} else {})" for x
    by (auto split: if_splits)
  with conjunct1 [OF discovery_tracks_servers [OF \<open>orders_ok [Beat 0 sample_beat]\<close> sample_run]] show ?thesis
    by (simp only: sample_run fst_conv) (simp add: specs_of_def)
qed

theorem timer_expires_witness:
  "mset (fst (handleTimer sample_converter id 11 (snd (run_calls (discover boost_ref sample_converter) [Beat 0 sample_beat] [])))) =
     {#(Deregister, ([(Redis, short_locator)], []))#}"
proof -
  let ?m = "snd (run_calls (discover boost_ref sample_converter) [Beat 0 sample_beat] [])"
  obtain gs m' where t: "handleTimer sample_converter id 11 ?m = (gs, m')"
    by fastforce
  have "smap_wf ?m" "mset (id (map fst ?m)) = mset (map fst ?m)"
    unfolding sample_run by (simp_all add: smap_wf_Cons)
  then have "mset gs = image_mset (\<lambda>(u, i). (Deregister, specs_of i)) (filter_mset (\<lambda>(u, i). good i \<and> lastGoodTime i + ttl sample_converter < 11) (mset ?m))"
    using timer_expires [OF _ _ t] by blast
  moreover have "ttl sample_converter = 10"
    by (simp add: sample_converter_def)
  ultimately show ?thesis
    unfolding t fst_conv by (simp only: sample_run snd_conv) (simp add: specs_of_def)
qed

theorem discovered_servers_get_requests_witness:
  "\<exists>q. pick_sender (sample_facility_config Designated) 0 short_locator
      (snd (run_calls (actuallyHandleFacilityAction (sample_facility_config Designated) (redis_service sample_redis (7::nat)))
        (facility_actions sample_converter (concat (fst (run_calls (discover boost_ref sample_converter) [Beat 0 sample_beat] []))))
        (new_facility (initial_redis :: (nat, nat) RedisComponentImpl)))) = Inr (Some q) \<and> sender_locator q = short_locator"
proof -
  let ?cfg = "sample_facility_config Designated"
  let ?as = "facility_actions sample_converter (concat [[(Register, ([(Redis, short_locator)], []))]])"
  obtain rs f where run: "run_calls (actuallyHandleFacilityAction ?cfg (redis_service sample_redis (7::nat))) ?as
      (new_facility (initial_redis :: (nat, nat) RedisComponentImpl)) = (rs, f)"
    by fastforce
  have o: "orders_ok [Beat 0 sample_beat]"
    by (simp add: orders_ok_def)
  have inj: "inj_on snd (announced boost_ref ''f'' [Beat 0 sample_beat])"
      and au: "\<forall>s \<in> announced boost_ref ''f'' [Beat 0 sample_beat]. auth sample_redis (snd s) = Inr ()"
    unfolding sample_facility by (simp_all add: auth_open sample_spec)
  have "length ?as = 1"
    by (simp add: facility_actions_def commands_def sample_converter_def)
  then have "numbers_left (length ?as) (initial_redis :: (nat, nat) RedisComponentImpl)"
    by (intro initial_redis_ok(2)) simp
  moreover have "strategy ?cfg = Designated"
    by (simp add: sample_facility_config_def)
  moreover have "\<exists>u i. map_of [(''u'', \<lparr>good = True, distinguishedFacilityLocators = [(Redis, short_locator)],
      nonDistinguishedFacilityLocators = [], lastGoodTime = 0\<rparr>)] u = Some i \<and> good i \<and> distinguishedFacilityLocators i = [(Redis, short_locator)]"
    by (rule exI [of _ "''u''"]) simp
  ultimately show ?thesis
    using discovered_servers_get_requests [OF sample_facility(1) o sample_run inj au initial_redis_ok(1) _ _ run, of short_locator 0]
    unfolding sample_run fst_conv run snd_conv by (simp only: if_True) blast
qed

text \<open>
  With two facilities, two servers may share the locator of one of them. When one expires, the commands for that facility take its locator back,
  though the other server is still good.
\<close>

definition two_facilities :: converter where
  "two_facilities = \<lparr>senderRE = (\<lambda>_. True), distinguishedFacilityNames = [''f'', ''g''], nonDistinguishedFacilityNames = [], ttl = 10\<rparr>"

definition beat_of :: "string \<Rightarrow> string \<Rightarrow> nat HeartbeatMessage" where
  "beat_of u g = \<lparr>uuidStr = u, heartbeatTime = 0, host = ''h'', pid = 1, senderDescription = ''d'', broadcastChannels = [],
     facilityChannels = [(''f'', ''redis://h:1''), (''g'', g)], details = []\<rparr>"

theorem shared_locator_deregistered:
  assumes "parseServerSpec b ''redis://h:1'' = Some l1" and "parseServerSpec b ''redis://h:2'' = Some l2"
    and "parseServerSpec b ''redis://h:3'' = Some l3" and "distinct [l1, l2, l3]"
  shows "(let (gss, m) = run_calls (discover b two_facilities)
        [Beat 0 (beat_of ''A'' ''redis://h:2''), Beat 5 (beat_of ''B'' ''redis://h:3''), Tick id 11] []
    in (\<exists>i. map_of m ''B'' = Some i \<and> good i \<and> distinguishedFacilityLocators i = [l1, l3]) \<and>
       map (\<lambda>x. (actionType x, facilityType x, facilityLocator x)) (filter (\<lambda>x. description x = ''f'') (facility_actions two_facilities (concat gss))) =
         [(Register, l1), (Register, l1), (Deregister, l1)])"
proof -
  have "discover b two_facilities (Beat 0 (beat_of ''A'' ''redis://h:2'')) [] =
      ([(Register, ([l1, l2], []))], [(''A'', \<lparr>good = True, distinguishedFacilityLocators = [l1, l2], nonDistinguishedFacilityLocators = [], lastGoodTime = 0\<rparr>)])"
    using assms by (simp add: discover_def handleHeartbeat_def become_good_def beat_of_def two_facilities_def new_server_info_def specs_of_def Let_def)
  moreover have "discover b two_facilities (Beat 5 (beat_of ''B'' ''redis://h:3''))
      [(''A'', \<lparr>good = True, distinguishedFacilityLocators = [l1, l2], nonDistinguishedFacilityLocators = [], lastGoodTime = 0\<rparr>)] =
      ([(Register, ([l1, l3], []))],
       [(''A'', \<lparr>good = True, distinguishedFacilityLocators = [l1, l2], nonDistinguishedFacilityLocators = [], lastGoodTime = 0\<rparr>),
        (''B'', \<lparr>good = True, distinguishedFacilityLocators = [l1, l3], nonDistinguishedFacilityLocators = [], lastGoodTime = 5\<rparr>)])"
    using assms by (simp add: discover_def handleHeartbeat_def become_good_def beat_of_def two_facilities_def new_server_info_def specs_of_def Let_def
        hasSameInfo_def)
  moreover have "discover b two_facilities (Tick id 11 :: nat discovery_event)
      [(''A'', \<lparr>good = True, distinguishedFacilityLocators = [l1, l2], nonDistinguishedFacilityLocators = [], lastGoodTime = 0\<rparr>),
       (''B'', \<lparr>good = True, distinguishedFacilityLocators = [l1, l3], nonDistinguishedFacilityLocators = [], lastGoodTime = 5\<rparr>)] =
      ([(Deregister, ([l1, l2], []))],
       [(''B'', \<lparr>good = True, distinguishedFacilityLocators = [l1, l3], nonDistinguishedFacilityLocators = [], lastGoodTime = 5\<rparr>)])"
    by (simp add: discover_def handleTimer_def expired_def two_facilities_def specs_of_def Let_def)
  ultimately show ?thesis
    by (simp add: facility_actions_def commands_def two_facilities_def split_beta)
qed

end
