(* ===== verification/SharedMemory.thy ===== *)
theory SharedMemory
  imports ChainInterface Wire "HOL-Library.Word"
begin

text \<open>
  \<open>LockFreeInBoostSharedMemoryChain\<close> (tm_kit/transport/lock_free_in_memory_shared_chain/LockFreeInBoostSharedMemoryChain.hpp): a
  shared chain in a segment of memory that processes share. The items are linked by offsets; \<open>appendAfter\<close> is one
  compare-and-exchange. The class has two forms, with items found by name and by offset.

  boost::interprocess is a parameter, the record \<open>shm\<close>: \<open>allocate\<close> is where its allocator puts the next object (\<^const>\<open>None\<close> when the
  segment is full) and \<open>others\<close> what the other threads and processes do before one access of ours.
\<close>

section \<open>The segment\<close>

type_synonym addr = "64 word"

text \<open>The data of a node: the value itself, or the offset of its bytes, 0 for none. \<open>nnext\<close> is the offset of the next node, 0 for none.\<close>

datatype 'd node_data = Inline 'd | Separate "64 word"

record 'd BoostSharedMemoryStorageItem =
  ndata :: "'d node_data"
  nnext :: "64 word"

datatype ('d, 'x) object = StorageItem "'d BoostSharedMemoryStorageItem" | CharArray string | OffsetCell "64 word" | ExtraValue 'x

text \<open>Each object with the name it was constructed with. \<open>built\<close> (not in the memory): the objects that this thread has constructed.\<close>

record ('d, 'x) segment =
  objects :: "addr \<rightharpoonup> string option \<times> ('d, 'x) object"
  names :: "string \<rightharpoonup> addr"
  built :: "addr set"

datatype shm_error = LockFreeInBoostSharedMemoryChainException string | BadAlloc | AlreadyExists | ShortId | UndefinedBehaviour | Diverges

record ('d, 'x) shm =
  allocate :: "('d, 'x) segment \<Rightarrow> addr option"
  others :: "('d, 'x) segment \<Rightarrow> ('d, 'x) segment"

type_synonym ('d, 'x, 'a) shm_call = "(('d, 'x) segment, shm_error, 'a) call"

definition object_at :: "('d, 'x) segment \<Rightarrow> addr \<Rightarrow> ('d, 'x) object option" where
  "object_at s p = (if p = 0 then None else map_option snd (objects s p))"

text \<open>Each access is one step: the others run, then it happens. A pointer that does not point to an object of its type is undefined behaviour.\<close>

definition read_object :: "('d, 'x) shm \<Rightarrow> (('d, 'x) object \<Rightarrow> 'a option) \<Rightarrow> addr \<Rightarrow> ('d, 'x, 'a) shm_call" where
  "read_object e f p = (\<lambda>s0. let s = others e s0 in
     case Option.bind (object_at s p) f of Some a \<Rightarrow> (Inr a, s) | None \<Rightarrow> (Inl UndefinedBehaviour, s))"

definition put_object :: "addr \<Rightarrow> ('d, 'x) object \<Rightarrow> ('d, 'x) segment \<Rightarrow> ('d, 'x) segment" where
  "put_object p ob s = s\<lparr>objects := (objects s)(p := map_option (\<lambda>(nm, _). (nm, ob)) (objects s p))\<rparr>"

definition write_object :: "('d, 'x) shm \<Rightarrow> (('d, 'x) object \<Rightarrow> ('d, 'x) object option) \<Rightarrow> addr \<Rightarrow> ('d, 'x, unit) shm_call" where
  "write_object e f p = (\<lambda>s0. let s = others e s0 in
     case Option.bind (object_at s p) f of Some ob \<Rightarrow> (Inr (), put_object p ob s) | None \<Rightarrow> (Inl UndefinedBehaviour, s))"

fun as_item :: "('d, 'x) object \<Rightarrow> 'd BoostSharedMemoryStorageItem option" where
  "as_item (StorageItem nd) = Some nd"
| "as_item _ = None"

fun as_chars :: "('d, 'x) object \<Rightarrow> string option" where
  "as_chars (CharArray c) = Some c"
| "as_chars _ = None"

text \<open>\<open>construct<T>(name)(...)\<close>, which throws for a name in use, and \<open>destroy_ptr\<close>.\<close>

definition place_object :: "('d, 'x) shm \<Rightarrow> string option \<Rightarrow> ('d, 'x) object \<Rightarrow> ('d, 'x, addr) shm_call" where
  "place_object e nm ob s =
     (case allocate e s of
        None \<Rightarrow> (Inl BadAlloc, s)
      | Some p \<Rightarrow>
          (Inr p, s\<lparr>objects := (objects s)(p \<mapsto> (nm, ob)), names := (case nm of Some n \<Rightarrow> (names s)(n \<mapsto> p) | None \<Rightarrow> names s),
             built := insert p (built s)\<rparr>))"

definition construct :: "('d, 'x) shm \<Rightarrow> string option \<Rightarrow> ('d, 'x) object \<Rightarrow> ('d, 'x, addr) shm_call" where
  "construct e nm ob = (\<lambda>s0. let s = others e s0 in
     if Option.bind nm (names s) \<noteq> None then (Inl AlreadyExists, s) else place_object e nm ob s)"

definition find_or_construct :: "('d, 'x) shm \<Rightarrow> string \<Rightarrow> ('d, 'x) object \<Rightarrow> ('d, 'x, addr) shm_call" where
  "find_or_construct e nm ob = (\<lambda>s0. let s = others e s0 in
     case names s nm of Some p \<Rightarrow> (Inr p, s) | None \<Rightarrow> place_object e (Some nm) ob s)"

definition find_name :: "('d, 'x) shm \<Rightarrow> string \<Rightarrow> ('d, 'x, addr) shm_call" where
  "find_name e nm = (\<lambda>s0. let s = others e s0 in (Inr (case names s nm of Some p \<Rightarrow> p | None \<Rightarrow> 0), s))"

definition get_instance_name :: "('d, 'x) shm \<Rightarrow> addr \<Rightarrow> ('d, 'x, string) shm_call" where
  "get_instance_name e p = (\<lambda>s0. let s = others e s0 in
     case objects s p of Some (Some nm, _) \<Rightarrow> (Inr nm, s) | _ \<Rightarrow> (Inl UndefinedBehaviour, s))"

definition destroy_ptr :: "('d, 'x) shm \<Rightarrow> addr \<Rightarrow> ('d, 'x, unit) shm_call" where
  "destroy_ptr e p = (\<lambda>s0. let s = others e s0 in
     case objects s p of
       None \<Rightarrow> (Inl UndefinedBehaviour, s)
     | Some (nm, _) \<Rightarrow>
         (Inr (), s\<lparr>objects := (objects s)(p := None), names := (case nm of Some n \<Rightarrow> (names s)(n := None) | None \<Rightarrow> names s),
            built := built s - {p}\<rparr>))"

section \<open>A chain object\<close>

text \<open>
  \<open>inline_data\<close>: the data type is trivially copyable and separate storage is not forced, so the data is in the nodes. Hooks are
  used only when separate storage is forced.
\<close>

record 'd shm_chain =
  inline_data :: bool
  ForceSeparate :: bool
  headPtr :: addr
  hookPair :: "ByteDataHookPair option"
  codec :: "'d serializer"

record ('k, 'd) BoostSharedMemoryChainItem =
  ptr :: addr
  item_id :: 'k
  parsed :: "'d option"

definition trivially_copyable_inline :: "bool \<Rightarrow> bool \<Rightarrow> bool" where
  "trivially_copyable_inline trivial force \<longleftrightarrow> \<not> force \<and> trivial"

text \<open>The constructor, whose segment is there already. A head for inline data is a unique instance, which has no name; \<open>unique\<close> is where it is.\<close>

definition open_chain :: "('d, 'x) shm \<Rightarrow> bool \<Rightarrow> bool \<Rightarrow> 'd serializer \<Rightarrow> 'd \<Rightarrow> ByteDataHookPair option \<Rightarrow> addr option
    \<Rightarrow> ('d, 'x, 'd shm_chain) shm_call" where
  "open_chain e trivial force c dflt hooks unique =
     (let mk = (\<lambda>p. \<lparr>inline_data = trivially_copyable_inline trivial force, ForceSeparate = force, headPtr = p,
          hookPair = (if force then hooks else None), codec = c\<rparr>) in
      if force \<or> \<not> trivial then
        bindS (find_or_construct e ''head'' (StorageItem \<lparr>ndata = Separate 0, nnext = 0\<rparr>)) (\<lambda>p.
        bindS (write_object e (\<lambda>ob. map_option (\<lambda>nd. StorageItem (nd\<lparr>ndata := Separate 0\<rparr>)) (as_item ob)) p) (\<lambda>_. returnS (mk p)))
      else
        (case unique of
           Some p \<Rightarrow> returnS (mk p)
         | None \<Rightarrow> bindS (construct e None (StorageItem \<lparr>ndata = Inline dflt, nnext = 0\<rparr>)) (\<lambda>p. returnS (mk p))))"

definition shm_encode :: "'d shm_chain \<Rightarrow> 'd \<Rightarrow> string" where
  "shm_encode h d = (if ForceSeparate h then hook_serialize (hookPair h) (codec h) d else encode (codec h) d)"

definition shm_decode :: "'d shm_chain \<Rightarrow> string \<Rightarrow> 'd option" where
  "shm_decode h s = (if ForceSeparate h then hook_parse (hookPair h) (codec h) s else decode (codec h) s)"

text \<open>The bytes of a value: their number as a \<open>std::size_t\<close>, then the bytes.\<close>

definition sized :: "string \<Rightarrow> string" where
  "sized enc = bytes_of_nat 8 (length enc) @ enc"

definition unsized :: "string \<Rightarrow> string" where
  "unsized c = take (nat_of_bytes (take 8 c)) (drop 8 c)"

definition item_from :: "('d, 'x) shm \<Rightarrow> 'd shm_chain \<Rightarrow> 'k \<Rightarrow> addr \<Rightarrow> ('d, 'x, ('k, 'd) BoostSharedMemoryChainItem) shm_call" where
  "item_from e h i p =
     (if inline_data h \<or> p = 0 then returnS \<lparr>ptr = p, item_id = i, parsed = None\<rparr>
      else bindS (read_object e as_item p) (\<lambda>nd.
        case ndata nd of
          Inline _ \<Rightarrow> throwS UndefinedBehaviour
        | Separate off \<Rightarrow>
            if off = 0 then returnS \<lparr>ptr = p, item_id = i, parsed = None\<rparr>
            else bindS (read_object e as_chars (p + off)) (\<lambda>c.
              returnS \<lparr>ptr = p, item_id = i, parsed = shm_decode h (unsized c)\<rparr>)))"

definition actualData :: "'d shm_chain \<Rightarrow> ('d, 'x) segment \<Rightarrow> ('k, 'd) BoostSharedMemoryChainItem \<Rightarrow> 'd option" where
  "actualData h s i =
     (if inline_data h
      then (case Option.bind (object_at s (ptr i)) as_item of
              Some nd \<Rightarrow> (case ndata nd of Inline d \<Rightarrow> Some d | Separate _ \<Rightarrow> None)
            | None \<Rightarrow> None)
      else parsed i)"

section \<open>An example\<close>

text \<open>A segment of eight places, and nobody else.\<close>

definition sample_shm :: "('d, 'x) shm" where
  "sample_shm = \<lparr>allocate = (\<lambda>s. List.find (\<lambda>a. objects s a = None) [4096, 8192, 12288, 16384, 20480, 24576, 28672, 32768]), others = (\<lambda>s. s)\<rparr>"

definition empty_segment :: "('d, 'x) segment" where
  "empty_segment = \<lparr>objects = Map.empty, names = Map.empty, built = {}\<rparr>"

definition bytes_chain :: "string shm_chain" where
  "bytes_chain = \<lparr>inline_data = False, ForceSeparate = True, headPtr = 4096, hookPair = Some tag_hooks, codec = string_serializer\<rparr>"

end
