(* ===== verification/SharedMemoryChain.thy ===== *)
theory SharedMemoryChain
  imports SharedMemory
begin

text \<open>
  The operations of \<open>LockFreeInBoostSharedMemoryChain\<close>, the invariant that the linked items are a chain, and that \<open>appendAfter\<close> extends it
  atomically. Both forms share the code modelled by functions without a prefix.
\<close>

section \<open>Operations\<close>

definition fetchNext_with :: "('d, 'x) shm \<Rightarrow> 'd shm_chain \<Rightarrow> (addr \<Rightarrow> ('d, 'x, 'k) shm_call) \<Rightarrow> ('k, 'd) BoostSharedMemoryChainItem
    \<Rightarrow> ('d, 'x, ('k, 'd) BoostSharedMemoryChainItem option) shm_call" where
  "fetchNext_with e h name current =
     (if ptr current = 0 then throwS (LockFreeInBoostSharedMemoryChainException ''FetchNext on nullptr'')
      else bindS (read_object e as_item (ptr current)) (\<lambda>nd.
        if nnext nd = 0 then returnS None
        else (let p = ptr current + nnext nd in
          bindS (name p) (\<lambda>i. bindS (item_from e h i p) (\<lambda>j. returnS (Some j))))))"

text \<open>\<open>destroyPtr\<close> follows the links first; on a cycle it does not return, and is \<^const>\<open>None\<close>. Each use of \<open>ptr->next\<close> reads it again.\<close>

partial_function (option) destroyPtr_run :: "('d, 'x) shm \<Rightarrow> 'd shm_chain \<Rightarrow> addr \<Rightarrow> ('d, 'x) segment \<Rightarrow> ((shm_error + unit) \<times> ('d, 'x) segment) option" where
  "destroyPtr_run e h p s =
     (if p = 0 then Some (Inr (), s)
      else (case read_object e as_item p s of
        (Inl x, s1) \<Rightarrow> Some (Inl x, s1)
      | (Inr nd, s1) \<Rightarrow>
          Option.bind
            (if nnext nd = 0 then Some (Inr (), s1)
             else (case read_object e as_item p s1 of
               (Inl x, s2) \<Rightarrow> Some (Inl x, s2)
             | (Inr nd2, s2) \<Rightarrow> destroyPtr_run e h (p + nnext nd2) s2))
            (\<lambda>(r, s3). case r of
               Inl x \<Rightarrow> Some (Inl x, s3)
             | Inr _ \<Rightarrow> Some
                 (if inline_data h then destroy_ptr e p s3
                  else bindS (read_object e as_item p) (\<lambda>nd3.
                    bindS (case ndata nd3 of Separate off \<Rightarrow> if off = 0 then returnS () else destroy_ptr e (p + off)
                             | Inline _ \<Rightarrow> throwS UndefinedBehaviour) (\<lambda>_. destroy_ptr e p)) s3))))"

definition destroyPtr :: "('d, 'x) shm \<Rightarrow> 'd shm_chain \<Rightarrow> addr \<Rightarrow> ('d, 'x, unit) shm_call" where
  "destroyPtr e h p s = (case destroyPtr_run e h p s of Some r \<Rightarrow> r | None \<Rightarrow> (Inl Diverges, s))"

text \<open>The compare-and-exchange of 0 for an offset; on failure the items are destroyed.\<close>

definition compare_exchange_next :: "('d, 'x) shm \<Rightarrow> addr \<Rightarrow> 64 word \<Rightarrow> ('d, 'x, bool) shm_call" where
  "compare_exchange_next e p off = (\<lambda>s0. let s = others e s0 in
     case Option.bind (object_at s p) as_item of
       None \<Rightarrow> (Inl UndefinedBehaviour, s)
     | Some nd \<Rightarrow> if nnext nd = 0 then (Inr True, put_object p (StorageItem (nd\<lparr>nnext := off\<rparr>)) s) else (Inr False, s))"

definition link_or_destroy :: "('d, 'x) shm \<Rightarrow> 'd shm_chain \<Rightarrow> addr \<Rightarrow> addr \<Rightarrow> ('d, 'x, bool) shm_call" where
  "link_or_destroy e h p q =
     bindS (compare_exchange_next e p (q - p)) (\<lambda>ret. if ret then returnS True else bindS (destroyPtr e h q) (\<lambda>_. returnS False))"

definition appendAfter :: "('d, 'x) shm \<Rightarrow> 'd shm_chain \<Rightarrow> ('k, 'd) BoostSharedMemoryChainItem \<Rightarrow> ('k, 'd) BoostSharedMemoryChainItem
    \<Rightarrow> ('d, 'x, bool) shm_call" where
  "appendAfter e h current toBeWritten =
     (if ptr current = 0 then throwS (LockFreeInBoostSharedMemoryChainException ''AppendAfter on nullptr'')
      else if ptr toBeWritten = 0 then throwS (LockFreeInBoostSharedMemoryChainException ''AppendAfter trying to append nullptr'')
      else bindS (read_object e as_item (ptr toBeWritten)) (\<lambda>nd.
        if nnext nd \<noteq> 0 then throwS (LockFreeInBoostSharedMemoryChainException ''AppendAfter trying to append an item with non-zero next'')
        else link_or_destroy e h (ptr current) (ptr toBeWritten)))"

definition appendAfterAll :: "('d, 'x) shm \<Rightarrow> 'd shm_chain \<Rightarrow> ('k, 'd) BoostSharedMemoryChainItem \<Rightarrow> ('k, 'd) BoostSharedMemoryChainItem list
    \<Rightarrow> ('d, 'x, bool) shm_call" where
  "appendAfterAll e h current toBeWritten =
     (if toBeWritten = [] then returnS True
      else if length toBeWritten = 1 then appendAfter e h current (toBeWritten ! 0)
      else if ptr current = 0 then throwS (LockFreeInBoostSharedMemoryChainException ''AppendAfter on nullptr'')
      else if ptr (toBeWritten ! 0) = 0 then throwS (LockFreeInBoostSharedMemoryChainException ''AppendAfter trying to append nullptr'')
      else bindS (read_object e as_item (ptr (last toBeWritten))) (\<lambda>nd.
        if nnext nd \<noteq> 0 then throwS (LockFreeInBoostSharedMemoryChainException ''AppendAfter trying to append a last item with non-zero next'')
        else link_or_destroy e h (ptr current) (ptr (toBeWritten ! 0))))"

text \<open>\<open>formChainItem\<close>: \<open>nm\<close> is the name of the new object, \<open>mk\<close> makes the identifier of the item from its address.\<close>

definition form_item :: "('d, 'x) shm \<Rightarrow> 'd shm_chain \<Rightarrow> string option \<Rightarrow> (addr \<Rightarrow> 'k) \<Rightarrow> 'd \<Rightarrow> ('d, 'x, ('k, 'd) BoostSharedMemoryChainItem) shm_call" where
  "form_item e h nm mk d =
     (if inline_data h then
        bindS (construct e nm (StorageItem \<lparr>ndata = Inline d, nnext = 0\<rparr>)) (\<lambda>p. item_from e h (mk p) p)
      else
        (let enc = shm_encode h d in
         bindS (construct e nm (StorageItem \<lparr>ndata = Separate 0, nnext = 0\<rparr>)) (\<lambda>p.
         bindS (construct e None (CharArray (replicate (length enc + 8) (CHR 0x00)))) (\<lambda>q.
         bindS (write_object e (\<lambda>ob. map_option (\<lambda>_. CharArray (sized enc)) (as_chars ob)) q) (\<lambda>_.
         bindS (write_object e (\<lambda>ob. map_option (\<lambda>nd. StorageItem (nd\<lparr>ndata := Separate (q - p)\<rparr>)) (as_item ob)) p) (\<lambda>_.
           returnS \<lparr>ptr = p, item_id = mk p, parsed = Some d\<rparr>))))))"

fun form_items :: "('d, 'x) shm \<Rightarrow> ('a \<Rightarrow> ('d, 'x, ('k, 'd) BoostSharedMemoryChainItem) shm_call) \<Rightarrow> ('k, 'd) BoostSharedMemoryChainItem list
    \<Rightarrow> 'a list \<Rightarrow> ('d, 'x, ('k, 'd) BoostSharedMemoryChainItem list) shm_call" where
  "form_items e form ret [] = returnS ret"
| "form_items e form ret (x # xs) =
     bindS (form x) (\<lambda>new.
     bindS (if ret = [] then returnS ()
            else write_object e (\<lambda>ob. map_option (\<lambda>nd. StorageItem (nd\<lparr>nnext := ptr new - ptr (last ret)\<rparr>)) (as_item ob)) (ptr (last ret))) (\<lambda>_.
       form_items e form (ret @ [new]) xs))"

section \<open>Items by name\<close>

type_synonym 'd named_item = "(string, 'd) BoostSharedMemoryChainItem"

definition fromIDAndPtr :: "('d, 'x) shm \<Rightarrow> 'd shm_chain \<Rightarrow> string \<Rightarrow> addr \<Rightarrow> ('d, 'x, 'd named_item) shm_call" where
  "fromIDAndPtr e h i p = item_from e h i p"

definition name_head :: "('d, 'x) shm \<Rightarrow> 'd shm_chain \<Rightarrow> ('d, 'x, 'd named_item) shm_call" where
  "name_head e h = fromIDAndPtr e h '''' (headPtr h)"

definition name_loadUntil :: "('d, 'x) shm \<Rightarrow> 'd shm_chain \<Rightarrow> string \<Rightarrow> ('d, 'x, 'd named_item) shm_call" where
  "name_loadUntil e h i =
     (if i = '''' \<or> i = ''head'' then name_head e h else bindS (find_name e (c_str i)) (\<lambda>p. fromIDAndPtr e h i p))"

definition name_fetchNext :: "('d, 'x) shm \<Rightarrow> 'd shm_chain \<Rightarrow> 'd named_item \<Rightarrow> ('d, 'x, 'd named_item option) shm_call" where
  "name_fetchNext e h = fetchNext_with e h (get_instance_name e)"

definition name_formChainItem :: "('d, 'x) shm \<Rightarrow> 'd shm_chain \<Rightarrow> string \<times> 'd \<Rightarrow> ('d, 'x, 'd named_item) shm_call" where
  "name_formChainItem e h = (\<lambda>(i, d). form_item e h (Some (c_str i)) (\<lambda>_. i) d)"

definition name_formChainItems :: "('d, 'x) shm \<Rightarrow> 'd shm_chain \<Rightarrow> (string \<times> 'd) list \<Rightarrow> ('d, 'x, 'd named_item list) shm_call" where
  "name_formChainItems e h ds = form_items e (name_formChainItem e h) [] ds"

section \<open>Items by offset\<close>

type_synonym 'd offset_item = "(64 word, 'd) BoostSharedMemoryChainItem"

definition fromPtr :: "('d, 'x) shm \<Rightarrow> 'd shm_chain \<Rightarrow> addr \<Rightarrow> ('d, 'x, 'd offset_item) shm_call" where
  "fromPtr e h p = item_from e h (p - headPtr h) p"

definition offset_head :: "('d, 'x) shm \<Rightarrow> 'd shm_chain \<Rightarrow> ('d, 'x, 'd offset_item) shm_call" where
  "offset_head e h = fromPtr e h (headPtr h)"

definition offset_loadUntil :: "('d, 'x) shm \<Rightarrow> 'd shm_chain \<Rightarrow> 64 word \<Rightarrow> ('d, 'x, 'd offset_item) shm_call" where
  "offset_loadUntil e h i = fromPtr e h (headPtr h + i)"

definition offset_loadUntil_string :: "('d, 'x) shm \<Rightarrow> 'd shm_chain \<Rightarrow> string \<Rightarrow> ('d, 'x, 'd offset_item) shm_call" where
  "offset_loadUntil_string e h i =
     (if i = '''' then offset_head e h
      else if length i < 8 then throwS ShortId
      else offset_loadUntil e h (of_nat (nat_of_bytes (take 8 i))))"

definition extractStorageIDStringView :: "'d offset_item \<Rightarrow> string" where
  "extractStorageIDStringView i = bytes_of_nat 8 (unat (item_id i))"

definition offset_fetchNext :: "('d, 'x) shm \<Rightarrow> 'd shm_chain \<Rightarrow> 'd offset_item \<Rightarrow> ('d, 'x, 'd offset_item option) shm_call" where
  "offset_fetchNext e h = fetchNext_with e h (\<lambda>p. returnS (p - headPtr h))"

definition offset_formChainItem :: "('d, 'x) shm \<Rightarrow> 'd shm_chain \<Rightarrow> 'd \<Rightarrow> ('d, 'x, 'd offset_item) shm_call" where
  "offset_formChainItem e h d = form_item e h None (\<lambda>p. p - headPtr h) d"

definition offset_formChainItems :: "('d, 'x) shm \<Rightarrow> 'd shm_chain \<Rightarrow> 'd list \<Rightarrow> ('d, 'x, 'd offset_item list) shm_call" where
  "offset_formChainItems e h ds = form_items e (offset_formChainItem e h) [] ds"

section \<open>The chain in the segment\<close>

type_synonym 'd shm_entry = "addr \<times> string option \<times> 'd"

text \<open>The nodes at the addresses are linked in this order, the last one to none.\<close>

fun links :: "('d, 'x) segment \<Rightarrow> addr list \<Rightarrow> bool" where
  "links s [] \<longleftrightarrow> True"
| "links s (a # as) \<longleftrightarrow> a \<noteq> 0 \<and> (\<exists>nm nd. objects s a = Some (nm, StorageItem nd) \<and> nnext nd = (case as of [] \<Rightarrow> 0 | b # bs \<Rightarrow> b - a)) \<and> links s as"

definition value_at :: "'d shm_chain \<Rightarrow> ('d, 'x) segment \<Rightarrow> 'd BoostSharedMemoryStorageItem \<Rightarrow> addr \<Rightarrow> 'd option" where
  "value_at h s nd a =
     (case ndata nd of
        Inline d \<Rightarrow> if inline_data h then Some d else None
      | Separate off \<Rightarrow>
          if inline_data h \<or> off = 0 then None
          else Option.bind (Option.bind (object_at s (a + off)) as_chars) (\<lambda>c. shm_decode h (unsized c)))"

definition item_ok :: "'d shm_chain \<Rightarrow> ('d, 'x) segment \<Rightarrow> 'd shm_entry \<Rightarrow> bool" where
  "item_ok h s = (\<lambda>(a, nm, d). \<exists>nd. objects s a = Some (nm, StorageItem nd) \<and> value_at h s nd a = Some d
     \<and> (\<forall>n. nm = Some n \<longrightarrow> names s n = Some a))"

definition seg_chain :: "bool \<Rightarrow> 'd shm_chain \<Rightarrow> ('d, 'x) segment \<Rightarrow> 'd shm_entry list \<Rightarrow> bool" where
  "seg_chain named h s xs \<longleftrightarrow>
     links s (headPtr h # map fst xs) \<and> distinct (headPtr h # map fst xs) \<and> (\<forall>x \<in> set xs. item_ok h s x)
     \<and> (\<forall>x \<in> set xs. (fst (snd x) \<noteq> None) = named)
     \<and> (\<forall>nm nd. objects s (headPtr h) = Some (nm, StorageItem nd) \<longrightarrow> (if inline_data h then \<exists>d. ndata nd = Inline d else ndata nd = Separate 0))"

text \<open>The objects a node consists of, and those of the chain.\<close>

definition cells :: "('d, 'x) segment \<Rightarrow> addr \<Rightarrow> addr set" where
  "cells s a = insert a
     (case objects s a of
        Some (nm, StorageItem nd) \<Rightarrow> (case ndata nd of Separate off \<Rightarrow> if off = 0 then {} else {a + off} | Inline _ \<Rightarrow> {})
      | _ \<Rightarrow> {})"

definition region :: "('d, 'x) segment \<Rightarrow> addr list \<Rightarrow> addr set" where
  "region s as = (\<Union>a \<in> set as. cells s a)"

abbreviation footprint :: "'d shm_chain \<Rightarrow> ('d, 'x) segment \<Rightarrow> 'd shm_entry list \<Rightarrow> addr set" where
  "footprint h s xs \<equiv> region s (headPtr h # map fst xs)"

definition same_on :: "addr set \<Rightarrow> ('d, 'x) segment \<Rightarrow> ('d, 'x) segment \<Rightarrow> bool" where
  "same_on A s s' \<longleftrightarrow> (\<forall>a \<in> A. objects s' a = objects s a \<and> (\<forall>n. names s n = Some a \<longrightarrow> names s' n = Some a))"

lemma same_onD: "same_on A s s' \<Longrightarrow> a \<in> A \<Longrightarrow> objects s' a = objects s a"
  "same_on A s s' \<Longrightarrow> a \<in> A \<Longrightarrow> names s n = Some a \<Longrightarrow> names s' n = Some a"
  by (auto simp: same_on_def)

lemma same_on_trans: "same_on A s s' \<Longrightarrow> same_on A s' s'' \<Longrightarrow> same_on A s s''"
  by (simp add: same_on_def)

lemma same_on_mono: "same_on A s s' \<Longrightarrow> B \<subseteq> A \<Longrightarrow> same_on B s s'"
  by (auto simp: same_on_def)

lemma same_on_refl [simp]: "same_on A s s"
  by (simp add: same_on_def)

lemma region_simps [simp]: "region s [] = {}" "region s (a # as) = cells s a \<union> region s as" "region s (as @ bs) = region s as \<union> region s bs"
  by (auto simp: region_def)

lemma in_cells [simp]: "a \<in> cells s a"
  by (simp add: cells_def)

lemma in_region: "a \<in> set as \<Longrightarrow> a \<in> region s as" "a \<in> set as \<Longrightarrow> cells s a \<subseteq> region s as"
  using in_cells [of a s] by (auto simp: region_def simp del: in_cells)

lemma cells_same: "same_on A s s' \<Longrightarrow> a \<in> A \<Longrightarrow> cells s' a = cells s a"
  by (simp add: cells_def same_onD)

lemma region_same: "same_on A s s' \<Longrightarrow> set as \<subseteq> A \<Longrightarrow> region s' as = region s as"
  unfolding region_def using cells_same [of A s s'] by (intro SUP_cong refl) auto

lemma links_same: "same_on A s s' \<Longrightarrow> set as \<subseteq> A \<Longrightarrow> links s' as = links s as"
  by (induction as) (simp_all add: same_onD)

lemma item_ok_same:
  assumes "same_on A s s'" and "cells s (fst x) \<subseteq> A" and "item_ok h s x"
  shows "item_ok h s' x"
proof -
  obtain a nm d where x: "x = (a, nm, d)"
    by (cases x)
  obtain nd where nd: "objects s a = Some (nm, StorageItem nd)" "value_at h s nd a = Some d" "\<forall>n. nm = Some n \<longrightarrow> names s n = Some a"
    using assms(3) by (auto simp: item_ok_def x)
  have a: "a \<in> A"
    using assms(2) in_cells [of a s] by (auto simp: x)
  have "value_at h s' nd a = value_at h s nd a"
  proof (cases "ndata nd")
    case (Separate off)
    have "a + off \<in> A" if "off \<noteq> 0"
      using assms(2) nd(1) Separate that by (simp add: x cells_def)
    then show ?thesis
      using Separate assms(1) by (auto simp: value_at_def object_at_def same_onD)
  qed (simp add: value_at_def)
  then show ?thesis
    using nd a assms(1) by (auto simp: x item_ok_def same_onD)
qed

lemma seg_chain_same:
  assumes "same_on A s s'" and "footprint h s xs \<subseteq> A" and "seg_chain nmd h s xs"
  shows "seg_chain nmd h s' xs \<and> footprint h s' xs = footprint h s xs"
proof -
  have as: "set (headPtr h # map fst xs) \<subseteq> A"
    using assms(2) in_region(1) by blast
  have "cells s (fst x) \<subseteq> A" if "x \<in> set xs" for x
    using in_region(2) [of "fst x" "headPtr h # map fst xs" s] that assms(2) by auto
  then have "\<forall>x \<in> set xs. item_ok h s' x"
    using item_ok_same [OF assms(1)] assms(3) by (auto simp: seg_chain_def)
  moreover have "objects s' (headPtr h) = objects s (headPtr h)"
    using as same_onD [OF assms(1)] by simp
  ultimately show ?thesis
    using assms(3) links_same [OF assms(1) as] region_same [OF assms(1) as] by (simp add: seg_chain_def)
qed

text \<open>The chain consists of objects that exist.\<close>

lemma cells_item:
  assumes "item_ok h s x"
  shows "cells s (fst x) \<subseteq> dom (objects s)"
proof -
  obtain a nm d where x: "x = (a, nm, d)"
    by (cases x)
  obtain nd where nd: "objects s a = Some (nm, StorageItem nd)" "value_at h s nd a = Some d"
    using assms by (auto simp: item_ok_def x)
  show ?thesis
  proof (cases "ndata nd")
    case (Separate off)
    then have "objects s (a + off) \<noteq> None"
      using nd(2) by (cases "objects s (a + off)") (auto simp: value_at_def object_at_def split: if_splits)
    then show ?thesis
      using nd(1) Separate by (auto simp: x cells_def)
  qed (use nd(1) in \<open>auto simp: x cells_def\<close>)
qed

lemma footprint_dom:
  assumes "seg_chain nmd h s xs"
  shows "footprint h s xs \<subseteq> dom (objects s)"
proof -
  have "cells s (headPtr h) \<subseteq> dom (objects s)"
    using assms by (cases "inline_data h") (auto simp: seg_chain_def cells_def split: node_data.splits)
  moreover have "cells s (fst x) \<subseteq> dom (objects s)" if "x \<in> set xs" for x
    using assms that cells_item [of h s x] by (simp add: seg_chain_def)
  then have "region s (map fst xs) \<subseteq> dom (objects s)"
    unfolding region_def set_map UN_subset_iff by blast
  ultimately show ?thesis
    by simp
qed

text \<open>The two halves of a list of linked nodes, and how the last node of one is linked to the first of the other.\<close>

lemma links_append: "links s (as @ b # bs) \<Longrightarrow> links s (b # bs)"
  by (induction as) auto

lemma links_nth:
  assumes "links s as" and "n < length as"
  obtains nm nd where "objects s (as ! n) = Some (nm, StorageItem nd)" "as ! n \<noteq> 0"
    "nnext nd = (if Suc n < length as then as ! Suc n - as ! n else 0)"
proof -
  have as: "as = take n as @ as ! n # drop (Suc n) as"
    using assms(2) by (simp add: id_take_nth_drop)
  have "links s (as ! n # drop (Suc n) as)"
    using assms(1) as links_append by metis
  moreover have "drop (Suc n) as = (if Suc n < length as then as ! Suc n # drop (Suc (Suc n)) as else [])"
    by (simp add: Cons_nth_drop_Suc)
  ultimately show thesis
    using that by (auto split: if_splits)
qed

lemma links_join:
  assumes "links s (as @ [l])" and "links s (b # bs)" and "distinct (as @ l # b # bs)"
    and "objects s l = Some (nm, StorageItem nd)"
  shows "links (put_object l (StorageItem (nd\<lparr>nnext := b - l\<rparr>)) s) (as @ l # b # bs)"
proof -
  let ?s' = "put_object l (StorageItem (nd\<lparr>nnext := b - l\<rparr>)) s"
  have same: "same_on (- {l}) s ?s'"
    by (simp add: same_on_def put_object_def)
  have "links ?s' (b # bs)"
    using links_same [OF same, of "b # bs"] assms(2,3) by auto
  then have "links ?s' (l # b # bs)"
    using assms(1,4) links_append [of s as l "[]"] by (simp add: put_object_def)
  then show ?thesis
    using assms(1,3)
  proof (induction as)
    case (Cons a as)
    have "objects ?s' a = objects s a"
      using Cons.prems(3) by (simp add: put_object_def)
    moreover have "(case as @ [l] of [] \<Rightarrow> 0 | c # _ \<Rightarrow> c - a) = (case as @ l # b # bs of [] \<Rightarrow> 0 | c # _ \<Rightarrow> c - a)"
      by (cases as) auto
    ultimately show ?case
      using Cons by auto
  qed simp
qed

section \<open>Objects that are not on the chain yet\<close>

text \<open>
  What the others may do: extend the chain with objects of theirs, of which only links change once they are there, and what they like with
  their own objects; the objects this thread constructed and has not linked stay as they are, and keep their names.
\<close>

definition fixed_part :: "(string option \<times> ('d, 'x) object) option \<Rightarrow> (string option \<times> ('d, 'x) object) option" where
  "fixed_part x = (case x of Some (nm, StorageItem nd) \<Rightarrow> Some (nm, StorageItem (nd\<lparr>nnext := 0\<rparr>)) | _ \<Rightarrow> x)"

definition others_allowed :: "bool \<Rightarrow> 'd shm_chain \<Rightarrow> ('d, 'x) segment \<Rightarrow> ('d, 'x) segment \<Rightarrow> bool" where
  "others_allowed nmd h s s' \<longleftrightarrow> built s' = built s \<and> (\<forall>xs. seg_chain nmd h s xs \<longrightarrow>
     (\<exists>ys. seg_chain nmd h s' (xs @ ys) \<and> same_on (built s - footprint h s xs) s s'
        \<and> footprint h s' (xs @ ys) \<inter> (built s - footprint h s xs) = {}
        \<and> (\<forall>a \<in> footprint h s xs. fixed_part (objects s' a) = fixed_part (objects s a))))"

definition owns :: "bool \<Rightarrow> 'd shm_chain \<Rightarrow> ('d, 'x) segment \<Rightarrow> 'd shm_entry list \<Rightarrow> addr set \<Rightarrow> bool" where
  "owns nmd h s xs Q \<longleftrightarrow> seg_chain nmd h s xs \<and> Q \<subseteq> built s \<inter> dom (objects s) \<and> Q \<inter> footprint h s xs = {}
     \<and> (\<forall>a \<in> Q. \<forall>n ob. objects s a = Some (Some n, ob) \<longrightarrow> names s n = Some a)"

lemma owns_chain: "owns nmd h s xs Q \<Longrightarrow> seg_chain nmd h s xs"
  by (simp add: owns_def)

lemma owns_mono: "owns nmd h s xs Q \<Longrightarrow> R \<subseteq> Q \<Longrightarrow> owns nmd h s xs R"
  unfolding owns_def by blast

lemma owns_none: "owns nmd h s xs {} \<longleftrightarrow> seg_chain nmd h s xs"
  by (simp add: owns_def)

text \<open>Items that are linked with each other and share no objects.\<close>

fun apart_nodes :: "('d, 'x) segment \<Rightarrow> addr list \<Rightarrow> bool" where
  "apart_nodes s [] \<longleftrightarrow> True"
| "apart_nodes s (a # as) \<longleftrightarrow> cells s a \<inter> region s as = {} \<and> apart_nodes s as"

definition private_items :: "bool \<Rightarrow> 'd shm_chain \<Rightarrow> ('d, 'x) segment \<Rightarrow> 'd shm_entry list \<Rightarrow> bool" where
  "private_items nmd h s ps \<longleftrightarrow> links s (map fst ps) \<and> apart_nodes s (map fst ps)
     \<and> (\<forall>x \<in> set ps. item_ok h s x \<and> (fst (snd x) \<noteq> None) = nmd)"

lemma apart_nodes_same: "same_on A s s' \<Longrightarrow> set as \<subseteq> A \<Longrightarrow> apart_nodes s' as = apart_nodes s as"
  by (induction as) (simp_all add: cells_same region_same [of A])

lemma apart_nodes_append:
  "apart_nodes s (as @ bs) \<longleftrightarrow> apart_nodes s as \<and> apart_nodes s bs \<and> region s as \<inter> region s bs = {}"
  by (induction as) auto

lemma apart_nodes_distinct: "apart_nodes s as \<Longrightarrow> distinct as"
proof (induction as)
  case (Cons a as)
  then have "a \<notin> set as"
    using in_region(1) [of a as s] in_cells [of a s] by (metis apart_nodes.simps(2) disjoint_iff)
  then show ?case
    using Cons by simp
qed simp

lemma private_same:
  assumes "same_on A s s'" and "region s (map fst ps) \<subseteq> A" and "private_items nmd h s ps"
  shows "private_items nmd h s' ps \<and> region s' (map fst ps) = region s (map fst ps)"
proof -
  have as: "set (map fst ps) \<subseteq> A"
    using assms(2) in_region(1) by blast
  have "cells s (fst x) \<subseteq> A" if "x \<in> set ps" for x
    using in_region(2) [of "fst x" "map fst ps" s] that assms(2) by auto
  then show ?thesis
    using assms(3) links_same [OF assms(1) as] region_same [OF assms(1) as] apart_nodes_same [OF assms(1) as] item_ok_same [OF assms(1)]
    by (simp add: private_items_def)
qed

text \<open>Setting the link of a node changes nothing else.\<close>

lemma put_next:
  assumes "objects s l = Some (nm, StorageItem nd)"
  shows "cells (put_object l (StorageItem (nd\<lparr>nnext := v\<rparr>)) s) a = cells s a"
    and "region (put_object l (StorageItem (nd\<lparr>nnext := v\<rparr>)) s) as = region s as"
    and "apart_nodes (put_object l (StorageItem (nd\<lparr>nnext := v\<rparr>)) s) as = apart_nodes s as"
    and "item_ok h s x \<Longrightarrow> item_ok h (put_object l (StorageItem (nd\<lparr>nnext := v\<rparr>)) s) x"
proof -
  let ?s = "put_object l (StorageItem (nd\<lparr>nnext := v\<rparr>)) s"
  show c: "cells ?s a = cells s a" for a
    using assms by (simp add: cells_def put_object_def)
  then show r: "region ?s as = region s as" for as
    by (simp add: region_def)
  show "apart_nodes ?s as = apart_nodes s as"
    by (induction as) (simp_all add: c r)
  show "item_ok h ?s x" if "item_ok h s x"
  proof -
    obtain a n d where x: "x = (a, n, d)"
      by (cases x)
    have "Option.bind (object_at ?s p) as_chars = Option.bind (object_at s p) as_chars" for p
      using assms by (simp add: object_at_def put_object_def)
    then have "value_at h ?s y a = value_at h s y a" for y
      by (simp add: value_at_def split: node_data.split)
    moreover have "value_at h s (y\<lparr>nnext := v\<rparr>) a = value_at h s y a" for y
      by (simp add: value_at_def)
    ultimately show ?thesis
      using that assms by (cases "a = l") (auto simp: item_ok_def x put_object_def)
  qed
qed

lemma unsized_sized: "length enc < 2 ^ 64 \<Longrightarrow> unsized (sized enc) = enc"
  using nat_bytes_roundtrip [of "length enc" 8] by (simp add: unsized_def sized_def)

text \<open>A change outside the chain keeps it.\<close>

lemma owns_change:
  assumes "owns nmd h s xs Q" and "same_on (footprint h s xs) s s'"
    and "R \<subseteq> built s' \<inter> dom (objects s')" and "R \<inter> footprint h s xs = {}"
    and "\<And>a n ob. a \<in> R \<Longrightarrow> objects s' a = Some (Some n, ob) \<Longrightarrow> names s' n = Some a"
  shows "owns nmd h s' xs R"
  using assms seg_chain_same [OF assms(2) order_refl owns_chain [OF assms(1)]] by (simp add: owns_def)

text \<open>Construction throws only when the segment is full or the name is in use.\<close>

definition shm_failure :: "bool \<Rightarrow> shm_error \<Rightarrow> bool" where
  "shm_failure nmd x \<longleftrightarrow> x = BadAlloc \<or> x = AlreadyExists \<and> nmd"

locale shared_memory =
  fixes e :: "('d, 'x) shm" and h :: "'d shm_chain" and nmd :: bool
  assumes others_rely: "others_allowed nmd h s (others e s)"
    and allocate_fresh: "allocate e s = Some p \<Longrightarrow> p \<noteq> 0 \<and> objects s p = None"
    and codec_law: "shm_decode h (shm_encode h d) = Some d"
begin

lemma others_owns:
  assumes "owns nmd h s xs Q"
  obtains ys where "owns nmd h (others e s) (xs @ ys) Q" "same_on Q s (others e s)"
proof -
  have q: "seg_chain nmd h s xs" "Q \<subseteq> built s - footprint h s xs" "Q \<subseteq> dom (objects s)" "built (others e s) = built s"
    using assms others_rely [of s] by (auto simp: owns_def others_allowed_def)
  obtain ys where ys: "seg_chain nmd h (others e s) (xs @ ys)" "same_on (built s - footprint h s xs) s (others e s)"
      "footprint h (others e s) (xs @ ys) \<inter> (built s - footprint h s xs) = {}"
    using others_rely [of s] q(1) unfolding others_allowed_def by blast
  have same: "same_on Q s (others e s)"
    by (rule same_on_mono [OF ys(2) q(2)])
  have "objects (others e s) a = objects s a" if "a \<in> Q" for a
    using same_onD(1) [OF same that] .
  then have "Q \<subseteq> dom (objects (others e s))"
    using q(3) by auto
  moreover have "Q \<inter> footprint h (others e s) (xs @ ys) = {}"
    using ys(3) q(2) by blast
  moreover have "names (others e s) n = Some a" if "a \<in> Q" "objects (others e s) a = Some (Some n, ob)" for a n ob
    using that assms same_onD [OF same that(1)] by (auto simp: owns_def)
  ultimately have "owns nmd h (others e s) (xs @ ys) Q"
    using ys(1) q by (auto simp: owns_def)
  then show thesis
    using that same by blast
qed

lemma others_built [simp]: "built (others e s) = built s"
  using others_rely [of s] by (simp add: others_allowed_def)

lemma read_built: "read_object e f p s = (r, s') \<Longrightarrow> built s' = built s"
  by (auto simp: read_object_def Let_def split: option.splits)

lemma write_built: "write_object e f p s = (r, s') \<Longrightarrow> built s' = built s"
  by (auto simp: write_object_def put_object_def Let_def split: option.splits)

lemma construct_built: "construct e nm ob s = (r, s') \<Longrightarrow> built s' = (case r of Inl _ \<Rightarrow> built s | Inr p \<Rightarrow> insert p (built s))"
  by (auto simp: construct_def place_object_def Let_def split: option.splits if_splits)

lemma compare_exchange_built: "compare_exchange_next e p off s = (r, s') \<Longrightarrow> built s' = built s"
  by (auto simp: compare_exchange_next_def put_object_def Let_def split: option.splits if_splits)

lemma read_owned:
  assumes "owns nmd h s xs Q" and "p \<in> Q" "p \<noteq> 0" and "objects s p = Some (nm, ob)" and "f ob = Some a"
  obtains ys s' where "read_object e f p s = (Inr a, s')" "owns nmd h s' (xs @ ys) Q" "same_on Q s s'"
proof -
  obtain ys where ys: "owns nmd h (others e s) (xs @ ys) Q" "same_on Q s (others e s)"
    by (rule others_owns [OF assms(1)])
  have "read_object e f p s = (Inr a, others e s)"
    using same_onD(1) [OF ys(2) assms(2)] assms(3-5) by (simp add: read_object_def object_at_def)
  then show thesis
    using that ys by blast
qed

lemma write_owned:
  assumes "owns nmd h s xs Q" and "p \<in> Q" "p \<noteq> 0" and "objects s p = Some (nm, ob)" and "f ob = Some ob'"
  obtains ys s' where "write_object e f p s = (Inr (), s')" "owns nmd h s' (xs @ ys) Q" "same_on (Q - {p}) s s'"
    "objects s' p = Some (nm, ob')" "\<And>n. names s n = Some p \<Longrightarrow> names s' n = Some p"
proof -
  obtain ys where ys: "owns nmd h (others e s) (xs @ ys) Q" "same_on Q s (others e s)"
    by (rule others_owns [OF assms(1)])
  let ?t = "others e s" and ?s' = "put_object p ob' (others e s)"
  have p: "objects ?t p = Some (nm, ob)"
    using same_onD(1) [OF ys(2) assms(2)] assms(4) by simp
  have w: "write_object e f p s = (Inr (), ?s')"
    using p assms(3,5) by (simp add: write_object_def object_at_def)
  have q: "Q \<subseteq> built ?t \<inter> dom (objects ?t)" "Q \<inter> footprint h ?t (xs @ ys) = {}"
    "\<And>a n ob. a \<in> Q \<Longrightarrow> objects ?t a = Some (Some n, ob) \<Longrightarrow> names ?t n = Some a"
    using ys(1) unfolding owns_def by blast+
  have o: "owns nmd h ?s' (xs @ ys) Q"
  proof (rule owns_change [OF ys(1)])
    have "p \<notin> footprint h ?t (xs @ ys)"
      using assms(2) q(2) by blast
    then show "same_on (footprint h ?t (xs @ ys)) ?t ?s'"
      by (auto simp: same_on_def put_object_def)
    show "Q \<subseteq> built ?s' \<inter> dom (objects ?s')"
      using q(1) p by (auto simp: put_object_def)
    show "names ?s' n = Some a" if "a \<in> Q" "objects ?s' a = Some (Some n, x)" for a n x
      using q(3) [of a n] q(3) [of p n ob] that p assms(2) by (cases "a = p") (auto simp: put_object_def)
  qed (rule q(2))
  have s: "same_on (Q - {p}) s ?s'"
    using ys(2) by (auto simp: same_on_def put_object_def)
  have "objects ?s' p = Some (nm, ob')" "\<And>n. names s n = Some p \<Longrightarrow> names ?s' n = Some p"
    using p same_onD(2) [OF ys(2) assms(2)] by (simp_all add: put_object_def)
  with w o s show thesis
    using that by blast
qed


lemma construct_owned:
  assumes "owns nmd h s xs Q" and "construct e nm ob s = (r, s')" and "nm \<noteq> None \<longrightarrow> nmd"
  obtains (failed) x ys where "r = Inl x" "shm_failure nmd x" "owns nmd h s' (xs @ ys) Q" "same_on Q s s'"
    | (built) p ys where "r = Inr p" "p \<noteq> 0" "p \<notin> Q" "owns nmd h s' (xs @ ys) (insert p Q)" "same_on Q s s'"
      "objects s' p = Some (nm, ob)" "\<And>n. nm = Some n \<Longrightarrow> names s' n = Some p"
proof -
  obtain ys where ys: "owns nmd h (others e s) (xs @ ys) Q" "same_on Q s (others e s)"
    by (rule others_owns [OF assms(1)])
  let ?t = "others e s"
  have q: "Q \<subseteq> built ?t \<inter> dom (objects ?t)" "Q \<inter> footprint h ?t (xs @ ys) = {}"
    "\<And>a n ob. a \<in> Q \<Longrightarrow> objects ?t a = Some (Some n, ob) \<Longrightarrow> names ?t n = Some a"
    using ys(1) unfolding owns_def by blast+
  consider (no) x where "r = Inl x" "shm_failure nmd x" "s' = ?t"
    | (yes) p where "Option.bind nm (names ?t) = None" "allocate e ?t = Some p" "r = Inr p" "place_object e nm ob ?t = (Inr p, s')"
    using assms(2,3) by (cases nm) (auto simp: construct_def Let_def place_object_def shm_failure_def split: if_splits option.splits)
  then show thesis
  proof cases
    case no
    then show thesis
      using failed ys by blast
  next
    case yes
    have p: "p \<noteq> 0" "objects ?t p = None"
      using allocate_fresh [OF yes(2)] by blast+
    have s': "s' = ?t\<lparr>objects := (objects ?t)(p \<mapsto> (nm, ob)), names := (case nm of Some n \<Rightarrow> (names ?t)(n \<mapsto> p) | None \<Rightarrow> names ?t),
        built := insert p (built ?t)\<rparr>"
      using yes(2,4) by (simp add: place_object_def)
    have pQ: "p \<notin> Q" "p \<notin> footprint h ?t (xs @ ys)"
      using q(1) p(2) footprint_dom [OF owns_chain [OF ys(1)]] by blast+
    have unused: "names ?t n = None" if "nm = Some n" for n
      using yes(1) that by simp
    have keep: "names s' n = Some a" if "names ?t n = Some a" for n a
      using that unused by (auto simp: s' split: option.splits)
    have same: "same_on (- {p}) ?t s'"
      unfolding same_on_def using keep by (simp add: s')
    have "owns nmd h s' (xs @ ys) (insert p Q)"
    proof (rule owns_change [OF ys(1)])
      show "same_on (footprint h ?t (xs @ ys)) ?t s'"
        by (rule same_on_mono [OF same]) (use pQ in blast)
      show "insert p Q \<subseteq> built s' \<inter> dom (objects s')"
        using q(1) by (auto simp: s')
      show "insert p Q \<inter> footprint h ?t (xs @ ys) = {}"
        using q(2) pQ by blast
      show "names s' n = Some a" if "a \<in> insert p Q" "objects s' a = Some (Some n, x)" for a n x
        using that q(3) [of a n x] keep pQ(1) by (cases "a = p") (auto simp: s')
    qed
    moreover have "same_on Q s s'"
      by (rule same_on_trans [OF ys(2)], rule same_on_mono [OF same]) (use pQ in blast)
    ultimately show thesis
      using built yes(3) p(1) pQ(1) by (auto simp: s')
  qed
qed

lemma destroy_owned:
  assumes "owns nmd h s xs Q" and "p \<in> Q"
  obtains ys s' where "destroy_ptr e p s = (Inr (), s')" "owns nmd h s' (xs @ ys) (Q - {p})" "same_on (Q - {p}) s s'" "built s' = built s - {p}"
proof -
  obtain ys where ys: "owns nmd h (others e s) (xs @ ys) Q" "same_on Q s (others e s)"
    by (rule others_owns [OF assms(1)])
  let ?t = "others e s"
  have q: "Q \<subseteq> built ?t \<inter> dom (objects ?t)" "Q \<inter> footprint h ?t (xs @ ys) = {}"
    "\<And>a n ob. a \<in> Q \<Longrightarrow> objects ?t a = Some (Some n, ob) \<Longrightarrow> names ?t n = Some a"
    using ys(1) unfolding owns_def by blast+
  obtain nm ob where p: "objects ?t p = Some (nm, ob)"
    using q(1) assms(2) by auto
  define s' where "s' = ?t\<lparr>objects := (objects ?t)(p := None), names := (case nm of Some n \<Rightarrow> (names ?t)(n := None) | None \<Rightarrow> names ?t),
      built := built ?t - {p}\<rparr>"
  have d: "destroy_ptr e p s = (Inr (), s')"
    by (simp add: destroy_ptr_def s'_def p Let_def)
  have keep: "names s' n = Some a" if "names ?t n = Some a" "a \<noteq> p" for n a
    using that q(3) [OF assms(2)] p by (auto simp: s'_def split: option.splits)
  have same: "same_on (- {p}) ?t s'"
    unfolding same_on_def using keep by (simp add: s'_def)
  have "owns nmd h s' (xs @ ys) (Q - {p})"
  proof (rule owns_change [OF ys(1)])
    show "same_on (footprint h ?t (xs @ ys)) ?t s'"
      by (rule same_on_mono [OF same]) (use q(2) assms(2) in blast)
    show "Q - {p} \<subseteq> built s' \<inter> dom (objects s')"
      using q(1) by (auto simp: s'_def)
    show "(Q - {p}) \<inter> footprint h ?t (xs @ ys) = {}"
      using q(2) by blast
    show "names s' n = Some a" if "a \<in> Q - {p}" "objects s' a = Some (Some n, x)" for a n x
      using that q(3) [of a n x] keep by (auto simp: s'_def)
  qed
  moreover have "same_on (Q - {p}) s s'"
    by (rule same_on_trans [OF same_on_mono [OF ys(2)] same_on_mono [OF same]]) auto
  moreover have "built s' = built s - {p}"
    by (simp add: s'_def)
  ultimately show thesis
    using that d by blast
qed

lemma form_item_owned:
  assumes "owns nmd h s xs Q" and "form_item e h nm mk d s = (r, s')" and "length (shm_encode h d) < 2 ^ 64" and "(nm \<noteq> None) = nmd"
  obtains (failed) x ys where "r = Inl x" "shm_failure nmd x" "seg_chain nmd h s' (xs @ ys)"
    | (formed) i ys where "r = Inr i" "same_on Q s s'" "cells s' (ptr i) \<inter> Q = {}" "owns nmd h s' (xs @ ys) (cells s' (ptr i) \<union> Q)"
      "links s' [ptr i]" "item_ok h s' (ptr i, nm, d)" "item_id i = mk (ptr i)" "\<not> inline_data h \<Longrightarrow> parsed i = Some d"
      "built s' = built s \<union> cells s' (ptr i)"
proof -
  have nm: "nm \<noteq> None \<longrightarrow> nmd"
    using assms(4) by simp
  show thesis
  proof (cases "inline_data h")
  case True
  obtain r1 s1 where c: "construct e nm (StorageItem \<lparr>ndata = Inline d, nnext = 0\<rparr>) s = (r1, s1)"
    by fastforce
  from assms(1) c nm show thesis
  proof (cases rule: construct_owned)
    case (failed x ys)
    then show thesis
      using that(1) [of x ys] assms(2) c True owns_chain [OF failed(3)] by (simp add: form_item_def bindS_def)
  next
    case (built p ys)
    have r: "r = Inr \<lparr>ptr = p, item_id = mk p, parsed = None\<rparr>" "s' = s1"
      using assms(2) c True built(1) by (auto simp: form_item_def bindS_def item_from_def returnS_def)
    have "cells s' p = {p}"
      using built(6) r by (simp add: cells_def)
    moreover have "item_ok h s' (p, nm, d)"
      using built(6,7) r(2) True by (auto simp: item_ok_def value_at_def)
    moreover have "built s1 = insert p (built s)"
      using construct_built [OF c] built(1) by simp
    ultimately show thesis
      using that(2) [OF r(1), of ys] built r(2) True by simp
  qed
next
  case False
  obtain r1 s1 where c: "construct e nm (StorageItem \<lparr>ndata = Separate 0, nnext = 0\<rparr>) s = (r1, s1)"
    by fastforce
  from assms(1) c nm show thesis
  proof (cases rule: construct_owned)
    case (failed x ys)
    then show thesis
      using that(1) [of x ys] assms(2) c False owns_chain [OF failed(3)] by (simp add: form_item_def bindS_def Let_def)
  next
    case (built p ys)
    note p = this
    let ?enc = "shm_encode h d"
    obtain r2 s2 where c2: "construct e None (CharArray (replicate (length ?enc + 8) (CHR 0x00))) s1 = (r2, s2)"
      by fastforce
    have "(None :: string option) \<noteq> None \<longrightarrow> nmd"
      by simp
    from p(4) c2 this show thesis
    proof (cases rule: construct_owned)
      case (failed x zs)
      then show thesis
        using that(1) [of x "ys @ zs"] assms(2) c c2 p(1) False owns_chain [OF failed(3)] by (simp add: form_item_def bindS_def Let_def)
    next
      case (built q zs)
      note q = this
      have pq: "p \<noteq> q"
        using q(3) by blast
      obtain us s3 where w1: "write_object e (\<lambda>ob. map_option (\<lambda>_. CharArray (sized ?enc)) (as_chars ob)) q s2 = (Inr (), s3)"
          "owns nmd h s3 (((xs @ ys) @ zs) @ us) (insert q (insert p Q))" "same_on (insert q (insert p Q) - {q}) s2 s3"
          "objects s3 q = Some (None, CharArray (sized ?enc))"
        by (rule write_owned [where f = "\<lambda>ob. map_option (\<lambda>_. CharArray (sized ?enc)) (as_chars ob)" and ob' = "CharArray (sized ?enc)",
              OF q(4) _ q(2,6)]) (simp, simp, blast)
      have p3: "objects s3 p = Some (nm, StorageItem \<lparr>ndata = Separate 0, nnext = 0\<rparr>)" "\<And>n. nm = Some n \<Longrightarrow> names s3 n = Some p"
        using same_onD [OF q(5), of p] same_onD [OF w1(3), of p] p(6,7) pq by auto
      obtain vs s4 where w2: "write_object e (\<lambda>ob. map_option (\<lambda>nd. StorageItem (nd\<lparr>ndata := Separate (q - p)\<rparr>)) (as_item ob)) p s3 = (Inr (), s4)"
          "owns nmd h s4 ((((xs @ ys) @ zs) @ us) @ vs) (insert q (insert p Q))" "same_on (insert q (insert p Q) - {p}) s3 s4"
          "objects s4 p = Some (nm, StorageItem \<lparr>ndata = Separate (q - p), nnext = 0\<rparr>)" "\<And>n. names s3 n = Some p \<Longrightarrow> names s4 n = Some p"
        by (rule write_owned [where f = "\<lambda>ob. map_option (\<lambda>nd. StorageItem (nd\<lparr>ndata := Separate (q - p)\<rparr>)) (as_item ob)" and
              ob' = "StorageItem \<lparr>ndata = Separate (q - p), nnext = 0\<rparr>", OF w1(2) _ p(2) p3(1)]) (simp, simp, blast)
      have r: "r = Inr \<lparr>ptr = p, item_id = mk p, parsed = Some d\<rparr>" "s' = s4"
        using assms(2) c c2 p(1) q(1) w1(1) w2(1) False by (auto simp: form_item_def bindS_def returnS_def Let_def)
      have q4: "objects s4 q = Some (None, CharArray (sized ?enc))"
        using same_onD [OF w2(3), of q] w1(4) pq by auto
      have cells: "cells s4 p = {p, q}"
        using w2(4) pq by (auto simp: cells_def)
      have "value_at h s4 \<lparr>ndata = Separate (q - p), nnext = 0\<rparr> p = Some d"
        using q4 q(2) pq False codec_law by (simp add: value_at_def object_at_def unsized_sized [OF assms(3)])
      then have "item_ok h s4 (p, nm, d)"
        using w2(4,5) p3(2) by (auto simp: item_ok_def)
      moreover have "same_on Q s s4"
        using same_on_trans [OF same_on_trans [OF same_on_trans [OF p(5) same_on_mono [OF q(5)]] same_on_mono [OF w1(3)]] same_on_mono [OF w2(3)]]
          p(3) q(3) by blast
      moreover have "owns nmd h s4 (xs @ ys @ zs @ us @ vs) ({p, q} \<union> Q)"
        using w2(2) by (simp add: insert_commute)
      moreover have "built s4 = insert p (insert q (built s))"
        using construct_built [OF c] construct_built [OF c2] write_built [OF w1(1)] write_built [OF w2(1)] p(1) q(1) by (simp add: insert_commute)
      ultimately show thesis
        using that(2) [OF r(1), of "ys @ zs @ us @ vs"] w2(4) p(2,3) q(3) cells r(2) by simp
    qed
  qed
  qed
qed

lemma link_new_item:
  assumes "owns nmd h s xs (cells s b \<union> region s (map fst ps))" and "private_items nmd h s ps" and "ps \<noteq> []" and "l = fst (last ps)"
    and "links s [b]" and "item_ok h s (b, nm, d)" and "(nm \<noteq> None) = nmd" and "cells s b \<inter> region s (map fst ps) = {}"
  obtains ys s' where
    "write_object e (\<lambda>ob. map_option (\<lambda>nd. StorageItem (nd\<lparr>nnext := b - l\<rparr>)) (as_item ob)) l s = (Inr (), s')"
    "owns nmd h s' (xs @ ys) (region s' (map fst (ps @ [(b, nm, d)])))" "private_items nmd h s' (ps @ [(b, nm, d)])"
    "region s' (map fst (ps @ [(b, nm, d)])) = cells s b \<union> region s (map fst ps)"
proof -
  let ?qs = "ps @ [(b, nm, d)]" and ?Q = "cells s b \<union> region s (map fst ps)"
  have as: "map fst ps = map fst (butlast ps) @ [l]"
    using assms(3,4) by (metis append_butlast_last_id list.simps(8,9) map_append)
  have ln: "links s (map fst (butlast ps) @ [l])"
    using assms(2) as by (simp add: private_items_def)
  obtain nml nd where l: "objects s l = Some (nml, StorageItem nd)" "l \<noteq> 0"
    using links_append [OF ln] by auto
  have lQ: "l \<in> ?Q"
    using in_region(1) [of l "map fst ps" s] as by simp
  obtain ys s' where w: "write_object e (\<lambda>ob. map_option (\<lambda>nd. StorageItem (nd\<lparr>nnext := b - l\<rparr>)) (as_item ob)) l s = (Inr (), s')"
      "owns nmd h s' (xs @ ys) ?Q" "same_on (?Q - {l}) s s'" "objects s' l = Some (nml, StorageItem (nd\<lparr>nnext := b - l\<rparr>))"
      "\<And>n. names s n = Some l \<Longrightarrow> names s' n = Some l"
    by (rule write_owned [where f = "\<lambda>ob. map_option (\<lambda>nd. StorageItem (nd\<lparr>nnext := b - l\<rparr>)) (as_item ob)" and
        ob' = "StorageItem (nd\<lparr>nnext := b - l\<rparr>)", OF assms(1) lQ l(2,1)]) (simp, blast)
  let ?t = "put_object l (StorageItem (nd\<lparr>nnext := b - l\<rparr>)) s"
  note put = put_next [OF l(1), where v = "b - l"]
  have same: "same_on ?Q ?t s'"
    using w(3-5) l(1) by (auto simp: same_on_def put_object_def)
  have apart: "apart_nodes s (map fst ?qs)"
    using assms(2,8) by (auto simp: apart_nodes_append private_items_def)
  have "links ?t (map fst (butlast ps) @ l # b # [])"
    by (rule links_join [OF ln assms(5) _ l(1)]) (use apart_nodes_distinct [OF apart] as in simp)
  then have "private_items nmd h ?t ?qs"
    using assms(2,6,7) apart put as by (simp add: private_items_def)
  moreover have "region ?t (map fst ?qs) = ?Q"
    unfolding put(2) by (simp add: Un_commute)
  ultimately have "private_items nmd h s' ?qs" "region s' (map fst ?qs) = ?Q"
    using private_same [OF same, of ?qs nmd h] by simp_all
  then show thesis
    using that w(1,2) by simp
qed

lemma form_items_owned:
  assumes "\<forall>x \<in> set zs. form x = form_item e h (nm x) (mk x) (dat x) \<and> length (shm_encode h (dat x)) < 2 ^ 64 \<and> (nm x \<noteq> None) = nmd"
    and "owns nmd h s xs (region s (map fst ps))" and "private_items nmd h s ps" and "map ptr ret = map fst ps"
    and "form_items e form ret zs s = (r, s')"
  obtains (failed) x ys where "r = Inl x" "shm_failure nmd x" "seg_chain nmd h s' (xs @ ys)"
    | (formed) its ys qs where "r = Inr its" "owns nmd h s' (xs @ ys) (region s' (map fst (ps @ qs)))" "private_items nmd h s' (ps @ qs)"
      "map ptr its = map fst (ps @ qs)" "map snd qs = map (\<lambda>x. (nm x, dat x)) zs"       "region s (map fst ps) \<subseteq> region s' (map fst (ps @ qs))" "built s' \<subseteq> built s \<union> region s' (map fst (ps @ qs))"
  using assms
proof (induction zs arbitrary: s xs ps ret thesis)
  case Nil
  then show ?case
    using Nil.prems(2) [of ret "[]" "[]"] by (simp add: returnS_def)
next
  case (Cons x zs)
  have x: "form x = form_item e h (nm x) (mk x) (dat x)" "length (shm_encode h (dat x)) < 2 ^ 64" "(nm x \<noteq> None) = nmd"
    using Cons.prems(3) by simp_all
  obtain r1 s1 where f: "form x s = (r1, s1)"
    by fastforce
  from Cons.prems(4) f [unfolded x(1)] x(2,3) show ?case
  proof (cases rule: form_item_owned)
    case (failed y ys)
    have "r = Inl y" "s1 = s'"
      using Cons.prems(7) f failed(1) by (simp_all add: bindS_def)
    then show ?thesis
      using Cons.prems(1) failed(2,3) by blast
  next
    case (formed i ys)
    note i = this
    let ?e = "(ptr i, nm x, dat x)"
    have ps: "private_items nmd h s1 ps" "region s1 (map fst ps) = region s (map fst ps)"
      using private_same [OF i(2) order_refl Cons.prems(5)] by simp_all
    have "\<exists>zs s2. (if ret = [] then returnS ()
          else write_object e (\<lambda>ob. map_option (\<lambda>nd. StorageItem (nd\<lparr>nnext := ptr i - ptr (last ret)\<rparr>)) (as_item ob)) (ptr (last ret))) s1 = (Inr (), s2)
        \<and> owns nmd h s2 (xs @ zs) (region s2 (map fst (ps @ [?e]))) \<and> private_items nmd h s2 (ps @ [?e])
        \<and> region s (map fst ps) \<subseteq> region s2 (map fst (ps @ [?e])) \<and> built s2 \<subseteq> built s \<union> region s2 (map fst (ps @ [?e]))"
    proof (cases "ret = []")
      case True
      then have "ps = []"
        using Cons.prems(6) by simp
      then show ?thesis
        using True i(4-6,9) x(3) by (intro exI [of _ ys] exI [of _ s1]) (simp add: returnS_def private_items_def)
    next
      case False
      then have "ps \<noteq> []" "ptr (last ret) = fst (last ps)"
        using Cons.prems(6) by (metis list.map_disc_iff, metis last_map list.map_disc_iff)
      note ne = this
      have o: "owns nmd h s1 (xs @ ys) (cells s1 (ptr i) \<union> region s1 (map fst ps))" "cells s1 (ptr i) \<inter> region s1 (map fst ps) = {}"
        using i(3,4) ps(2) by simp_all
      obtain vs s2 where
        "write_object e (\<lambda>ob. map_option (\<lambda>nd. StorageItem (nd\<lparr>nnext := ptr i - fst (last ps)\<rparr>)) (as_item ob)) (fst (last ps)) s1 = (Inr (), s2)"
        "owns nmd h s2 ((xs @ ys) @ vs) (region s2 (map fst (ps @ [?e])))" "private_items nmd h s2 (ps @ [?e])"
        "region s2 (map fst (ps @ [?e])) = cells s1 (ptr i) \<union> region s1 (map fst ps)"
        by (rule link_new_item [OF o(1) ps(1) ne(1) refl i(5,6) x(3) o(2)])
      then show ?thesis
        using False ne(2) i(9) ps(2) write_built [of _ _ s1 _ s2] by (intro exI [of _ "ys @ vs"] exI [of _ s2]) auto
    qed
    then obtain us s2 where step: "(if ret = [] then returnS ()
          else write_object e (\<lambda>ob. map_option (\<lambda>nd. StorageItem (nd\<lparr>nnext := ptr i - ptr (last ret)\<rparr>)) (as_item ob)) (ptr (last ret))) s1 = (Inr (), s2)"
        "owns nmd h s2 (xs @ us) (region s2 (map fst (ps @ [?e])))" "private_items nmd h s2 (ps @ [?e])"
        "region s (map fst ps) \<subseteq> region s2 (map fst (ps @ [?e]))" "built s2 \<subseteq> built s \<union> region s2 (map fst (ps @ [?e]))"
      by blast
    have rest: "form_items e form (ret @ [i]) zs s2 = (r, s')"
      using Cons.prems(7) f i(1) step(1) by (auto simp: bindS_def)
    have m: "map ptr (ret @ [i]) = map fst (ps @ [?e])"
      using Cons.prems(6) by simp
    show ?thesis
    proof (rule Cons.IH [OF _ _ _ step(2,3) m rest], goal_cases)
      case (1 y vs)
      then show ?case
        using Cons.prems(1) [of y "us @ vs"] by simp
    next
      case (2 its vs qs)
      then show ?case
        using Cons.prems(2) [of its "us @ vs" "?e # qs"] step(4,5) by (simp only: append.assoc append.simps) (simp, blast)
    next
      case 3
      then show ?case
        using Cons.prems(3) by simp
    qed
  qed
qed

text \<open>Destroying unlinked items gives back all their objects.\<close>

lemma destroy_node:
  assumes "owns nmd h s xs (cells s a \<union> Q)" and "cells s a \<inter> Q = {}" and "item_ok h s (a, nm, d)" and "a \<noteq> 0"
  obtains ys s' where "(if inline_data h then destroy_ptr e a s
        else bindS (read_object e as_item a) (\<lambda>nd3.
          bindS (case ndata nd3 of Separate off \<Rightarrow> if off = 0 then returnS () else destroy_ptr e (a + off)
                   | Inline _ \<Rightarrow> throwS UndefinedBehaviour) (\<lambda>_. destroy_ptr e a)) s) = (Inr (), s')"
    "owns nmd h s' (xs @ ys) Q" "same_on Q s s'" "built s' = built s - cells s a"
proof -
  obtain nd where nd: "objects s a = Some (nm, StorageItem nd)" "value_at h s nd a = Some d"
    using assms(3) by (auto simp: item_ok_def)
  show thesis
  proof (cases "inline_data h")
    case True
    then have c: "cells s a = {a}"
      using nd by (auto simp: cells_def value_at_def split: node_data.splits)
    obtain ys s' where d: "destroy_ptr e a s = (Inr (), s')" "owns nmd h s' (xs @ ys) (cells s a \<union> Q - {a})" "same_on (cells s a \<union> Q - {a}) s s'"
        "built s' = built s - {a}"
      by (rule destroy_owned [OF assms(1), of a]) simp_all
    moreover have "cells s a \<union> Q - {a} = Q"
      using c assms(2) by auto
    ultimately show thesis
      using that True c by simp
  next
    case False
    then obtain off where off: "ndata nd = Separate off" "off \<noteq> 0"
      using nd(2) by (auto simp: value_at_def split: node_data.splits if_splits)
    have c: "cells s a = {a, a + off}"
      using nd(1) off by (auto simp: cells_def)
    obtain ys1 s1 where r: "read_object e as_item a s = (Inr nd, s1)" "owns nmd h s1 (xs @ ys1) (cells s a \<union> Q)" "same_on (cells s a \<union> Q) s s1"
      by (rule read_owned [where f = as_item, OF assms(1) _ assms(4) nd(1)]) simp_all
    obtain ys2 s2 where d1: "destroy_ptr e (a + off) s1 = (Inr (), s2)"
        "owns nmd h s2 ((xs @ ys1) @ ys2) (cells s a \<union> Q - {a + off})" "same_on (cells s a \<union> Q - {a + off}) s1 s2" "built s2 = built s1 - {a + off}"
      by (rule destroy_owned [OF r(2), of "a + off"]) (simp_all add: c)
    have Q1: "cells s a \<union> Q - {a + off} = insert a Q"
      using c assms(2) off(2) by auto
    obtain ys3 s3 where d2: "destroy_ptr e a s2 = (Inr (), s3)"
        "owns nmd h s3 (((xs @ ys1) @ ys2) @ ys3) (insert a Q - {a})" "same_on (insert a Q - {a}) s2 s3" "built s3 = built s2 - {a}"
      by (rule destroy_owned [OF d1(2) [unfolded Q1], of a]) simp_all
    have Q2: "insert a Q - {a} = Q"
      using c assms(2) by auto
    have "same_on Q s s3"
      using same_on_mono [OF r(3), of Q] same_on_mono [OF d1(3) [unfolded Q1], of Q] d2(3) [unfolded Q2] by (blast intro: same_on_trans)
    moreover have "built s3 = built s - cells s a"
      using read_built [OF r(1)] d1(4) d2(4) c by auto
    ultimately show thesis
      using that [of s3 "ys1 @ ys2 @ ys3"] False r(1) d1(1) d2(1,2) off Q2 by (simp add: bindS_def)
  qed
qed

lemma destroy_items:
  assumes "owns nmd h s xs (region s (map fst ps) \<union> Q)" and "private_items nmd h s ps" and "ps \<noteq> []" and "region s (map fst ps) \<inter> Q = {}"
  obtains ys s' where "destroyPtr_run e h (fst (hd ps)) s = Some (Inr (), s')" "owns nmd h s' (xs @ ys) Q" "same_on Q s s'"
    "built s' = built s - region s (map fst ps)"
  using assms
proof (induction ps arbitrary: s xs Q thesis)
  case (Cons x ps)
  obtain a nm d where x: "x = (a, nm, d)"
    by (cases x)
  have a: "links s (a # map fst ps)" "cells s a \<inter> region s (map fst ps) = {}" "item_ok h s x" "private_items nmd h s ps" "a \<noteq> 0"
    using Cons.prems(3) by (auto simp: private_items_def x)
  then obtain nm' nd where nd: "objects s a = Some (nm', StorageItem nd)" "nnext nd = (case map fst ps of [] \<Rightarrow> 0 | b # bs \<Rightarrow> b - a)"
    by auto
  let ?A = "region s (map fst (x # ps)) \<union> Q"
  have aA: "a \<in> ?A" "cells s a \<subseteq> ?A"
    by (auto simp: x)
  obtain ys1 s1 where r1: "read_object e as_item a s = (Inr nd, s1)" "owns nmd h s1 (xs @ ys1) ?A" "same_on ?A s s1"
    by (rule read_owned [where f = as_item, OF Cons.prems(2) aA(1) a(5) nd(1)]) simp_all
  let ?rec = "if nnext nd = 0 then Some (Inr (), s1)
             else (case read_object e as_item a s1 of
               (Inl x, s2) \<Rightarrow> Some (Inl x, s2)
             | (Inr nd2, s2) \<Rightarrow> destroyPtr_run e h (a + nnext nd2) s2)"
  have "\<exists>ys s3. ?rec = Some (Inr (), s3) \<and> owns nmd h s3 (xs @ ys) (cells s a \<union> Q) \<and> same_on (cells s a \<union> Q) s s3
      \<and> built s3 = built s - region s (map fst ps)"
  proof (cases ps)
    case Nil
    then show ?thesis
      using r1 nd(2) read_built [OF r1(1)] by (intro exI [of _ ys1] exI [of _ s1]) (simp add: x)
  next
    case (Cons y qs)
    have ne: "ps \<noteq> []"
      using Cons by simp
    have distinct: "fst y \<noteq> a"
      using a(2) in_cells [of a s] by (auto simp: Cons simp del: in_cells)
    have nx: "nnext nd = fst y - a" "nnext nd \<noteq> 0"
      using nd(2) distinct by (simp_all add: Cons)
    have "objects s1 a = Some (nm', StorageItem nd)"
      using same_onD(1) [OF r1(3) aA(1)] nd(1) by simp
    then obtain ys2 s2 where r2: "read_object e as_item a s1 = (Inr nd, s2)" "owns nmd h s2 ((xs @ ys1) @ ys2) ?A" "same_on ?A s1 s2"
      by (rule read_owned [where f = as_item, OF r1(2) aA(1) a(5)]) simp_all
    have same: "same_on ?A s s2"
      by (rule same_on_trans [OF r1(3) r2(3)])
    have sub: "region s (map fst ps) \<subseteq> ?A"
      by auto
    have ps: "private_items nmd h s2 ps" "region s2 (map fst ps) = region s (map fst ps)"
      using private_same [OF same sub a(4)] by simp_all
    have o: "owns nmd h s2 (xs @ ys1 @ ys2) (region s2 (map fst ps) \<union> (cells s a \<union> Q))"
      using r2(2) ps(2) by (simp add: x Un_ac)
    have dj: "region s2 (map fst ps) \<inter> (cells s a \<union> Q) = {}"
      using ps(2) a(2) Cons.prems(5) by (auto simp: x)
    obtain ys3 s3 where d: "destroyPtr_run e h (fst (hd ps)) s2 = Some (Inr (), s3)" "owns nmd h s3 ((xs @ ys1 @ ys2) @ ys3) (cells s a \<union> Q)"
        "same_on (cells s a \<union> Q) s2 s3" "built s3 = built s2 - region s2 (map fst ps)"
      by (rule Cons.IH [OF _ o ps(1) ne dj])
    have "same_on (cells s a \<union> Q) s s3"
      by (rule same_on_trans [OF same_on_mono [OF same] d(3)]) (auto simp: x)
    moreover have "built s3 = built s - region s (map fst ps)"
      using d(4) ps(2) read_built [OF r1(1)] read_built [OF r2(1)] by simp
    ultimately show ?thesis
      using r2(1) d(1,2) nx by (intro exI [of _ "ys1 @ ys2 @ ys3"] exI [of _ s3]) (simp add: Cons)
  qed
  then obtain ys2 s3 where rec: "?rec = Some (Inr (), s3)" "owns nmd h s3 (xs @ ys2) (cells s a \<union> Q)" "same_on (cells s a \<union> Q) s s3"
      "built s3 = built s - region s (map fst ps)"
    by blast
  have c: "cells s3 a = cells s a" "item_ok h s3 (a, nm, d)"
    using cells_same [OF rec(3), of a] item_ok_same [OF rec(3) _ a(3)] by (simp_all add: x)
  have o3: "owns nmd h s3 (xs @ ys2) (cells s3 a \<union> Q)" "cells s3 a \<inter> Q = {}"
    using rec(2) c(1) Cons.prems(5) by (auto simp: x)
  obtain ys3 s4 where d: "(if inline_data h then destroy_ptr e a s3
        else bindS (read_object e as_item a) (\<lambda>nd3.
          bindS (case ndata nd3 of Separate off \<Rightarrow> if off = 0 then returnS () else destroy_ptr e (a + off)
                   | Inline _ \<Rightarrow> throwS UndefinedBehaviour) (\<lambda>_. destroy_ptr e a)) s3) = (Inr (), s4)"
      "owns nmd h s4 ((xs @ ys2) @ ys3) Q" "same_on Q s3 s4" "built s4 = built s3 - cells s3 a"
    by (rule destroy_node [OF o3 c(2) a(5)])
  have "destroyPtr_run e h a s = Some (Inr (), s4)"
    unfolding destroyPtr_run.simps [of e h a s] using a(5) r1(1) rec(1) d(1) by simp
  moreover have "same_on Q s s4"
    by (rule same_on_trans [OF same_on_mono [OF rec(3)] d(3)]) auto
  moreover have "built s4 = built s - region s (map fst (x # ps))"
    using d(4) rec(4) c(1) by (auto simp: x)
  ultimately show ?case
    using Cons.prems(1) [of s4 "ys2 @ ys3"] d(2) by (simp add: x)
qed simp

section \<open>Appending\<close>

lemma chain_node:
  assumes "seg_chain nmd h s xs" and "n \<le> length xs"
  obtains nm nd where "objects s ((headPtr h # map fst xs) ! n) = Some (nm, StorageItem nd)" "(headPtr h # map fst xs) ! n \<noteq> 0"
    "nnext nd = (if n < length xs then fst (xs ! n) - (headPtr h # map fst xs) ! n else 0)"
    "n < length xs \<longrightarrow> nnext nd \<noteq> 0"
proof -
  let ?as = "headPtr h # map fst xs"
  have l: "links s ?as" "distinct ?as"
    using assms(1) by (simp_all add: seg_chain_def)
  obtain nm nd where nd: "objects s (?as ! n) = Some (nm, StorageItem nd)" "?as ! n \<noteq> 0"
      "nnext nd = (if Suc n < length ?as then ?as ! Suc n - ?as ! n else 0)"
    by (rule links_nth [OF l(1), of n]) (use assms(2) in simp)
  moreover have "nnext nd \<noteq> 0" if "n < length xs"
  proof -
    have "?as ! Suc n \<noteq> ?as ! n"
      using nth_eq_iff_index_eq [OF l(2), of "Suc n" n] that by simp
    then show ?thesis
      using nd(3) that by (simp del: nth_Cons_Suc)
  qed
  ultimately show thesis
    using that by simp
qed

lemma link_extends:
  assumes o: "owns nmd h s xs (region s (map fst ps))" and ps: "private_items nmd h s ps" "ps \<noteq> []" "b = fst (hd ps)"
    and l: "l = (headPtr h # map fst xs) ! length xs" "objects s l = Some (nm, StorageItem nd)"
  shows "seg_chain nmd h (put_object l (StorageItem (nd\<lparr>nnext := b - l\<rparr>)) s) (xs @ ps)"
proof -
  let ?as = "headPtr h # map fst xs" and ?t = "put_object l (StorageItem (nd\<lparr>nnext := b - l\<rparr>)) s"
  have c: "seg_chain nmd h s xs" "region s (map fst ps) \<inter> footprint h s xs = {}"
    using o by (simp_all add: owns_def)
  have "l = last ?as"
    using l(1) by (simp add: last_conv_nth)
  then have as: "?as = butlast ?as @ [l]"
    by simp
  have bs: "map fst ps = b # map fst (tl ps)"
    using ps(2,3) by (cases ps) auto
  have "set (map fst ps) \<inter> set ?as = {}"
    using c(2) in_region(1) by blast
  then have d: "distinct (?as @ map fst ps)"
    using c(1) ps(1) apart_nodes_distinct [of s "map fst ps"] by (auto simp: seg_chain_def private_items_def)
  have "links s (butlast ?as @ [l])"
    using c(1) as by (metis seg_chain_def)
  moreover have "links s (b # map fst (tl ps))"
    using ps(1) bs by (simp add: private_items_def)
  moreover have e: "?as @ map fst ps = butlast ?as @ l # b # map fst (tl ps)"
    using as bs by (metis append.assoc append_Cons append_Nil)
  ultimately have "links ?t (butlast ?as @ l # b # map fst (tl ps))"
    using links_join [of s "butlast ?as" l b "map fst (tl ps)" nm nd] d l(2) by simp
  then have "links ?t (?as @ map fst ps)"
    using e by simp
  moreover have "\<forall>x \<in> set (xs @ ps). item_ok h ?t x"
    using put_next(4) [OF l(2)] c(1) ps(1) by (auto simp: seg_chain_def private_items_def)
  moreover have "\<forall>x \<in> set (xs @ ps). (fst (snd x) \<noteq> None) = nmd"
    using c(1) ps(1) by (auto simp: seg_chain_def private_items_def)
  moreover have "if inline_data h then \<exists>d. ndata hd = Inline d else ndata hd = Separate 0" if "objects ?t (headPtr h) = Some (m, StorageItem hd)" for m hd
    using that c(1) l(2) by (cases "headPtr h = l") (auto simp: put_object_def seg_chain_def)
  ultimately show ?thesis
    using d unfolding seg_chain_def by simp
qed

lemma compare_exchange_chain:
  assumes "owns nmd h s xs (region s (map fst ps))" and "private_items nmd h s ps" "ps \<noteq> []" and "n \<le> length xs"
  obtains (linked) ys s' where "compare_exchange_next e ((headPtr h # map fst xs) ! n) (fst (hd ps) - (headPtr h # map fst xs) ! n) s = (Inr True, s')"
      "n = length (xs @ ys)" "seg_chain nmd h s' (xs @ ys @ ps)"
    | (late) ys s' where "compare_exchange_next e ((headPtr h # map fst xs) ! n) (fst (hd ps) - (headPtr h # map fst xs) ! n) s = (Inr False, s')"
      "n < length (xs @ ys)" "owns nmd h s' (xs @ ys) (region s' (map fst ps))" "private_items nmd h s' ps" "region s' (map fst ps) = region s (map fst ps)"
proof -
  let ?p = "(headPtr h # map fst xs) ! n" and ?R = "region s (map fst ps)"
  obtain ys where ys: "owns nmd h (others e s) (xs @ ys) ?R" "same_on ?R s (others e s)"
    by (rule others_owns [OF assms(1)])
  let ?t = "others e s"
  have ps: "private_items nmd h ?t ps" "region ?t (map fst ps) = ?R"
    using private_same [OF ys(2) order_refl assms(2)] by simp_all
  have n: "n \<le> length (xs @ ys)" "?p = (headPtr h # map fst (xs @ ys)) ! n"
    using assms(4) by (simp_all add: nth_Cons nth_append split: nat.split)
  obtain nm nd where nd: "objects ?t ?p = Some (nm, StorageItem nd)" "?p \<noteq> 0"
      "nnext nd = (if n < length (xs @ ys) then fst ((xs @ ys) ! n) - ?p else 0)" "n < length (xs @ ys) \<longrightarrow> nnext nd \<noteq> 0"
    unfolding n(2) by (rule chain_node [OF owns_chain [OF ys(1)] n(1)])
  show thesis
  proof (cases "n = length (xs @ ys)")
    case True
    let ?s' = "put_object ?p (StorageItem (nd\<lparr>nnext := fst (hd ps) - ?p\<rparr>)) ?t"
    have "compare_exchange_next e ?p (fst (hd ps) - ?p) s = (Inr True, ?s')"
      using nd True by (simp add: compare_exchange_next_def object_at_def)
    moreover have "seg_chain nmd h ?s' ((xs @ ys) @ ps)"
      by (rule link_extends [OF _ ps(1) assms(3) refl _ nd(1)]) (use ys(1) ps(2) n(2) True in simp_all)
    ultimately show thesis
      using linked True by simp
  next
    case False
    then have "compare_exchange_next e ?p (fst (hd ps) - ?p) s = (Inr False, ?t)"
      using nd n(1) by (simp add: compare_exchange_next_def object_at_def)
    then show thesis
      by (rule late) (use False n(1) ys(1) ps in simp_all)
  qed
qed

lemma append_items_owned:
  assumes "owns nmd h s xs (region s (map fst ps))" and "private_items nmd h s ps" "ps \<noteq> []" and "n \<le> length xs"
    and "ptr i = (headPtr h # map fst xs) ! n" and "map ptr its = map fst ps" and "appendAfterAll e h i its s = (r, s')"
  shows "\<exists>ys. r = Inr True \<and> n = length (xs @ ys) \<and> seg_chain nmd h s' (xs @ ys @ ps)
    \<or> r = Inr False \<and> n < length (xs @ ys) \<and> seg_chain nmd h s' (xs @ ys) \<and> built s' = built s - region s (map fst ps)"
proof -
  let ?R = "region s (map fst ps)"
  have ne: "its \<noteq> []" "ptr (its ! 0) = fst (hd ps)" "ptr (last its) = fst (last ps)"
    using assms(3,6) by (metis list.map_disc_iff, metis hd_conv_nth hd_map list.map_disc_iff, metis last_map list.map_disc_iff)
  have l: "links s (map fst ps)"
    using assms(2) by (simp add: private_items_def)
  obtain nm nd where nd: "objects s (fst (last ps)) = Some (nm, StorageItem nd)" "fst (last ps) \<noteq> 0" "nnext nd = 0"
    by (rule links_nth [OF l, of "length ps - 1"]) (use assms(3) in \<open>simp_all add: last_conv_nth\<close>)
  obtain nm0 nd0 where head0: "objects s (fst (hd ps)) = Some (nm0, StorageItem nd0)" "fst (hd ps) \<noteq> 0"
    by (rule links_nth [OF l, of 0]) (use assms(3) in \<open>simp_all add: hd_conv_nth\<close>)
  have "fst (last ps) \<in> ?R"
    by (rule in_region(1)) (use assms(3) in simp)
  then obtain ys s1 where rd: "read_object e as_item (fst (last ps)) s = (Inr nd, s1)" "owns nmd h s1 (xs @ ys) ?R" "same_on ?R s s1"
    by (rule read_owned [where f = as_item, OF assms(1) _ nd(2,1)]) simp_all
  have ps: "private_items nmd h s1 ps" "region s1 (map fst ps) = ?R"
    using private_same [OF rd(3) order_refl assms(2)] by simp_all
  have p: "ptr i = (headPtr h # map fst (xs @ ys)) ! n" "n \<le> length (xs @ ys)"
    using assms(4,5) by (simp_all add: nth_Cons nth_append split: nat.split)
  have "seg_chain nmd h s xs"
    by (rule owns_chain [OF assms(1)])
  then have "ptr i \<noteq> 0"
    using chain_node [OF _ assms(4)] assms(5) by metis
  then have link: "link_or_destroy e h (ptr i) (fst (hd ps)) s1 = (r, s')"
    using assms(7) ne nd rd(1) head0(2) by (auto simp: appendAfterAll_def appendAfter_def bindS_def last_conv_nth split: if_splits)
  have o: "owns nmd h s1 (xs @ ys) (region s1 (map fst ps))"
    using rd(2) ps(2) by simp
  from o ps(1) assms(3) p(2) show ?thesis
  proof (cases rule: compare_exchange_chain)
    case (linked zs s2)
    then have "r = Inr True" "s' = s2"
      using link by (simp_all add: link_or_destroy_def bindS_def returnS_def p(1))
    then show ?thesis
      using linked by (intro exI [of _ "ys @ zs"]) simp
  next
    case (late zs s2)
    have o2: "owns nmd h s2 ((xs @ ys) @ zs) (region s2 (map fst ps) \<union> {})" "region s2 (map fst ps) \<inter> {} = {}"
      using late(3) by simp_all
    obtain us s3 where d: "destroyPtr_run e h (fst (hd ps)) s2 = Some (Inr (), s3)" "owns nmd h s3 (((xs @ ys) @ zs) @ us) {}"
        "built s3 = built s2 - region s2 (map fst ps)"
      by (rule destroy_items [OF o2(1) late(4) assms(3) o2(2)])
    have "built s3 = built s - ?R"
      using d(3) late(5) ps(2) read_built [OF rd(1)] compare_exchange_built [OF late(1)] by simp
    note bs = this
    have "r = Inr False" "s' = s3"
      using link late(1) d(1) by (simp_all add: link_or_destroy_def destroyPtr_def bindS_def returnS_def p(1))
    then show ?thesis
      using late(2) d(2) bs by (intro exI [of _ "ys @ zs @ us"]) (simp add: owns_none)
  qed
qed

text \<open>\<open>formChainItems\<close> and \<open>appendAfter\<close> together.\<close>

lemma write_items_owned:
  assumes "\<forall>x \<in> set zs. form x = form_item e h (nm x) (mk x) (dat x) \<and> length (shm_encode h (dat x)) < 2 ^ 64 \<and> (nm x \<noteq> None) = nmd"
    and "seg_chain nmd h s xs" and "zs \<noteq> []" and "n \<le> length xs" and "ptr i = (headPtr h # map fst xs) ! n"
    and "bindS (form_items e form [] zs) (appendAfterAll e h i) s = (r, s')"
  shows "\<exists>ys. r = Inr True \<and> n = length (xs @ ys) \<and> (\<exists>es. map snd es = map (\<lambda>x. (nm x, dat x)) zs \<and> seg_chain nmd h s' (xs @ ys @ es))
    \<or> r = Inr False \<and> n < length (xs @ ys) \<and> seg_chain nmd h s' (xs @ ys) \<and> built s' \<subseteq> built s
    \<or> (\<exists>x. r = Inl x \<and> shm_failure nmd x) \<and> seg_chain nmd h s' (xs @ ys)"
proof -
  obtain r1 s1 where f: "form_items e form [] zs s = (r1, s1)"
    by fastforce
  have start: "owns nmd h s xs (region s (map fst []))" "private_items nmd h s []" "map ptr [] = map fst []"
    using assms(2) by (simp_all add: owns_none private_items_def)
  from assms(1) start f show ?thesis
  proof (cases rule: form_items_owned)
    case (failed x ys)
    then show ?thesis
      using assms(6) f by (auto simp: bindS_def)
  next
    case (formed its ys qs)
    note its = this
    have q: "owns nmd h s1 (xs @ ys) (region s1 (map fst qs))" "private_items nmd h s1 qs" "qs \<noteq> []" "map ptr its = map fst qs"
      using its(2-5) assms(3) by auto
    have p: "n \<le> length (xs @ ys)" "ptr i = (headPtr h # map fst (xs @ ys)) ! n"
      using assms(4,5) by (simp_all add: nth_Cons nth_append split: nat.split)
    have "appendAfterAll e h i its s1 = (r, s')"
      using assms(6) f its(1) by (simp add: bindS_def)
    from append_items_owned [OF q(1-3) p q(4) this] obtain zs' where
      "r = Inr True \<and> n = length (xs @ ys @ zs') \<and> seg_chain nmd h s' (xs @ ys @ zs' @ qs)
        \<or> r = Inr False \<and> n < length (xs @ ys @ zs') \<and> seg_chain nmd h s' (xs @ ys @ zs') \<and> built s' = built s1 - region s1 (map fst qs)"
      by auto
    moreover have "built s1 - region s1 (map fst qs) \<subseteq> built s"
      using its(7) by auto
    ultimately show ?thesis
      using its(5) by (intro exI [of _ "ys @ zs'"]) auto
  qed
qed

section \<open>Reading\<close>

text \<open>What a reader has of the \<open>n\<close>-th item.\<close>

lemma others_chain:
  assumes "seg_chain nmd h s xs"
  obtains ys where "seg_chain nmd h (others e s) (xs @ ys)"
    "\<forall>a \<in> footprint h s xs. fixed_part (objects (others e s) a) = fixed_part (objects s a)"
  using others_rely [of s] assms unfolding others_allowed_def by blast

lemma item_from_chain:
  assumes "seg_chain nmd h s xs" and "n < length xs" and "item_from e h i (fst (xs ! n)) s = (r, s')"
  shows "\<exists>ys j. r = Inr j \<and> seg_chain nmd h s' (xs @ ys) \<and> ptr j = fst (xs ! n) \<and> item_id j = i \<and> actualData h s' j = Some (snd (snd (xs ! n)))"
proof -
  obtain a nm d where x: "xs ! n = (a, nm, d)"
    by (cases "xs ! n")
  have ok: "\<exists>nd. objects t a = Some (nm, StorageItem nd) \<and> value_at h t nd a = Some d \<and> a \<noteq> 0" if "seg_chain nmd h t (xs @ ys)" for t ys
  proof -
    have "xs ! n \<in> set (xs @ ys)"
      using assms(2) by simp
    then have "item_ok h t (a, nm, d)"
      using that x by (simp add: seg_chain_def)
    moreover have "a \<noteq> 0"
      using chain_node [OF that, of "Suc n"] assms(2) x by (auto simp: nth_append)
    ultimately show ?thesis
      by (auto simp: item_ok_def)
  qed
  show ?thesis
  proof (cases "inline_data h")
    case True
    obtain nd where "objects s a = Some (nm, StorageItem nd)" "value_at h s nd a = Some d" "a \<noteq> 0"
      using ok [of s "[]"] assms(1) by auto
    then show ?thesis
      using assms(1,3) True x
      by (intro exI [of _ "[]"] exI [of _ "\<lparr>ptr = a, item_id = i, parsed = None\<rparr>"]) (auto simp: item_from_def returnS_def actualData_def object_at_def value_at_def split: node_data.splits)
  next
    case False
    obtain ys where ys: "seg_chain nmd h (others e s) (xs @ ys)"
      by (rule others_chain [OF assms(1)])
    obtain nd where nd: "objects (others e s) a = Some (nm, StorageItem nd)" "value_at h (others e s) nd a = Some d" "a \<noteq> 0"
      using ok [OF ys] by blast
    then obtain off where off: "ndata nd = Separate off" "off \<noteq> 0"
      using False by (auto simp: value_at_def split: node_data.splits if_splits)
    obtain c where c: "objects (others e s) (a + off) = Some c" "as_chars (snd c) \<noteq> None" "a + off \<noteq> 0"
        "Option.bind (as_chars (snd c)) (\<lambda>x. shm_decode h (unsized x)) = Some d"
      using nd(2) off False by (cases "objects (others e s) (a + off)") (auto simp: value_at_def object_at_def split: if_splits bind_splits)
    obtain zs where zs: "seg_chain nmd h (others e (others e s)) ((xs @ ys) @ zs)"
        "\<forall>b \<in> footprint h (others e s) (xs @ ys). fixed_part (objects (others e (others e s)) b) = fixed_part (objects (others e s) b)"
      by (rule others_chain [OF ys(1)])
    have "a + off \<in> cells (others e s) a"
      using nd(1) off by (simp add: cells_def)
    moreover have "a \<in> set (headPtr h # map fst (xs @ ys))"
      using nth_mem [OF assms(2)] x by force
    ultimately have "a + off \<in> footprint h (others e s) (xs @ ys)"
      using in_region(2) by blast
    then have "objects (others e (others e s)) (a + off) = Some c"
      using bspec [OF zs(2), of "a + off"] c(1,2) by (cases c; cases "snd c")
        (auto simp: fixed_part_def split: option.splits prod.splits object.splits)
    then have "read_object e as_chars (a + off) (others e s) = (Inr (the (as_chars (snd c))), others e (others e s))"
      using c(2,3) by (auto simp: read_object_def object_at_def)
    moreover have "read_object e as_item a s = (Inr nd, others e s)"
      using nd by (simp add: read_object_def object_at_def)
    moreover have "shm_decode h (unsized (the (as_chars (snd c)))) = Some d"
      using c(2,4) by auto
    ultimately have "r = Inr \<lparr>ptr = a, item_id = i, parsed = Some d\<rparr>" "s' = others e (others e s)"
      using assms(3) False x off nd(3) by (simp_all add: item_from_def bindS_def returnS_def)
    then show ?thesis
      using zs(1) x False by (intro exI [of _ "ys @ zs"]) (simp add: actualData_def)
  qed
qed

lemma item_from_head:
  assumes "seg_chain nmd h s xs" and "item_from e h i (headPtr h) s = (r, s')"
  shows "\<exists>ys j. r = Inr j \<and> seg_chain nmd h s' (xs @ ys) \<and> ptr j = headPtr h \<and> item_id j = i"
proof (cases "inline_data h \<or> headPtr h = 0")
  case True
  then show ?thesis
    using assms by (intro exI [of _ "[]"] exI [of _ "\<lparr>ptr = headPtr h, item_id = i, parsed = None\<rparr>"]) (auto simp: item_from_def returnS_def)
next
  case False
  obtain ys where ys: "seg_chain nmd h (others e s) (xs @ ys)"
    by (rule others_chain [OF assms(1)])
  obtain nm nd where "objects (others e s) ((headPtr h # map fst (xs @ ys)) ! 0) = Some (nm, StorageItem nd)"
    by (rule chain_node [OF ys le0])
  then have nd: "objects (others e s) (headPtr h) = Some (nm, StorageItem nd)"
    by simp
  then have "ndata nd = Separate 0"
    using ys False by (simp add: seg_chain_def)
  then have "r = Inr \<lparr>ptr = headPtr h, item_id = i, parsed = None\<rparr>" "s' = others e s"
    using assms(2) False nd by (auto simp: item_from_def bindS_def returnS_def read_object_def object_at_def)
  then show ?thesis
    using ys by auto
qed

lemma fetch_owned:
  assumes name: "\<And>t zs m r1 t1. seg_chain nmd h t zs \<Longrightarrow> m < length zs \<Longrightarrow> name (fst (zs ! m)) t = (r1, t1)
      \<Longrightarrow> \<exists>ys. r1 = Inr (ident (zs ! m)) \<and> seg_chain nmd h t1 (zs @ ys)"
    and "seg_chain nmd h s xs" and "n \<le> length xs" and "ptr i = (headPtr h # map fst xs) ! n" and "fetchNext_with e h name i s = (r, s')"
  shows "\<exists>ys. seg_chain nmd h s' (xs @ ys) \<and> (r = Inr None \<and> n = length xs \<or>
    (\<exists>j. r = Inr (Some j) \<and> n < length (xs @ ys) \<and> ptr j = fst ((xs @ ys) ! n) \<and> item_id j = ident ((xs @ ys) ! n)
      \<and> actualData h s' j = Some (snd (snd ((xs @ ys) ! n)))))"
proof -
  obtain ys where ys: "seg_chain nmd h (others e s) (xs @ ys)"
    by (rule others_chain [OF assms(2)])
  let ?t = "others e s"
  have n: "n \<le> length (xs @ ys)" "ptr i = (headPtr h # map fst (xs @ ys)) ! n"
    using assms(3,4) by (simp_all add: nth_Cons nth_append split: nat.split)
  obtain nm nd where nd: "objects ?t (ptr i) = Some (nm, StorageItem nd)" "ptr i \<noteq> 0"
      "nnext nd = (if n < length (xs @ ys) then fst ((xs @ ys) ! n) - ptr i else 0)" "n < length (xs @ ys) \<longrightarrow> nnext nd \<noteq> 0"
    unfolding n(2) by (rule chain_node [OF ys n(1)])
  have rd: "read_object e as_item (ptr i) s = (Inr nd, ?t)"
    using nd(1,2) by (simp add: read_object_def object_at_def)
  show ?thesis
  proof (cases "n < length (xs @ ys)")
    case False
    then have "r = Inr None" "s' = ?t"
      using assms(5) rd nd by (simp_all add: fetchNext_with_def bindS_def returnS_def Let_def)
    then show ?thesis
      using ys False n(1) assms(3) by (intro exI [of _ ys]) simp
  next
    case True
    let ?q = "fst ((xs @ ys) ! n)"
    have q: "ptr i + nnext nd = ?q" "nnext nd \<noteq> 0"
      using nd(3,4) True by simp_all
    obtain r1 t1 where nm: "name ?q ?t = (r1, t1)"
      by fastforce
    from name [OF ys True this] obtain zs where zs: "r1 = Inr (ident ((xs @ ys) ! n))" "seg_chain nmd h t1 ((xs @ ys) @ zs)"
      by blast
    obtain r2 t2 where it: "item_from e h (ident ((xs @ ys) ! n)) ?q t1 = (r2, t2)"
      by fastforce
    have same: "((xs @ ys) @ zs) ! n = (xs @ ys) ! n"
      using True by (simp only: nth_append if_True)
    have "n < length ((xs @ ys) @ zs)"
      using True by simp
    from item_from_chain [OF zs(2) this, of "ident ((xs @ ys) ! n)"] it obtain us j where
      j: "r2 = Inr j" "seg_chain nmd h t2 (((xs @ ys) @ zs) @ us)" "ptr j = ?q" "item_id j = ident ((xs @ ys) ! n)"
        "actualData h t2 j = Some (snd (snd ((xs @ ys) ! n)))"
      unfolding same by blast
    have "r = Inr (Some j)" "s' = t2"
      using assms(5) rd nd(2) q nm zs(1) it j(1) by (simp_all add: fetchNext_with_def bindS_def returnS_def Let_def)
    moreover have "(xs @ ys @ zs @ us) ! n = (xs @ ys) ! n"
      using True by (metis append_assoc nth_append)
    ultimately show ?thesis
      using j True by (intro exI [of _ "ys @ zs @ us"]) simp
  qed
qed

end

section \<open>Both forms are shared chains\<close>

text \<open>\<open>formChainItems\<close> followed by the vector form of \<open>appendAfter\<close>, which is how items are written.\<close>

definition name_write_items :: "('d, 'x) shm \<Rightarrow> 'd shm_chain \<Rightarrow> 'd named_item \<Rightarrow> (string \<times> 'd) list \<Rightarrow> ('d, 'x, bool) shm_call" where
  "name_write_items e h i ds = bindS (name_formChainItems e h ds) (appendAfterAll e h i)"

definition offset_write_items :: "('d, 'x) shm \<Rightarrow> 'd shm_chain \<Rightarrow> 'd offset_item \<Rightarrow> 'd list \<Rightarrow> ('d, 'x, bool) shm_call" where
  "offset_write_items e h i ds = bindS (offset_formChainItems e h ds) (appendAfterAll e h i)"

definition name_place :: "'d shm_chain \<Rightarrow> 'd shm_entry list \<Rightarrow> nat \<Rightarrow> 'd named_item \<Rightarrow> bool" where
  "name_place h xs n i \<longleftrightarrow> n \<le> length xs \<and> ptr i = (headPtr h # map fst xs) ! n \<and> item_id i = ('''' # map (\<lambda>x. the (fst (snd x))) xs) ! n"

definition offset_place :: "'d shm_chain \<Rightarrow> 'd shm_entry list \<Rightarrow> nat \<Rightarrow> 'd offset_item \<Rightarrow> bool" where
  "offset_place h xs n i \<longleftrightarrow> n \<le> length xs \<and> ptr i = (headPtr h # map fst xs) ! n \<and> item_id i = ptr i - headPtr h"

definition name_shown :: "'d shm_entry \<Rightarrow> string \<times> 'd" where
  "name_shown x = (the (fst (snd x)), snd (snd x))"

definition name_content :: "'d shm_chain \<Rightarrow> ('d, 'x) segment \<Rightarrow> 'd named_item \<Rightarrow> (string \<times> 'd) option" where
  "name_content h s i = map_option (Pair (item_id i)) (actualData h s i)"

definition name_writable :: "'d shm_chain \<Rightarrow> (string \<times> 'd) list \<Rightarrow> bool" where
  "name_writable h ds \<longleftrightarrow> (\<forall>x \<in> set ds. nul_free (fst x) \<and> length (shm_encode h (snd x)) < 2 ^ 64)"

definition offset_writable :: "'d shm_chain \<Rightarrow> 'd list \<Rightarrow> bool" where
  "offset_writable h ds \<longleftrightarrow> (\<forall>d \<in> set ds. length (shm_encode h d) < 2 ^ 64)"

lemma nth_extend: "n \<le> length xs \<Longrightarrow> (a # map f (xs @ ys)) ! n = (a # map f xs) ! n"
  by (simp add: nth_Cons nth_append split: nat.split)

locale named_memory = shared_memory e h True for e :: "('d, 'x) shm" and h :: "'d shm_chain"
begin

lemma name_fetch:
  assumes "seg_chain True h s xs" and "name_place h xs n i" and "name_fetchNext e h i s = (r, s')"
  shows "\<exists>ys. seg_chain True h s' (xs @ ys) \<and> (r = Inr None \<and> n = length xs \<or>
    (\<exists>j. r = Inr (Some j) \<and> n < length (xs @ ys) \<and> name_place h (xs @ ys) (Suc n) j \<and> name_content h s' j = Some (name_shown ((xs @ ys) ! n))))"
proof -
  have name: "\<exists>ys. r1 = Inr (the (fst (snd (zs ! m)))) \<and> seg_chain True h t1 (zs @ ys)"
    if c: "seg_chain True h t zs" and "m < length zs" "get_instance_name e (fst (zs ! m)) t = (r1, t1)" for t zs m r1 t1
  proof -
    obtain ys where ys: "seg_chain True h (others e t) (zs @ ys)"
      by (rule others_chain [OF c])
    have "zs ! m \<in> set (zs @ ys)"
      using that(2) by simp
    then have "item_ok h (others e t) (zs ! m)" "fst (snd (zs ! m)) \<noteq> None"
      using ys by (auto simp: seg_chain_def)
    then show ?thesis
      using that(3) ys by (cases "zs ! m") (auto simp: get_instance_name_def item_ok_def)
  qed
  have p: "n \<le> length xs" "ptr i = (headPtr h # map fst xs) ! n"
    using assms(2) by (simp_all add: name_place_def)
  from fetch_owned [OF name assms(1) p assms(3) [unfolded name_fetchNext_def]]
  show ?thesis
    by (fastforce simp: name_place_def name_content_def name_shown_def nth_append)
qed

lemma name_write:
  assumes "seg_chain True h s xs" and "name_place h xs n i" and "name_writable h ds" and "ds \<noteq> []" and "name_write_items e h i ds s = (r, s')"
  shows "\<exists>ys. r = Inr True \<and> n = length (xs @ ys) \<and> (\<exists>es. map name_shown es = ds \<and> seg_chain True h s' (xs @ ys @ es))
    \<or> r = Inr False \<and> n < length (xs @ ys) \<and> seg_chain True h s' (xs @ ys) \<and> built s' \<subseteq> built s
    \<or> (\<exists>x. r = Inl x \<and> shm_failure True x) \<and> seg_chain True h s' (xs @ ys)"
proof -
  have "\<forall>x \<in> set ds. name_formChainItem e h x = form_item e h (Some (fst x)) (\<lambda>_. fst x) (snd x) \<and> length (shm_encode h (snd x)) < 2 ^ 64
      \<and> (Some (fst x) \<noteq> None) = True"
    using assms(3) by (auto simp: name_formChainItem_def name_writable_def)
  moreover have "n \<le> length xs" "ptr i = (headPtr h # map fst xs) ! n"
    using assms(2) by (simp_all add: name_place_def)
  moreover have "map name_shown es = ds" if "map snd es = map (\<lambda>x. (Some (fst x), snd x)) ds" for es :: "'d shm_entry list"
  proof -
    have "map name_shown es = map (\<lambda>y. (the (fst y), snd y)) (map snd es)"
      by (simp add: name_shown_def)
    then show ?thesis
      by (simp add: that comp_def)
  qed
  ultimately show ?thesis
    using write_items_owned [of ds "name_formChainItem e h" "\<lambda>x. Some (fst x)" "\<lambda>x _. fst x" snd s xs n i r s'] assms(1,4,5)
    unfolding name_write_items_def name_formChainItems_def by blast
qed

end

context named_memory
begin

sublocale chain: readable_chain "seg_chain True h" "name_place h" name_shown "name_content h" "name_writable h"
    "name_head e h" "name_fetchNext e h" "name_write_items e h"
proof unfold_locales
  fix s and xs :: "'d shm_entry list"
  show "seg_chain True h s xs \<Longrightarrow> distinct xs"
    by (simp add: seg_chain_def distinct_map)
next
  fix xs n and i :: "'d named_item"
  show "name_place h xs n i \<Longrightarrow> n \<le> length xs" by (simp add: name_place_def)
next
  fix xs ys n and i :: "'d named_item"
  show "name_place h xs n i \<Longrightarrow> name_place h (xs @ ys) n i"
    unfolding name_place_def by (simp only: nth_extend) simp
next
  fix s xs r s'
  assume "seg_chain True h s xs" "name_head e h s = (r, s')"
  from item_from_head [OF this [unfolded name_head_def fromIDAndPtr_def]]
  show "\<exists>ys. seg_chain True h s' (xs @ ys) \<and> (\<forall>i. r = Inr i \<longrightarrow> name_place h (xs @ ys) 0 i)"
    by (auto simp: name_place_def)
next
  fix s xs n i r s'
  assume "seg_chain True h s xs" "name_place h xs n i" "name_fetchNext e h i s = (r, s')"
  from name_fetch [OF this] show "\<exists>ys. seg_chain True h s' (xs @ ys) \<and> (r = Inr None \<longrightarrow> n = length xs) \<and>
      (\<forall>j. r = Inr (Some j) \<longrightarrow> n < length (xs @ ys) \<and> name_place h (xs @ ys) (Suc n) j \<and> name_content h s' j = Some (name_shown ((xs @ ys) ! n)))"
    by auto
next
  fix s xs n i ds r s'
  assume "seg_chain True h s xs" "name_place h xs n i" "name_writable h ds" "ds \<noteq> []" "name_write_items e h i ds s = (r, s')"
  from name_write [OF this] show "\<exists>ys. (r = Inr True \<longrightarrow> n = length (xs @ ys) \<and> (\<exists>es. map name_shown es = ds \<and> seg_chain True h s' (xs @ ys @ es))) \<and>
      (r = Inr False \<longrightarrow> seg_chain True h s' (xs @ ys)) \<and> (\<forall>x. r = Inl x \<longrightarrow> seg_chain True h s' (xs @ ys))"
    by auto
next
  fix s :: "('d, 'x) segment" and xs :: "'d shm_entry list"
  assume *: "seg_chain True h s xs"
  obtain r s' where "name_head e h s = (r, s')"
    by fastforce
  with item_from_head [OF * this [unfolded name_head_def fromIDAndPtr_def]] show "\<exists>i s'. name_head e h s = (Inr i, s')"
    by auto
next
  fix s :: "('d, 'x) segment" and xs n and i :: "'d named_item"
  assume *: "seg_chain True h s xs" "name_place h xs n i"
  obtain r s' where "name_fetchNext e h i s = (r, s')"
    by fastforce
  with name_fetch [OF * this] show "\<exists>o' s'. name_fetchNext e h i s = (Inr o', s')"
    by auto
qed

end

locale offset_memory = shared_memory e h False for e :: "('d, 'x) shm" and h :: "'d shm_chain"
begin

lemma offset_fetch:
  assumes "seg_chain False h s xs" and "offset_place h xs n i" and "offset_fetchNext e h i s = (r, s')"
  shows "\<exists>ys. seg_chain False h s' (xs @ ys) \<and> (r = Inr None \<and> n = length xs \<or>
    (\<exists>j. r = Inr (Some j) \<and> n < length (xs @ ys) \<and> offset_place h (xs @ ys) (Suc n) j \<and> actualData h s' j = Some (snd (snd ((xs @ ys) ! n)))))"
proof -
  have name: "\<exists>ys. r1 = Inr (fst (zs ! m) - headPtr h) \<and> seg_chain False h t1 (zs @ ys)"
    if "seg_chain False h t zs" and "m < length zs" "returnS (fst (zs ! m) - headPtr h) t = (r1, t1)" for t zs m r1 t1
    using that by (intro exI [of _ "[]"]) (simp add: returnS_def)
  have p: "n \<le> length xs" "ptr i = (headPtr h # map fst xs) ! n"
    using assms(2) by (simp_all add: offset_place_def)
  from fetch_owned [OF name assms(1) p assms(3) [unfolded offset_fetchNext_def]]
  show ?thesis
    by (fastforce simp: offset_place_def nth_append)
qed

lemma offset_write:
  assumes "seg_chain False h s xs" and "offset_place h xs n i" and "offset_writable h ds" and "ds \<noteq> []" and "offset_write_items e h i ds s = (r, s')"
  shows "\<exists>ys. r = Inr True \<and> n = length (xs @ ys) \<and> (\<exists>es. map (\<lambda>x. snd (snd x)) es = ds \<and> seg_chain False h s' (xs @ ys @ es))
    \<or> r = Inr False \<and> n < length (xs @ ys) \<and> seg_chain False h s' (xs @ ys) \<and> built s' \<subseteq> built s
    \<or> (\<exists>x. r = Inl x \<and> shm_failure False x) \<and> seg_chain False h s' (xs @ ys)"
proof -
  have "\<forall>x \<in> set ds. offset_formChainItem e h x = form_item e h None (\<lambda>p. p - headPtr h) x \<and> length (shm_encode h x) < 2 ^ 64
      \<and> (None \<noteq> (None :: string option)) = False"
    using assms(3) by (auto simp: offset_formChainItem_def offset_writable_def)
  moreover have "n \<le> length xs" "ptr i = (headPtr h # map fst xs) ! n"
    using assms(2) by (simp_all add: offset_place_def)
  moreover have "map (\<lambda>x. snd (snd x)) es = ds" if "map snd es = map (\<lambda>x. (None, x)) ds" for es :: "'d shm_entry list"
  proof -
    have "map (\<lambda>x. snd (snd x)) es = map snd (map snd es)"
      by simp
    then show ?thesis
      by (simp add: that comp_def)
  qed
  ultimately show ?thesis
    using write_items_owned [of ds "offset_formChainItem e h" "\<lambda>_. None" "\<lambda>_ p. p - headPtr h" "\<lambda>x. x" s xs n i r s'] assms(1,4,5)
    unfolding offset_write_items_def offset_formChainItems_def by blast
qed

sublocale chain: readable_chain "seg_chain False h" "offset_place h" "\<lambda>x. snd (snd x)" "actualData h" "offset_writable h"
    "offset_head e h" "offset_fetchNext e h" "offset_write_items e h"
proof unfold_locales
  fix s and xs :: "'d shm_entry list"
  show "seg_chain False h s xs \<Longrightarrow> distinct xs"
    by (simp add: seg_chain_def distinct_map)
next
  fix xs n and i :: "'d offset_item"
  show "offset_place h xs n i \<Longrightarrow> n \<le> length xs" by (simp add: offset_place_def)
next
  fix xs ys n and i :: "'d offset_item"
  show "offset_place h xs n i \<Longrightarrow> offset_place h (xs @ ys) n i"
    unfolding offset_place_def by (simp only: nth_extend) simp
next
  fix s xs r s'
  assume "seg_chain False h s xs" "offset_head e h s = (r, s')"
  from item_from_head [OF this [unfolded offset_head_def fromPtr_def]]
  show "\<exists>ys. seg_chain False h s' (xs @ ys) \<and> (\<forall>i. r = Inr i \<longrightarrow> offset_place h (xs @ ys) 0 i)"
    by (auto simp: offset_place_def)
next
  fix s xs n i r s'
  assume "seg_chain False h s xs" "offset_place h xs n i" "offset_fetchNext e h i s = (r, s')"
  from offset_fetch [OF this] show "\<exists>ys. seg_chain False h s' (xs @ ys) \<and> (r = Inr None \<longrightarrow> n = length xs) \<and>
      (\<forall>j. r = Inr (Some j) \<longrightarrow> n < length (xs @ ys) \<and> offset_place h (xs @ ys) (Suc n) j \<and> actualData h s' j = Some (snd (snd ((xs @ ys) ! n))))"
    by auto
next
  fix s xs n i ds r s'
  assume "seg_chain False h s xs" "offset_place h xs n i" "offset_writable h ds" "ds \<noteq> []" "offset_write_items e h i ds s = (r, s')"
  from offset_write [OF this] show "\<exists>ys. (r = Inr True \<longrightarrow> n = length (xs @ ys) \<and> (\<exists>es. map (\<lambda>x. snd (snd x)) es = ds \<and> seg_chain False h s' (xs @ ys @ es))) \<and>
      (r = Inr False \<longrightarrow> seg_chain False h s' (xs @ ys)) \<and> (\<forall>x. r = Inl x \<longrightarrow> seg_chain False h s' (xs @ ys))"
    by auto
next
  fix s :: "('d, 'x) segment" and xs :: "'d shm_entry list"
  assume *: "seg_chain False h s xs"
  obtain r s' where "offset_head e h s = (r, s')"
    by fastforce
  with item_from_head [OF * this [unfolded offset_head_def fromPtr_def]] show "\<exists>i s'. offset_head e h s = (Inr i, s')"
    by auto
next
  fix s :: "('d, 'x) segment" and xs n and i :: "'d offset_item"
  assume *: "seg_chain False h s xs" "offset_place h xs n i"
  obtain r s' where "offset_fetchNext e h i s = (r, s')"
    by fastforce
  with offset_fetch [OF * this] show "\<exists>o' s'. offset_fetchNext e h i s = (Inr o', s')"
    by auto
qed

end

section \<open>What follows from the contract\<close>

context named_memory
begin

lemma name_single_winner:
  assumes "seg_chain True h s xs" and "name_place h xs n i" "name_place h xs n j"
    and "name_writable h ds" "ds \<noteq> []" "name_writable h es" "es \<noteq> []"
    and "name_write_items e h i ds s = (Inr True, s1)" and "\<forall>zs. seg_chain True h s1 zs \<longrightarrow> (\<exists>ys. seg_chain True h s2 (zs @ ys))"
    and "name_write_items e h j es s2 = (r, s3)"
  shows "r \<noteq> Inr True"
  using chain.append_once [OF assms(1-8) _ assms(10)] assms(9) by blast

lemmas name_read_all = chain.read_all

end

context offset_memory
begin

lemmas offset_read_all = chain.read_all

end

text \<open>Destroying unlinked items, for both forms.\<close>

context shared_memory
begin

lemma destroy_returns:
  assumes "owns nmd h s xs (region s (map fst ps))" and "private_items nmd h s ps" "ps \<noteq> []"
  shows "\<exists>ys s'. destroyPtr_run e h (fst (hd ps)) s = Some (Inr (), s') \<and> seg_chain nmd h s' (xs @ ys) \<and> built s' = built s - region s (map fst ps)"
proof -
  have o: "owns nmd h s xs (region s (map fst ps) \<union> {})" "region s (map fst ps) \<inter> {} = {}"
    using assms(1) by simp_all
  obtain ys s' where "destroyPtr_run e h (fst (hd ps)) s = Some (Inr (), s')" "owns nmd h s' (xs @ ys) {}" "built s' = built s - region s (map fst ps)"
    by (rule destroy_items [OF o(1) assms(2,3) o(2)])
  then show ?thesis
    by (auto simp: owns_none)
qed

end

end
