(* ===== verification/SharedMemoryWriters.thy ===== *)
theory SharedMemoryWriters
  imports SharedMemoryChain
begin

text \<open>
  What writers and readers of a chain in shared memory can rely on, with an example in which another process appends between our accesses.
\<close>

section \<open>A rival\<close>

text \<open>
  A chain of characters kept in the nodes. The rival has a node of its own at the address 32768, which it links to the head of the chain as
  soon as it finds the chain empty.
\<close>

definition rival_chain :: "char shm_chain" where
  "rival_chain = \<lparr>inline_data = True, ForceSeparate = False, headPtr = 4096, hookPair = None,
     codec = \<lparr>encode = (\<lambda>c. [c]), decode = (\<lambda>s. if length s = 1 then Some (hd s) else None)\<rparr>\<rparr>"

definition rival_may_append :: "(char, unit) segment \<Rightarrow> bool" where
  "rival_may_append s \<longleftrightarrow> objects s 32768 = None \<and> 32768 \<notin> built s \<and> names s ''rival'' = None
     \<and> (case objects s 4096 of Some (_, StorageItem nd) \<Rightarrow> nnext nd = 0 | _ \<Rightarrow> False)"

definition rival_step :: "(char, unit) segment \<Rightarrow> (char, unit) segment" where
  "rival_step s =
     (if rival_may_append s
      then (case objects s 4096 of
          Some (nm, StorageItem nd) \<Rightarrow>
            s\<lparr>objects := (objects s)(32768 \<mapsto> (Some ''rival'', StorageItem \<lparr>ndata = Inline (CHR ''r''), nnext = 0\<rparr>),
                4096 \<mapsto> (nm, StorageItem (nd\<lparr>nnext := 32768 - 4096\<rparr>))),
              names := (names s)(''rival'' \<mapsto> 32768)\<rparr>
        | _ \<Rightarrow> s)
      else s)"

definition rival_shm :: "(char, unit) shm" where
  "rival_shm = \<lparr>allocate = (\<lambda>s. List.find (\<lambda>a. objects s a = None) [4096, 8192, 12288, 16384, 20480, 24576, 28672]), others = rival_step\<rparr>"

lemma rival_allowed: "others_allowed True rival_chain s (rival_step s)"
proof (cases "rival_may_append s")
  case False
  then have "rival_step s = s"
    by (simp add: rival_step_def)
  then show ?thesis
    unfolding others_allowed_def by (auto intro!: exI [of _ "[]"])
next
  case True
  then obtain nm nd where nd: "objects s 4096 = Some (nm, StorageItem nd)" "nnext nd = 0" "objects s 32768 = None" "32768 \<notin> built s"
      "names s ''rival'' = None"
    by (cases "objects s 4096"; cases "snd (the (objects s 4096))") (auto simp: rival_may_append_def)
  have s': "rival_step s = s\<lparr>objects := (objects s)(32768 \<mapsto> (Some ''rival'', StorageItem \<lparr>ndata = Inline (CHR ''r''), nnext = 0\<rparr>),
      4096 \<mapsto> (nm, StorageItem (nd\<lparr>nnext := 32768 - 4096\<rparr>))), names := (names s)(''rival'' \<mapsto> 32768)\<rparr>"
    using True nd(1) by (simp add: rival_step_def)
  have "\<exists>ys. seg_chain True rival_chain (rival_step s) (xs @ ys) \<and> same_on (built s - footprint rival_chain s xs) s (rival_step s)
        \<and> footprint rival_chain (rival_step s) (xs @ ys) \<inter> (built s - footprint rival_chain s xs) = {}
        \<and> (\<forall>a \<in> footprint rival_chain s xs. fixed_part (objects (rival_step s) a) = fixed_part (objects s a))"
    if c: "seg_chain True rival_chain s xs" for xs
  proof -
    have head: "headPtr rival_chain = 4096" "inline_data rival_chain"
      by (simp_all add: rival_chain_def)
    have "xs = []"
      using c nd(1,2) by (cases xs) (auto simp: seg_chain_def head)
    obtain d where d: "ndata nd = Inline d"
      using c nd(1) by (auto simp: seg_chain_def head)
    let ?y = "(32768, Some ''rival'', CHR ''r'') :: char shm_entry"
    have cl: "cells s 4096 = {4096}" "cells (rival_step s) 4096 = {4096}" "cells (rival_step s) 32768 = {32768}"
      using nd(1) d by (simp_all add: cells_def s')
    have "seg_chain True rival_chain (rival_step s) [?y]"
      using d nd by (simp add: seg_chain_def head s' item_ok_def value_at_def)
    moreover have "same_on (built s - {4096}) s (rival_step s)"
      using nd by (auto simp: same_on_def s')
    moreover have "fixed_part (objects (rival_step s) 4096) = fixed_part (objects s 4096)"
      using nd by (simp add: fixed_part_def s')
    ultimately show ?thesis
      using nd(4) by (intro exI [of _ "[?y]"]) (simp add: \<open>xs = []\<close> head cl)
  qed
  then show ?thesis
    unfolding others_allowed_def by (simp add: s')
qed

interpretation rival: named_memory rival_shm rival_chain
  by unfold_locales (auto simp: rival_shm_def rival_allowed, auto simp: rival_chain_def shm_encode_def shm_decode_def split: if_splits)

definition rival_segment :: "(char, unit) segment" where
  "rival_segment = \<lparr>objects = [4096 \<mapsto> (None, StorageItem \<lparr>ndata = Inline (CHR ''h''), nnext = 0\<rparr>)], names = Map.empty, built = {}\<rparr>"

definition rival_head :: "char named_item" where
  "rival_head = \<lparr>ptr = 4096, item_id = '''', parsed = None\<rparr>"

lemma rival_start: "seg_chain True rival_chain rival_segment []" "name_place rival_chain [] 0 rival_head"
  by (simp_all add: seg_chain_def name_place_def rival_segment_def rival_chain_def rival_head_def)

lemma destroyPtr_none [simp]: "destroyPtr_run e h 0 s = Some (Inr (), s)"
  by (simp add: destroyPtr_run.simps)

section \<open>Writers\<close>

text \<open>
  C3: Writing items after a place of the chain, with anything others do between our accesses, has one of three outcomes: they are at the end of
  the chain, in order and all at once, and their place was the last; or others came first, and everything constructed for them is freed; or
  their construction threw because the segment is full or a name is in use. Nothing that was on the chain is ever lost.
\<close>

theorem shm_append:
  assumes "named_memory e h" and "seg_chain True h s xs" and "name_place h xs n i" and "name_writable h ds" and "ds \<noteq> []"
    and "name_write_items e h i ds s = (r, s')"
  shows "\<exists>ys. r = Inr True \<and> n = length (xs @ ys) \<and> (\<exists>es. map name_shown es = ds \<and> seg_chain True h s' (xs @ ys @ es))
    \<or> r = Inr False \<and> n < length (xs @ ys) \<and> seg_chain True h s' (xs @ ys) \<and> built s' \<subseteq> built s
    \<or> (\<exists>x. r = Inl x \<and> shm_failure True x) \<and> seg_chain True h s' (xs @ ys)"
  using named_memory.name_write [OF assms] .

theorem shm_append_witness:
  "fst (name_write_items rival_shm rival_chain rival_head [(''a'', CHR ''a'')] rival_segment) = Inr False \<and>
   (\<exists>ys. ys \<noteq> [] \<and> seg_chain True rival_chain (snd (name_write_items rival_shm rival_chain rival_head [(''a'', CHR ''a'')] rival_segment)) ys)"
proof -
  obtain r s' where w: "name_write_items rival_shm rival_chain rival_head [(''a'', CHR ''a'')] rival_segment = (r, s')"
    by fastforce
  have "fst (name_write_items rival_shm rival_chain rival_head [(''a'', CHR ''a'')] rival_segment) = Inr False"
    by (code_simp, subst destroyPtr_run.simps, code_simp)
  moreover have "name_writable rival_chain [(''a'', CHR ''a'')]"
    by (simp add: name_writable_def nul_free_def rival_chain_def shm_encode_def)
  ultimately show ?thesis
    using shm_append [OF rival.named_memory_axioms rival_start _ _ w] w by fastforce
qed

text \<open>
  Of two writers at one place of the chain, the one that comes after the other, however much later, does not succeed.
\<close>

theorem shm_single_winner:
  assumes "named_memory e h" and "seg_chain True h s xs" and "name_place h xs n i" "name_place h xs n j"
    and "name_writable h ds" "ds \<noteq> []" "name_writable h es" "es \<noteq> []"
    and "name_write_items e h i ds s = (Inr True, s1)" and "\<forall>zs. seg_chain True h s1 zs \<longrightarrow> (\<exists>ys. seg_chain True h s2 (zs @ ys))"
    and "name_write_items e h j es s2 = (r, s3)"
  shows "r \<noteq> Inr True"
  by (rule named_memory.name_single_winner [OF assms])

lemma others_idle: "others_allowed nmd h s s"
  unfolding others_allowed_def by (auto intro!: exI [of _ "[]"])

interpretation idle: named_memory "sample_shm :: (char, unit) shm" rival_chain
  by unfold_locales (auto simp: sample_shm_def others_idle, auto simp: rival_chain_def shm_encode_def shm_decode_def split: if_splits)

theorem shm_single_winner_witness:
  "fst (name_write_items sample_shm rival_chain rival_head [(''b'', CHR ''b'')]
     (snd (name_write_items sample_shm rival_chain rival_head [(''a'', CHR ''a'')] rival_segment))) \<noteq> Inr True"
proof -
  let ?w = "name_write_items sample_shm rival_chain rival_head [(''a'', CHR ''a'')] rival_segment"
  obtain r s1 where w: "?w = (r, s1)"
    by fastforce
  have "fst ?w = Inr True"
    by code_simp
  then have w1: "?w = (Inr True, s1)"
    using w by simp
  obtain r2 s3 where w2: "name_write_items sample_shm rival_chain rival_head [(''b'', CHR ''b'')] s1 = (r2, s3)"
    by fastforce
  have "name_writable rival_chain [(''a'', CHR ''a'')]" "name_writable rival_chain [(''b'', CHR ''b'')]"
    by (simp_all add: name_writable_def nul_free_def rival_chain_def shm_encode_def)
  moreover have "\<forall>zs. seg_chain True rival_chain s1 zs \<longrightarrow> (\<exists>ys. seg_chain True rival_chain s1 (zs @ ys))"
    by (metis append_Nil2)
  ultimately have "r2 \<noteq> Inr True"
    using shm_single_winner [OF idle.named_memory_axioms rival_start(1,2,2) _ _ _ _ w1 _ w2] by blast
  then show ?thesis
    using w w2 by simp
qed

section \<open>Freeing\<close>

text \<open>
  C4: Destroying items that were not linked to the chain always returns, for any number of items and with anything others do between our
  accesses; it frees every object the items consist of and leaves the chain alone.
\<close>

theorem destroyPtr_ends:
  assumes "shared_memory e h nmd" and "owns nmd h s xs (region s (map fst ps))" and "private_items nmd h s ps" and "ps \<noteq> []"
  shows "\<exists>ys s'. destroyPtr_run e h (fst (hd ps)) s = Some (Inr (), s') \<and> destroyPtr e h (fst (hd ps)) s = (Inr (), s')
    \<and> seg_chain nmd h s' (xs @ ys) \<and> built s' = built s - region s (map fst ps)"
  using shared_memory.destroy_returns [OF assms] by (auto simp: destroyPtr_def)

text \<open>Two linked items, at 8192 and 12288, next to the empty chain.\<close>

definition two_items :: "(char, unit) segment" where
  "two_items = \<lparr>objects = [4096 \<mapsto> (None, StorageItem \<lparr>ndata = Inline (CHR ''h''), nnext = 0\<rparr>),
     8192 \<mapsto> (Some ''a'', StorageItem \<lparr>ndata = Inline (CHR ''a''), nnext = 4096\<rparr>),
     12288 \<mapsto> (Some ''b'', StorageItem \<lparr>ndata = Inline (CHR ''b''), nnext = 0\<rparr>)],
     names = [''a'' \<mapsto> 8192, ''b'' \<mapsto> 12288], built = {8192, 12288}\<rparr>"

theorem destroyPtr_ends_witness:
  "\<exists>s'. destroyPtr rival_shm rival_chain 8192 two_items = (Inr (), s') \<and> built s' = {}"
proof -
  let ?ps = "[(8192, Some ''a'', CHR ''a''), (12288, Some ''b'', CHR ''b'')] :: char shm_entry list"
  have c: "cells two_items 8192 = {8192}" "cells two_items 12288 = {12288}" "cells two_items 4096 = {4096}"
    by (simp_all add: cells_def two_items_def)
  have "seg_chain True rival_chain two_items []"
    by (simp add: seg_chain_def two_items_def rival_chain_def)
  then have "owns True rival_chain two_items [] (region two_items (map fst ?ps))"
    using c by (simp add: owns_def rival_chain_def) (simp add: two_items_def)
  moreover have "private_items True rival_chain two_items ?ps"
    unfolding private_items_def using c by (simp add: two_items_def item_ok_def value_at_def rival_chain_def)
  ultimately obtain s' where s': "destroyPtr rival_shm rival_chain (fst (hd ?ps)) two_items = (Inr (), s')"
      "built s' = built two_items - region two_items (map fst ?ps)"
    using destroyPtr_ends [OF rival.shared_memory_axioms, of two_items "[]" ?ps] by blast
  have "built s' = {}"
    using s'(2) c by (simp add: two_items_def)
  then show ?thesis
    using s'(1) unfolding list.sel fst_conv by blast
qed

section \<open>Readers\<close>

text \<open>
  C18: A reader that starts at the head and follows the offsets finds everything that was on the chain, in order, whatever others append
  meanwhile; no call throws.
\<close>

theorem shm_read_all:
  assumes "offset_memory e h" and "seg_chain False h s xs" and "length xs \<le> fuel"
  shows "\<exists>hd s1 cs j s2 ys. offset_head e h s = (Inr hd, s1) \<and> follow (offset_fetchNext e h) (actualData h) fuel hd s1 = (Inr (cs, j), s2)
    \<and> seg_chain False h s2 (xs @ ys) \<and> cs = map (\<lambda>x. snd (snd x)) (take (length cs) (xs @ ys)) \<and> length xs \<le> length cs"
  by (rule offset_memory.offset_read_all [OF assms])

interpretation offsets: offset_memory "sample_shm :: (string, unit) shm" bytes_chain
  by unfold_locales (auto simp: sample_shm_def others_idle shm_encode_def shm_decode_def bytes_chain_def tagged_string.hook_roundtrip split: if_splits)

text \<open>A chain of one text, with its bytes apart from its node.\<close>

definition one_text :: "(string, unit) segment" where
  "one_text = \<lparr>objects = [4096 \<mapsto> (Some ''head'', StorageItem \<lparr>ndata = Separate 0, nnext = 4096\<rparr>),
     8192 \<mapsto> (None, StorageItem \<lparr>ndata = Separate 4096, nnext = 0\<rparr>),
     12288 \<mapsto> (None, CharArray (sized (''tstext'')))], names = [''head'' \<mapsto> 4096], built = {}\<rparr>"

theorem shm_read_all_witness:
  "\<exists>hd s1 cs j s2. offset_head sample_shm bytes_chain one_text = (Inr hd, s1)
     \<and> follow (offset_fetchNext sample_shm bytes_chain) (actualData bytes_chain) 3 hd s1 = (Inr (cs, j), s2) \<and> take 1 cs = [''text'']"
proof -
  have "shm_decode bytes_chain (unsized (sized ''tstext'')) = Some ''text''"
    by code_simp
  then have "seg_chain False bytes_chain one_text [(8192, None, ''text'')]"
    by (simp add: seg_chain_def one_text_def bytes_chain_def item_ok_def value_at_def object_at_def)
  from shm_read_all [OF offsets.offset_memory_axioms this, of 3]
  obtain hd s1 cs j s2 ys where "offset_head sample_shm bytes_chain one_text = (Inr hd, s1)"
    "follow (offset_fetchNext sample_shm bytes_chain) (actualData bytes_chain) 3 hd s1 = (Inr (cs, j), s2)"
    "cs = map (\<lambda>x. snd (snd x)) (take (length cs) ([(8192, None, ''text'') :: string shm_entry] @ ys))" "1 \<le> length cs"
    by auto
  then show ?thesis
    by (intro exI [of _ hd] exI [of _ s1] exI [of _ cs] exI [of _ j] exI [of _ s2]) (cases cs; simp)
qed

end
