(* ===== verification/SharedMemoryExtra.thy ===== *)
theory SharedMemoryExtra
  imports SharedMemory
begin

text \<open>
  Extra data next to a chain in shared memory (\<open>saveExtraData\<close>, \<open>loadExtraData\<close>, \<open>saveExtraBytes\<close> and \<open>loadExtraBytes\<close> of
  LockFreeInBoostSharedMemoryChain.hpp), with the strategies that protect it. The two forms of the chain have the same code here. Extra data
  is found by name, among the names of all objects of the segment.
\<close>

datatype BoostSharedMemoryChainExtraDataProtectionStrategy =
  DontSupportExtraData | LockFreeAndWasteMemory | MutexProtected | SpinLockProtected | Unsafe

type_synonym protection = BoostSharedMemoryChainExtraDataProtectionStrategy

fun as_offset :: "('d, 'x) object \<Rightarrow> 64 word option" where
  "as_offset (OffsetCell w) = Some w"
| "as_offset _ = None"

fun as_value :: "('d, 'x) object \<Rightarrow> 'x option" where
  "as_value (ExtraValue x) = Some x"
| "as_value _ = None"

text \<open>
  The bytes of an object: an offset has some too. A \<open>basic::ByteDataView\<close> is the address of an object, a position in its bytes and a length;
  its bytes are read when it is used.
\<close>

fun raw_bytes :: "('d, 'x) object \<Rightarrow> string option" where
  "raw_bytes (CharArray c) = Some c"
| "raw_bytes (OffsetCell w) = Some (bytes_of_nat 8 (unat w))"
| "raw_bytes _ = None"

record byte_view =
  view_object :: addr
  view_start :: nat
  view_length :: nat

definition read_size :: "('d, 'x) object \<Rightarrow> nat option" where
  "read_size ob = (case raw_bytes ob of Some c \<Rightarrow> if 8 \<le> length c then Some (nat_of_bytes (take 8 c)) else None | None \<Rightarrow> None)"

definition view_bytes :: "byte_view \<Rightarrow> ('d, 'x) object \<Rightarrow> string option" where
  "view_bytes v ob = (case raw_bytes ob of
     Some c \<Rightarrow> if view_start v + view_length v \<le> length c then Some (take (view_length v) (drop (view_start v) c)) else None
   | None \<Rightarrow> None)"

text \<open>What is done under a lock that all users of the data take happens in one step.\<close>

definition locked :: "('d, 'x) shm \<Rightarrow> (('d, 'x) shm \<Rightarrow> ('d, 'x, 'a) shm_call) \<Rightarrow> ('d, 'x, 'a) shm_call" where
  "locked e m = (\<lambda>s. m (e\<lparr>others := \<lambda>t. t\<rparr>) (others e s))"

text \<open>\<open>find<char>\<close> gives the array with its length; both are one access.\<close>

definition find_chars :: "('d, 'x) shm \<Rightarrow> string \<Rightarrow> ('d, 'x, (addr \<times> string) option) shm_call" where
  "find_chars e nm = (\<lambda>s0. let s = others e s0 in
     case names s nm of
       None \<Rightarrow> (Inr None, s)
     | Some p \<Rightarrow> (case Option.bind (object_at s p) as_chars of Some c \<Rightarrow> (Inr (Some (p, c)), s) | None \<Rightarrow> (Inl UndefinedBehaviour, s)))"

definition point_to :: "('d, 'x) shm \<Rightarrow> string \<Rightarrow> addr \<Rightarrow> ('d, 'x, unit) shm_call" where
  "point_to e key p =
     bindS (find_or_construct e (c_str key) (OffsetCell 0)) (\<lambda>loc.
       write_object e (\<lambda>ob. map_option (\<lambda>_. OffsetCell (p - loc)) (as_offset ob)) loc)"

definition overwrite_chars :: "('d, 'x) shm \<Rightarrow> string \<Rightarrow> string \<Rightarrow> ('d, 'x, unit) shm_call" where
  "overwrite_chars e key content =
     (let fresh = construct e (Some (c_str key)) (CharArray (replicate (length content) (CHR 0x00))) in
      bindS (find_chars e (c_str key)) (\<lambda>old.
      bindS (case old of
               Some (p, c) \<Rightarrow> if length c \<noteq> length content then bindS (destroy_ptr e p) (\<lambda>_. fresh) else returnS p
             | None \<Rightarrow> fresh) (\<lambda>p.
        write_object e (\<lambda>ob. map_option (\<lambda>_. CharArray content) (as_chars ob)) p)))"

definition saveExtraBytes_internal :: "('d, 'x) shm \<Rightarrow> protection \<Rightarrow> string \<Rightarrow> string \<Rightarrow> ('d, 'x, unit) shm_call" where
  "saveExtraBytes_internal e edps key content =
     (case edps of
        LockFreeAndWasteMemory \<Rightarrow>
          bindS (construct e None (CharArray (replicate (length content + 8) (CHR 0x00)))) (\<lambda>p.
          bindS (write_object e (\<lambda>ob. map_option (\<lambda>_. CharArray (sized content)) (as_chars ob)) p) (\<lambda>_. point_to e key p))
      | MutexProtected \<Rightarrow> locked e (\<lambda>e. overwrite_chars e key content)
      | SpinLockProtected \<Rightarrow> locked e (\<lambda>e. overwrite_chars e key content)
      | Unsafe \<Rightarrow> overwrite_chars e key content
      | DontSupportExtraData \<Rightarrow> returnS ())"

definition saveExtraBytes :: "('d, 'x) shm \<Rightarrow> 'd shm_chain \<Rightarrow> protection \<Rightarrow> string \<Rightarrow> string \<Rightarrow> ('d, 'x, unit) shm_call" where
  "saveExtraBytes e h edps key content =
     (case Option.bind (hookPair h) userToWire of
        Some f \<Rightarrow> saveExtraBytes_internal e edps key (f content)
      | None \<Rightarrow> saveExtraBytes_internal e edps key content)"

definition find_view :: "('d, 'x) shm \<Rightarrow> string \<Rightarrow> ('d, 'x, byte_view option) shm_call" where
  "find_view e key =
     bindS (find_chars e (c_str key)) (\<lambda>p. returnS (map_option (\<lambda>(p, c). \<lparr>view_object = p, view_start = 0, view_length = length c\<rparr>) p))"

definition loadExtraBytes_internal :: "('d, 'x) shm \<Rightarrow> protection \<Rightarrow> string \<Rightarrow> ('d, 'x, byte_view option) shm_call" where
  "loadExtraBytes_internal e edps key =
     (case edps of
        LockFreeAndWasteMemory \<Rightarrow>
          bindS (find_name e (c_str key)) (\<lambda>loc.
            if loc = 0 then returnS None
            else bindS (read_object e as_offset loc) (\<lambda>diff.
              bindS (read_object e read_size (loc + diff)) (\<lambda>sz.
                returnS (Some \<lparr>view_object = loc + diff, view_start = 8, view_length = sz\<rparr>))))
      | MutexProtected \<Rightarrow> locked e (\<lambda>e. find_view e key)
      | SpinLockProtected \<Rightarrow> locked e (\<lambda>e. find_view e key)
      | Unsafe \<Rightarrow> find_view e key
      | DontSupportExtraData \<Rightarrow> returnS None)"

text \<open>The view is used here, after the lock is released.\<close>

definition loadExtraBytes :: "('d, 'x) shm \<Rightarrow> 'd shm_chain \<Rightarrow> protection \<Rightarrow> string \<Rightarrow> ('d, 'x, string option) shm_call" where
  "loadExtraBytes e h edps key =
     bindS (loadExtraBytes_internal e edps key) (\<lambda>b.
       case b of
         None \<Rightarrow> returnS None
       | Some v \<Rightarrow> bindS (read_object e (view_bytes v) (view_object v)) (\<lambda>x.
           returnS (case Option.bind (hookPair h) wireToUser of Some f \<Rightarrow> f x | None \<Rightarrow> Some x)))"

text \<open>Typed extra data: a trivially copyable value is kept as it is, another one as its bytes. \<open>cx\<close> is the serializer of its type.\<close>

definition overwrite_value :: "('d, 'x) shm \<Rightarrow> string \<Rightarrow> 'x \<Rightarrow> 'x \<Rightarrow> ('d, 'x, unit) shm_call" where
  "overwrite_value e key dflt x =
     bindS (find_or_construct e (c_str key) (ExtraValue dflt)) (\<lambda>p.
       write_object e (\<lambda>ob. map_option (\<lambda>_. ExtraValue x) (as_value ob)) p)"

definition saveExtraData :: "('d, 'x) shm \<Rightarrow> 'd shm_chain \<Rightarrow> protection \<Rightarrow> bool \<Rightarrow> 'x serializer \<Rightarrow> 'x \<Rightarrow> string \<Rightarrow> 'x \<Rightarrow> ('d, 'x, unit) shm_call" where
  "saveExtraData e h edps trivial cx dflt key x =
     (if trivially_copyable_inline trivial (ForceSeparate h) then
        (case edps of
           LockFreeAndWasteMemory \<Rightarrow> bindS (construct e None (ExtraValue x)) (\<lambda>p. point_to e key p)
         | MutexProtected \<Rightarrow> locked e (\<lambda>e. overwrite_value e key dflt x)
         | SpinLockProtected \<Rightarrow> locked e (\<lambda>e. overwrite_value e key dflt x)
         | Unsafe \<Rightarrow> overwrite_value e key dflt x
         | DontSupportExtraData \<Rightarrow> returnS ())
      else saveExtraBytes e h edps key (encode cx x))"

definition read_value :: "('d, 'x) shm \<Rightarrow> string \<Rightarrow> ('d, 'x, 'x option) shm_call" where
  "read_value e key =
     bindS (find_name e (c_str key)) (\<lambda>p. if p = 0 then returnS None else bindS (read_object e as_value p) (\<lambda>x. returnS (Some x)))"

definition loadExtraData :: "('d, 'x) shm \<Rightarrow> 'd shm_chain \<Rightarrow> protection \<Rightarrow> bool \<Rightarrow> 'x serializer \<Rightarrow> string \<Rightarrow> ('d, 'x, 'x option) shm_call" where
  "loadExtraData e h edps trivial cx key =
     (if trivially_copyable_inline trivial (ForceSeparate h) then
        (case edps of
           DontSupportExtraData \<Rightarrow> returnS None
         | LockFreeAndWasteMemory \<Rightarrow>
             bindS (find_name e (c_str key)) (\<lambda>loc.
               if loc = 0 then returnS None
               else bindS (read_object e as_offset loc) (\<lambda>diff.
                 bindS (read_object e as_value (loc + diff)) (\<lambda>x. returnS (Some x))))
         | MutexProtected \<Rightarrow> locked e (\<lambda>e. read_value e key)
         | SpinLockProtected \<Rightarrow> locked e (\<lambda>e. read_value e key)
         | Unsafe \<Rightarrow> read_value e key)
      else bindS (loadExtraBytes e h edps key) (\<lambda>b. returnS (Option.bind b (decode cx))))"

section \<open>What is saved is loaded\<close>

text \<open>The name of the data is free, or it is that of an object which the strategy keeps there.\<close>

definition extra_ok :: "('d, 'x) segment \<Rightarrow> protection \<Rightarrow> string \<Rightarrow> bool" where
  "extra_ok s edps key \<longleftrightarrow> (case names s (c_str key) of
     None \<Rightarrow> True
   | Some p \<Rightarrow> (case object_at s p of
       Some (OffsetCell w) \<Rightarrow> edps = LockFreeAndWasteMemory
     | Some (CharArray c) \<Rightarrow> edps \<noteq> LockFreeAndWasteMemory \<and> (\<exists>x. objects s p = Some (Some (c_str key), x))
     | _ \<Rightarrow> False))"

definition alone :: "('d, 'x) shm \<Rightarrow> bool" where
  "alone e \<longleftrightarrow> (\<forall>s. others e s = s) \<and> (\<forall>s p. allocate e s = Some p \<longrightarrow> p \<noteq> 0 \<and> objects s p = None)"

lemma alone_quiet: "alone e \<Longrightarrow> e\<lparr>others := \<lambda>t. t\<rparr> = e"
  by (cases e) (simp add: alone_def fun_eq_iff)

lemma alone_locked: "alone e \<Longrightarrow> locked e m = m e"
  by (simp add: locked_def alone_quiet fun_eq_iff) (simp add: alone_def)

lemma alone_construct:
  assumes "alone e" and "construct e nm ob s = (Inr p, s')"
  shows "p \<noteq> 0 \<and> objects s p = None \<and> Option.bind nm (names s) = None \<and> objects s' = (objects s)(p \<mapsto> (nm, ob))
    \<and> names s' = (case nm of Some n \<Rightarrow> (names s)(n \<mapsto> p) | None \<Rightarrow> names s)"
  using assms by (auto simp: alone_def construct_def place_object_def Let_def split: if_splits option.splits)

lemma alone_find_or_construct:
  assumes "alone e" and "find_or_construct e n ob s = (Inr p, s')"
  shows "names s n = Some p \<and> s' = s \<or> names s n = None \<and> p \<noteq> 0 \<and> objects s p = None \<and> objects s' = (objects s)(p \<mapsto> (Some n, ob))
    \<and> names s' = (names s)(n \<mapsto> p)"
  using assms by (auto simp: alone_def find_or_construct_def place_object_def Let_def split: if_splits option.splits)

lemma alone_read: "alone e \<Longrightarrow> read_object e f p s = (case Option.bind (object_at s p) f of Some a \<Rightarrow> (Inr a, s) | None \<Rightarrow> (Inl UndefinedBehaviour, s))"
  by (simp add: alone_def read_object_def)

lemma alone_write: "alone e \<Longrightarrow> write_object e f p s =
    (case Option.bind (object_at s p) f of Some ob \<Rightarrow> (Inr (), put_object p ob s) | None \<Rightarrow> (Inl UndefinedBehaviour, s))"
  by (simp add: alone_def write_object_def)

lemma alone_find: "alone e \<Longrightarrow> find_name e n s = (Inr (case names s n of Some p \<Rightarrow> p | None \<Rightarrow> 0), s)"
  by (simp add: alone_def find_name_def)

lemma alone_find_chars: "alone e \<Longrightarrow> find_chars e n s = (case names s n of
     None \<Rightarrow> (Inr None, s)
   | Some p \<Rightarrow> (case Option.bind (object_at s p) as_chars of Some c \<Rightarrow> (Inr (Some (p, c)), s) | None \<Rightarrow> (Inl UndefinedBehaviour, s)))"
  by (simp add: alone_def find_chars_def)

lemmas alone_simps = alone_read alone_write alone_find alone_find_chars alone_locked

text \<open>Bytes that are published without a lock are found through the offset.\<close>

lemma point_to_loads:
  assumes e: "alone e" and p: "p \<noteq> 0" "objects s p = Some (None, ob)" "as_offset ob = None" and ok: "extra_ok s LockFreeAndWasteMemory key"
    and pt: "point_to e key p s = (Inr (), s')"
  shows "\<exists>loc. names s' (c_str key) = Some loc \<and> loc \<noteq> 0 \<and> object_at s' loc = Some (OffsetCell (p - loc)) \<and> objects s' p = Some (None, ob)"
proof -
  obtain r s1 where f: "find_or_construct e (c_str key) (OffsetCell 0) s = (r, s1)"
    by fastforce
  then obtain loc where r: "r = Inr loc"
    using pt by (cases r) (auto simp: point_to_def bindS_def)
  have w: "write_object e (\<lambda>ob. map_option (\<lambda>_. OffsetCell (p - loc)) (as_offset ob)) loc s1 = (Inr (), s')"
    using pt f r by (simp add: point_to_def bindS_def)
  have "names s1 (c_str key) = Some loc \<and> loc \<noteq> 0 \<and> loc \<noteq> p \<and> objects s1 p = Some (None, ob) \<and> objects s1 loc \<noteq> None"
    using alone_find_or_construct [OF e f [unfolded r]] ok p
    by (auto simp: extra_ok_def object_at_def split: option.splits object.splits if_splits)
  then show ?thesis
    using w alone_write [OF e] by (auto simp: put_object_def object_at_def split: option.splits)
qed

lemma saved_without_lock:
  fixes e :: "('d, 'x) shm"
  assumes e: "alone e" and ok: "extra_ok s LockFreeAndWasteMemory key" and sz: "length content < 2 ^ 64"
    and sv: "saveExtraBytes_internal e LockFreeAndWasteMemory key content s = (Inr (), s')"
  shows "\<exists>v. loadExtraBytes_internal e LockFreeAndWasteMemory key s' = (Inr (Some v), s')
    \<and> read_object e (view_bytes v) (view_object v) s' = (Inr content, s')"
proof -
  obtain r s1 where c: "construct e None (CharArray (replicate (length content + 8) (CHR 0x00))) s = (r, s1)"
    by fastforce
  then obtain p where r: "r = Inr p"
    using sv by (cases r) (auto simp: saveExtraBytes_internal_def bindS_def)
  have c1: "p \<noteq> 0" "objects s p = None" "objects s1 = (objects s)(p \<mapsto> (None, CharArray (replicate (length content + 8) (CHR 0x00))))"
      "names s1 = names s"
    using alone_construct [OF e c [unfolded r]] by simp_all
  let ?s2 = "put_object p (CharArray (sized content)) s1"
  have w: "write_object e (\<lambda>ob. map_option (\<lambda>_. CharArray (sized content)) (as_chars ob)) p s1 = (Inr (), ?s2)"
    using c1 by (simp add: alone_write [OF e] object_at_def)
  have pt: "point_to e key p ?s2 = (Inr (), s')"
    using sv c r w by (simp add: saveExtraBytes_internal_def bindS_def)
  have "extra_ok ?s2 LockFreeAndWasteMemory key"
    using ok c1 by (auto simp: extra_ok_def put_object_def object_at_def split: option.splits object.splits if_splits)
  moreover have "objects ?s2 p = Some (None, CharArray (sized content))"
    using c1 by (simp add: put_object_def)
  ultimately obtain loc where loc: "names s' (c_str key) = Some loc" "loc \<noteq> 0" "object_at s' loc = Some (OffsetCell (p - loc))"
      "objects s' p = Some (None, CharArray (sized content))"
    using point_to_loads [OF e c1(1) _ _ _ pt] by (metis as_offset.simps(3))
  have p: "object_at s' p = Some (CharArray (sized content))"
    using loc(4) c1(1) by (simp add: object_at_def)
  have "nat_of_bytes (take 8 (sized content)) = length content"
    using nat_bytes_roundtrip [of "length content" 8] sz by (simp add: sized_def)
  moreover have "8 \<le> length (sized content)"
    by (simp add: sized_def)
  ultimately have rs: "read_size (CharArray (sized content) :: ('d, 'x) object) = Some (length content)"
    unfolding read_size_def raw_bytes.simps option.case by (simp only: if_True)
  have "loadExtraBytes_internal e LockFreeAndWasteMemory key s' = (Inr (Some \<lparr>view_object = p, view_start = 8, view_length = length content\<rparr>), s')"
    using loc p rs by (simp add: loadExtraBytes_internal_def bindS_def returnS_def alone_simps [OF e])
  moreover have "read_object e (view_bytes \<lparr>view_object = p, view_start = 8, view_length = length content\<rparr>) p s' = (Inr content, s')"
    using p by (simp add: alone_simps [OF e] view_bytes_def sized_def)
  ultimately show ?thesis
    by auto
qed

lemma saved_in_place:
  assumes e: "alone e" and ok: "extra_ok s edps key" and ed: "edps \<noteq> LockFreeAndWasteMemory"
    and sv: "overwrite_chars e key content s = (Inr (), s')"
  shows "\<exists>p. find_view e key s' = (Inr (Some \<lparr>view_object = p, view_start = 0, view_length = length content\<rparr>), s') \<and> object_at s' p = Some (CharArray content)"
proof -
  have found: "find_view e key s' = (Inr (Some \<lparr>view_object = p, view_start = 0, view_length = length content\<rparr>), s') \<and> object_at s' p = Some (CharArray content)"
    if "p \<noteq> 0" "names t (c_str key) = Some p" "objects t p = Some (Some (c_str key), CharArray c)"
      "write_object e (\<lambda>ob. map_option (\<lambda>_. CharArray content) (as_chars ob)) p t = (Inr (), s')" for t p c
    using that by (auto simp: alone_simps [OF e] object_at_def find_view_def bindS_def returnS_def put_object_def)
  have new: "\<exists>p. find_view e key s' = (Inr (Some \<lparr>view_object = p, view_start = 0, view_length = length content\<rparr>), s') \<and> object_at s' p = Some (CharArray content)"
    if w: "bindS (construct e (Some (c_str key)) (CharArray (replicate (length content) (CHR 0x00))))
        (\<lambda>p. write_object e (\<lambda>ob. map_option (\<lambda>_. CharArray content) (as_chars ob)) p) t = (Inr (), s')" for t
  proof -
    obtain r t1 where c: "construct e (Some (c_str key)) (CharArray (replicate (length content) (CHR 0x00))) t = (r, t1)"
      by fastforce
    then obtain p where "r = Inr p" "write_object e (\<lambda>ob. map_option (\<lambda>_. CharArray content) (as_chars ob)) p t1 = (Inr (), s')"
      using w by (cases r) (auto simp: bindS_def)
    then show ?thesis
      using found [of p t1] alone_construct [OF e, of "Some (c_str key)" _ t p t1] c by auto
  qed
  show ?thesis
  proof (cases "names s (c_str key)")
    case None
    then show ?thesis
      using new [of s] sv by (simp add: overwrite_chars_def bindS_def alone_simps [OF e] Let_def)
  next
    case (Some p)
    then obtain c where c: "p \<noteq> 0" "objects s p = Some (Some (c_str key), CharArray c)"
      using ok ed by (auto simp: extra_ok_def object_at_def split: option.splits object.splits if_splits)
    show ?thesis
    proof (cases "length c = length content")
      case True
      then show ?thesis
        using found [OF c(1) Some c(2)] sv c Some
        by (auto simp: overwrite_chars_def bindS_def returnS_def alone_simps [OF e] object_at_def Let_def)
    next
      case False
      obtain t where "destroy_ptr e p s = (Inr (), t)"
        using c e by (simp add: destroy_ptr_def alone_def)
      then show ?thesis
        using new [of t] sv c Some False
        by (simp add: overwrite_chars_def bindS_def alone_simps [OF e] object_at_def Let_def split: prod.splits sum.splits)
    qed
  qed
qed

text \<open>
  C20: When no other thread or process is at work (\<open>alone\<close>: nothing happens to the segment between the steps, and a new object gets an address of its own), a load
  directly after a save under the same key gives back the bytes saved, with every strategy that supports extra data and with hooks that undo each other. The key is free before or has an
  object of the same strategy (\<open>extra_ok\<close>), and the length fits into 64 bits. The two theorems that follow show what others can spoil.
\<close>

theorem extra_bytes_roundtrip:
  assumes "alone e" and "extra_ok s edps key" and "edps \<noteq> DontSupportExtraData"
    and "length (run_out (Option.bind (hookPair h) userToWire) content) < 2 ^ 64"
    and "run_in (Option.bind (hookPair h) wireToUser) (run_out (Option.bind (hookPair h) userToWire) content) = Some content"
    and "saveExtraBytes e h edps key content s = (Inr (), s')"
  shows "loadExtraBytes e h edps key s' = (Inr (Some content), s')"
proof -
  let ?w = "run_out (Option.bind (hookPair h) userToWire) content"
  have sv: "saveExtraBytes_internal e edps key ?w s = (Inr (), s')"
    using assms(6) by (simp add: saveExtraBytes_def run_out_def split: option.splits)
  have "\<exists>v. loadExtraBytes_internal e edps key s' = (Inr (Some v), s') \<and> read_object e (view_bytes v) (view_object v) s' = (Inr ?w, s')"
  proof (cases "edps = LockFreeAndWasteMemory")
    case True
    then show ?thesis
      using saved_without_lock [OF assms(1) _ assms(4)] assms(2) sv by blast
  next
    case False
    then have "overwrite_chars e key ?w s = (Inr (), s')"
      using sv assms(3) by (cases edps) (simp_all add: saveExtraBytes_internal_def alone_simps [OF assms(1)])
    then obtain p where p: "find_view e key s' = (Inr (Some \<lparr>view_object = p, view_start = 0, view_length = length ?w\<rparr>), s')"
        "object_at s' p = Some (CharArray ?w)"
      using saved_in_place [OF assms(1,2) False] by blast
    moreover have "loadExtraBytes_internal e edps key s' = find_view e key s'"
      using False assms(3) by (cases edps) (simp_all add: loadExtraBytes_internal_def alone_simps [OF assms(1)])
    moreover have "read_object e (view_bytes \<lparr>view_object = p, view_start = 0, view_length = length ?w\<rparr>) p s' = (Inr ?w, s')"
      using p(2) by (simp add: alone_simps [OF assms(1)] view_bytes_def)
    ultimately show ?thesis
      by auto
  qed
  then show ?thesis
    using assms(5) by (auto simp: loadExtraBytes_def bindS_def returnS_def run_in_def split: option.splits)
qed

text \<open>
  Without a lock, a key whose first data is being saved is loaded as empty data: between the construction of the offset and its first value
  the offset leads to itself.
\<close>

theorem loaded_before_saved:
  assumes "alone e" and "names s (c_str key) = None" and "find_or_construct e (c_str key) (OffsetCell 0) s = (Inr loc, s')" and "hookPair h = None"
  shows "fst (loadExtraBytes e h LockFreeAndWasteMemory key s) = Inr None \<and> fst (loadExtraBytes e h LockFreeAndWasteMemory key s') = Inr (Some '''')"
proof -
  have "names s' (c_str key) = Some loc" "object_at s' loc = Some (OffsetCell 0)" "loc \<noteq> 0"
    using alone_find_or_construct [OF assms(1,3)] assms(2) by (auto simp: object_at_def)
  moreover have "nat_of_bytes (bytes_of_nat 8 0) = 0"
    by (rule nat_bytes_roundtrip) simp
  ultimately show ?thesis
    using assms(2,4) by (simp add: loadExtraBytes_def loadExtraBytes_internal_def bindS_def returnS_def alone_simps [OF assms(1)] read_size_def view_bytes_def)
qed

text \<open>
  C38: The lock does not protect what is loaded. The view that \<open>loadExtraBytes_internal\<close> returns under the lock shows the data, but it is used after
  the lock is released: when data of another length, which does not begin with the old data, is saved in between, the reader gets neither the
  old nor the new data, but what is behind a dangling address, or as much of the new data as the old data was long.
\<close>

theorem locked_view_escapes:
  assumes "alone e" and "names s (c_str key) = Some p" and "object_at s p = Some (CharArray old)" and "length new \<noteq> length old"
    and "take (length old) new \<noteq> old"
    and "loadExtraBytes_internal e MutexProtected key s = (Inr (Some v), s)"
    and "saveExtraBytes_internal e MutexProtected key new s = (Inr (), s')"
  shows "fst (read_object e (view_bytes v) (view_object v) s) = Inr old \<and>
    fst (read_object e (view_bytes v) (view_object v) s') \<in> {Inl UndefinedBehaviour, Inr (take (length old) new)} - {Inr old, Inr new}"
proof -
  have v: "v = \<lparr>view_object = p, view_start = 0, view_length = length old\<rparr>"
    using assms(2,3,6) by (simp add: loadExtraBytes_internal_def find_view_def bindS_def returnS_def alone_simps [OF assms(1)])
  have before: "fst (read_object e (view_bytes v) (view_object v) s) = Inr old"
    using assms(3) by (simp add: v alone_simps [OF assms(1)] view_bytes_def)
  have p: "p \<noteq> 0" "objects s p \<noteq> None"
    using assms(3) by (auto simp: object_at_def split: if_splits)
  then obtain t where t: "destroy_ptr e p s = (Inr (), t)" "objects t = (objects s)(p := None)"
    using assms(1) by (auto simp: destroy_ptr_def alone_def)
  let ?new = "construct e (Some (c_str key)) (CharArray (replicate (length new) (CHR 0x00)))"
  have "bindS ?new (\<lambda>q. write_object e (\<lambda>ob. map_option (\<lambda>_. CharArray new) (as_chars ob)) q) t = (Inr (), s')"
    using assms(2-4,7) t(1) by (simp add: saveExtraBytes_internal_def overwrite_chars_def bindS_def alone_simps [OF assms(1)] Let_def
        split: prod.splits sum.splits)
  then obtain q t1 where q: "?new t = (Inr q, t1)" "write_object e (\<lambda>ob. map_option (\<lambda>_. CharArray new) (as_chars ob)) q t1 = (Inr (), s')"
    by (auto simp: bindS_def split: prod.splits sum.splits)
  note c = alone_construct [OF assms(1) q(1)]
  have "object_at s' p = (if q = p then Some (CharArray new) else None)"
    using c q(2) t(2) p(1) by (auto simp: alone_simps [OF assms(1)] object_at_def put_object_def)
  moreover have "take (length old) new \<noteq> new" if "length old \<le> length new"
    using that assms(4) length_take [of "length old" new] by auto
  ultimately have "fst (read_object e (view_bytes v) (view_object v) s') \<in> {Inl UndefinedBehaviour, Inr (take (length old) new)} - {Inr old, Inr new}"
    using assms(5) by (auto simp: v alone_simps [OF assms(1)] view_bytes_def)
  with before show ?thesis ..
qed

section \<open>An example\<close>

lemma sample_alone: "alone sample_shm"
  by (auto simp: alone_def sample_shm_def split: if_splits)

theorem extra_bytes_roundtrip_witness:
  "fst (loadExtraBytes sample_shm bytes_chain MutexProtected ''k''
     (snd (saveExtraBytes sample_shm bytes_chain MutexProtected ''k'' ''data'' (empty_segment :: (string, unit) segment)))) = Inr (Some ''data'')"
proof -
  let ?s = "empty_segment :: (string, unit) segment"
  obtain r s' where sv: "saveExtraBytes sample_shm bytes_chain MutexProtected ''k'' ''data'' ?s = (r, s')"
    by fastforce
  have "fst (saveExtraBytes sample_shm bytes_chain MutexProtected ''k'' ''data'' ?s) = Inr ()"
    by code_simp
  then have sv': "saveExtraBytes sample_shm bytes_chain MutexProtected ''k'' ''data'' ?s = (Inr (), s')"
    using sv by simp
  have "extra_ok ?s MutexProtected ''k''" "hookPair bytes_chain = Some tag_hooks"
    by (simp_all add: extra_ok_def empty_segment_def bytes_chain_def)
  then show ?thesis
    using extra_bytes_roundtrip [OF sample_alone _ _ _ _ sv'] sv' tag_hooks.undo by (simp add: tag_hooks_def run_out_def)
qed

definition plain_chain :: "string shm_chain" where
  "plain_chain = bytes_chain\<lparr>hookPair := None\<rparr>"

theorem loaded_before_saved_witness:
  "fst (loadExtraBytes sample_shm plain_chain LockFreeAndWasteMemory ''k'' (empty_segment :: (string, unit) segment)) = Inr None \<and>
   fst (loadExtraBytes sample_shm plain_chain LockFreeAndWasteMemory ''k''
     (snd (find_or_construct sample_shm (c_str ''k'') (OffsetCell 0) (empty_segment :: (string, unit) segment)))) = Inr (Some '''')"
proof -
  let ?s = "empty_segment :: (string, unit) segment"
  obtain r s' where f: "find_or_construct sample_shm (c_str ''k'') (OffsetCell 0) ?s = (r, s')"
    by fastforce
  moreover have "fst (find_or_construct sample_shm (c_str ''k'') (OffsetCell 0) ?s) = Inr 4096"
    by code_simp
  ultimately have f': "find_or_construct sample_shm (c_str ''k'') (OffsetCell 0) ?s = (Inr 4096, s')"
    by simp
  have "names ?s (c_str ''k'') = None" "hookPair plain_chain = None"
    by (simp_all add: empty_segment_def plain_chain_def)
  from loaded_before_saved [OF sample_alone this(1) f' this(2)] f show ?thesis
    by simp
qed

definition old_data :: "(string, unit) segment" where
  "old_data = \<lparr>objects = [4096 \<mapsto> (Some ''k'', CharArray ''old'')], names = [''k'' \<mapsto> 4096], built = {4096}\<rparr>"

theorem locked_view_escapes_witness:
  "\<exists>v s'. loadExtraBytes_internal sample_shm MutexProtected ''k'' old_data = (Inr (Some v), old_data)
     \<and> saveExtraBytes_internal sample_shm MutexProtected ''k'' ''newer'' old_data = (Inr (), s')
     \<and> fst (read_object sample_shm (view_bytes v) (view_object v) old_data) = Inr ''old''
     \<and> fst (read_object sample_shm (view_bytes v) (view_object v) s') \<in> {Inl UndefinedBehaviour, Inr ''new''}"
proof -
  have n: "names old_data (c_str ''k'') = Some 4096" "object_at old_data 4096 = Some (CharArray ''old'')" "length ''newer'' \<noteq> length ''old''"
    "take (length ''old'') ''newer'' \<noteq> ''old''"
    by (simp_all add: c_str_def object_at_def old_data_def)
  from n(1-3) have l: "loadExtraBytes_internal sample_shm MutexProtected ''k'' old_data =
      (Inr (Some \<lparr>view_object = 4096, view_start = 0, view_length = 3\<rparr>), old_data)"
    by (simp add: loadExtraBytes_internal_def alone_locked [OF sample_alone] find_view_def alone_find_chars [OF sample_alone] bindS_def returnS_def)
  obtain r s' where w: "saveExtraBytes_internal sample_shm MutexProtected ''k'' ''newer'' old_data = (r, s')"
    by fastforce
  moreover have "fst (saveExtraBytes_internal sample_shm MutexProtected ''k'' ''newer'' old_data) = Inr ()"
    by code_simp
  ultimately have w': "saveExtraBytes_internal sample_shm MutexProtected ''k'' ''newer'' old_data = (Inr (), s')"
    by simp
  from locked_view_escapes [OF sample_alone n l w'] show ?thesis
    by (intro exI [of _ "\<lparr>view_object = 4096, view_start = 0, view_length = 3\<rparr>"] exI [of _ s']) (auto simp: l w')
qed

end
