(* ===== verification/SpinLock.thy ===== *)
theory SpinLock
  imports Prelude "HOL-Library.Word"
begin

text \<open>
  \<open>BoostSharedMemoryChain_SpinLock\<close> (tm_kit/transport/lock_free_in_memory_shared_chain/LockFreeInBoostSharedMemoryChain.hpp): a lock by
  numbers, made of three registers in the shared memory. A thread that has waited for 10000 rounds may take over from an owner
  whose process is gone. One step of a thread is one access to a register; \<open>running\<close> is \<open>pidIsRunning\<close> of the operating system.
\<close>

unbundle bit_operations_syntax

section \<open>The code\<close>

text \<open>
  Where a thread is: \<open>myNumber\<close>, \<open>count\<close> and \<open>lastOwner\<close>, then what it has read. In \<open>Holding\<close> and \<open>Unlocking\<close> the number is kept for the
  statements below; the code has forgotten it.
\<close>

datatype spin_pc =
    Outside
  | TakeNumber
  | Waiting "64 word" "16 word" "64 word"
  | OurTurn "64 word" "16 word" "64 word" "64 word"
  | LoadOwner "64 word" "16 word" "64 word"
  | ClaimOwner "64 word" "16 word" "64 word" "64 word"
  | CheckOwner "64 word" "16 word" "64 word" "64 word"
  | TakeService "64 word" "16 word" "64 word" "64 word" "64 word"
  | TakeOwner "64 word" "16 word" "64 word" "64 word"
  | Holding "64 word"
  | Unlocking "64 word"

record 't spin_state =
  numberDispenser :: "64 word"
  serviceRegistrar :: "64 word"
  ownerRegistrar :: "64 word"
  pcs :: "'t \<Rightarrow> spin_pc"

definition myPidAndThread :: "32 word \<Rightarrow> 64 word \<Rightarrow> 64 word" where
  "myPidAndThread pid hash = push_bit 32 (ucast pid) OR (hash AND 0xffffffff)"

definition ownerPid :: "64 word \<Rightarrow> 32 word" where
  "ownerPid owner = ucast (drop_bit 32 owner)"

definition at_pc :: "'t \<Rightarrow> spin_pc \<Rightarrow> 't spin_state \<Rightarrow> 't spin_state" where
  "at_pc t pc s = s\<lparr>pcs := (pcs s)(t := pc)\<rparr>"

text \<open>One iteration of the waiting loop, from the value of the service register it has loaded.\<close>

definition spin_round :: "64 word \<Rightarrow> 16 word \<Rightarrow> 64 word \<Rightarrow> 64 word \<Rightarrow> spin_pc" where
  "spin_round n c l serving =
     (if serving > n then TakeNumber
      else if serving = n then OurTurn n c l serving
      else if c + 1 \<ge> 10000 then CheckOwner n (c + 1) l serving
      else Waiting n (c + 1) l)"

text \<open>What a thread does with the owner it has loaded after 10000 rounds.\<close>

definition spin_check :: "(32 word \<Rightarrow> bool) \<Rightarrow> 64 word \<Rightarrow> 16 word \<Rightarrow> 64 word \<Rightarrow> 64 word \<Rightarrow> 64 word \<Rightarrow> spin_pc" where
  "spin_check running n c l serving owner =
     (if l \<noteq> owner then Waiting n 0 owner
      else if ownerPid owner \<noteq> 0 \<and> running (ownerPid owner) then Waiting n 0 l
      else TakeService n c l serving owner)"

text \<open>One step of the thread \<open>t\<close>: of \<open>lock\<close> up to \<open>Holding\<close>, then of \<open>unlock\<close>. \<open>me\<close> is its \<open>myPidAndThread\<close>.\<close>

definition spin_step :: "(32 word \<Rightarrow> bool) \<Rightarrow> ('t \<Rightarrow> 64 word) \<Rightarrow> 't \<Rightarrow> 't spin_state \<Rightarrow> 't spin_state" where
  "spin_step running me t s =
     (case pcs s t of
        Outside \<Rightarrow> at_pc t (Waiting (numberDispenser s) 0 0) (s\<lparr>numberDispenser := numberDispenser s + 1\<rparr>)
      | TakeNumber \<Rightarrow> at_pc t (Waiting (numberDispenser s) 0 0) (s\<lparr>numberDispenser := numberDispenser s + 1\<rparr>)
      | Waiting n c l \<Rightarrow> at_pc t (spin_round n c l (serviceRegistrar s)) s
      | OurTurn n c l serving \<Rightarrow>
          if serviceRegistrar s = serving then at_pc t (LoadOwner n c l) (s\<lparr>serviceRegistrar := n\<rparr>) else at_pc t (Waiting n c l) s
      | LoadOwner n c l \<Rightarrow> at_pc t (ClaimOwner n c l (ownerRegistrar s)) s
      | ClaimOwner n c l owner \<Rightarrow>
          if ownerRegistrar s = owner then at_pc t (Holding n) (s\<lparr>ownerRegistrar := me t\<rparr>) else at_pc t (Waiting n 0 l) s
      | CheckOwner n c l serving \<Rightarrow> at_pc t (spin_check running n c l serving (ownerRegistrar s)) s
      | TakeService n c l serving owner \<Rightarrow>
          if serviceRegistrar s = serving then at_pc t (TakeOwner n c l owner) (s\<lparr>serviceRegistrar := n\<rparr>) else at_pc t (Waiting n 0 l) s
      | TakeOwner n c l owner \<Rightarrow>
          if ownerRegistrar s = owner then at_pc t (Holding n) (s\<lparr>ownerRegistrar := me t\<rparr>) else at_pc t (Waiting n 0 l) s
      | Holding n \<Rightarrow> at_pc t (Unlocking n) (s\<lparr>ownerRegistrar := 0\<rparr>)
      | Unlocking n \<Rightarrow> at_pc t Outside (s\<lparr>serviceRegistrar := serviceRegistrar s + 1\<rparr>))"

definition spin_start :: "'t spin_state" where
  "spin_start = \<lparr>numberDispenser = 0, serviceRegistrar = 0, ownerRegistrar = 0, pcs = (\<lambda>_. Outside)\<rparr>"

text \<open>
  A run of some number of steps, of any threads in any order. \<open>ok\<close> is a condition on the states it goes through, \<open>running\<close> says
  which processes are there during the run.
\<close>

inductive spin_run :: "('t spin_state \<Rightarrow> bool) \<Rightarrow> (32 word \<Rightarrow> bool) \<Rightarrow> ('t \<Rightarrow> 64 word) \<Rightarrow> nat \<Rightarrow> 't spin_state \<Rightarrow> bool"
  for ok :: "'t spin_state \<Rightarrow> bool" and running :: "32 word \<Rightarrow> bool" and me :: "'t \<Rightarrow> 64 word"
where
  spin_none: "spin_run ok running me 0 spin_start"
| spin_more: "spin_run ok running me k s \<Longrightarrow> ok (spin_step running me t s) \<Longrightarrow>
    spin_run ok running me (Suc k) (spin_step running me t s)"

inductive_cases spin_moreE: "spin_run ok running me (Suc k) s"

text \<open>A schedule: the threads in the order of their steps.\<close>

definition spin_steps :: "(32 word \<Rightarrow> bool) \<Rightarrow> ('t \<Rightarrow> 64 word) \<Rightarrow> 't list \<Rightarrow> 't spin_state \<Rightarrow> 't spin_state" where
  "spin_steps running me ts s = foldl (\<lambda>s t. spin_step running me t s) s ts"

lemma spin_steps_simps [simp]:
  "spin_steps running me [] s = s"
  "spin_steps running me (t # ts) s = spin_steps running me ts (spin_step running me t s)"
  "spin_steps running me (ts @ us) s = spin_steps running me us (spin_steps running me ts s)"
  by (simp_all add: spin_steps_def)

section \<open>Without taking over\<close>

text \<open>A thread takes over when, having waited for 10000 rounds, it has decided that the owner is gone.\<close>

fun taking_over :: "spin_pc \<Rightarrow> bool" where
  "taking_over (TakeService n c l serving owner) \<longleftrightarrow> True"
| "taking_over (TakeOwner n c l owner) \<longleftrightarrow> True"
| "taking_over _ \<longleftrightarrow> False"

definition patient :: "'t spin_state \<Rightarrow> bool" where
  "patient s \<longleftrightarrow> (\<forall>t. \<not> taking_over (pcs s t))"

fun number_of :: "spin_pc \<Rightarrow> 64 word option" where
  "number_of Outside = None"
| "number_of TakeNumber = None"
| "number_of (Waiting n c l) = Some n"
| "number_of (OurTurn n c l serving) = Some n"
| "number_of (LoadOwner n c l) = Some n"
| "number_of (ClaimOwner n c l owner) = Some n"
| "number_of (CheckOwner n c l serving) = Some n"
| "number_of (TakeService n c l serving owner) = Some n"
| "number_of (TakeOwner n c l owner) = Some n"
| "number_of (Holding n) = Some n"
| "number_of (Unlocking n) = Some n"

text \<open>The threads that have seen that it is their turn.\<close>

fun being_served :: "spin_pc \<Rightarrow> bool" where
  "being_served (OurTurn n c l serving) \<longleftrightarrow> serving = n"
| "being_served (LoadOwner n c l) \<longleftrightarrow> True"
| "being_served (ClaimOwner n c l owner) \<longleftrightarrow> True"
| "being_served (Holding n) \<longleftrightarrow> True"
| "being_served (Unlocking n) \<longleftrightarrow> True"
| "being_served _ \<longleftrightarrow> False"

fun seen_turn :: "spin_pc \<Rightarrow> bool" where
  "seen_turn (OurTurn n c l serving) \<longleftrightarrow> True"
| "seen_turn pc \<longleftrightarrow> being_served pc"

definition orderly :: "nat \<Rightarrow> 't spin_state \<Rightarrow> bool" where
  "orderly k s \<longleftrightarrow> unat (numberDispenser s) \<le> k \<and> serviceRegistrar s \<le> numberDispenser s
     \<and> (\<forall>t n. number_of (pcs s t) = Some n \<longrightarrow> serviceRegistrar s \<le> n \<and> n < numberDispenser s)
     \<and> (\<forall>t u n. number_of (pcs s t) = Some n \<longrightarrow> number_of (pcs s u) = Some n \<longrightarrow> t = u)
     \<and> (\<forall>t n. number_of (pcs s t) = Some n \<longrightarrow> seen_turn (pcs s t) \<longrightarrow> being_served (pcs s t) \<and> n = serviceRegistrar s)
     \<and> (\<forall>t. pcs s t \<noteq> TakeNumber)"

lemma orderly_start: "orderly 0 spin_start"
  by (simp add: orderly_def spin_start_def)

text \<open>A thread goes on with its number.\<close>

lemma orderly_on:
  assumes "orderly k s" and "number_of pc = number_of (pcs s t)" and "pc \<noteq> TakeNumber"
    and "seen_turn pc \<longrightarrow> being_served pc \<and> number_of pc = Some (serviceRegistrar s)"
    and "numberDispenser s' = numberDispenser s" "serviceRegistrar s' = serviceRegistrar s" "pcs s' = pcs s"
  shows "orderly (Suc k) (at_pc t pc s')"
  using assms unfolding orderly_def at_pc_def by (auto split: if_splits)

lemma orderly_number:
  assumes "orderly k s" and "Suc k < 2 ^ 64" and "number_of (pcs s t) = None"
  shows "orderly (Suc k) (at_pc t (Waiting (numberDispenser s) 0 0) (s\<lparr>numberDispenser := numberDispenser s + 1\<rparr>))"
proof -
  let ?d = "numberDispenser s"
  have k: "unat ?d \<le> k"
    using assms(1) by (simp add: orderly_def)
  then have d: "unat (?d + 1) = Suc (unat ?d)"
    using assms(2) unat_word_ariths(1) [of ?d 1] by simp
  then have less: "?d < ?d + 1" "\<And>n. n < ?d \<Longrightarrow> n < ?d + 1" "\<And>n. n \<le> ?d \<Longrightarrow> n \<le> ?d + 1"
    by (simp_all add: word_less_nat_alt word_le_nat_alt)
  have fresh: "number_of (pcs s u) \<noteq> Some ?d" for u
    using assms(1) by (auto simp: orderly_def)
  show ?thesis
    using assms(1) k d less fresh unfolding orderly_def at_pc_def by auto
qed

lemma orderly_unlock:
  assumes "orderly k s" and "Suc k < 2 ^ 64" and "pcs s t = Unlocking n"
  shows "orderly (Suc k) (at_pc t Outside (s\<lparr>serviceRegistrar := serviceRegistrar s + 1\<rparr>))"
proof -
  let ?v = "serviceRegistrar s"
  have n: "n = ?v" "?v < numberDispenser s" "unat (numberDispenser s) \<le> k"
    using assms(1,3) unfolding orderly_def by (metis being_served.simps(5) number_of.simps(11) seen_turn.simps(11))+
  then have v: "unat (?v + 1) = Suc (unat ?v)"
    using assms(2) unat_word_ariths(1) [of ?v 1] by (simp add: word_less_nat_alt)
  have "?v + 1 \<le> numberDispenser s"
    using n(2) v by (simp add: word_less_nat_alt word_le_nat_alt)
  moreover have "?v + 1 \<le> m \<and> m < numberDispenser s" if "number_of (pcs s u) = Some m" "u \<noteq> t" for u m
  proof -
    have "unat m \<noteq> unat ?v"
      unfolding word_unat_eq_iff [symmetric] using that assms(1,3) n(1) unfolding orderly_def by (metis number_of.simps(11))
    moreover have "?v \<le> m" "m < numberDispenser s"
      using that assms(1) by (auto simp: orderly_def)
    ultimately show ?thesis
      using v by (simp add: word_less_nat_alt word_le_nat_alt)
  qed
  moreover have "\<not> seen_turn (pcs s u)" if "number_of (pcs s u) = Some m" "u \<noteq> t" for u m
    using that assms(1,3) n(1) unfolding orderly_def by (metis number_of.simps(11))
  ultimately show ?thesis
    using assms(1) n(3) unfolding orderly_def at_pc_def by auto
qed

lemma orderly_step:
  assumes "orderly k s" and "Suc k < 2 ^ 64" and "patient s" and calm': "patient (spin_step running me t s)"
  shows "orderly (Suc k) (spin_step running me t s)"
proof -
  have calm: "\<not> taking_over (pcs s t)" "\<not> taking_over (pcs (spin_step running me t s) t)"
    using assms(3) calm' by (simp_all add: patient_def)
  have served: "n = serviceRegistrar s" if "number_of (pcs s t) = Some n" "seen_turn (pcs s t)" for n
    using assms(1) that by (auto simp: orderly_def)
  note on = orderly_on [OF assms(1), where t = t]
  show ?thesis
  proof (cases "pcs s t")
    case Outside
    then show ?thesis
      using orderly_number [OF assms(1,2)] by (simp add: spin_step_def)
  next
    case TakeNumber
    then show ?thesis
      using assms(1) by (simp add: orderly_def)
  next
    case (Waiting n c l)
    then have n: "serviceRegistrar s \<le> n"
      using assms(1) unfolding orderly_def by (metis number_of.simps(3))
    show ?thesis
      using on [of "spin_round n c l (serviceRegistrar s)" s] Waiting n by (auto simp: spin_step_def spin_round_def)
  next
    case (OurTurn n c l serving)
    then have "serving = n"
      using assms(1) unfolding orderly_def by (metis being_served.simps(1) number_of.simps(4) seen_turn.simps(1))
    then show ?thesis
      using on [of "LoadOwner n c l" "s\<lparr>serviceRegistrar := n\<rparr>"] served [of n] OurTurn by (simp add: spin_step_def)
  next
    case (LoadOwner n c l)
    then show ?thesis
      using on [of "ClaimOwner n c l (ownerRegistrar s)" s] served [of n] by (simp add: spin_step_def)
  next
    case (ClaimOwner n c l owner)
    then show ?thesis
      using on [of "Holding n" "s\<lparr>ownerRegistrar := me t\<rparr>"] on [of "Waiting n 0 l" s] served [of n] by (simp add: spin_step_def)
  next
    case (CheckOwner n c l serving)
    then have "\<not> taking_over (spin_check running n c l serving (ownerRegistrar s))"
      using calm(2) by (simp add: spin_step_def at_pc_def)
    then show ?thesis
      using on [of "spin_check running n c l serving (ownerRegistrar s)" s] CheckOwner
      by (auto simp: spin_step_def spin_check_def split: if_splits)
  next
    case (Holding n)
    then show ?thesis
      using on [of "Unlocking n" "s\<lparr>ownerRegistrar := 0\<rparr>"] served [of n] by (simp add: spin_step_def)
  next
    case (Unlocking n)
    then show ?thesis
      using orderly_unlock [OF assms(1,2) Unlocking] by (simp add: spin_step_def)
  qed (use calm(1) in simp_all)
qed

lemma patient_run:
  assumes "spin_run patient running me k s" and "k < 2 ^ 64"
  shows "patient s \<and> orderly k s"
  using assms
proof (induction rule: spin_run.induct)
  case spin_none
  then show ?case
    using orderly_start by (simp add: patient_def spin_start_def)
next
  case (spin_more k s t)
  then show ?case
    using orderly_step [OF _ spin_more.prems _ spin_more.hyps(2)] by simp
qed

text \<open>
  C7: However long the threads wait for each other: as long as none of them decides to take over (which a thread may do when it has
  checked the owner after 10000 rounds of waiting), at most one thread holds the lock, and it is the first of those that took a number, so locks
  are granted in the order of the numbers. The numbers are of 64 bits; the bound excludes that they wrap.
\<close>

theorem spin_lock_excludes:
  assumes "spin_run patient running me k s" and "k < 2 ^ 64" and "pcs s t = Holding n"
  shows "(\<forall>u m. pcs s u = Holding m \<longrightarrow> u = t) \<and> (\<forall>u m. number_of (pcs s u) = Some m \<longrightarrow> n \<le> m)"
proof -
  have o: "orderly k s"
    using patient_run [OF assms(1,2)] by blast
  have t: "number_of (pcs s t) = Some n" "seen_turn (pcs s t)"
    by (simp_all add: assms(3))
  then have n: "n = serviceRegistrar s"
    using o by (auto simp: orderly_def)
  have "u = t" if "pcs s u = Holding m" for u m
  proof -
    have "number_of (pcs s u) = Some m" "seen_turn (pcs s u)"
      by (simp_all add: that)
    then have "number_of (pcs s u) = Some n"
      using o n by (auto simp: orderly_def)
    then show ?thesis
      using o t(1) unfolding orderly_def by blast
  qed
  moreover have "n \<le> m" if "number_of (pcs s u) = Some m" for u m
    using o that unfolding n orderly_def by blast
  ultimately show ?thesis
    by blast
qed

section \<open>Taking over\<close>

text \<open>A thread that waits behind another counts its rounds.\<close>

lemma waits_one:
  assumes "pcs s u = Waiting n c l" and "serviceRegistrar s < n" and "unat c + 1 < 10000"
  shows "spin_step running me u s = at_pc u (Waiting n (c + 1) l) s \<and> unat (c + 1) = Suc (unat c)"
proof -
  have "unat (c + 1) = Suc (unat c)"
    using assms(3) unat_word_ariths(1) [of c 1] by simp
  moreover from this have "\<not> 10000 \<le> c + 1"
    using assms(3) by (simp add: word_le_nat_alt)
  ultimately show ?thesis
    using assms(1,2) by (auto simp: spin_step_def spin_round_def not_less_iff_gr_or_eq)
qed

lemma waits:
  assumes "pcs s u = Waiting n c l" and "serviceRegistrar s < n" and "unat c + j < 10000"
  shows "spin_steps running me (replicate j u) s = at_pc u (Waiting n (c + of_nat j) l) s"
  using assms
proof (induction j arbitrary: c s)
  case 0
  then show ?case
    by (simp add: at_pc_def fun_upd_idem)
next
  case (Suc j)
  from waits_one [OF Suc.prems(1,2)] Suc.prems(3)
  have "spin_step running me u s = at_pc u (Waiting n (c + 1) l) s" "unat (c + 1) = Suc (unat c)"
    by simp_all
  then show ?case
    using Suc.IH [of "at_pc u (Waiting n (c + 1) l) s" "c + 1"] Suc.prems(2,3) by (simp add: at_pc_def add.assoc)
qed

lemma waits_run:
  assumes "spin_run patient running me k s" and "patient s" and "pcs s u = Waiting n c l" and "serviceRegistrar s < n"
    and "unat c + j < 10000"
  shows "spin_run patient running me (k + j) (at_pc u (Waiting n (c + of_nat j) l) s)"
  using assms
proof (induction j arbitrary: c s k)
  case 0
  then show ?case
    by (simp add: at_pc_def fun_upd_idem)
next
  case (Suc j)
  from waits_one [OF Suc.prems(3,4)] Suc.prems(5)
  have w: "spin_step running me u s = at_pc u (Waiting n (c + 1) l) s" "unat (c + 1) = Suc (unat c)"
    by simp_all
  moreover have "patient (at_pc u (Waiting n (c + 1) l) s)"
    using Suc.prems(2) by (simp add: patient_def at_pc_def)
  ultimately show ?case
    using Suc.IH [of "Suc k" "at_pc u (Waiting n (c + 1) l) s" "c + 1"] Suc.prems(4,5) spin_more [OF Suc.prems(1), where t = u]
    by (simp add: at_pc_def add.assoc)
qed

text \<open>
  C36: The lock does not exclude a thread that is slow. After the steps [t, t, t, u] and 10000 rounds of waiting of \<open>u\<close>, the thread \<open>t\<close> is
  between its two compare-and-exchanges: it has been given the lock, and the owner register is still 0. The thread \<open>u\<close> takes
  the 0 for an owner that is gone, whatever processes are running (\<open>pidIsRunning\<close> is not even asked), and in three steps takes the lock; two
  steps later the slow thread takes it too.
\<close>

theorem spin_lock_two_holders:
  assumes "t \<noteq> u"
  shows "(let s1 = spin_steps running me ([t, t, t, u] @ replicate 10000 u) spin_start;
              s2 = spin_steps running me [u, u, u] s1;
              s3 = spin_steps running me [t, t] s2
    in pcs s1 t = LoadOwner 0 0 0 \<and> pcs s1 u = CheckOwner 1 10000 0 0 \<and> ownerRegistrar s1 = 0 \<and>
       pcs s2 t = LoadOwner 0 0 0 \<and> pcs s2 u = Holding 1 \<and> ownerRegistrar s2 = me u \<and>
       pcs s3 t = Holding 0 \<and> pcs s3 u = Holding 1)"
proof -
  define s0 where "s0 = \<lparr>numberDispenser = 2, serviceRegistrar = 0, ownerRegistrar = 0,
    pcs = (\<lambda>_. Outside)(t := LoadOwner 0 0 0, u := Waiting 1 0 0)\<rparr>"
  have "spin_steps running me [t, t, t, u] spin_start = s0"
    using assms by (simp add: spin_step_def spin_start_def at_pc_def s0_def spin_round_def)
  moreover have "spin_steps running me (replicate 9999 u) s0 = at_pc u (Waiting 1 9999 0) s0"
    using waits [of s0 u 1 0 0 9999 running me] by (simp add: s0_def)
  moreover have "replicate 10000 u = replicate 9999 u @ [u]"
    using replicate_append_same [of 9999 u] by (simp add: eval_nat_numeral)
  moreover have "spin_step running me u (at_pc u (Waiting 1 9999 0) s0) = at_pc u (CheckOwner 1 10000 0 0) s0"
    by (simp add: spin_step_def at_pc_def s0_def spin_round_def)
  ultimately have s1: "spin_steps running me ([t, t, t, u] @ replicate 10000 u) spin_start = at_pc u (CheckOwner 1 10000 0 0) s0"
    by (simp only: spin_steps_simps)
  show ?thesis
    unfolding s1 Let_def using assms
    by (simp add: spin_step_def at_pc_def s0_def spin_check_def ownerPid_def)
qed

theorem spin_lock_two_holders_witness:
  "pcs (spin_steps (\<lambda>_. True) (\<lambda>b. myPidAndThread 7 (if b then 1 else 2)) [True, True]
     (spin_steps (\<lambda>_. True) (\<lambda>b. myPidAndThread 7 (if b then 1 else 2)) [False, False, False]
       (spin_steps (\<lambda>_. True) (\<lambda>b. myPidAndThread 7 (if b then 1 else 2))
         ([True, True, True, False] @ replicate 10000 False) spin_start))) = (\<lambda>b. if b then Holding 0 else Holding 1)"
  using spin_lock_two_holders [of True False "\<lambda>_. True" "\<lambda>b. myPidAndThread 7 (if b then 1 else 2)"]
  unfolding Let_def by (auto simp only: fun_eq_iff if_True if_False all_bool_eq)

text \<open>
  A run without a takeover, of two threads: one holds the lock while the other waits for 10000 rounds, checks the owner, which is
  there, and waits on.
\<close>

definition first_served :: "bool spin_state" where
  "first_served = \<lparr>numberDispenser = 2, serviceRegistrar = 0, ownerRegistrar = myPidAndThread 7 1,
     pcs = (\<lambda>b. if b then Holding 0 else Waiting 1 0 0)\<rparr>"

definition owner_checked :: "bool spin_state" where
  "owner_checked = first_served\<lparr>pcs := (pcs first_served)(False := Waiting 1 0 (myPidAndThread 7 1))\<rparr>"

lemma first_served_run: "spin_run patient (\<lambda>p. p = 7) (\<lambda>b. myPidAndThread 7 (if b then 1 else 2)) 6 first_served"
proof -
  let ?me = "\<lambda>b. myPidAndThread 7 (if b then 1 else 2)"
  let ?step = "\<lambda>t s. spin_step (\<lambda>p. p = 7) ?me (t :: bool) s"
  have more: "spin_run patient (\<lambda>p. p = 7) ?me (Suc k) (?step t s)" if "spin_run patient (\<lambda>p. p = 7) ?me k s" "patient (?step t s)" for k t s
    by (rule spin_more [OF that])
  have "spin_run patient (\<lambda>p. p = 7) ?me (Suc (Suc (Suc (Suc (Suc (Suc 0))))))
      (?step False (?step True (?step True (?step True (?step True (?step True spin_start))))))"
    by (intro more spin_none) (auto simp: patient_def spin_step_def spin_start_def at_pc_def spin_round_def)
  moreover have "?step False (?step True (?step True (?step True (?step True (?step True spin_start))))) = first_served"
    by (auto simp: spin_step_def spin_start_def at_pc_def spin_round_def first_served_def)
  ultimately show ?thesis
    by (simp add: eval_nat_numeral)
qed

lemma owner_checked_run: "spin_run patient (\<lambda>p. p = 7) (\<lambda>b. myPidAndThread 7 (if b then 1 else 2)) 10007 owner_checked"
proof -
  let ?run = "spin_run patient (\<lambda>p. p = 7) (\<lambda>b. myPidAndThread 7 (if b then 1 else 2))"
  let ?step = "spin_step (\<lambda>p. p = 7) (\<lambda>b. myPidAndThread 7 (if b then 1 else 2)) False"
  have more: "?run (Suc k) s'" if "?run k s" "?step s = s'" "patient s'" for k s s'
    using spin_more [of patient "\<lambda>p. p = 7" "\<lambda>b. myPidAndThread 7 (if b then 1 else 2)" k s False] that by simp
  have "?run (6 + 9999) (at_pc False (Waiting 1 (0 + of_nat 9999) 0) first_served)"
    by (rule waits_run [OF first_served_run]) (simp_all add: patient_def first_served_def)
  then have "?run 10005 (at_pc False (Waiting 1 9999 0) first_served)"
    by simp
  moreover have "?step (at_pc False (Waiting 1 9999 0) first_served) = at_pc False (CheckOwner 1 10000 0 0) first_served"
    by (simp add: spin_step_def at_pc_def first_served_def spin_round_def)
  moreover have "patient (at_pc False (CheckOwner 1 10000 0 0) first_served)"
    by (simp add: patient_def at_pc_def first_served_def)
  ultimately have "?run (Suc 10005) (at_pc False (CheckOwner 1 10000 0 0) first_served)"
    by (rule more)
  moreover have "myPidAndThread 7 1 \<noteq> 0" by (simp add: myPidAndThread_def)
  moreover have "?step (at_pc False (CheckOwner 1 10000 0 0) first_served) = owner_checked"
    using \<open>myPidAndThread 7 1 \<noteq> 0\<close> by (simp add: spin_step_def at_pc_def first_served_def owner_checked_def spin_check_def)
  moreover have "patient owner_checked"
    by (simp add: patient_def owner_checked_def first_served_def)
  ultimately have "?run (Suc (Suc 10005)) owner_checked"
    using more by blast
  then show ?thesis by simp
qed

theorem spin_lock_excludes_witness:
  "pcs owner_checked True = Holding 0 \<and> (\<forall>m. pcs owner_checked False \<noteq> Holding m)"
proof -
  have "pcs owner_checked True = Holding 0"
    by (simp add: owner_checked_def first_served_def)
  moreover from this have "pcs owner_checked False \<noteq> Holding m" for m
    using spin_lock_excludes [OF owner_checked_run] by force
  ultimately show ?thesis
    by blast
qed

end
