(* ===== verification/BclCompat.thy ===== *)
theory BclCompat
  imports CppStrings Wire "HOL-Library.Signed_Division" "HOL-Library.Word"
begin

text \<open>
  Durations, points in time, identifiers and decimal numbers in the form protobuf-net uses for .NET's base class library: Duration.hpp, DateTime.hpp, Decimal.hpp and
  Guid.hpp in tm_kit/transport/bcl_compat. The protobuf encoding itself belongs to tm_basic.

  \<open>Rep\<close> of a duration is \<open>std::int64_t\<close>, as it is for every duration of the standard library here. Arithmetic that leaves its
  range is undefined in C++; the model gives \<^const>\<open>None\<close>.
\<close>

section \<open>Durations of the standard library\<close>

definition fits64 :: "int \<Rightarrow> bool" where
  "fits64 x \<longleftrightarrow> - (2 ^ 63) \<le> x \<and> x < 2 ^ 63"

definition checked :: "int \<Rightarrow> int option" where
  "checked x = (if fits64 x then Some x else None)"

text \<open>A period is a \<open>std::ratio\<close> of a second, numerator and denominator.\<close>

type_synonym period = "int \<times> int"

definition nanoseconds :: period where "nanoseconds = (1, 1000000000)"
definition microseconds :: period where "microseconds = (1, 1000000)"
definition milliseconds :: period where "milliseconds = (1, 1000)"
definition seconds :: period where "seconds = (1, 1)"
definition minutes :: period where "minutes = (60, 1)"
definition hours :: period where "hours = (3600, 1)"
definition days :: period where "days = (86400, 1)"
definition weeks :: period where "weeks = (604800, 1)"
definition months :: period where "months = (2629746, 1)"
definition years :: period where "years = (31556952, 1)"

lemmas period_defs = nanoseconds_def microseconds_def milliseconds_def seconds_def minutes_def hours_def days_def weeks_def months_def years_def

text \<open>\<open>std::chrono::duration_cast\<close>: multiply by the numerator of the quotient of the periods, divide by its denominator.\<close>

definition conversion :: "period \<Rightarrow> period \<Rightarrow> int \<times> int" where
  "conversion p q = (let n = fst p * snd q; d = snd p * fst q in (n div gcd n d, d div gcd n d))"

definition duration_cast :: "period \<Rightarrow> period \<Rightarrow> int \<Rightarrow> int option" where
  "duration_cast p q c = map_option (\<lambda>x. x sdiv snd (conversion p q)) (checked (c * fst (conversion p q)))"

section \<open>Duration.hpp\<close>

datatype TimeSpanScale = DAYS | HOURS | MINUTES | SECONDS | MILLISECONDS | TICKS | MINMAX

record BclTimeSpanProto =
  ts_value :: int
  ts_scale :: TimeSpanScale

text \<open>The struct and the wrapper class, which the code tells apart, get the same value and scale.\<close>

definition DurationConverter_write :: "period \<Rightarrow> int \<Rightarrow> BclTimeSpanProto option" where
  "DurationConverter_write p c =
     (let span = (\<lambda>u. map_option (\<lambda>v. \<lparr>ts_value = v, ts_scale = u\<rparr>)) in
      if p = seconds then span SECONDS (Some c)
      else if p = milliseconds then span MILLISECONDS (Some c)
      else if p = microseconds then span TICKS (checked (c * 10))
      else if p = nanoseconds then span TICKS (Some (c sdiv 100))
      else if p = minutes then span MINUTES (Some c)
      else if p = hours then span HOURS (Some c)
      else if p = days then span DAYS (Some c)
      else if p = weeks then span DAYS (checked (c * 7))
      else if p = months then span DAYS (map_option (\<lambda>x. x sdiv 86400) (checked (c * 2629746)))
      else if p = years then span DAYS (map_option (\<lambda>x. x sdiv 86400) (checked (c * 31556952)))
      else if fst p > 1 then span SECONDS (duration_cast p seconds c)
      else span TICKS (map_option (\<lambda>x. x sdiv 100) (duration_cast p nanoseconds c)))"

text \<open>
  \<open>read\<close> returns false for a scale it does not know: the outer \<^const>\<open>None\<close>. \<open>cpp20\<close> says for which standard the header is compiled.
\<close>

definition DurationConverter_read :: "bool \<Rightarrow> period \<Rightarrow> BclTimeSpanProto \<Rightarrow> int option option" where
  "DurationConverter_read cpp20 p t =
     (let v = ts_value t in
      case ts_scale t of
        DAYS \<Rightarrow> Some (if cpp20 then duration_cast days p v else Option.bind (checked (v * 24)) (duration_cast hours p))
      | HOURS \<Rightarrow> Some (duration_cast hours p v)
      | MINUTES \<Rightarrow> Some (duration_cast minutes p v)
      | SECONDS \<Rightarrow> Some (duration_cast seconds p v)
      | MILLISECONDS \<Rightarrow> Some (duration_cast milliseconds p v)
      | TICKS \<Rightarrow> Some (Option.bind (checked (v * 100)) (duration_cast nanoseconds p))
      | MINMAX \<Rightarrow> None)"

definition duration_unit :: "period \<Rightarrow> string" where
  "duration_unit p =
     (if p = seconds then ''s'' else if p = milliseconds then ''ms'' else if p = microseconds then ''us'' else if p = nanoseconds then ''ns''
      else if p = minutes then ''min'' else if p = hours then ''hr'' else if p = days then ''d'' else if p = weeks then ''wk''
      else if p = months then ''mon'' else if p = years then ''yr'' else if fst p > 1 then ''s'' else ''ns'')"

definition duration_toString :: "period \<Rightarrow> int \<Rightarrow> string option" where
  "duration_toString p c =
     map_option (\<lambda>n. show_int n @ duration_unit p)
       (if p \<in> {seconds, milliseconds, microseconds, nanoseconds, minutes, hours, days, weeks, months, years} then Some c
        else if fst p > 1 then duration_cast p seconds c else duration_cast p nanoseconds c)"

definition is_alpha :: "char \<Rightarrow> bool" where
  "is_alpha c \<longleftrightarrow> 65 \<le> (of_char c :: nat) \<and> (of_char c :: nat) \<le> 90 \<or> 97 \<le> (of_char c :: nat) \<and> (of_char c :: nat) \<le> 122"

text \<open>The meaning of a count with its unit.\<close>

definition of_unit :: "bool \<Rightarrow> period \<Rightarrow> string \<Rightarrow> int \<Rightarrow> int option" where
  "of_unit cpp20 p unit c =
     (if unit = ''s'' then duration_cast seconds p c
      else if unit = ''ms'' then duration_cast milliseconds p c
      else if unit = ''us'' then duration_cast microseconds p c
      else if unit = ''ns'' then duration_cast nanoseconds p c
      else if unit = ''min'' then duration_cast minutes p c
      else if unit = ''hr'' then duration_cast hours p c
      else if cpp20 then
        (if unit = ''d'' then duration_cast days p c
         else if unit = ''wk'' then duration_cast weeks p c
         else if unit = ''mon'' then duration_cast months p c
         else if unit = ''yr'' then duration_cast years p c
         else Some 0)
      else
        (if unit = ''d'' then Option.bind (checked (c * 24)) (duration_cast hours p)
         else if unit = ''wk'' then Option.bind (checked (c * 24 * 7)) (duration_cast hours p)
         else if unit = ''mon'' then Option.bind (checked (c * 2629646)) (\<lambda>x. duration_cast hours p (x sdiv 3600))
         else if unit = ''yr'' then Option.bind (checked (c * 31556952)) (\<lambda>x. duration_cast hours p (x sdiv 3600))
         else Some 0))"

text \<open>\<open>lexical\<close> is \<open>boost::lexical_cast<Rep>\<close>; a text that is not a count with a unit is the duration of zero.\<close>

definition duration_fromString :: "(string \<Rightarrow> int option) \<Rightarrow> bool \<Rightarrow> period \<Rightarrow> string \<Rightarrow> int option" where
  "duration_fromString lexical cpp20 p s =
     (let unit = rev (takeWhile is_alpha (rev s)); countStr = take (length s - length unit) s in
      if s = '''' \<or> unit = '''' \<or> countStr = '''' then Some 0
      else (case lexical countStr of None \<Rightarrow> Some 0 | Some c \<Rightarrow> of_unit cpp20 p unit c))"

section \<open>Conversions of durations\<close>

lemma conversions:
  "conversion seconds seconds = (1, 1) \<and> conversion milliseconds milliseconds = (1, 1) \<and> conversion microseconds microseconds = (1, 1)
   \<and> conversion nanoseconds nanoseconds = (1, 1) \<and> conversion nanoseconds microseconds = (1, 1000)
   \<and> conversion minutes minutes = (1, 1) \<and> conversion hours hours = (1, 1) \<and> conversion days days = (1, 1) \<and> conversion weeks weeks = (1, 1)
   \<and> conversion months months = (1, 1) \<and> conversion years years = (1, 1)
   \<and> conversion hours days = (1, 24) \<and> conversion days weeks = (1, 7) \<and> conversion hours weeks = (1, 168)
   \<and> conversion days months = (1600, 48699) \<and> conversion hours months = (200, 146097)"
  by code_simp

lemma periods_differ:
  "distinct [seconds, milliseconds, microseconds, nanoseconds, minutes, hours, days, weeks, months, years] \<and>
   distinct [years, months, weeks, days, hours, minutes, nanoseconds, microseconds, milliseconds, seconds]"
  by code_simp

lemma sdiv_times: "k > 0 \<Longrightarrow> (c * k) sdiv k = (c :: int)"
  by (simp add: signed_divide_int_def sgn_mult abs_mult mult_sgn_abs)

lemma sdiv_nonneg: "0 \<le> x \<Longrightarrow> 0 < k \<Longrightarrow> x sdiv k = (x div k :: int)"
  by (cases "x = 0") (simp_all add: signed_divide_int_def)

lemma abs_sdiv_le: "0 < k \<Longrightarrow> \<bar>x sdiv k * k\<bar> \<le> \<bar>x :: int\<bar>"
proof -
  assume k: "0 < k"
  have "\<bar>x sdiv k\<bar> = \<bar>x\<bar> div k"
  proof (cases "0 \<le> x")
    case True
    then show ?thesis
      using k by (simp add: sdiv_nonneg pos_imp_zdiv_nonneg_iff)
  next
    case False
    then show ?thesis
      using k pos_imp_zdiv_nonneg_iff [of k "- x"] by (simp add: signed_divide_int_def sgn_if)
  qed
  then show ?thesis
    using k minus_mod_eq_div_mult [of "\<bar>x\<bar>" k, symmetric] pos_mod_sign [of k "\<bar>x\<bar>"] by (simp add: abs_mult)
qed

lemma fits64_small: "\<bar>x\<bar> \<le> \<bar>y\<bar> \<Longrightarrow> \<bar>y\<bar> < 2 ^ 63 \<Longrightarrow> fits64 x"
  by (simp add: fits64_def abs_if split: if_splits)

lemma fits64_bound: "\<bar>c\<bar> < 2 ^ 53 \<Longrightarrow> \<bar>k\<bar> \<le> 1000 \<Longrightarrow> fits64 (c * k)"
proof -
  assume c: "\<bar>c\<bar> < 2 ^ 53" and k: "\<bar>k\<bar> \<le> 1000"
  have "\<bar>c * k\<bar> \<le> 2 ^ 53 * 1000"
    unfolding abs_mult by (rule mult_mono) (use c k in simp_all)
  then show ?thesis
    by (simp add: fits64_def abs_le_iff)
qed

lemma checked_bound: "\<bar>c\<bar> < 2 ^ 53 \<Longrightarrow> \<bar>k\<bar> \<le> 1000 \<Longrightarrow> checked (c * k) = Some (c * k)"
  by (simp add: checked_def fits64_bound)

lemma checked_plain: "\<bar>c\<bar> < 2 ^ 53 \<Longrightarrow> checked c = Some c"
  using checked_bound [of c 1] by simp

text \<open>A conversion to a multiple, and back from it.\<close>

lemma cast_down: "conversion p q = (1, k) \<Longrightarrow> 0 < k \<Longrightarrow> k \<le> 1000 \<Longrightarrow> \<bar>c\<bar> < 2 ^ 53 \<Longrightarrow> duration_cast p q (c * k) = Some c"
  by (simp add: duration_cast_def checked_bound sdiv_times)

lemma cast_same: "conversion p p = (1, 1) \<Longrightarrow> \<bar>c\<bar> < 2 ^ 53 \<Longrightarrow> duration_cast p p c = Some c"
  by (simp add: duration_cast_def checked_plain)

lemma cast_ratio: "conversion p q = (a, b) \<Longrightarrow> 0 < b \<Longrightarrow> 0 \<le> c \<Longrightarrow> 0 \<le> a \<Longrightarrow> c * a < 2 ^ 63 \<Longrightarrow> duration_cast p q c = Some (c * a div b)"
  by (simp add: duration_cast_def checked_def fits64_def sdiv_nonneg order_trans [of "-9223372036854775808" 0])

section \<open>What survives the conversion\<close>

lemmas duration_simps = DurationConverter_write_def DurationConverter_read_def Let_def

text \<open>
  C29: A duration in seconds, milliseconds, microseconds, minutes, hours, days or weeks of less than \<open>2 ^ 53\<close> units is converted to a .NET time
  span and back unchanged, with either language standard.
\<close>

theorem duration_roundtrip:
  assumes "p \<in> {seconds, milliseconds, microseconds, minutes, hours, days, weeks}" and "\<bar>c\<bar> < 2 ^ 53"
  shows "\<exists>t. DurationConverter_write p c = Some t \<and> DurationConverter_read cpp20 p t = Some (Some c)"
proof -
  note small = checked_bound [OF assms(2)] checked_plain [OF assms(2)] cast_same [OF _ assms(2)] cast_down [OF _ _ _ assms(2)]
  have d: "checked (c * 24) = Some (c * 24)" "checked (c * 10) = Some (c * 10)" "checked (c * 10 * 100) = Some (c * 1000)"
      "checked (c * 7) = Some (c * 7)" "checked (c * 7 * 24) = Some (c * 168)"
    using small(1) by (simp_all add: mult.assoc)
  have casts: "duration_cast hours days (c * 24) = Some c" "duration_cast nanoseconds microseconds (c * 1000) = Some c"
      "duration_cast days weeks (c * 7) = Some c" "duration_cast hours weeks (c * 168) = Some c"
    using conversions by (simp_all add: small(4))
  have "conversion p p = (1, 1)"
    using assms(1) conversions by auto
  then have same: "duration_cast p p c = Some c"
    by (rule small(3))
  from assms(1) consider "p = seconds" | "p = milliseconds" | "p = microseconds" | "p = minutes" | "p = hours" | "p = days" | "p = weeks"
    by blast
  then show ?thesis
    using same casts d periods_differ by cases (simp_all add: duration_simps)
qed

lemma nanoseconds_truncated:
  assumes "\<bar>c\<bar> < 2 ^ 53"
  shows "\<exists>t. DurationConverter_write nanoseconds c = Some t \<and> DurationConverter_read cpp20 nanoseconds t = Some (Some (c sdiv 100 * 100))"
proof -
  have "\<bar>c sdiv 100 * 100\<bar> \<le> \<bar>c\<bar>"
    by (rule abs_sdiv_le) simp
  then have "\<bar>c sdiv 100 * 100\<bar> < 2 ^ 53"
    using assms by simp
  note small = checked_plain [OF this] cast_same [OF _ this]
  show ?thesis
    using small conversions periods_differ by (simp add: duration_simps)
qed

text \<open>
  A positive number of months becomes a whole number of days, rounded down, and comes back one smaller, unless it is a multiple of 1600.
\<close>

theorem months_come_back_smaller:
  assumes "0 < c" and "c < 2 ^ 40"
  shows "\<exists>t. DurationConverter_write months c = Some t \<and>
    DurationConverter_read cpp20 months t = Some (Some (if 1600 dvd c then c else c - 1))"
proof -
  let ?v = "c * 2629746 div 86400"
  have v: "?v = c * 48699 div 1600"
    using div_mult_mult1 [of 54 "c * 48699" 1600] by (simp add: algebra_simps)
  have vb: "0 \<le> ?v" "?v \<le> c * 31"
    using assms(1) unfolding v by simp_all
  have w: "checked (c * 2629746) = Some (c * 2629746)" "(c * 2629746) sdiv 86400 = ?v" "checked (?v * 24) = Some (?v * 24)"
    using assms vb by (simp_all add: checked_def fits64_def sdiv_nonneg)
  have r: "duration_cast days months ?v = Some (?v * 1600 div 48699)" "duration_cast hours months (?v * 24) = Some (?v * 24 * 200 div 146097)"
    using vb assms conversions by (simp_all add: cast_ratio)
  have h: "?v * 24 * 200 div 146097 = ?v * 1600 div 48699"
    using div_mult_mult1 [of 3 "?v * 1600" 48699] by (simp add: algebra_simps)
  have ret: "?v * 1600 div 48699 = (if 1600 dvd c then c else c - 1)"
  proof (cases "1600 dvd c")
    case True
    then obtain k where "c = 1600 * k" ..
    then show ?thesis
      unfolding v by simp
  next
    case False
    have "\<not> 1600 dvd c * 48699"
    proof
      assume "1600 dvd c * 48699"
      moreover have "coprime (1600 :: int) 48699"
        by code_simp
      ultimately show False
        using False by (simp add: coprime_dvd_mult_left_iff)
    qed
    then have "c * 48699 mod 1600 \<noteq> 0"
      by (simp add: dvd_eq_mod_eq_0)
    then have "?v * 1600 < c * 48699" "c * 48699 - 1600 < ?v * 1600"
      unfolding v using div_mult_mod_eq [of "c * 48699" 1600] pos_mod_bound [of 1600 "c * 48699"] pos_mod_sign [of 1600 "c * 48699"] by linarith+
    then have "(?v * 1600) div 48699 = c - 1"
      by (intro int_div_pos_eq [of _ _ _ "?v * 1600 - 48699 * (c - 1)"]) simp_all
    then show ?thesis
      using False by simp
  qed
  show ?thesis
    using w r h ret periods_differ by (simp add: duration_simps)
qed

lemma show_int_not_alpha: "x \<in> set (show_int c) \<Longrightarrow> \<not> is_alpha x"
  by (auto simp: is_alpha_def of_char_digit dest!: show_int_chars)

lemma units_alpha: "\<forall>x \<in> set (duration_unit p). is_alpha x" "duration_unit p \<noteq> ''''"
  by (simp_all add: duration_unit_def is_alpha_def)

text \<open>The text of a count and a unit is taken apart again.\<close>

lemma fromString_shown:
  assumes "lexical (show_int c) = Some c"
  shows "duration_fromString lexical cpp20 p (show_int c @ duration_unit q) = of_unit cpp20 p (duration_unit q) c"
proof -
  have "takeWhile is_alpha (rev (show_int c)) = []"
    using show_int_nonempty [of c] show_int_not_alpha [of "last (show_int c)" c] by (cases "show_int c" rule: rev_cases) auto
  then have "takeWhile is_alpha (rev (show_int c @ duration_unit q)) = rev (duration_unit q)"
    unfolding rev_append using units_alpha(1) [of q] by (subst takeWhile_append2) simp_all
  then show ?thesis
    using assms units_alpha(2) show_int_nonempty [of c] by (simp add: duration_fromString_def)
qed

lemma toString_shown:
  "p \<in> {seconds, milliseconds, microseconds, nanoseconds, minutes, hours, days, weeks, months, years} \<Longrightarrow>
    duration_toString p c = Some (show_int c @ duration_unit p)"
  by (simp add: duration_toString_def)

text \<open>
  A duration in nanoseconds up to weeks is printed with its unit and read back unchanged.
\<close>

theorem duration_text_roundtrip:
  assumes "p \<in> {seconds, milliseconds, microseconds, nanoseconds, minutes, hours, days, weeks}" and "\<bar>c\<bar> < 2 ^ 53"
    and "\<forall>i. fits64 i \<longrightarrow> lexical (show_int i) = Some i"
  shows "Option.bind (duration_toString p c) (duration_fromString lexical cpp20 p) = Some c"
proof -
  have d: "checked (c * 24) = Some (c * 24)" "checked (c * 24 * 7) = Some (c * 168)"
    using checked_bound [OF assms(2)] by (simp_all add: mult.assoc)
  have casts: "duration_cast hours days (c * 24) = Some c" "duration_cast hours weeks (c * 168) = Some c"
    using conversions by (simp_all add: cast_down [OF _ _ _ assms(2)])
  have "conversion p p = (1, 1)"
    using assms(1) conversions by auto
  then have same: "duration_cast p p c = Some c"
    by (rule cast_same [OF _ assms(2)])
  have "of_unit cpp20 p (duration_unit p) c = Some c"
    using assms(1) same casts d periods_differ by (auto simp: of_unit_def duration_unit_def)
  moreover have "duration_toString p c = Some (show_int c @ duration_unit p)"
    by (rule toString_shown) (use assms(1) in blast)
  moreover have "lexical (show_int c) = Some c"
    using assms(3) fits64_bound [OF assms(2), of 1] by simp
  ultimately show ?thesis
    by (simp add: fromString_shown)
qed

text \<open>
  Before C++20, a positive number of months that is printed and read back comes back smaller: a month is printed for 2629746 seconds
  and read as 2629646. With C++20 it comes back unchanged.
\<close>

theorem months_text_smaller:
  assumes "0 < c" and "c < 2 ^ 40" and "\<forall>i. fits64 i \<longrightarrow> lexical (show_int i) = Some i"
  shows "\<exists>s d. duration_toString months c = Some s \<and> duration_fromString lexical True months s = Some c
    \<and> duration_fromString lexical False months s = Some d \<and> d < c"
proof -
  let ?h = "c * 2629646 div 3600"
  have small: "\<bar>c\<bar> < 2 ^ 53"
    using assms(1,2) by simp
  have s: "duration_toString months c = Some (show_int c @ duration_unit months)"
    by (rule toString_shown) simp
  have l: "lexical (show_int c) = Some c"
    using assms(3) fits64_bound [OF small, of 1] by simp
  have u: "duration_unit months = ''mon''"
    using periods_differ by (simp add: duration_unit_def)
  have new: "of_unit True months ''mon'' c = Some c"
    using cast_same [OF _ small] conversions by (simp add: of_unit_def)
  have h: "0 \<le> ?h" "?h * 3600 \<le> c * 2629646" "?h \<le> c * 731"
    using assms(1) by simp_all
  have "checked (c * 2629646) = Some (c * 2629646)" "(c * 2629646) sdiv 3600 = ?h"
    using assms(1,2) by (simp_all add: checked_def fits64_def sdiv_nonneg)
  moreover have "duration_cast hours months ?h = Some (?h * 200 div 146097)"
    using h assms(2) conversions by (simp add: cast_ratio)
  ultimately have old: "of_unit False months ''mon'' c = Some (?h * 200 div 146097)"
    by (simp add: of_unit_def)
  have "?h * 200 < c * 146097"
    using h(2) assms(1) by linarith
  then have "?h * 200 div 146097 < c"
    by (simp add: div_less_iff_less_mult)
  then show ?thesis
    using s new old u fromString_shown [of lexical c _ months months] l by simp
qed

section \<open>Points in time\<close>

text \<open>
  DateTime.hpp. A \<open>std::chrono::system_clock::time_point\<close> is its number of nanoseconds since the epoch. The calendar of the operating system is a
  parameter: \<open>gmtime\<close>, \<open>mktime\<close> and \<open>localtime\<close> on seconds since the epoch, and \<open>parseLocalTime\<close> of tm_infra.
\<close>

datatype DateTimeKind = UNSPECIFIED | UTC | LOCAL

record BclDateTimeProto =
  dt_value :: int
  dt_scale :: TimeSpanScale
  dt_kind :: DateTimeKind

text \<open>\<open>std::tm\<close> without the day of the week and of the year, which nothing here reads, and the daylight saving flag, which is unknown.\<close>

record broken_down =
  tm_year :: int
  tm_mon :: int
  tm_mday :: int
  tm_hour :: int
  tm_min :: int
  tm_sec :: int

record DateHolder =
  dh_year :: int
  dh_month :: int
  dh_day :: int

record calendar =
  gmtime :: "int \<Rightarrow> broken_down"
  mktime :: "broken_down \<Rightarrow> int"
  localtime :: "int \<Rightarrow> broken_down"
  parseLocalTime :: "int \<Rightarrow> int \<Rightarrow> int \<Rightarrow> int"

text \<open>\<open>to_time_t\<close> and \<open>from_time_t\<close> of \<open>system_clock\<close>.\<close>

definition to_time_t :: "int \<Rightarrow> int" where
  "to_time_t tp = tp sdiv 1000000000"

definition from_time_t :: "int \<Rightarrow> int option" where
  "from_time_t t = checked (t * 1000000000)"

definition write_time_point :: "int \<Rightarrow> BclDateTimeProto option" where
  "write_time_point tp =
     map_option (\<lambda>t. \<lparr>dt_value = ts_value t, dt_scale = ts_scale t, dt_kind = UTC\<rparr>) (DurationConverter_write nanoseconds tp)"

definition gm_to_local :: "calendar \<Rightarrow> int \<Rightarrow> int option" where
  "gm_to_local cal tp =
     (let t = to_time_t tp; t1 = mktime cal (gmtime cal t) in
      Option.bind (from_time_t t1) (\<lambda>a. Option.bind (from_time_t t) (\<lambda>b. Option.bind (checked (a - b)) (\<lambda>diff. checked (tp + diff)))))"

text \<open>The outer \<^const>\<open>None\<close> is a scale that is not known, as for durations.\<close>

definition read_time_point :: "calendar \<Rightarrow> bool \<Rightarrow> BclDateTimeProto \<Rightarrow> int option option" where
  "read_time_point cal cpp20 p =
     map_option (\<lambda>d. if dt_kind p = UNSPECIFIED then Option.bind d (gm_to_local cal) else d)
       (DurationConverter_read cpp20 nanoseconds \<lparr>ts_value = dt_value p, ts_scale = dt_scale p\<rparr>)"

definition write_tm :: "calendar \<Rightarrow> broken_down \<Rightarrow> BclDateTimeProto option" where
  "write_tm cal d = Option.bind (from_time_t (mktime cal d)) write_time_point"

definition read_tm :: "calendar \<Rightarrow> bool \<Rightarrow> BclDateTimeProto \<Rightarrow> broken_down option option" where
  "read_tm cal cpp20 p = map_option (map_option (\<lambda>tp. localtime cal (to_time_t tp))) (read_time_point cal cpp20 p)"

definition write_date :: "calendar \<Rightarrow> DateHolder \<Rightarrow> BclDateTimeProto option" where
  "write_date cal d = write_time_point (parseLocalTime cal (dh_year d) (dh_month d) (dh_day d))"

definition read_date :: "calendar \<Rightarrow> bool \<Rightarrow> BclDateTimeProto \<Rightarrow> DateHolder option option" where
  "read_date cal cpp20 p =
     map_option (map_option (\<lambda>tp. let m = localtime cal (to_time_t tp) in
       \<lparr>dh_year = tm_year m + 1900, dh_month = tm_mon m + 1, dh_day = tm_mday m\<rparr>)) (read_time_point cal cpp20 p)"

lemma time_point_roundtrip:
  assumes "fits64 (c * 100)"
  shows "\<exists>p. write_time_point (c * 100) = Some p \<and> read_time_point cal cpp20 p = Some (Some (c * 100))"
proof -
  have "duration_cast nanoseconds nanoseconds (c * 100) = Some (c * 100)"
    using conversions assms by (simp add: duration_cast_def checked_def)
  then show ?thesis
    using assms periods_differ
    by (simp add: write_time_point_def read_time_point_def duration_simps sdiv_times checked_def)
qed

text \<open>
  A date is written as the midnight of local time it begins with and read back as the same date, in every calendar
  whose local time of that midnight is that date. The midnight is a whole number of seconds.
\<close>

theorem date_roundtrip:
  assumes "parseLocalTime cal (dh_year d) (dh_month d) (dh_day d) = t * 1000000000" and "fits64 (t * 1000000000)"
    and "localtime cal t = m" and "tm_year m = dh_year d - 1900" "tm_mon m = dh_month d - 1" "tm_mday m = dh_day d"
  shows "\<exists>p. write_date cal d = Some p \<and> read_date cal cpp20 p = Some (Some d)"
proof -
  define c where "c = t * 1000000000"
  have "c = (t * 10000000) * 100"
    by (simp add: c_def)
  then have "c sdiv 100 * 100 = c"
    using sdiv_times [of 100 "t * 10000000"] by simp
  moreover have "c sdiv 1000000000 = t" "fits64 c"
    using assms(2) sdiv_times [of 1000000000 t] by (simp_all add: c_def)
  ultimately have c: "c sdiv 100 * 100 = c" "c sdiv 1000000000 = t" "fits64 c"
    by blast+
  have "duration_cast nanoseconds nanoseconds c = Some c"
    using conversions c(3) by (simp add: duration_cast_def checked_def)
  then show ?thesis
    using assms(1,3-6) [folded c_def] c periods_differ
    by (cases d) (simp add: write_date_def read_date_def write_time_point_def read_time_point_def duration_simps checked_def to_time_t_def)
qed

text \<open>
  Where local time is a fixed distance from Greenwich time, a point in time of unspecified kind is moved by that distance: what its ticks
  read as Greenwich time, the result reads as local time. The other two kinds are taken as they are.
\<close>

theorem unspecified_is_local:
  assumes "\<forall>t. mktime cal (gmtime cal t) = t + offset" and "\<bar>v\<bar> < 2 ^ 53" and "\<bar>offset\<bar> < 10 ^ 6"
  shows "read_time_point cal cpp20 \<lparr>dt_value = v, dt_scale = TICKS, dt_kind = k\<rparr> =
    Some (Some (v * 100 + (if k = UNSPECIFIED then offset * 1000000000 else 0)))"
proof -
  let ?d = "v * 100" and ?t = "v * 100 sdiv 1000000000"
  have t: "\<bar>?t * 1000000000\<bar> \<le> \<bar>?d\<bar>"
    by (rule abs_sdiv_le) simp
  have d: "\<bar>?d\<bar> < 10 ^ 18" "\<bar>offset * 1000000000\<bar> < 10 ^ 15"
    using assms(2,3) by simp_all
  have fit: "fits64 x" if "\<bar>x\<bar> < 10 ^ 18 + 10 ^ 15" for x
    using that by (simp add: fits64_def abs_less_iff)
  have f: "fits64 (?d)" "fits64 (?t * 1000000000)" "fits64 ((?t + offset) * 1000000000)" "fits64 (offset * 1000000000)"
      "fits64 (?d + offset * 1000000000)"
    using t d abs_triangle_ineq [of "?t * 1000000000" "offset * 1000000000"] abs_triangle_ineq [of ?d "offset * 1000000000"]
    by (intro fit; (simp only: distrib_right)?; linarith)+
  then have "duration_cast nanoseconds nanoseconds ?d = Some ?d"
    using conversions by (simp add: duration_cast_def checked_def)
  moreover have "gm_to_local cal ?d = Some (?d + offset * 1000000000)"
    using f assms(1) by (simp add: gm_to_local_def to_time_t_def from_time_t_def checked_def Let_def algebra_simps)
  ultimately show ?thesis
    using f(1) by (simp add: read_time_point_def duration_simps checked_def)
qed

section \<open>Identifiers\<close>

text \<open>Guid.hpp: the bytes of an identifier in the order .NET keeps them, as two 64-bit integers. \<open>Env\<close> gives the bytes of an identifier.\<close>

record 'i id_bytes =
  id_to_bytes :: "'i \<Rightarrow> string"
  id_from_bytes :: "string \<Rightarrow> 'i"

record BclGuidProto =
  guid_lo :: "64 word"
  guid_hi :: "64 word"

definition swap_at :: "nat \<Rightarrow> nat \<Rightarrow> string \<Rightarrow> string" where
  "swap_at i j p = p[i := p ! j, j := p ! i]"

definition guid_order :: "string \<Rightarrow> string" where
  "guid_order p = swap_at 6 7 (swap_at 4 5 (swap_at 1 2 (swap_at 0 3 p)))"

definition resize :: "nat \<Rightarrow> string \<Rightarrow> string" where
  "resize n s = take n s @ replicate (n - length s) (CHR 0x00)"

definition GuidConverter_read :: "'i id_bytes \<Rightarrow> BclGuidProto \<Rightarrow> 'i" where
  "GuidConverter_read e d = id_from_bytes e (guid_order (bytes_of_nat 8 (unat (guid_lo d)) @ bytes_of_nat 8 (unat (guid_hi d))))"

definition GuidConverter_write :: "'i id_bytes \<Rightarrow> 'i \<Rightarrow> BclGuidProto" where
  "GuidConverter_write e i =
     (let bytes = id_to_bytes e i; p = guid_order (if length bytes \<noteq> 16 then resize 16 bytes else bytes) in
      \<lparr>guid_lo = of_nat (nat_of_bytes (take 8 p)), guid_hi = of_nat (nat_of_bytes (take 8 (drop 8 p)))\<rparr>)"

lemma length_guid_order [simp]: "length (guid_order p) = length p"
  by (simp add: guid_order_def swap_at_def)

lemma guid_order_twice: "length p = 16 \<Longrightarrow> guid_order (guid_order p) = p"
  by (auto simp: guid_order_def swap_at_def length_Suc_conv numeral_eq_Suc)

lemma word_bytes: "length s = 8 \<Longrightarrow> bytes_of_nat 8 (unat (of_nat (nat_of_bytes s) :: 64 word)) = s"
  using nat_of_bytes_less [of s] bytes_of_nat_of_bytes [of s] by (simp add: unat_of_nat)

text \<open>
  An identifier of 16 bytes is written as two integers and read back as the same identifier.
\<close>

theorem guid_roundtrip:
  assumes "length (id_to_bytes e i) = 16" and "id_from_bytes e (id_to_bytes e i) = i"
  shows "GuidConverter_read e (GuidConverter_write e i) = i"
proof -
  let ?p = "guid_order (id_to_bytes e i)"
  have "bytes_of_nat 8 (unat (guid_lo (GuidConverter_write e i))) = take 8 ?p"
       "bytes_of_nat 8 (unat (guid_hi (GuidConverter_write e i))) = take 8 (drop 8 ?p)"
    using assms(1) by (simp_all add: GuidConverter_write_def Let_def word_bytes)
  moreover have "take 8 ?p @ take 8 (drop 8 ?p) = ?p"
    using assms(1) append_take_drop_id [of 8 ?p] by simp
  ultimately show ?thesis
    using assms by (simp add: GuidConverter_read_def guid_order_twice)
qed

section \<open>Decimal numbers\<close>

text \<open>
  Decimal.hpp: a number as an integer of 96 bits, a power of ten and a sign. \<open>cpp_dec_float_100\<close> of Boost is a parameter;
  \<open>to_int128\<close> is \<open>convert_to\<close>, which drops the fraction, and \<open>exp_cap\<close> the 32-bit result of the computation in \<open>double\<close>s, before it is limited to 100.
\<close>

unbundle bit_operations_syntax

record 'f dec_float =
  is_negative :: "'f \<Rightarrow> bool"
  negate :: "'f \<Rightarrow> 'f"
  same :: "'f \<Rightarrow> 'f \<Rightarrow> bool"
  times_ten :: "'f \<Rightarrow> 'f"
  of_int128 :: "int \<Rightarrow> 'f"
  to_int128 :: "'f \<Rightarrow> int"
  over_power_of_ten :: "'f \<Rightarrow> 32 word \<Rightarrow> 'f"
  exp_cap :: "'f \<Rightarrow> 32 word"

record BclDecimalProto =
  dec_lo :: "64 word"
  dec_hi :: "32 word"
  signScale :: "32 word"

definition DecimalConverter_read :: "'f dec_float \<Rightarrow> BclDecimalProto \<Rightarrow> 'f" where
  "DecimalConverter_read ops d =
     (let base = push_bit 64 (uint (dec_hi d)) OR uint (dec_lo d);
          ret = over_power_of_ten ops (of_int128 ops base) (drop_bit 1 (signScale d)) in
      if signScale d AND 1 = 0 then ret else negate ops ret)"

text \<open>The loop, with the number of rounds that are left.\<close>

fun scale_up :: "'f dec_float \<Rightarrow> nat \<Rightarrow> 32 word \<Rightarrow> 'f \<Rightarrow> 32 word \<times> int" where
  "scale_up ops 0 exp x = (exp, to_int128 ops x)"
| "scale_up ops (Suc n) exp x =
     (if same ops x (of_int128 ops (to_int128 ops x)) then (exp, to_int128 ops x) else scale_up ops n (exp + 1) (times_ten ops x))"

definition DecimalConverter_write :: "'f dec_float \<Rightarrow> 'f \<Rightarrow> BclDecimalProto" where
  "DecimalConverter_write ops inp =
     (let isNeg = is_negative ops inp; x = (if isNeg then negate ops inp else inp);
          cap = (if exp_cap ops x > 100 then 100 else exp_cap ops x);
          (exp, intRep) = scale_up ops (unat cap) 0 x in
      \<lparr>dec_lo = of_int (intRep AND 0xffffffffffffffff), dec_hi = of_int (drop_bit 64 intRep AND 0xffffffff),
       signScale = push_bit 1 exp OR (if isNeg then 1 else 0)\<rparr>)"

lemma halves_joined:
  "push_bit 64 (uint (of_int (drop_bit 64 i AND 0xffffffff) :: 32 word)) OR uint (of_int (i AND 0xffffffffffffffff) :: 64 word) = i mod 2 ^ 96"
proof -
  have m: "(0xffffffff :: int) = mask 32" "(0xffffffffffffffff :: int) = mask 64"
    by (simp_all add: mask_eq_exp_minus_1)
  let ?j = "take_bit 96 i"
  have h: "take_bit 32 (drop_bit 64 i) = drop_bit 64 ?j" "take_bit 64 i = take_bit 64 ?j"
    by (simp_all add: take_bit_drop_bit)
  have "push_bit 64 (drop_bit 64 ?j) OR take_bit 64 ?j = ?j"
    by (metis concat_bit_def concat_bit_eq bits_ident or.commute add.commute)
  then have "push_bit 64 (take_bit 32 (drop_bit 64 i)) OR take_bit 64 i = i mod 2 ^ 96"
    unfolding h by (simp add: take_bit_eq_mod)
  then show ?thesis
    by (simp add: m uint_word_of_int_eq take_bit_eq_mask [symmetric])
qed

lemma scale_up_bound: "scale_up ops n exp x = (k, i) \<Longrightarrow> unat exp + n < 2 ^ 32 \<Longrightarrow> unat k \<le> unat exp + n"
proof (induction n arbitrary: exp x)
  case (Suc n)
  have "unat (exp + 1) = Suc (unat exp)"
    using Suc.prems(2) unat_word_ariths(1) [of exp 1] by simp
  then show ?case
    using Suc.IH [of "exp + 1" "times_ten ops x"] Suc.prems by (auto split: if_splits)
qed simp

lemma sign_and_scale:
  assumes "unat (k :: 32 word) \<le> 100"
  shows "drop_bit 1 (push_bit 1 k OR (if neg then 1 else 0)) = k" "(push_bit 1 k OR (if neg then 1 else 0)) AND 1 = (if neg then 1 else 0)"
proof -
  have big: "\<not> bit k n" if "7 \<le> n" for n
  proof -
    have "unat k < 2 ^ 7"
      using assms by simp
    then have "take_bit 7 (unat k) = unat k"
      by (simp add: take_bit_nat_eq_self_iff)
    then have "\<not> bit (unat k) n"
      using that by (metis bit_take_bit_iff not_le)
    then show ?thesis
      by (simp add: bit_unsigned_iff)
  qed
  have k: "Suc n < 32" if "bit k n" for n
    using big [of n] that by (cases "7 \<le> n") simp_all
  have "drop_bit m (push_bit m k OR (if neg then 1 else 0)) = k" if "m = 1" for m :: nat
    using that k by (intro bit_word_eqI) (auto simp: bit_simps simp del: One_nat_def)
  then show "drop_bit 1 (push_bit 1 k OR (if neg then 1 else 0)) = k"
    by blast
  have "(push_bit m k OR (if neg then 1 else 0)) AND 1 = (if neg then 1 else 0)" if "m = 1" for m :: nat
    using that by (intro bit_word_eqI) (auto simp: bit_simps simp del: One_nat_def)
  then show "(push_bit 1 k OR (if neg then 1 else 0)) AND 1 = (if neg then 1 else 0)"
    by blast
qed

text \<open>
  What is read from a written number is the integer the loop ends with, over ten to the number of its rounds, with the
  sign of the number. Only 96 bits of the integer are kept, so a number of \<open>2 ^ 96\<close> or more is read as another one.
\<close>

theorem decimal_fields:
  assumes "scale_up ops (unat (min 100 (exp_cap ops (if is_negative ops x then negate ops x else x)))) 0 (if is_negative ops x then negate ops x else x) = (k, i)"
  shows "DecimalConverter_read ops (DecimalConverter_write ops x) =
    (let r = over_power_of_ten ops (of_int128 ops (i mod 2 ^ 96)) k in if is_negative ops x then negate ops r else r) \<and> unat k \<le> 100"
proof -
  let ?x = "if is_negative ops x then negate ops x else x"
  have cap: "(if exp_cap ops ?x > 100 then 100 else exp_cap ops ?x) = min 100 (exp_cap ops ?x)"
    by (auto simp: min_def)
  have "unat (min 100 (exp_cap ops ?x)) \<le> 100"
    by (simp add: min_def word_le_nat_alt)
  then have k: "unat k \<le> 100"
    using scale_up_bound [OF assms] by simp
  then show ?thesis
    using assms sign_and_scale [OF k, of "is_negative ops x"]
    by (simp add: DecimalConverter_read_def DecimalConverter_write_def cap halves_joined Let_def)
qed

section \<open>Examples\<close>

definition lexical_cast_64 :: "string \<Rightarrow> int option" where
  "lexical_cast_64 s = (case read_signed s of None \<Rightarrow> None | Some i \<Rightarrow> checked i)"

lemma lexical_cast_64_law: "\<forall>i. fits64 i \<longrightarrow> lexical_cast_64 (show_int i) = Some i"
  by (simp add: lexical_cast_64_def read_show_signed checked_def)

theorem duration_roundtrip_witness:
  "\<exists>t. DurationConverter_write microseconds 1500 = Some t \<and> DurationConverter_read False microseconds t = Some (Some 1500)"
  by (rule duration_roundtrip) simp_all

theorem months_come_back_smaller_witness:
  "\<exists>t. DurationConverter_write months 13 = Some t \<and> DurationConverter_read False months t = Some (Some 12)"
  using months_come_back_smaller [of 13 False] by simp

theorem duration_text_roundtrip_witness:
  "Option.bind (duration_toString weeks (- 2)) (duration_fromString lexical_cast_64 False weeks) = Some (- 2)"
  by (rule duration_text_roundtrip [OF _ _ lexical_cast_64_law]) simp_all

theorem months_text_smaller_witness:
  "\<exists>s d. duration_toString months 1 = Some s \<and> duration_fromString lexical_cast_64 True months s = Some 1
    \<and> duration_fromString lexical_cast_64 False months s = Some d \<and> d < 1"
  by (rule months_text_smaller [OF _ _ lexical_cast_64_law]) simp_all

text \<open>A clock five hours behind Greenwich, which keeps its time in seconds only.\<close>

definition seconds_calendar :: calendar where
  "seconds_calendar =
     (let show_seconds = (\<lambda>t. \<lparr>tm_year = 0, tm_mon = 0, tm_mday = 0, tm_hour = 0, tm_min = 0, tm_sec = t\<rparr>) in
      \<lparr>gmtime = show_seconds, mktime = (\<lambda>d. tm_sec d + 18000), localtime = (\<lambda>t. show_seconds (t - 18000)), parseLocalTime = (\<lambda>_ _ _. 0)\<rparr>)"

theorem unspecified_is_local_witness:
  "read_time_point seconds_calendar True \<lparr>dt_value = 10000000, dt_scale = TICKS, dt_kind = UNSPECIFIED\<rparr> = Some (Some 18001000000000)"
  using unspecified_is_local [of seconds_calendar 18000 10000000 True UNSPECIFIED] by (simp add: seconds_calendar_def Let_def)

theorem guid_roundtrip_witness:
  "GuidConverter_read \<lparr>id_to_bytes = (\<lambda>s. s), id_from_bytes = (\<lambda>s. s)\<rparr> (GuidConverter_write \<lparr>id_to_bytes = (\<lambda>s. s), id_from_bytes = (\<lambda>s. s)\<rparr> ''0123456789abcdef'') = ''0123456789abcdef''"
  by (rule guid_roundtrip) simp_all

text \<open>Numbers with one digit behind the point, as tenths.\<close>

definition tenths :: "int dec_float" where
  "tenths = \<lparr>is_negative = (\<lambda>x. x < 0), negate = uminus, same = (=), times_ten = (\<lambda>x. 10 * x), of_int128 = (\<lambda>i. 10 * i),
     to_int128 = (\<lambda>x. x sdiv 10), over_power_of_ten = (\<lambda>x k. x sdiv 10 ^ unat k), exp_cap = (\<lambda>_. 20)\<rparr>"

theorem decimal_fields_witness:
  "DecimalConverter_read tenths (DecimalConverter_write tenths (- 25)) = - 25"
proof -
  have "scale_up tenths (unat (min 100 (exp_cap tenths (if is_negative tenths (- 25) then negate tenths (- 25) else - 25)))) 0
      (if is_negative tenths (- 25) then negate tenths (- 25) else - 25) = (1, 25)"
    by code_simp
  from decimal_fields [OF this] show ?thesis
    by (simp add: tenths_def)
qed

end
