(* ===== verification/SociValues.thy ===== *)
theory SociValues
  imports BclCompat
begin

text \<open>
  How the fields of a struct are read from a row of a database and bound to a statement: StructFieldInfoUtils_SociHelper.hpp and the binding functions of
  DBTableExporterFactory.hpp and DBTableImporterFactory.hpp. A struct is described by the types of its fields and is the list of their values;
  the description itself (\<open>StructFieldInfo\<close>) is generated code of tm_basic. The cells of a row are those of the SOCI library.
\<close>

section \<open>Integers of C++\<close>

text \<open>An integral type is its width and whether it is signed. Operands of a comparison are converted to a common type first.\<close>

record int_type =
  width :: nat
  is_signed :: bool

definition "cpp_int = \<lparr>width = 32, is_signed = True\<rparr>"
definition "cpp_long_long = \<lparr>width = 64, is_signed = True\<rparr>"
definition "cpp_unsigned_long_long = \<lparr>width = 64, is_signed = False\<rparr>"

lemmas cpp_int_defs = cpp_int_def cpp_long_long_def cpp_unsigned_long_long_def

definition max_of :: "int_type \<Rightarrow> int" where
  "max_of t = (if is_signed t then 2 ^ (width t - 1) - 1 else 2 ^ width t - 1)"

definition min_of :: "int_type \<Rightarrow> int" where
  "min_of t = (if is_signed t then - (2 ^ (width t - 1)) else 0)"

definition convert :: "int_type \<Rightarrow> int \<Rightarrow> int" where
  "convert t i = (i - min_of t) mod 2 ^ width t + min_of t"

definition promote :: "int_type \<Rightarrow> int_type" where
  "promote t = (if width t < 32 then cpp_int else t)"

definition common_type :: "int_type \<Rightarrow> int_type \<Rightarrow> int_type" where
  "common_type t u =
     (let a = promote t; b = promote u in
      if is_signed a = is_signed b then (if width a < width b then b else a)
      else if is_signed a then (if width a \<le> width b then b else a)
      else (if width b \<le> width a then a else b))"

definition cpp_le :: "int_type \<Rightarrow> int \<Rightarrow> int_type \<Rightarrow> int \<Rightarrow> bool" where
  "cpp_le t x u y \<longleftrightarrow> convert (common_type t u) x \<le> convert (common_type t u) y"

definition fits :: "int_type \<Rightarrow> int \<Rightarrow> bool" where
  "fits t i \<longleftrightarrow> min_of t \<le> i \<and> i \<le> max_of t"

definition is_int_type :: "int_type \<Rightarrow> bool" where
  "is_int_type t \<longleftrightarrow> 0 < width t \<and> width t \<le> 64"

section \<open>Reading a cell\<close>

datatype soci_exception = SociError | RuntimeError string | OutOfRange | BadCast | Undefined

datatype 'd cell =
  CString string
| CDate broken_down
| CDouble 'd
| CInteger int
| CLongLong int
| CUnsignedLongLong int
| CBlob
| CXml

datatype indicator = i_ok | i_null | i_truncated

type_synonym 'd row = "('d cell \<times> indicator) list"

datatype field_type =
  TTm
| TDate
| TTimePoint
| TIntegral int_type
| TFloating
| TDecimal
| TString
| TTimePointAsString
| TConvertible string
| TOptional field_type

datatype ('d, 'x) cpp_value =
  VTm broken_down
| VDate DateHolder
| VTime int
| VInt int
| VFloat 'd
| VLib 'x
| VString string
| VOptional "('d, 'x) cpp_value option"

text \<open>
  What belongs to tm_infra, tm_basic, Boost and the standard library: conversions of times, of floating numbers, of decimal numbers with a fixed precision
  and of types that are \<open>ConvertibleWithString\<close>, which are named here. They may throw.
\<close>

record ('d, 'x) conversions =
  the_calendar :: calendar
  parseDateHolder :: "string \<Rightarrow> soci_exception + DateHolder"
  epochDurationToTime :: "int \<Rightarrow> int"
  parse_local_time :: "string \<Rightarrow> soci_exception + int"
  localTimeString :: "int \<Rightarrow> string"
  cast_integral :: "int_type \<Rightarrow> string \<Rightarrow> soci_exception + int"
  float_of_integer :: "int \<Rightarrow> 'd"
  float_of_double :: "'d \<Rightarrow> 'd"
  cast_float :: "string \<Rightarrow> soci_exception + 'd"
  decimal_of_integer :: "int \<Rightarrow> 'x"
  decimal_of_double :: "'d \<Rightarrow> 'x"
  decimal_of_string :: "string \<Rightarrow> soci_exception + 'x"
  double_of_decimal :: "'x \<Rightarrow> 'd"
  convertible :: "field_type \<Rightarrow> bool"
  fromString :: "string \<Rightarrow> string \<Rightarrow> soci_exception + 'x"
  toString :: "field_type \<Rightarrow> ('d, 'x) cpp_value \<Rightarrow> string"

fun sociDataTypeString :: "'d cell \<Rightarrow> string" where
  "sociDataTypeString (CString _) = ''soci::dt_string''"
| "sociDataTypeString (CDate _) = ''soci::dt_date''"
| "sociDataTypeString (CDouble _) = ''soci::dt_double''"
| "sociDataTypeString (CInteger _) = ''soci::dt_integer''"
| "sociDataTypeString (CLongLong _) = ''soci::dt_long_long''"
| "sociDataTypeString (CUnsignedLongLong _) = ''soci::dt_unsigned_long_long''"
| "sociDataTypeString CBlob = ''soci::dt_blob''"
| "sociDataTypeString CXml = ''soci::dt_xml''"

text \<open>The apostrophe.\<close>

definition quote :: char where
  "quote = char_of (39 :: nat)"

definition cannot_convert :: "'d cell \<Rightarrow> string \<Rightarrow> soci_exception" where
  "cannot_convert c target = RuntimeError (''cannot convert from '' @ [quote] @ sociDataTypeString c @ [quote] @ '' to '' @ target)"

text \<open>\<open>row.get<U>(index)\<close> for the type the column has: a null value has none.\<close>

definition get_value :: "indicator \<Rightarrow> 'v \<Rightarrow> soci_exception + 'v" where
  "get_value ind v = (if ind = i_null then Inl SociError else Inr v)"

definition extractInternal :: "int_type \<Rightarrow> int_type \<Rightarrow> int \<Rightarrow> soci_exception + int" where
  "extractInternal t u x =
     (if t = u then Inr x
      else if cpp_le u x t (max_of t) \<and> cpp_le t (min_of t) u x then Inr (convert t x)
      else Inl (RuntimeError ''data range exceeds''))"

definition extract_tm :: "'d cell \<times> indicator \<Rightarrow> soci_exception + broken_down" where
  "extract_tm e = (case e of
      (CDate d, ind) \<Rightarrow> get_value ind d
    | (c, ind) \<Rightarrow> Inl (cannot_convert c ''std::tm''))"

definition extract_date :: "('d, 'x) conversions \<Rightarrow> 'd cell \<times> indicator \<Rightarrow> soci_exception + DateHolder" where
  "extract_date lib e = (case e of
      (CString s, ind) \<Rightarrow> bindE (get_value ind s) (parseDateHolder lib)
    | (CDate d, ind) \<Rightarrow> bindE (get_value ind d) (\<lambda>d. Inr
        \<lparr>dh_year = convert \<lparr>width = 16, is_signed = False\<rparr> (tm_year d + 1900),
         dh_month = convert \<lparr>width = 8, is_signed = False\<rparr> (tm_mon d + 1),
         dh_day = convert \<lparr>width = 8, is_signed = False\<rparr> (tm_mday d)\<rparr>)
    | (c, ind) \<Rightarrow> Inl (cannot_convert c ''dev::cd606::tm::basic::DateHolder''))"

definition extract_time :: "('d, 'x) conversions \<Rightarrow> 'd cell \<times> indicator \<Rightarrow> soci_exception + int" where
  "extract_time lib e = (case e of
      (CInteger i, ind) \<Rightarrow> bindE (get_value ind i) (\<lambda>i. Inr (epochDurationToTime lib i))
    | (CLongLong i, ind) \<Rightarrow> bindE (get_value ind i) (\<lambda>i. Inr (epochDurationToTime lib i))
    | (CUnsignedLongLong i, ind) \<Rightarrow> bindE (get_value ind i) (\<lambda>i. Inr (epochDurationToTime lib i))
    | (CDate d, ind) \<Rightarrow> bindE (get_value ind d) (\<lambda>d.
        case from_time_t (mktime (the_calendar lib) d) of Some tp \<Rightarrow> Inr tp | None \<Rightarrow> Inl Undefined)
    | (CString s, ind) \<Rightarrow> bindE (get_value ind s) (parse_local_time lib)
    | (c, ind) \<Rightarrow> Inl (cannot_convert c ''std::chrono::system_clock::time_point''))"

definition extract_integral :: "('d, 'x) conversions \<Rightarrow> int_type \<Rightarrow> 'd cell \<times> indicator \<Rightarrow> soci_exception + int" where
  "extract_integral lib t e = (case e of
      (CInteger i, ind) \<Rightarrow> bindE (get_value ind i) (extractInternal t cpp_int)
    | (CLongLong i, ind) \<Rightarrow> bindE (get_value ind i) (extractInternal t cpp_long_long)
    | (CUnsignedLongLong i, ind) \<Rightarrow> bindE (get_value ind i) (extractInternal t cpp_unsigned_long_long)
    | (CString s, ind) \<Rightarrow> bindE (get_value ind s) (cast_integral lib t)
    | (c, ind) \<Rightarrow> Inl (cannot_convert c ''integral value''))"

definition extract_floating :: "('d, 'x) conversions \<Rightarrow> 'd cell \<times> indicator \<Rightarrow> soci_exception + 'd" where
  "extract_floating lib e = (case e of
      (CInteger i, ind) \<Rightarrow> bindE (get_value ind i) (\<lambda>i. Inr (float_of_integer lib i))
    | (CLongLong i, ind) \<Rightarrow> bindE (get_value ind i) (\<lambda>i. Inr (float_of_integer lib i))
    | (CUnsignedLongLong i, ind) \<Rightarrow> bindE (get_value ind i) (\<lambda>i. Inr (float_of_integer lib i))
    | (CDouble d, ind) \<Rightarrow> bindE (get_value ind d) (\<lambda>d. Inr (float_of_double lib d))
    | (CString s, ind) \<Rightarrow> bindE (get_value ind s) (cast_float lib)
    | (c, ind) \<Rightarrow> Inl (cannot_convert c ''floating point value''))"

definition extract_decimal :: "('d, 'x) conversions \<Rightarrow> 'd cell \<times> indicator \<Rightarrow> soci_exception + 'x" where
  "extract_decimal lib e = (case e of
      (CInteger i, ind) \<Rightarrow> bindE (get_value ind i) (\<lambda>i. Inr (decimal_of_integer lib i))
    | (CLongLong i, ind) \<Rightarrow> bindE (get_value ind i) (\<lambda>i. Inr (decimal_of_integer lib i))
    | (CUnsignedLongLong i, ind) \<Rightarrow> bindE (get_value ind i) (\<lambda>i. Inr (decimal_of_integer lib i))
    | (CDouble d, ind) \<Rightarrow> bindE (get_value ind d) (\<lambda>d. Inr (decimal_of_double lib d))
    | (CString s, ind) \<Rightarrow> bindE (get_value ind s) (decimal_of_string lib)
    | (c, ind) \<Rightarrow> Inl (cannot_convert c ''fixed precision short decimal value''))"

definition extract_string :: "'d cell \<times> indicator \<Rightarrow> soci_exception + string" where
  "extract_string e = (case e of
      (CString s, ind) \<Rightarrow> get_value ind s
    | (c, ind) \<Rightarrow> Inl (cannot_convert c ''std::string''))"

definition mapE :: "('a \<Rightarrow> 'b) \<Rightarrow> 'e + 'a \<Rightarrow> 'e + 'b" where
  "mapE f x = bindE x (\<lambda>a. Inr (f a))"

lemma mapE_simps [simp]: "mapE f (Inl e) = Inl e" "mapE f (Inr a) = Inr (f a)"
  by (simp_all add: mapE_def)

fun extract_value :: "('d, 'x) conversions \<Rightarrow> field_type \<Rightarrow> 'd cell \<times> indicator \<Rightarrow> soci_exception + ('d, 'x) cpp_value" where
  "extract_value lib TTm e = mapE VTm (extract_tm e)"
| "extract_value lib TDate e = mapE VDate (extract_date lib e)"
| "extract_value lib TTimePoint e = mapE VTime (extract_time lib e)"
| "extract_value lib (TIntegral t) e = mapE VInt (extract_integral lib t e)"
| "extract_value lib TFloating e = mapE VFloat (extract_floating lib e)"
| "extract_value lib TDecimal e = mapE VLib (extract_decimal lib e)"
| "extract_value lib TString e = mapE VString (extract_string e)"
| "extract_value lib TTimePointAsString e = mapE VTime (extract_time lib e)"
| "extract_value lib (TConvertible n) e = mapE VLib (bindE (extract_string e) (fromString lib n))"
| "extract_value lib (TOptional t) e =
     (case snd e of
        i_ok \<Rightarrow> mapE (\<lambda>v. VOptional (Some v)) (extract_value lib t e)
      | i_null \<Rightarrow> Inr (VOptional None)
      | i_truncated \<Rightarrow> Inr (VOptional None))"

text \<open>Every way to look at a cell of a row checks the index.\<close>

definition extract_at :: "('d, 'x) conversions \<Rightarrow> field_type \<Rightarrow> 'd row \<Rightarrow> nat \<Rightarrow> soci_exception + ('d, 'x) cpp_value" where
  "extract_at lib t r i = (if i < length r then extract_value lib t (r ! i) else Inl OutOfRange)"

section \<open>Reading a struct\<close>

fun fillData_internal :: "('d, 'x) conversions \<Rightarrow> 'd row \<Rightarrow> nat \<Rightarrow> field_type list \<Rightarrow> nat \<Rightarrow> soci_exception + ('d, 'x) cpp_value list" where
  "fillData_internal lib r start [] i = Inr []"
| "fillData_internal lib r start (t # ts) i =
     bindE (extract_at lib t r (i + start)) (\<lambda>v. mapE (\<lambda>vs. v # vs) (fillData_internal lib r start ts (i + 1)))"

definition retrieveData :: "('d, 'x) conversions \<Rightarrow> field_type list \<Rightarrow> 'd row \<Rightarrow> nat \<Rightarrow> soci_exception + ('d, 'x) cpp_value list" where
  "retrieveData lib ts r start = fillData_internal lib r start ts 0"

text \<open>Several structs in one row.\<close>

fun retrieveDataForCombined :: "('d, 'x) conversions \<Rightarrow> field_type list list \<Rightarrow> 'd row \<Rightarrow> nat \<Rightarrow> soci_exception + ('d, 'x) cpp_value list list" where
  "retrieveDataForCombined lib [] r i = Inr []"
| "retrieveDataForCombined lib (ts # tss) r i =
     bindE (retrieveData lib ts r i) (\<lambda>v. mapE (\<lambda>vs. v # vs) (retrieveDataForCombined lib tss r (i + length ts)))"

section \<open>Binding the fields of a struct\<close>

text \<open>What is handed to \<open>soci::use\<close>: an object made for the purpose, or the field itself.\<close>

datatype ('d, 'x) bound = UseTm broken_down | UseString string | UseDouble 'd | UseField "('d, 'x) cpp_value"

definition tm_of_date :: "DateHolder \<Rightarrow> broken_down" where
  "tm_of_date d =
     \<lparr>tm_year = (if dh_year d = 0 then 0 else dh_year d - 1900), tm_mon = (if dh_month d = 0 then 0 else dh_month d - 1),
      tm_mday = (if dh_day d = 0 then 1 else dh_day d), tm_hour = 0, tm_min = 0, tm_sec = 0\<rparr>"

definition bind_field :: "('d, 'x) conversions \<Rightarrow> field_type \<Rightarrow> ('d, 'x) cpp_value \<Rightarrow> ('d, 'x) bound" where
  "bind_field lib t v = (case (t, v) of
      (TDate, VDate d) \<Rightarrow> UseTm (tm_of_date d)
    | (TTimePoint, VTime i) \<Rightarrow> UseString (localTimeString lib i)
    | (TDecimal, VLib x) \<Rightarrow> UseDouble (double_of_decimal lib x)
    | _ \<Rightarrow> if convertible lib t then UseString (toString lib t v) else UseField v)"

fun sociBindFields :: "('d, 'x) conversions \<Rightarrow> (string \<times> field_type) list \<Rightarrow> ('d, 'x) cpp_value list \<Rightarrow> (string \<times> ('d, 'x) bound) list" where
  "sociBindFields lib ((n, t) # fs) (v # vs) = (n, bind_field lib t v) # sociBindFields lib fs vs"
| "sociBindFields lib _ _ = []"

section \<open>Integers are read exactly where both types have a common signed or unsigned type\<close>

lemma convert_fits: "fits t x \<Longrightarrow> 0 < width t \<Longrightarrow> convert t x = x"
proof -
  assume "fits t x" "0 < width t"
  moreover have "max_of t - min_of t < 2 ^ width t" if "0 < width t"
    using that by (cases "width t") (simp_all add: max_of_def min_of_def)
  ultimately have "0 \<le> x - min_of t" "x - min_of t < 2 ^ width t"
    by (simp_all add: fits_def)
  then show ?thesis
    by (simp add: convert_def)
qed

lemma fits_min: "fits t (min_of t)" and fits_max: "fits t (max_of t)"
  by (simp_all add: fits_def min_of_def max_of_def)

lemma power_width: "m \<le> n \<Longrightarrow> (2 :: int) ^ m \<le> 2 ^ n"
  by (simp add: power_increasing)

lemma fits_wider:
  assumes "fits a y" and "0 < width a"
    and "is_signed a = is_signed b \<and> width a \<le> width b \<or> \<not> is_signed a \<and> is_signed b \<and> width a < width b"
  shows "fits b y"
proof -
  have "(2 :: int) ^ (width a - 1) \<le> 2 ^ (width b - 1)" "(2 :: int) ^ width a \<le> 2 ^ width b" "\<not> is_signed a \<Longrightarrow> is_signed b \<Longrightarrow> (2 :: int) ^ width a \<le> 2 ^ (width b - 1)"
    using assms(3) by (auto intro!: power_width)
  moreover have "(0 :: int) < 2 ^ (width b - 1)" "(0 :: int) < 2 ^ width b"
    by simp_all
  ultimately show ?thesis
    using assms unfolding fits_def min_of_def max_of_def by (smt (verit))
qed

lemma fits_promote: "fits t y \<Longrightarrow> 0 < width t \<Longrightarrow> fits (promote t) y"
  using fits_wider [of t y cpp_int] by (auto simp: promote_def cpp_int_def)

lemma width_promote: "0 < width t \<Longrightarrow> 0 < width (promote t)"
  by (simp add: promote_def cpp_int_def)

definition comparable :: "int_type \<Rightarrow> int_type \<Rightarrow> bool" where
  "comparable t u \<longleftrightarrow> is_signed (promote t) = is_signed (promote u) \<or> is_signed (common_type t u)"

lemma fits_common:
  assumes "comparable t u" "0 < width t" "0 < width u"
  shows "fits t y \<Longrightarrow> fits (common_type t u) y" "fits u y \<Longrightarrow> fits (common_type t u) y" "0 < width (common_type t u)"
proof -
  show "fits (common_type t u) y" if "fits t y"
    using fits_wider [OF fits_promote [OF that assms(2)] width_promote [OF assms(2)]] assms(1)
    by (auto simp: comparable_def common_type_def Let_def split: if_splits)
  show "fits (common_type t u) y" if "fits u y"
    using fits_wider [OF fits_promote [OF that assms(3)] width_promote [OF assms(3)]] assms(1)
    by (auto simp: comparable_def common_type_def Let_def split: if_splits)
  show "0 < width (common_type t u)"
    using width_promote assms(2,3) by (auto simp: common_type_def Let_def)
qed

lemma common_type_commute: "common_type t u = common_type u t \<or> width (promote t) = width (promote u) \<and> is_signed (promote t) = is_signed (promote u)"
  by (auto simp: common_type_def Let_def)

lemma comparable_commute: "comparable t u \<longleftrightarrow> comparable u t"
  by (auto simp: comparable_def common_type_def Let_def)

lemma cpp_le_exact: "comparable t u \<Longrightarrow> fits t x \<Longrightarrow> fits u y \<Longrightarrow> 0 < width t \<Longrightarrow> 0 < width u \<Longrightarrow> cpp_le t x u y \<longleftrightarrow> x \<le> y"
  by (simp add: cpp_le_def convert_fits fits_common)

lemma extractInternal_exact:
  assumes "comparable t u" "0 < width t" "0 < width u" "fits u x"
  shows "extractInternal t u x = (if fits t x then Inr x else Inl (RuntimeError ''data range exceeds''))"
proof -
  have "cpp_le u x t (max_of t) \<longleftrightarrow> x \<le> max_of t" "cpp_le t (min_of t) u x \<longleftrightarrow> min_of t \<le> x"
    using assms by (simp_all add: cpp_le_exact fits_min fits_max comparable_commute)
  then show ?thesis
    using assms by (auto simp: extractInternal_def convert_fits) (auto simp: fits_def)
qed

lemma negative_mod: "0 < k \<Longrightarrow> k \<le> m \<Longrightarrow> (- k) mod m = m - (k :: int)"
  using minus_mod_self1 [of m k] mod_pos_pos_trivial [of "m - k" m] by linarith

text \<open>The other cases: one operand is an unsigned integer that is as wide as the signed one.\<close>

lemma unsigned_never_signed:
  assumes "is_signed t" "is_int_type t" "0 \<le> x" "x < 2 ^ 63"
  shows "extractInternal t cpp_unsigned_long_long x = Inl (RuntimeError ''data range exceeds'')"
proof -
  have c: "common_type t cpp_unsigned_long_long = cpp_unsigned_long_long"
    using assms(1,2) by (auto simp: common_type_def promote_def cpp_int_defs is_int_type_def)
  have le: "(2 :: int) ^ (width t - 1) \<le> 2 ^ 63"
    using assms(2) by (intro power_width) (simp add: is_int_type_def, linarith)
  have "(- (2 ^ (width t - 1)) :: int) mod 2 ^ 64 = 2 ^ 64 - 2 ^ (width t - 1)"
    using negative_mod [of "2 ^ (width t - 1)" "2 ^ 64"] le by simp
  then have "\<not> cpp_le t (min_of t) cpp_unsigned_long_long x"
    using assms(1,3,4) le unfolding cpp_le_def c by (simp add: convert_def cpp_unsigned_long_long_def min_of_def)
  moreover have "t \<noteq> cpp_unsigned_long_long"
    using assms(1) by (auto simp: cpp_unsigned_long_long_def)
  ultimately show ?thesis
    by (simp add: extractInternal_def)
qed

lemma negative_becomes_large:
  assumes "\<not> is_signed t" "32 \<le> width t" "is_signed u" "width u \<le> width t" "fits u x" "x < 0" "0 < width u"
  shows "extractInternal t u x = Inr (x + 2 ^ width t)"
proof -
  have c: "common_type t u = t" "common_type u t = t"
    using assms(1,2,3,4) by (auto simp: common_type_def promote_def cpp_int_def)
  have "(2 :: int) ^ (width u - 1) \<le> 2 ^ width t"
    using assms(4) by (intro power_width) simp
  then have low: "- (2 ^ width t) \<le> x"
    using assms(3,5) unfolding fits_def min_of_def by (smt (verit))
  then have "x mod 2 ^ width t = x + 2 ^ width t"
    using negative_mod [of "- x" "2 ^ width t"] assms(6) by simp
  then have "convert t x = x + 2 ^ width t"
    using assms(1) by (simp add: convert_def min_of_def)
  moreover have "t \<noteq> u"
    using assms(1,3) by auto
  moreover have "convert t (max_of t) = max_of t" "convert t (min_of t) = min_of t"
    using assms(2) by (intro convert_fits fits_min fits_max; simp)+
  moreover have "max_of t = 2 ^ width t - 1" "min_of t = 0"
    using assms(1) by (simp_all add: max_of_def min_of_def)
  ultimately show ?thesis
    using low assms(6) by (simp add: extractInternal_def cpp_le_def c)
qed

text \<open>
  C31: A cell with an integer is read into an integral type with its value, or refused if the value is out of range, whenever the two types are compared
  in a type that holds both: both signed, both unsigned, or a signed type that is wider than the unsigned one.
\<close>

theorem integers_read_exactly:
  assumes "is_int_type t" and "e = (CInteger x, i_ok) \<and> u = cpp_int \<or> e = (CLongLong x, i_ok) \<and> u = cpp_long_long
      \<or> e = (CUnsignedLongLong x, i_ok) \<and> u = cpp_unsigned_long_long"
    and "fits u x" and "comparable t u"
  shows "extract_value lib (TIntegral t) e = (if fits t x then Inr (VInt x) else Inl (RuntimeError ''data range exceeds''))"
proof -
  have "0 < width t" "0 < width u"
    using assms(1,2) by (auto simp: is_int_type_def cpp_int_defs)
  then have "extractInternal t u x = (if fits t x then Inr x else Inl (RuntimeError ''data range exceeds''))"
    using assms(3,4) by (intro extractInternal_exact)
  then show ?thesis
    using assms(2) by (auto simp: extract_integral_def get_value_def)
qed

text \<open>
  C32: In the other cases the reading of integers goes wrong: an unsigned 64-bit cell below \<open>2 ^ 63\<close> is refused by every signed type, also where the value
  fits, and a negative cell is read into an unsigned type of at least 32 bits that is not narrower as a large number.
\<close>

theorem integers_read_wrongly:
  assumes "is_int_type t"
  shows "(is_signed t \<and> 0 \<le> x \<and> x < 2 ^ 63 \<longrightarrow>
      extract_value lib (TIntegral t) (CUnsignedLongLong x, i_ok) = Inl (RuntimeError ''data range exceeds'')) \<and>
    (\<not> is_signed t \<and> 32 \<le> width t \<and> x < 0 \<and> fits cpp_int x \<longrightarrow>
      extract_value lib (TIntegral t) (CInteger x, i_ok) = Inr (VInt (x + 2 ^ width t))) \<and>
    (\<not> is_signed t \<and> width t = 64 \<and> x < 0 \<and> fits cpp_long_long x \<longrightarrow>
      extract_value lib (TIntegral t) (CLongLong x, i_ok) = Inr (VInt (x + 2 ^ 64)))"
proof (intro conjI impI; elim conjE)
  show "extract_value lib (TIntegral t) (CUnsignedLongLong x, i_ok) = Inl (RuntimeError ''data range exceeds'')"
    if "is_signed t" "0 \<le> x" "x < 2 ^ 63"
    using that assms by (simp add: extract_integral_def get_value_def unsigned_never_signed)
  show "extract_value lib (TIntegral t) (CInteger x, i_ok) = Inr (VInt (x + 2 ^ width t))"
    if "\<not> is_signed t" "32 \<le> width t" "x < 0" "fits cpp_int x"
    using that negative_becomes_large [of t cpp_int x] by (simp add: extract_integral_def get_value_def cpp_int_def)
  show "extract_value lib (TIntegral t) (CLongLong x, i_ok) = Inr (VInt (x + 2 ^ 64))"
    if "\<not> is_signed t" "width t = 64" "x < 0" "fits cpp_long_long x"
    using that negative_becomes_large [of t cpp_long_long x] by (simp add: extract_integral_def get_value_def cpp_long_long_def)
qed

section \<open>Structs\<close>

lemma fillData_ok:
  assumes "length vs = length ts" and "i + start + length ts \<le> length r"
    and "\<forall>j < length ts. extract_value lib (ts ! j) (r ! (i + start + j)) = Inr (vs ! j)"
  shows "fillData_internal lib r start ts i = Inr vs"
  using assms
proof (induction ts arbitrary: i vs)
  case (Cons t ts)
  then obtain v ws where vs: "vs = v # ws"
    by (cases vs) auto
  have "extract_value lib t (r ! (i + start)) = Inr v"
    using Cons.prems(3) [rule_format, of 0] by (simp add: vs)
  moreover have "fillData_internal lib r start ts (i + 1) = Inr ws"
  proof (rule Cons.IH)
    show "\<forall>j < length ts. extract_value lib (ts ! j) (r ! (i + 1 + start + j)) = Inr (ws ! j)"
    proof (intro allI impI)
      fix j assume "j < length ts"
      then show "extract_value lib (ts ! j) (r ! (i + 1 + start + j)) = Inr (ws ! j)"
        using Cons.prems(3) [rule_format, of "Suc j"] by (simp add: vs)
    qed
  qed (use Cons.prems(1,2) vs in simp_all)
  ultimately show ?case
    using Cons.prems(2) by (simp add: vs extract_at_def)
qed simp

lemma fillData_short: "length r < i + start + length ts \<Longrightarrow> 0 < length ts \<Longrightarrow> \<exists>e. fillData_internal lib r start ts i = Inl e"
proof (induction ts arbitrary: i)
  case (Cons t ts)
  show ?case
  proof (cases "extract_at lib t r (i + start)")
    case (Inr v)
    then have "ts \<noteq> []"
      using Cons.prems(1) by (auto simp: extract_at_def split: if_splits)
    then show ?thesis
      using Cons.IH [of "i + 1"] Cons.prems(1) Inr by auto
  qed simp
qed simp

text \<open>The values of a struct of the given types, as the columns from a place on hold them.\<close>

definition stored_at :: "('d, 'x) conversions \<Rightarrow> field_type list \<Rightarrow> 'd row \<Rightarrow> nat \<Rightarrow> ('d, 'x) cpp_value list \<Rightarrow> bool" where
  "stored_at lib ts r start vs \<longleftrightarrow> length vs = length ts \<and> start + length ts \<le> length r \<and>
     (\<forall>j < length ts. extract_value lib (ts ! j) (r ! (start + j)) = Inr (vs ! j))"

lemma retrieve_stored: "stored_at lib ts r start vs \<Longrightarrow> retrieveData lib ts r start = Inr vs"
  using fillData_ok [of vs ts 0 start r lib] by (simp add: retrieveData_def stored_at_def)

fun all_stored :: "('d, 'x) conversions \<Rightarrow> field_type list list \<Rightarrow> 'd row \<Rightarrow> nat \<Rightarrow> ('d, 'x) cpp_value list list \<Rightarrow> bool" where
  "all_stored lib [] r i vss \<longleftrightarrow> vss = []"
| "all_stored lib (ts # tss) r i vss \<longleftrightarrow> (\<exists>vs wss. vss = vs # wss \<and> stored_at lib ts r i vs \<and> all_stored lib tss r (i + length ts) wss)"

lemma combined_stored: "all_stored lib tss r i vss \<Longrightarrow> retrieveDataForCombined lib tss r i = Inr vss"
  by (induction tss arbitrary: i vss) (auto simp: retrieve_stored)

text \<open>
  A date that is written with all its parts is read back as the same date; a part that is 0 is not: year 0 becomes 1900, and month or day 0 become 1.
\<close>

theorem date_through_tm:
  assumes "dh_year d < 2 ^ 16" "0 \<le> dh_year d" "0 \<le> dh_month d" "dh_month d < 2 ^ 8" "0 \<le> dh_day d" "dh_day d < 2 ^ 8"
  shows "bind_field lib TDate (VDate d) = UseTm (tm_of_date d)"
    and "extract_value lib TDate (CDate (tm_of_date d), i_ok) = Inr (VDate
      \<lparr>dh_year = (if dh_year d = 0 then 1900 else dh_year d), dh_month = (if dh_month d = 0 then 1 else dh_month d), dh_day = (if dh_day d = 0 then 1 else dh_day d)\<rparr>)"
  using assms by (simp_all add: bind_field_def tm_of_date_def extract_date_def get_value_def convert_def min_of_def)

section \<open>Concrete values\<close>

definition sample_conversions :: "(nat, nat) conversions" where
  "sample_conversions =
     \<lparr>the_calendar = \<lparr>gmtime = \<lambda>_. \<lparr>tm_year = 0, tm_mon = 0, tm_mday = 0, tm_hour = 0, tm_min = 0, tm_sec = 0\<rparr>, mktime = \<lambda>_. 0,
        localtime = \<lambda>_. \<lparr>tm_year = 0, tm_mon = 0, tm_mday = 0, tm_hour = 0, tm_min = 0, tm_sec = 0\<rparr>, parseLocalTime = \<lambda>_ _ _. 0\<rparr>,
      parseDateHolder = \<lambda>_. Inl BadCast, epochDurationToTime = id, parse_local_time = \<lambda>_. Inl BadCast, localTimeString = \<lambda>_. [],
      cast_integral = \<lambda>t s. (case read_signed s of Some i \<Rightarrow> if fits t i then Inr i else Inl BadCast | None \<Rightarrow> Inl BadCast),
      float_of_integer = nat, float_of_double = id, cast_float = \<lambda>_. Inl BadCast, decimal_of_integer = nat, decimal_of_double = id,
      decimal_of_string = \<lambda>_. Inl BadCast, double_of_decimal = id, convertible = \<lambda>_. False, fromString = \<lambda>_ _. Inl BadCast, toString = \<lambda>_ _. []\<rparr>"

theorem integers_read_exactly_witness:
  "extract_value sample_conversions (TIntegral \<lparr>width = 16, is_signed = False\<rparr>) (CInteger 65535, i_ok) = Inr (VInt 65535)
   \<and> extract_value sample_conversions (TIntegral \<lparr>width = 16, is_signed = False\<rparr>) (CInteger (- 1), i_ok) = Inl (RuntimeError ''data range exceeds'')"
proof -
  have "is_int_type \<lparr>width = 16, is_signed = False\<rparr>" "comparable \<lparr>width = 16, is_signed = False\<rparr> cpp_int" "fits cpp_int 65535" "fits cpp_int (- 1)"
    "fits \<lparr>width = 16, is_signed = False\<rparr> 65535" "\<not> fits \<lparr>width = 16, is_signed = False\<rparr> (- 1)"
    by code_simp+
  then show ?thesis
    by (simp add: integers_read_exactly [where u = cpp_int] del: extract_value.simps)
qed

theorem integers_read_wrongly_witness:
  "extract_value sample_conversions (TIntegral cpp_long_long) (CUnsignedLongLong 5, i_ok) = Inl (RuntimeError ''data range exceeds'')
   \<and> extract_value sample_conversions (TIntegral \<lparr>width = 32, is_signed = False\<rparr>) (CInteger (- 1), i_ok) = Inr (VInt 4294967295)"
proof -
  have "is_int_type cpp_long_long" "is_signed cpp_long_long" "is_int_type \<lparr>width = 32, is_signed = False\<rparr>" "fits cpp_int (- 1)"
    by code_simp+
  then show ?thesis
    using integers_read_wrongly [of cpp_long_long 5 sample_conversions] integers_read_wrongly [of "\<lparr>width = 32, is_signed = False\<rparr>" "- 1" sample_conversions]
    by simp
qed

end
