(* ===== verification/SqlText.thy ===== *)
theory SqlText
  imports SociValues
begin

text \<open>
  The SQL texts the database components build from the names of the fields of a struct: StructFieldInfoUtils_SociHelper.hpp, DBTableExporterFactory.hpp,
  DBTableImporterFactory.hpp and the servers in complex_key_value_store_components. What a text means is given by a reader for the fragment of SQL that is
  used, and each text is read as the statement it is meant to be.

  A struct is the list of its fields with their types, in order.
\<close>

type_synonym struct = "(string \<times> field_type) list"

abbreviation names_of :: "struct \<Rightarrow> string list" where
  "names_of fs \<equiv> map fst fs"

section \<open>Building texts\<close>

text \<open>The loops over the names write a separator before each but the first; \<open>begin\<close> is carried from one loop to the next.\<close>

fun separated :: "string \<Rightarrow> ('a \<Rightarrow> string) \<Rightarrow> 'a list \<Rightarrow> bool \<Rightarrow> string \<times> bool" where
  "separated sep f [] start = ([], start)"
| "separated sep f (n # ns) start = (let (t, start') = separated sep f ns False in ((if start then [] else sep) @ f n @ t, start'))"

definition listed :: "string \<Rightarrow> ('a \<Rightarrow> string) \<Rightarrow> 'a list \<Rightarrow> string" where
  "listed sep f ns = fst (separated sep f ns True)"

text \<open>The traits of a backend: without traits the texts for MySQL are used.\<close>

datatype db_traits = NoTraits | MysqlTraits | Sqlite3Traits

definition time_format :: string where
  "time_format = [quote] @ ''%Y-%m-%dT%H:%i:%S.%f'' @ [quote]"

definition ISO8601FormatedField :: "db_traits \<Rightarrow> string \<Rightarrow> string" where
  "ISO8601FormatedField tr n = (if tr = Sqlite3Traits then n else ''DATE_FORMAT('' @ n @ '','' @ time_format @ '')'')"

definition toISO8601FieldValue :: "db_traits \<Rightarrow> string \<Rightarrow> string" where
  "toISO8601FieldValue tr n = (if tr = Sqlite3Traits then '':'' @ n else ''STR_TO_DATE(:'' @ n @ '','' @ time_format @ '')'')"

definition is_time :: "field_type \<Rightarrow> bool" where
  "is_time t \<longleftrightarrow> t = TTimePoint \<or> t = TTimePointAsString"

definition select_field :: "db_traits \<Rightarrow> string \<times> field_type \<Rightarrow> string" where
  "select_field tr f = (if is_time (snd f) then ISO8601FormatedField tr (fst f) else fst f)"

definition value_field :: "db_traits \<Rightarrow> string \<times> field_type \<Rightarrow> string" where
  "value_field tr f = (if is_time (snd f) then toISO8601FieldValue tr (fst f) else '':'' @ fst f)"

definition commaSeparatedFieldNames :: "struct \<Rightarrow> string" where
  "commaSeparatedFieldNames fs = listed '', '' id (names_of fs)"

definition commaSeparatedFieldNamesForSelect :: "db_traits \<Rightarrow> struct \<Rightarrow> string" where
  "commaSeparatedFieldNamesForSelect tr fs = listed '', '' (select_field tr) fs"

definition addValueFieldsToInsertValueList :: "db_traits \<Rightarrow> struct \<Rightarrow> bool \<Rightarrow> string \<times> bool" where
  "addValueFieldsToInsertValueList tr fs start = separated '','' (value_field tr) fs start"

definition addValueFieldsToWhereClauseValueList :: "db_traits \<Rightarrow> struct \<Rightarrow> bool \<Rightarrow> string \<times> bool" where
  "addValueFieldsToWhereClauseValueList tr fs start = separated '' AND '' (\<lambda>f. fst f @ '' = '' @ value_field tr f) fs start"

text \<open>DBTableExporterFactory.hpp.\<close>

definition insertTemplate_internal :: "db_traits \<Rightarrow> struct \<Rightarrow> string \<Rightarrow> string" where
  "insertTemplate_internal tr fs tableName =
     ''INSERT INTO '' @ tableName @ ''('' @ commaSeparatedFieldNames fs @ '') VALUES ('' @ fst (addValueFieldsToInsertValueList tr fs True) @ '')''"

definition insertTemplateWithDuplicateCheck_internal :: "db_traits \<Rightarrow> struct \<Rightarrow> struct \<Rightarrow> string \<Rightarrow> string" where
  "insertTemplateWithDuplicateCheck_internal tr ks ds tableName =
     (let (kt, start) = addValueFieldsToInsertValueList tr ks True; (dt, start) = addValueFieldsToInsertValueList tr ds start in
      ''INSERT INTO '' @ tableName @ ''('' @ commaSeparatedFieldNames ks @ '', '' @ commaSeparatedFieldNames ds @ '') VALUES ('' @ kt @ dt
        @ '') ON DUPLICATE KEY UPDATE '' @ listed '', '' (\<lambda>s. s @ ''=VALUES('' @ s @ '')'') (names_of ds))"

definition deleteByKey_text :: "db_traits \<Rightarrow> struct \<Rightarrow> string \<Rightarrow> string" where
  "deleteByKey_text tr ks tableName = ''DELETE FROM '' @ tableName @ '' WHERE '' @ fst (addValueFieldsToWhereClauseValueList tr ks True)"

text \<open>DBTableImporterFactory.hpp. A caller gives a whole query, or one from its FROM part on, or what follows FROM.\<close>

definition selectStatement_internal :: "boost \<Rightarrow> db_traits \<Rightarrow> struct \<Rightarrow> string \<Rightarrow> string" where
  "selectStatement_internal b tr fs input =
     (let s = trim_copy b input; s1 = to_upper_copy b s in
      if starts_with b s1 ''SELECT '' then s
      else if starts_with b s1 ''FROM '' then ''SELECT '' @ commaSeparatedFieldNamesForSelect tr fs @ '' '' @ s
      else ''SELECT '' @ commaSeparatedFieldNamesForSelect tr fs @ '' FROM '' @ s)"

definition commaSeparatedFieldNamesForSelect_combined :: "db_traits \<Rightarrow> struct list \<Rightarrow> string" where
  "commaSeparatedFieldNamesForSelect_combined tr fss = listed '', '' (commaSeparatedFieldNamesForSelect tr) fss"

definition selectStatementForCombined_internal :: "boost \<Rightarrow> db_traits \<Rightarrow> struct list \<Rightarrow> string \<Rightarrow> string" where
  "selectStatementForCombined_internal b tr fss input =
     (let s = trim_copy b input; s1 = to_upper_copy b s in
      if starts_with b s1 ''SELECT '' then s
      else if starts_with b s1 ''FROM '' then ''SELECT '' @ commaSeparatedFieldNamesForSelect_combined tr fss @ '' '' @ s
      else ''SELECT '' @ commaSeparatedFieldNamesForSelect_combined tr fss @ '' FROM '' @ s)"

definition queryTableData_text :: "db_traits \<Rightarrow> struct \<Rightarrow> struct \<Rightarrow> string \<Rightarrow> string" where
  "queryTableData_text tr ks ds tableName =
     ''SELECT '' @ commaSeparatedFieldNamesForSelect tr ds @ '' FROM '' @ tableName @ '' WHERE '' @ fst (addValueFieldsToWhereClauseValueList tr ks True)"

text \<open>The servers.\<close>

definition equal_param :: "string \<Rightarrow> string" where
  "equal_param s = s @ '' = :'' @ s"

definition insertTemplate :: "struct \<Rightarrow> struct \<Rightarrow> string \<Rightarrow> string" where
  "insertTemplate ks ds tableName =
     ''INSERT INTO '' @ tableName @ ''('' @ commaSeparatedFieldNames ks @ '','' @ commaSeparatedFieldNames ds @ '') VALUES ('' @
     listed '','' (\<lambda>s. '':'' @ s) (names_of ks) @ concat (map (\<lambda>s. '','' @ '':'' @ s) (names_of ds)) @ '')''"

definition updateTemplate :: "struct \<Rightarrow> struct \<Rightarrow> string \<Rightarrow> string" where
  "updateTemplate ks ds tableName =
     ''UPDATE '' @ tableName @ '' SET '' @ listed '', '' equal_param (names_of ds) @ '' WHERE '' @ listed '' AND '' equal_param (names_of ks)"

definition deleteTemplate :: "struct \<Rightarrow> string \<Rightarrow> string" where
  "deleteTemplate ks tableName = ''DELETE FROM '' @ tableName @ '' WHERE '' @ listed '' AND '' equal_param (names_of ks)"

definition load_text :: "boost \<Rightarrow> struct \<Rightarrow> struct \<Rightarrow> string \<Rightarrow> string option \<Rightarrow> string" where
  "load_text b ks ds tableName whereClause =
     (case whereClause of
        Some w \<Rightarrow>
          if starts_with b (to_upper_copy b (trim_copy b w)) ''SELECT '' then w
          else ''SELECT '' @ commaSeparatedFieldNames ks @ '', '' @ commaSeparatedFieldNames ds @ '' FROM '' @ tableName @ '' WHERE '' @ w
      | None \<Rightarrow> ''SELECT '' @ commaSeparatedFieldNames ks @ '', '' @ commaSeparatedFieldNames ds @ '' FROM '' @ tableName)"

definition preload_selectStatement :: "boost \<Rightarrow> struct \<Rightarrow> struct \<Rightarrow> string \<Rightarrow> string" where
  "preload_selectStatement b ks ds input =
     (let s = trim_copy b input; s1 = to_upper_copy b s in
      if starts_with b s1 ''SELECT '' then s
      else if starts_with b s1 ''FROM '' then ''SELECT '' @ commaSeparatedFieldNames ks @ '', '' @ commaSeparatedFieldNames ds @ '' '' @ s
      else ''SELECT '' @ commaSeparatedFieldNames ks @ '', '' @ commaSeparatedFieldNames ds @ '' FROM '' @ s)"

fun sociWhereClause_internal :: "string list \<Rightarrow> nat \<Rightarrow> string" where
  "sociWhereClause_internal [] i = []"
| "sociWhereClause_internal (n # ns) i = (if 0 < i then '' AND '' else []) @ n @ '' = :'' @ n @ sociWhereClause_internal ns (i + 1)"

definition sociWhereClause :: "struct \<Rightarrow> string" where
  "sociWhereClause ks = sociWhereClause_internal (names_of ks) 0"

definition from_part :: "boost \<Rightarrow> string \<Rightarrow> string" where
  "from_part b x = (if \<not> starts_with b (to_upper_copy b (trim_copy b x)) ''FROM '' then ''FROM '' @ x else x)"

definition keyBasedQuery_text :: "boost \<Rightarrow> struct \<Rightarrow> struct \<Rightarrow> (string \<Rightarrow> string) \<Rightarrow> string" where
  "keyBasedQuery_text b ks ds selectMainPartFromCriteria =
     ''SELECT '' @ commaSeparatedFieldNames ds @ '' '' @ from_part b (selectMainPartFromCriteria (sociWhereClause ks))"

definition fullDataQuery_text :: "boost \<Rightarrow> struct \<Rightarrow> struct \<Rightarrow> string \<Rightarrow> string" where
  "fullDataQuery_text b ks ds selectMainPart =
     ''SELECT '' @ commaSeparatedFieldNames ks @ '', '' @ commaSeparatedFieldNames ds @ '' '' @ from_part b selectMainPart"

definition dynamicDataQuery_text :: "boost \<Rightarrow> struct \<Rightarrow> struct \<Rightarrow> string \<Rightarrow> string" where
  "dynamicDataQuery_text b ks ds selectMainPart =
     (if starts_with b (to_upper_copy b (trim_copy b selectMainPart)) ''SELECT '' then selectMainPart
      else ''SELECT '' @ commaSeparatedFieldNames ks @ '', '' @ commaSeparatedFieldNames ds @ '' '' @ from_part b selectMainPart)"

definition dynamicDataQuery_VectorVersion_text :: "boost \<Rightarrow> struct \<Rightarrow> string \<Rightarrow> string" where
  "dynamicDataQuery_VectorVersion_text b fs selectMainPart =
     (if starts_with b (to_upper_copy b (trim_copy b selectMainPart)) ''SELECT '' then selectMainPart
      else ''SELECT '' @ commaSeparatedFieldNames fs @ '' '' @ from_part b selectMainPart)"

section \<open>Reading SQL\<close>

text \<open>Words are identifiers, keywords and names of tables; a colon begins a placeholder, an apostrophe a string.\<close>

datatype token = Word string | Param string | Sym char | Str string

datatype scan_state = Blank | InWord string | InParam string | InString string

definition is_word :: "char \<Rightarrow> bool" where
  "is_word c \<longleftrightarrow> is_alpha c \<or> undigit c \<noteq> None \<or> c = CHR ''_'' \<or> c = CHR ''.''"

fun flush :: "scan_state \<Rightarrow> token list" where
  "flush Blank = []"
| "flush (InWord w) = [Word w]"
| "flush (InParam w) = [Param w]"
| "flush (InString w) = [Sym quote]"

definition scan_symbol :: "char \<Rightarrow> token list \<times> scan_state" where
  "scan_symbol c =
     (if c = CHR '' '' then ([], Blank) else if c = CHR '':'' then ([], InParam []) else if c = quote then ([], InString []) else ([Sym c], Blank))"

fun scan_char :: "scan_state \<Rightarrow> char \<Rightarrow> token list \<times> scan_state" where
  "scan_char (InString w) c = (if c = quote then ([Str w], Blank) else ([], InString (w @ [c])))"
| "scan_char (InWord w) c = (if is_word c then ([], InWord (w @ [c])) else (Word w # fst (scan_symbol c), snd (scan_symbol c)))"
| "scan_char (InParam w) c = (if is_word c then ([], InParam (w @ [c])) else (Param w # fst (scan_symbol c), snd (scan_symbol c)))"
| "scan_char Blank c = (if is_word c then ([], InWord [c]) else scan_symbol c)"

fun scan :: "scan_state \<Rightarrow> string \<Rightarrow> token list" where
  "scan st [] = flush st"
| "scan st (c # cs) = fst (scan_char st c) @ scan (snd (scan_char st c)) cs"

text \<open>Expressions: a placeholder, a column, or one of them in a call with a string; \<open>VALUES(c)\<close> is the value a row would have had.\<close>

datatype expr = EParam string | EColumn string | EFormat string expr string | EValues string

datatype stmt =
  Insert string "string list" "expr list" "(string \<times> expr) list"
| Update string "(string \<times> expr) list" "(string \<times> expr) list"
| Delete string "(string \<times> expr) list"
| Select "expr list" string "(string \<times> expr) list"

fun read_column :: "token list \<Rightarrow> (string \<times> token list) option" where
  "read_column (Word c # ts) = Some (c, ts)"
| "read_column _ = None"

fun read_atom :: "token list \<Rightarrow> (expr \<times> token list) option" where
  "read_atom (Param c # ts) = Some (EParam c, ts)"
| "read_atom (Word c # ts) = Some (EColumn c, ts)"
| "read_atom _ = None"

definition read_call :: "string \<Rightarrow> (expr \<times> token list) option \<Rightarrow> (expr \<times> token list) option" where
  "read_call f r = (case r of
      Some (e, Sym c # ts) \<Rightarrow>
        if c = CHR '','' then
          (case ts of Str s # Sym d # ts' \<Rightarrow> if d = CHR '')'' then Some (EFormat f e s, ts') else None | _ \<Rightarrow> None)
        else if c = CHR '')'' \<and> f = ''VALUES'' then (case e of EColumn v \<Rightarrow> Some (EValues v, ts) | _ \<Rightarrow> None)
        else None
    | _ \<Rightarrow> None)"

definition read_expr :: "token list \<Rightarrow> (expr \<times> token list) option" where
  "read_expr ts = (case ts of
      Word f # Sym c # ts' \<Rightarrow> if c = CHR ''('' then read_call f (read_atom ts') else read_atom ts
    | _ \<Rightarrow> read_atom ts)"

definition read_equation :: "token list \<Rightarrow> ((string \<times> expr) \<times> token list) option" where
  "read_equation ts = (case ts of
      Word c # Sym e # ts' \<Rightarrow> if e = CHR ''='' then map_option (\<lambda>(x, ts''). ((c, x), ts'')) (read_expr ts') else None
    | _ \<Rightarrow> None)"

text \<open>A sequence of items with a separator; the first argument bounds their number.\<close>

fun read_seq :: "(token list \<Rightarrow> ('a \<times> token list) option) \<Rightarrow> token \<Rightarrow> nat \<Rightarrow> token list \<Rightarrow> ('a list \<times> token list) option" where
  "read_seq item sep 0 ts = None"
| "read_seq item sep (Suc n) ts = (case item ts of
      None \<Rightarrow> None
    | Some (x, []) \<Rightarrow> Some ([x], [])
    | Some (x, t # ts') \<Rightarrow>
        if t = sep then map_option (\<lambda>(xs, ts''). (x # xs, ts'')) (read_seq item sep n ts') else Some ([x], t # ts'))"

definition read_all :: "(token list \<Rightarrow> ('a \<times> token list) option) \<Rightarrow> token \<Rightarrow> token list \<Rightarrow> ('a list \<times> token list) option" where
  "read_all item sep ts = read_seq item sep (length ts) ts"

definition read_conditions :: "token list \<Rightarrow> (string \<times> expr) list option" where
  "read_conditions ts = (case ts of
      [] \<Rightarrow> Some []
    | t # ts' \<Rightarrow> if t = Word ''WHERE'' then
        (case read_all read_equation (Word ''AND'') ts' of Some (cs, []) \<Rightarrow> Some cs | _ \<Rightarrow> None) else None)"

definition read_duplicates :: "token list \<Rightarrow> (string \<times> expr) list option" where
  "read_duplicates ts =
     (if ts = [] then Some []
      else if take 4 ts = [Word ''ON'', Word ''DUPLICATE'', Word ''KEY'', Word ''UPDATE''] then
        (case read_all read_equation (Sym CHR '','') (drop 4 ts) of Some (cs, []) \<Rightarrow> Some cs | _ \<Rightarrow> None)
      else None)"

definition read_insert :: "token list \<Rightarrow> stmt option" where
  "read_insert ts = (case ts of
      Word t # Sym c # ts1 \<Rightarrow>
        if c \<noteq> CHR ''('' then None
        else (case read_all read_column (Sym CHR '','') ts1 of
          Some (cols, ts2) \<Rightarrow>
            if take 3 ts2 \<noteq> [Sym CHR '')'', Word ''VALUES'', Sym CHR ''(''] then None
            else (case read_all read_expr (Sym CHR '','') (drop 3 ts2) of
              Some (es, Sym d # ts3) \<Rightarrow> if d = CHR '')'' then map_option (Insert t cols es) (read_duplicates ts3) else None
            | _ \<Rightarrow> None)
        | None \<Rightarrow> None)
    | _ \<Rightarrow> None)"

definition read_update :: "token list \<Rightarrow> stmt option" where
  "read_update ts = (case ts of
      Word t # s # ts1 \<Rightarrow>
        if s \<noteq> Word ''SET'' then None
        else (case read_all read_equation (Sym CHR '','') ts1 of
          Some (sets, ts2) \<Rightarrow> map_option (Update t sets) (read_conditions ts2)
        | None \<Rightarrow> None)
    | _ \<Rightarrow> None)"

definition read_select :: "token list \<Rightarrow> stmt option" where
  "read_select ts = (case read_all read_expr (Sym CHR '','') ts of
      Some (es, f # Word t # ts2) \<Rightarrow> if f = Word ''FROM'' then map_option (Select es t) (read_conditions ts2) else None
    | _ \<Rightarrow> None)"

definition read_sql :: "string \<Rightarrow> stmt option" where
  "read_sql text = (case scan Blank text of
      k # ts \<Rightarrow>
        if k = Word ''SELECT'' then read_select ts
        else if k = Word ''UPDATE'' then read_update ts
        else if k = Word ''INSERT'' \<and> take 1 ts = [Word ''INTO''] then read_insert (drop 1 ts)
        else if k = Word ''DELETE'' \<and> take 1 ts = [Word ''FROM''] then
          (case drop 1 ts of Word t # ts1 \<Rightarrow> map_option (Delete t) (read_conditions ts1) | _ \<Rightarrow> None)
        else None
    | [] \<Rightarrow> None)"

section \<open>Scanning\<close>

definition ident :: "string \<Rightarrow> bool" where
  "ident s \<longleftrightarrow> s \<noteq> [] \<and> (\<forall>c \<in> set s. is_word c)"

lemma scan_in_word: "\<forall>c \<in> set s. is_word c \<Longrightarrow> scan (InWord w) (s @ cs) = scan (InWord (w @ s)) cs"
  by (induction s arbitrary: w) simp_all

lemma scan_in_param: "\<forall>c \<in> set s. is_word c \<Longrightarrow> scan (InParam w) (s @ cs) = scan (InParam (w @ s)) cs"
  by (induction s arbitrary: w) simp_all

lemma scan_ident: "ident s \<Longrightarrow> scan Blank (s @ cs) = scan (InWord s) cs"
proof -
  assume "ident s"
  then obtain c s' where s: "s = c # s'" "is_word c" "\<forall>c \<in> set s'. is_word c"
    by (cases s) (auto simp: ident_def)
  then show ?thesis
    using scan_in_word [of s' "[c]" cs] by simp
qed

lemma scan_param: "ident s \<Longrightarrow> scan (InParam []) (s @ cs) = scan (InParam s) cs"
  by (simp add: ident_def scan_in_param)

text \<open>What comes after a word and does not continue it.\<close>

definition ended :: "string \<Rightarrow> bool" where
  "ended cs \<longleftrightarrow> (case cs of [] \<Rightarrow> True | c # _ \<Rightarrow> \<not> is_word c)"

lemma scan_end: "ended cs \<Longrightarrow> scan (InWord w) cs = Word w # scan Blank cs" "ended cs \<Longrightarrow> scan (InParam w) cs = Param w # scan Blank cs"
  by (cases cs; simp add: ended_def)+

lemma scan_word: "ident s \<Longrightarrow> ended cs \<Longrightarrow> scan Blank (s @ cs) = Word s # scan Blank cs"
  by (simp add: scan_ident scan_end)

lemma scan_placeholder: "ident s \<Longrightarrow> ended cs \<Longrightarrow> scan Blank (CHR '':'' # s @ cs) = Param s # scan Blank cs"
proof -
  have "scan_char Blank CHR '':'' = ([], InParam [])"
    by code_simp
  then show "ident s \<Longrightarrow> ended cs \<Longrightarrow> ?thesis"
    by (simp add: scan_param scan_end)
qed

lemma scan_blank: "scan Blank (CHR '' '' # cs) = scan Blank cs"
proof -
  have "scan_char Blank CHR '' '' = ([], Blank)"
    by code_simp
  then show ?thesis
    by simp
qed

lemma scan_sym:
  "scan Blank (CHR ''('' # cs) = Sym CHR ''('' # scan Blank cs" "scan Blank (CHR '')'' # cs) = Sym CHR '')'' # scan Blank cs"
  "scan Blank (CHR '','' # cs) = Sym CHR '','' # scan Blank cs" "scan Blank (CHR ''='' # cs) = Sym CHR ''='' # scan Blank cs"
proof -
  have "scan_char Blank CHR ''('' = ([Sym CHR ''(''], Blank)" "scan_char Blank CHR '')'' = ([Sym CHR '')''], Blank)"
    "scan_char Blank CHR '','' = ([Sym CHR '',''], Blank)" "scan_char Blank CHR ''='' = ([Sym CHR ''=''], Blank)"
    by code_simp+
  then show "scan Blank (CHR ''('' # cs) = Sym CHR ''('' # scan Blank cs" "scan Blank (CHR '')'' # cs) = Sym CHR '')'' # scan Blank cs"
    "scan Blank (CHR '','' # cs) = Sym CHR '','' # scan Blank cs" "scan Blank (CHR ''='' # cs) = Sym CHR ''='' # scan Blank cs"
    by simp_all
qed

lemma ended_simps [simp]: "ended []" "ended (CHR '' '' # cs)" "ended (CHR ''('' # cs)" "ended (CHR '')'' # cs)" "ended (CHR '','' # cs)" "ended (CHR ''='' # cs)"
proof -
  have "\<not> is_word CHR '' ''" "\<not> is_word CHR ''(''" "\<not> is_word CHR '')''" "\<not> is_word CHR '',''" "\<not> is_word CHR ''=''"
    by code_simp+
  then show "ended []" "ended (CHR '' '' # cs)" "ended (CHR ''('' # cs)" "ended (CHR '')'' # cs)" "ended (CHR '','' # cs)" "ended (CHR ''='' # cs)"
    by (simp_all add: ended_def)
qed

lemmas scan_simps = scan_word scan_placeholder scan_blank scan_sym

lemma idents: "ident ''INSERT''" "ident ''INTO''" "ident ''VALUES''" "ident ''ON''" "ident ''DUPLICATE''" "ident ''KEY''" "ident ''UPDATE''"
    "ident ''SET''" "ident ''WHERE''" "ident ''AND''" "ident ''DELETE''" "ident ''FROM''" "ident ''SELECT''" "ident ''DATE_FORMAT''" "ident ''STR_TO_DATE''"
  by code_simp+

lemma scan_in_string: "quote \<notin> set s \<Longrightarrow> scan (InString w) (s @ quote # cs) = Str (w @ s) # scan Blank cs"
  by (induction s arbitrary: w) auto

definition date_format :: string where
  "date_format = ''%Y-%m-%dT%H:%i:%S.%f''"

lemma time_format_alt: "time_format @ cs = quote # date_format @ quote # cs"
  by (simp add: time_format_def date_format_def)

lemma scan_time_format: "scan Blank (time_format @ cs) = Str date_format # scan Blank cs"
proof -
  have q: "scan_char Blank quote = ([], InString [])"
    by code_simp
  have "quote \<notin> set date_format"
    by code_simp
  then show ?thesis
    using scan_in_string [of date_format "[]" cs] unfolding time_format_alt by (simp add: q del: scan_char.simps)
qed

declare scan.simps(2) [simp del]

text \<open>A fixed piece of text is scanned by evaluation.\<close>

fun scan_run :: "scan_state \<Rightarrow> string \<Rightarrow> token list \<times> scan_state" where
  "scan_run st [] = ([], st)"
| "scan_run st (c # cs) = (let (ts, st1) = scan_char st c; (us, st2) = scan_run st1 cs in (ts @ us, st2))"

lemma scan_append: "scan st (p @ cs) = fst (scan_run st p) @ scan (snd (scan_run st p)) cs"
  by (induction p arbitrary: st) (simp_all add: Let_def scan.simps(2) split: prod.split)

lemma scan_piece: "scan_run Blank p = (ts, Blank) \<Longrightarrow> scan Blank (p @ cs) = ts @ scan Blank cs"
  by (simp add: scan_append)

lemma pieces:
  "scan_run Blank ''INSERT INTO '' = ([Word ''INSERT'', Word ''INTO''], Blank)"
  "scan_run Blank '') VALUES ('' = ([Sym CHR '')'', Word ''VALUES'', Sym CHR ''(''], Blank)"
  "scan_run Blank '') ON DUPLICATE KEY UPDATE '' = ([Sym CHR '')'', Word ''ON'', Word ''DUPLICATE'', Word ''KEY'', Word ''UPDATE''], Blank)"
  "scan_run Blank ''=VALUES('' = ([Sym CHR ''='', Word ''VALUES'', Sym CHR ''(''], Blank)"
  "scan_run Blank ''UPDATE '' = ([Word ''UPDATE''], Blank)" "scan_run Blank '' SET '' = ([Word ''SET''], Blank)"
  "scan_run Blank '' WHERE '' = ([Word ''WHERE''], Blank)" "scan_run Blank '' AND '' = ([Word ''AND''], Blank)"
  "scan_run Blank ''DELETE FROM '' = ([Word ''DELETE'', Word ''FROM''], Blank)" "scan_run Blank ''SELECT '' = ([Word ''SELECT''], Blank)"
  "scan_run Blank '' FROM '' = ([Word ''FROM''], Blank)" "scan_run Blank '' = '' = ([Sym CHR ''=''], Blank)"
  "scan_run Blank ''DATE_FORMAT('' = ([Word ''DATE_FORMAT'', Sym CHR ''(''], Blank)"
  "scan_run Blank ''STR_TO_DATE('' = ([Word ''STR_TO_DATE'', Sym CHR ''(''], Blank)"
  "scan_run Blank '', '' = ([Sym CHR '',''], Blank)" "scan_run Blank '','' = ([Sym CHR '',''], Blank)" "scan_run Blank '')'' = ([Sym CHR '')''], Blank)"
  "scan_run Blank ''('' = ([Sym CHR ''(''], Blank)" "scan_run Blank '' '' = ([], Blank)"
  by code_simp+

lemmas scan_pieces = pieces [THEN scan_piece]

lemma ended_pieces:
  "ended ('') VALUES ('' @ cs)" "ended ('') ON DUPLICATE KEY UPDATE '' @ cs)" "ended (''=VALUES('' @ cs)" "ended ('' SET '' @ cs)" "ended ('' WHERE '' @ cs)"
  "ended ('' AND '' @ cs)" "ended ('' FROM '' @ cs)" "ended ('' = '' @ cs)" "ended ('', '' @ cs)" "ended ('','' @ cs)" "ended ('')'' @ cs)" "ended (''('' @ cs)" "ended ('' '' @ cs)"
  by simp_all

text \<open>The tokens of a sequence with a separator.\<close>

fun seq_tokens :: "token \<Rightarrow> ('a \<Rightarrow> token list) \<Rightarrow> 'a list \<Rightarrow> token list" where
  "seq_tokens s tk [] = []"
| "seq_tokens s tk [n] = tk n"
| "seq_tokens s tk (n # m # ns) = tk n @ s # seq_tokens s tk (m # ns)"

lemma seq_tokens_Cons: "seq_tokens s tk (n # ns) = tk n @ (if ns = [] then [] else s # seq_tokens s tk ns)"
  by (cases ns) simp_all

lemma seq_tokens_append: "ns \<noteq> [] \<Longrightarrow> ms \<noteq> [] \<Longrightarrow> seq_tokens s tk ns @ s # seq_tokens s tk ms = seq_tokens s tk (ns @ ms)"
  by (induction ns) (auto simp: seq_tokens_Cons)

lemma seq_tokens_map: "seq_tokens s tk (map f ns) = seq_tokens s (\<lambda>n. tk (f n)) ns"
  by (induction ns) (simp_all add: seq_tokens_Cons)

lemma length_seq_tokens: "\<forall>n \<in> set ns. tk n \<noteq> [] \<Longrightarrow> length ns \<le> length (seq_tokens s tk ns)"
  by (induction ns) (auto simp: seq_tokens_Cons Suc_le_eq add_pos_nonneg trans_le_add2 simp flip: length_greater_0_conv)

lemma separated_flag [simp]: "snd (separated sep f ns start) \<longleftrightarrow> start \<and> ns = []"
  by (cases ns) (simp_all add: Let_def split_beta, induct_tac "list", simp_all add: Let_def split_beta)

lemma separated_Cons [simp]: "fst (separated sep f (n # ns) start) = (if start then [] else sep) @ f n @ fst (separated sep f ns False)"
  by (simp add: split_beta)

declare separated.simps(2) [simp del]

lemma separated_False: "fst (separated sep f ns False) = concat (map (\<lambda>n. sep @ f n) ns)"
  by (induction ns) simp_all

lemma scan_separated:
  assumes item: "\<And>n cs. n \<in> set ns \<Longrightarrow> ended cs \<Longrightarrow> scan Blank (f n @ cs) = tk n @ scan Blank cs"
    and sep: "\<And>cs. scan Blank (sep @ cs) = s # scan Blank cs" "\<And>cs. ended (sep @ cs)" and "ended cs"
  shows "scan Blank (fst (separated sep f ns start) @ cs) = (if start \<or> ns = [] then [] else [s]) @ seq_tokens s tk ns @ scan Blank cs"
  using item \<open>ended cs\<close>
proof (induction ns arbitrary: start)
  case (Cons n ns)
  have e: "ended (fst (separated sep f ns False) @ cs)"
    using sep(2) Cons.prems(2) by (cases ns) simp_all
  have "scan Blank (fst (separated sep f ns False) @ cs) = (if ns = [] then [] else [s]) @ seq_tokens s tk ns @ scan Blank cs"
    using Cons.IH [of False] Cons.prems by simp
  then have "scan Blank (f n @ fst (separated sep f ns False) @ cs) = tk n @ (if ns = [] then [] else [s]) @ seq_tokens s tk ns @ scan Blank cs"
    using Cons.prems(1) [OF _ e, of n] by simp
  then show ?case
    by (simp add: sep(1) seq_tokens_Cons)
qed simp

lemma scan_listed:
  assumes "\<And>n cs. n \<in> set ns \<Longrightarrow> ended cs \<Longrightarrow> scan Blank (f n @ cs) = tk n @ scan Blank cs"
    and "\<And>cs. scan Blank (sep @ cs) = s # scan Blank cs" "\<And>cs. ended (sep @ cs)" and "ended cs"
  shows "scan Blank (listed sep f ns @ cs) = seq_tokens s tk ns @ scan Blank cs"
  using scan_separated [of ns f tk sep s cs True] assms by (simp add: listed_def)

section \<open>Reading sequences\<close>

definition closed :: "token list \<Rightarrow> bool" where
  "closed ts \<longleftrightarrow> (case ts of [] \<Rightarrow> True | t # _ \<Rightarrow> t \<noteq> Sym CHR ''('')"

lemma read_seq_tokens:
  assumes "\<And>n ts. n \<in> set ns \<Longrightarrow> closed ts \<Longrightarrow> item (tk n @ ts) = Some (x n, ts)" and "ns \<noteq> []" "length ns \<le> k"
    and "s \<noteq> Sym CHR ''(''" and "closed ts" "take 1 ts \<noteq> [s]"
  shows "read_seq item s k (seq_tokens s tk ns @ ts) = Some (map x ns, ts)"
  using assms
proof (induction ns arbitrary: k)
  case (Cons n ns)
  obtain k' where k: "k = Suc k'"
    using Cons.prems(3) by (cases k) auto
  show ?case
  proof (cases "ns = []")
    case True
    then show ?thesis
      using Cons.prems Cons.prems(1) [of n ts] by (cases ts) (simp_all add: k)
  next
    case False
    have "item (tk n @ s # seq_tokens s tk ns @ ts) = Some (x n, s # seq_tokens s tk ns @ ts)"
      using Cons.prems(1) [of n "s # seq_tokens s tk ns @ ts"] Cons.prems(4) by (simp add: closed_def)
    moreover have "read_seq item s k' (seq_tokens s tk ns @ ts) = Some (map x ns, ts)"
      using Cons.IH [of k'] Cons.prems False by (simp add: k)
    ultimately show ?thesis
      using False by (simp add: k seq_tokens_Cons)
  qed
qed simp

lemma read_all_tokens:
  assumes "\<And>n ts. n \<in> set ns \<Longrightarrow> closed ts \<Longrightarrow> item (tk n @ ts) = Some (x n, ts)" and "ns \<noteq> []" "\<forall>n \<in> set ns. tk n \<noteq> []"
    and "s \<noteq> Sym CHR ''(''" and "closed ts" "take 1 ts \<noteq> [s]"
  shows "read_all item s (seq_tokens s tk ns @ ts) = Some (map x ns, ts)"
  unfolding read_all_def using assms length_seq_tokens [OF assms(3), of s] by (intro read_seq_tokens) (auto simp: trans_le_add1)

section \<open>The items of the lists\<close>

definition value_tokens :: "db_traits \<Rightarrow> string \<times> field_type \<Rightarrow> token list" where
  "value_tokens tr f =
     (if is_time (snd f) \<and> tr \<noteq> Sqlite3Traits
      then [Word ''STR_TO_DATE'', Sym CHR ''('', Param (fst f), Sym CHR '','', Str date_format, Sym CHR '')''] else [Param (fst f)])"

definition value_expr :: "db_traits \<Rightarrow> string \<times> field_type \<Rightarrow> expr" where
  "value_expr tr f = (if is_time (snd f) \<and> tr \<noteq> Sqlite3Traits then EFormat ''STR_TO_DATE'' (EParam (fst f)) date_format else EParam (fst f))"

definition select_tokens :: "db_traits \<Rightarrow> string \<times> field_type \<Rightarrow> token list" where
  "select_tokens tr f =
     (if is_time (snd f) \<and> tr \<noteq> Sqlite3Traits
      then [Word ''DATE_FORMAT'', Sym CHR ''('', Word (fst f), Sym CHR '','', Str date_format, Sym CHR '')''] else [Word (fst f)])"

definition select_expr :: "db_traits \<Rightarrow> string \<times> field_type \<Rightarrow> expr" where
  "select_expr tr f = (if is_time (snd f) \<and> tr \<noteq> Sqlite3Traits then EFormat ''DATE_FORMAT'' (EColumn (fst f)) date_format else EColumn (fst f))"

lemma scan_value:
  assumes "ident (fst f)" "ended cs"
  shows "scan Blank (value_field tr f @ cs) = value_tokens tr f @ scan Blank cs"
proof -
  have "''STR_TO_DATE(:'' @ fst f @ '','' @ time_format @ '')'' @ cs = ''STR_TO_DATE('' @ CHR '':'' # fst f @ '','' @ time_format @ '')'' @ cs"
    by simp
  then have "scan Blank (''STR_TO_DATE(:'' @ fst f @ '','' @ time_format @ '')'' @ cs)
      = [Word ''STR_TO_DATE'', Sym CHR ''('', Param (fst f), Sym CHR '','', Str date_format, Sym CHR '')''] @ scan Blank cs"
    by (simp only: scan_pieces scan_placeholder [OF assms(1)] ended_pieces scan_time_format) simp
  then show ?thesis
    using assms by (simp add: value_field_def toISO8601FieldValue_def value_tokens_def scan_placeholder)
qed

lemma scan_select:
  assumes "ident (fst f)" "ended cs"
  shows "scan Blank (select_field tr f @ cs) = select_tokens tr f @ scan Blank cs"
proof -
  have "scan Blank (''DATE_FORMAT('' @ fst f @ '','' @ time_format @ '')'' @ cs)
      = [Word ''DATE_FORMAT'', Sym CHR ''('', Word (fst f), Sym CHR '','', Str date_format, Sym CHR '')''] @ scan Blank cs"
    by (simp only: scan_pieces scan_word [OF assms(1)] ended_pieces scan_time_format) simp
  then show ?thesis
    using assms by (simp add: select_field_def ISO8601FormatedField_def select_tokens_def scan_word)
qed

lemma read_word: "closed ts \<Longrightarrow> read_expr (Word c # ts) = Some (EColumn c, ts)"
  by (auto simp: read_expr_def closed_def split: list.splits token.splits)

lemma read_value: "read_expr (value_tokens tr f @ ts) = Some (value_expr tr f, ts)"
  by (simp add: read_expr_def read_call_def value_tokens_def value_expr_def)

lemma read_selected: "closed ts \<Longrightarrow> read_expr (select_tokens tr f @ ts) = Some (select_expr tr f, ts)"
  by (simp add: select_tokens_def select_expr_def read_word) (simp add: read_expr_def read_call_def)

lemma tokens_nonempty [simp]: "value_tokens tr f \<noteq> []" "select_tokens tr f \<noteq> []"
  by (simp_all add: value_tokens_def select_tokens_def)

definition equation_tokens :: "db_traits \<Rightarrow> string \<times> field_type \<Rightarrow> token list" where
  "equation_tokens tr f = Word (fst f) # Sym CHR ''='' # value_tokens tr f"

lemma scan_equation:
  assumes "ident (fst f)" "ended cs"
  shows "scan Blank ((fst f @ '' = '' @ value_field tr f) @ cs) = equation_tokens tr f @ scan Blank cs"
proof -
  have "scan Blank (fst f @ '' = '' @ value_field tr f @ cs) = Word (fst f) # Sym CHR ''='' # value_tokens tr f @ scan Blank cs"
    using assms by (simp add: scan_word scan_pieces ended_pieces scan_value del: append_Cons)
  then show ?thesis
    by (simp add: equation_tokens_def)
qed

lemma read_equation_tokens: "read_equation (equation_tokens tr f @ ts) = Some ((fst f, value_expr tr f), ts)"
  by (simp add: read_equation_def equation_tokens_def read_value)

text \<open>The plain placeholders of the servers are those of the traits for SQLite.\<close>

lemma plain_value: "value_field Sqlite3Traits (s, t) = '':'' @ s" "value_expr Sqlite3Traits (s, t) = EParam s"
  by (simp_all add: value_field_def toISO8601FieldValue_def value_expr_def)

section \<open>The texts are what they are meant to be\<close>

definition struct_ok :: "struct \<Rightarrow> bool" where
  "struct_ok fs \<longleftrightarrow> fs \<noteq> [] \<and> (\<forall>f \<in> set fs. ident (fst f))"

definition "comma = Sym CHR '',''"
definition "word_tokens n = [Word n]"

lemma scan_names: "\<forall>n \<in> set ns. ident n \<Longrightarrow> ended cs \<Longrightarrow> scan Blank (listed '', '' id ns @ cs) = seq_tokens comma word_tokens ns @ scan Blank cs"
  by (intro scan_listed) (simp_all add: scan_word comma_def word_tokens_def scan_blank scan_sym)

lemma scan_commaSeparated: "struct_ok fs \<Longrightarrow> ended cs \<Longrightarrow> scan Blank (commaSeparatedFieldNames fs @ cs) = seq_tokens comma word_tokens (names_of fs) @ scan Blank cs"
  by (simp add: commaSeparatedFieldNames_def struct_ok_def scan_names)

lemma scan_forSelect: "struct_ok fs \<Longrightarrow> ended cs \<Longrightarrow>
    scan Blank (commaSeparatedFieldNamesForSelect tr fs @ cs) = seq_tokens comma (select_tokens tr) fs @ scan Blank cs"
  unfolding commaSeparatedFieldNamesForSelect_def
  by (intro scan_listed) (simp_all add: struct_ok_def scan_select comma_def scan_blank scan_sym)

lemma scan_values: "struct_ok fs \<Longrightarrow> ended cs \<Longrightarrow>
    scan Blank (fst (addValueFieldsToInsertValueList tr fs start) @ cs) = (if start then [] else [comma]) @ seq_tokens comma (value_tokens tr) fs @ scan Blank cs"
  unfolding addValueFieldsToInsertValueList_def
  by (subst scan_separated [where tk = "value_tokens tr" and s = comma]) (auto simp: struct_ok_def scan_value comma_def scan_sym)

lemma scan_where: "struct_ok fs \<Longrightarrow> ended cs \<Longrightarrow>
    scan Blank (fst (addValueFieldsToWhereClauseValueList tr fs True) @ cs) = seq_tokens (Word ''AND'') (equation_tokens tr) fs @ scan Blank cs"
  unfolding addValueFieldsToWhereClauseValueList_def
  by (subst scan_separated [where tk = "equation_tokens tr" and s = "Word ''AND''"])
    (auto simp: struct_ok_def scan_equation scan_pieces ended_pieces simp del: append_Cons append_assoc)

lemma read_columns: "ns \<noteq> [] \<Longrightarrow> closed ts \<Longrightarrow> take 1 ts \<noteq> [comma] \<Longrightarrow> read_all read_column comma (seq_tokens comma word_tokens ns @ ts) = Some (ns, ts)"
  using read_all_tokens [of ns read_column word_tokens id comma ts] by (simp add: word_tokens_def comma_def)

lemma read_values: "struct_ok fs \<Longrightarrow> closed ts \<Longrightarrow> take 1 ts \<noteq> [comma] \<Longrightarrow>
    read_all read_expr comma (seq_tokens comma (value_tokens tr) fs @ ts) = Some (map (value_expr tr) fs, ts)"
  by (intro read_all_tokens) (simp_all add: read_value struct_ok_def comma_def)

lemma read_select_list: "struct_ok fs \<Longrightarrow> closed ts \<Longrightarrow> take 1 ts \<noteq> [comma] \<Longrightarrow>
    read_all read_expr comma (seq_tokens comma (select_tokens tr) fs @ ts) = Some (map (select_expr tr) fs, ts)"
  by (intro read_all_tokens) (simp_all add: read_selected struct_ok_def comma_def)

lemma read_equations: "struct_ok fs \<Longrightarrow> s \<noteq> Sym CHR ''('' \<Longrightarrow> closed ts \<Longrightarrow> take 1 ts \<noteq> [s] \<Longrightarrow>
    read_all read_equation s (seq_tokens s (equation_tokens tr) fs @ ts) = Some (map (\<lambda>f. (fst f, value_expr tr f)) fs, ts)"
  by (intro read_all_tokens) (simp_all add: read_equation_tokens struct_ok_def, simp add: equation_tokens_def)

lemma read_where: "struct_ok fs \<Longrightarrow>
    read_conditions (Word ''WHERE'' # seq_tokens (Word ''AND'') (equation_tokens tr) fs) = Some (map (\<lambda>f. (fst f, value_expr tr f)) fs)"
  using read_equations [of fs "Word ''AND''" "[]" tr] by (simp add: read_conditions_def closed_def)

lemma scan_plain: "(\<lambda>s. '':'' @ s) = (\<lambda>s. value_field Sqlite3Traits (s, TString))" "equal_param = (\<lambda>s. fst (s, TString) @ '' = '' @ value_field Sqlite3Traits (s, TString))"
  by (simp_all add: fun_eq_iff plain_value equal_param_def)

text \<open>The statements of the servers bind plain placeholders, whatever the types.\<close>

definition plain :: "struct \<Rightarrow> struct" where
  "plain fs = map (\<lambda>f. (fst f, TString)) fs"

lemma plain_simps [simp]: "names_of (plain fs) = names_of fs" "struct_ok (plain fs) = struct_ok fs" "plain (fs @ gs) = plain fs @ plain gs"
  by (auto simp: plain_def struct_ok_def)

lemma plain_exprs: "map (value_expr tr) (plain fs) = map EParam (names_of fs)"
    "map (\<lambda>f. (fst f, value_expr tr f)) (plain fs) = map (\<lambda>n. (n, EParam n)) (names_of fs)"
  by (simp_all add: plain_def value_expr_def is_time_def)

lemma separated_map: "fst (separated sep f (map g ns) start) = fst (separated sep (\<lambda>n. f (g n)) ns start)"
  by (induction ns arbitrary: start) simp_all

lemma plain_texts:
  "listed '','' (\<lambda>s. '':'' @ s) (names_of fs) = fst (addValueFieldsToInsertValueList Sqlite3Traits (plain fs) True)"
  "concat (map (\<lambda>s. '','' @ '':'' @ s) (names_of fs)) = fst (addValueFieldsToInsertValueList Sqlite3Traits (plain fs) False)"
  "listed '' AND '' equal_param (names_of fs) = fst (addValueFieldsToWhereClauseValueList Sqlite3Traits (plain fs) True)"
  by (simp_all add: listed_def addValueFieldsToInsertValueList_def addValueFieldsToWhereClauseValueList_def plain_def separated_map plain_value
      separated_False equal_param_def o_def)

lemma scan_sets:
  assumes "struct_ok ds" "ended cs"
  shows "scan Blank (listed '', '' equal_param (names_of ds) @ cs) = seq_tokens comma (equation_tokens Sqlite3Traits) (plain ds) @ scan Blank cs"
proof -
  have "scan Blank (listed '', '' (\<lambda>n. fst (n, TString) @ '' = '' @ value_field Sqlite3Traits (n, TString)) (names_of ds) @ cs)
      = seq_tokens comma (\<lambda>n. equation_tokens Sqlite3Traits (n, TString)) (names_of ds) @ scan Blank cs"
  proof (rule scan_listed)
    fix n cs' assume "n \<in> set (names_of ds)" "ended cs'"
    then show "scan Blank ((fst (n, TString) @ '' = '' @ value_field Sqlite3Traits (n, TString)) @ cs') = equation_tokens Sqlite3Traits (n, TString) @ scan Blank cs'"
      using assms(1) by (intro scan_equation) (auto simp: struct_ok_def)
  qed (simp_all add: assms(2) comma_def scan_blank scan_sym)
  then show ?thesis
    by (simp add: scan_plain(2) plain_def seq_tokens_map o_def flip: map_map [unfolded o_def])
qed

lemma take_one: "take 1 (t # ts) = [t]"
  by simp

lemma read_insert_tokens:
  assumes "struct_ok fs" "cols \<noteq> []"
  shows "read_insert (Word t # Sym CHR ''('' # seq_tokens comma word_tokens cols @ Sym CHR '')'' # Word ''VALUES'' # Sym CHR ''('' #
      seq_tokens comma (value_tokens tr) fs @ Sym CHR '')'' # ts) = map_option (Insert t cols (map (value_expr tr) fs)) (read_duplicates ts)"
  using assms read_columns [of cols "Sym CHR '')'' # Word ''VALUES'' # Sym CHR ''('' # seq_tokens comma (value_tokens tr) fs @ Sym CHR '')'' # ts"]
    read_values [of fs "Sym CHR '')'' # ts" tr]
  by (simp add: read_insert_def closed_def comma_def)

theorem insert_text_read:
  assumes "struct_ok fs" "ident t"
  shows "read_sql (insertTemplate_internal tr fs t) = Some (Insert t (names_of fs) (map (value_expr tr) fs) [])"
proof -
  have built: "insertTemplate_internal tr fs t = ''INSERT INTO '' @ t @ ''('' @ commaSeparatedFieldNames fs @ '') VALUES ('' @ fst (addValueFieldsToInsertValueList tr fs True) @ '')'' @ []"
    by (simp add: insertTemplate_internal_def)
  have "scan Blank (insertTemplate_internal tr fs t) = Word ''INSERT'' # Word ''INTO'' # Word t # Sym CHR ''('' # seq_tokens comma word_tokens (names_of fs) @ Sym CHR '')'' # Word ''VALUES'' # Sym CHR ''('' #
      seq_tokens comma (value_tokens tr) fs @ [Sym CHR '')'']"
    unfolding built by (simp only: scan_pieces scan_word [OF assms(2)] ended_pieces scan_commaSeparated [OF assms(1)] scan_values [OF assms(1)]) simp
  then show ?thesis
    using assms read_insert_tokens [of fs "names_of fs" t tr "[]"] by (simp add: read_sql_def struct_ok_def read_duplicates_def)
qed

lemma server_insert_text: "ks \<noteq> [] \<Longrightarrow>
    insertTemplate ks ds t = ''INSERT INTO '' @ t @ ''('' @ commaSeparatedFieldNames ks @ '','' @ commaSeparatedFieldNames ds @ '') VALUES ('' @
      fst (addValueFieldsToInsertValueList Sqlite3Traits (plain ks) True) @ fst (addValueFieldsToInsertValueList Sqlite3Traits (plain ds) False) @ '')'' @ []"
  unfolding insertTemplate_def plain_texts by simp

theorem server_insert_read:
  assumes "struct_ok ks" "struct_ok ds" "ident t"
  shows "read_sql (insertTemplate ks ds t) = Some (Insert t (names_of ks @ names_of ds) (map EParam (names_of ks @ names_of ds)) [])"
proof -
  have e: "ended (fst (addValueFieldsToInsertValueList Sqlite3Traits (plain ds) False) @ '')'' @ [])"
    using assms(2) by (cases ds) (simp_all add: struct_ok_def addValueFieldsToInsertValueList_def plain_def)
  have "scan Blank (insertTemplate ks ds t) = Word ''INSERT'' # Word ''INTO'' # Word t # Sym CHR ''('' #
      (seq_tokens comma word_tokens (names_of ks) @ comma # seq_tokens comma word_tokens (names_of ds)) @ Sym CHR '')'' # Word ''VALUES'' # Sym CHR ''('' #
      (seq_tokens comma (value_tokens Sqlite3Traits) (plain ks) @ comma # seq_tokens comma (value_tokens Sqlite3Traits) (plain ds)) @ [Sym CHR '')'']"
    unfolding server_insert_text [OF assms(1) [unfolded struct_ok_def, THEN conjunct1]] using assms
    by (simp only: scan_pieces scan_word [OF assms(3)] ended_pieces scan_commaSeparated scan_values plain_simps e) (simp add: comma_def)
  also have "seq_tokens comma word_tokens (names_of ks) @ comma # seq_tokens comma word_tokens (names_of ds) = seq_tokens comma word_tokens (names_of (ks @ ds))"
    using assms by (simp add: seq_tokens_append struct_ok_def)
  also have "seq_tokens comma (value_tokens Sqlite3Traits) (plain ks) @ comma # seq_tokens comma (value_tokens Sqlite3Traits) (plain ds)
      = seq_tokens comma (value_tokens Sqlite3Traits) (plain (ks @ ds))"
    using assms by (simp add: seq_tokens_append struct_ok_def plain_def)
  finally have "scan Blank (insertTemplate ks ds t) = Word ''INSERT'' # Word ''INTO'' # Word t # Sym CHR ''('' #
      seq_tokens comma word_tokens (names_of (ks @ ds)) @ Sym CHR '')'' # Word ''VALUES'' # Sym CHR ''('' #
      seq_tokens comma (value_tokens Sqlite3Traits) (plain (ks @ ds)) @ Sym CHR '')'' # []" .
  moreover have "struct_ok (plain (ks @ ds))" "names_of (ks @ ds) \<noteq> []"
    using assms by (auto simp: struct_ok_def plain_def)
  ultimately show ?thesis
    using read_insert_tokens [of "plain (ks @ ds)" "names_of (ks @ ds)" t Sqlite3Traits "[]"]
    unfolding plain_exprs by (simp add: read_sql_def read_duplicates_def del: plain_simps)
qed

theorem server_update_read:
  assumes "struct_ok ks" "struct_ok ds" "ident t"
  shows "read_sql (updateTemplate ks ds t) =
    Some (Update t (map (\<lambda>n. (n, EParam n)) (names_of ds)) (map (\<lambda>n. (n, EParam n)) (names_of ks)))"
proof -
  have built: "updateTemplate ks ds t = ''UPDATE '' @ t @ '' SET '' @ listed '', '' equal_param (names_of ds) @ '' WHERE '' @
      fst (addValueFieldsToWhereClauseValueList Sqlite3Traits (plain ks) True) @ []"
    by (simp add: updateTemplate_def plain_texts)
  have "scan Blank (updateTemplate ks ds t) = Word ''UPDATE'' # Word t # Word ''SET'' # seq_tokens comma (equation_tokens Sqlite3Traits) (plain ds) @
      Word ''WHERE'' # seq_tokens (Word ''AND'') (equation_tokens Sqlite3Traits) (plain ks)"
    unfolding built using assms
    by (simp only: scan_pieces scan_word [OF assms(3)] ended_pieces ended_simps(1) scan_sets scan_where plain_simps) simp
  then show ?thesis
    using assms read_where [of "plain ks" Sqlite3Traits]
      read_equations [of "plain ds" comma "Word ''WHERE'' # seq_tokens (Word ''AND'') (equation_tokens Sqlite3Traits) (plain ks)" Sqlite3Traits]
    by (simp add: read_sql_def read_update_def closed_def comma_def plain_exprs)
qed

theorem server_delete_read:
  assumes "struct_ok ks" "ident t"
  shows "read_sql (deleteTemplate ks t) = Some (Delete t (map (\<lambda>n. (n, EParam n)) (names_of ks)))"
proof -
  have built: "deleteTemplate ks t = ''DELETE FROM '' @ t @ '' WHERE '' @ fst (addValueFieldsToWhereClauseValueList Sqlite3Traits (plain ks) True) @ []"
    by (simp add: deleteTemplate_def plain_texts)
  have "scan Blank (deleteTemplate ks t) = Word ''DELETE'' # Word ''FROM'' # Word t # Word ''WHERE'' # seq_tokens (Word ''AND'') (equation_tokens Sqlite3Traits) (plain ks)"
    unfolding built using assms
    by (simp only: scan_pieces scan_word [OF assms(2)] ended_pieces ended_simps(1) scan_where plain_simps) simp
  then show ?thesis
    using assms read_where [of "plain ks" Sqlite3Traits] by (simp add: read_sql_def plain_exprs)
qed

definition keep_new_tokens :: "string \<Rightarrow> token list" where
  "keep_new_tokens n = [Word n, Sym CHR ''='', Word ''VALUES'', Sym CHR ''('', Word n, Sym CHR '')'']"

lemma scan_keep_new:
  assumes "\<forall>n \<in> set ns. ident n" "ended cs"
  shows "scan Blank (listed '', '' (\<lambda>s. s @ ''=VALUES('' @ s @ '')'') ns @ cs) = seq_tokens comma keep_new_tokens ns @ scan Blank cs"
proof (rule scan_listed)
  fix n cs' assume "n \<in> set ns" "ended cs'"
  then have i: "ident n"
    using assms(1) by blast
  show "scan Blank ((n @ ''=VALUES('' @ n @ '')'') @ cs') = keep_new_tokens n @ scan Blank cs'"
    unfolding append_assoc by (simp only: scan_pieces scan_word [OF i] ended_pieces) (simp add: keep_new_tokens_def)
qed (simp_all add: assms(2) comma_def scan_blank scan_sym)

lemma read_keep_new: "ns \<noteq> [] \<Longrightarrow>
    read_duplicates (Word ''ON'' # Word ''DUPLICATE'' # Word ''KEY'' # Word ''UPDATE'' # seq_tokens comma keep_new_tokens ns) = Some (map (\<lambda>n. (n, EValues n)) ns)"
proof -
  assume "ns \<noteq> []"
  then have "read_all read_equation comma (seq_tokens comma keep_new_tokens ns @ []) = Some (map (\<lambda>n. (n, EValues n)) ns, [])"
    by (intro read_all_tokens) (simp_all add: keep_new_tokens_def read_equation_def read_expr_def read_call_def comma_def closed_def)
  then show ?thesis
    by (simp add: read_duplicates_def comma_def)
qed

theorem duplicate_insert_read:
  assumes "struct_ok ks" "struct_ok ds" "ident t"
  shows "read_sql (insertTemplateWithDuplicateCheck_internal tr ks ds t) =
    Some (Insert t (names_of (ks @ ds)) (map (value_expr tr) (ks @ ds)) (map (\<lambda>n. (n, EValues n)) (names_of ds)))"
proof -
  have n: "ks \<noteq> []" "\<forall>n \<in> set (names_of ds). ident n"
    using assms by (auto simp: struct_ok_def)
  have built: "insertTemplateWithDuplicateCheck_internal tr ks ds t = ''INSERT INTO '' @ t @ ''('' @ commaSeparatedFieldNames ks @ '', '' @ commaSeparatedFieldNames ds @ '') VALUES ('' @
      fst (addValueFieldsToInsertValueList tr ks True) @ fst (addValueFieldsToInsertValueList tr ds False) @
      '') ON DUPLICATE KEY UPDATE '' @ listed '', '' (\<lambda>s. s @ ''=VALUES('' @ s @ '')'') (names_of ds) @ []"
    using n(1) by (simp add: insertTemplateWithDuplicateCheck_internal_def split_beta addValueFieldsToInsertValueList_def)
  have e: "ended (fst (addValueFieldsToInsertValueList tr ds False) @ '') ON DUPLICATE KEY UPDATE '' @ xs)" for xs
    using assms(2) by (cases ds) (simp_all add: struct_ok_def addValueFieldsToInsertValueList_def)
  have "scan Blank (insertTemplateWithDuplicateCheck_internal tr ks ds t) = Word ''INSERT'' # Word ''INTO'' # Word t # Sym CHR ''('' #
      (seq_tokens comma word_tokens (names_of ks) @ comma # seq_tokens comma word_tokens (names_of ds)) @ Sym CHR '')'' # Word ''VALUES'' # Sym CHR ''('' #
      (seq_tokens comma (value_tokens tr) ks @ comma # seq_tokens comma (value_tokens tr) ds) @ Sym CHR '')'' #
      Word ''ON'' # Word ''DUPLICATE'' # Word ''KEY'' # Word ''UPDATE'' # seq_tokens comma keep_new_tokens (names_of ds)"
    unfolding built using assms n(2)
    by (simp only: scan_pieces scan_word [OF assms(3)] ended_pieces ended_simps(1) scan_commaSeparated scan_values e scan_keep_new) (simp add: comma_def)
  also have "seq_tokens comma word_tokens (names_of ks) @ comma # seq_tokens comma word_tokens (names_of ds) = seq_tokens comma word_tokens (names_of (ks @ ds))"
    using assms by (simp add: seq_tokens_append struct_ok_def)
  also have "seq_tokens comma (value_tokens tr) ks @ comma # seq_tokens comma (value_tokens tr) ds = seq_tokens comma (value_tokens tr) (ks @ ds)"
    using assms by (simp add: seq_tokens_append struct_ok_def)
  finally have "scan Blank (insertTemplateWithDuplicateCheck_internal tr ks ds t) = Word ''INSERT'' # Word ''INTO'' # Word t # Sym CHR ''('' #
      seq_tokens comma word_tokens (names_of (ks @ ds)) @ Sym CHR '')'' # Word ''VALUES'' # Sym CHR ''('' # seq_tokens comma (value_tokens tr) (ks @ ds) @ Sym CHR '')'' #
      Word ''ON'' # Word ''DUPLICATE'' # Word ''KEY'' # Word ''UPDATE'' # seq_tokens comma keep_new_tokens (names_of ds)" .
  moreover have "struct_ok (ks @ ds)" "names_of (ks @ ds) \<noteq> []" "names_of ds \<noteq> []"
    using assms by (auto simp: struct_ok_def)
  ultimately show ?thesis
    by (simp add: read_sql_def read_insert_tokens read_keep_new del: map_append)
qed

theorem delete_by_key_read:
  assumes "struct_ok ks" "ident t"
  shows "read_sql (deleteByKey_text tr ks t) = Some (Delete t (map (\<lambda>f. (fst f, value_expr tr f)) ks))"
proof -
  have built: "deleteByKey_text tr ks t = ''DELETE FROM '' @ t @ '' WHERE '' @ fst (addValueFieldsToWhereClauseValueList tr ks True) @ []"
    by (simp add: deleteByKey_text_def)
  have "scan Blank (deleteByKey_text tr ks t) = Word ''DELETE'' # Word ''FROM'' # Word t # Word ''WHERE'' # seq_tokens (Word ''AND'') (equation_tokens tr) ks"
    unfolding built using assms
    by (simp only: scan_pieces scan_word [OF assms(2)] ended_pieces ended_simps(1) scan_where) simp
  then show ?thesis
    using assms read_where [of ks tr] by (simp add: read_sql_def)
qed

lemma read_select_tokens:
  assumes "struct_ok ds"
  shows "read_select (seq_tokens comma (select_tokens tr) ds @ Word ''FROM'' # Word t # ts) = map_option (Select (map (select_expr tr) ds) t) (read_conditions ts)"
  using read_select_list [of ds "Word ''FROM'' # Word t # ts" tr] assms by (simp add: read_select_def closed_def comma_def)

theorem query_text_read:
  assumes "struct_ok ks" "struct_ok ds" "ident t"
  shows "read_sql (queryTableData_text tr ks ds t) = Some (Select (map (select_expr tr) ds) t (map (\<lambda>f. (fst f, value_expr tr f)) ks))"
proof -
  have built: "queryTableData_text tr ks ds t = ''SELECT '' @ commaSeparatedFieldNamesForSelect tr ds @ '' FROM '' @ t @ '' WHERE '' @
      fst (addValueFieldsToWhereClauseValueList tr ks True) @ []"
    by (simp add: queryTableData_text_def)
  have "scan Blank (queryTableData_text tr ks ds t) = Word ''SELECT'' # seq_tokens comma (select_tokens tr) ds @ Word ''FROM'' # Word t #
      Word ''WHERE'' # seq_tokens (Word ''AND'') (equation_tokens tr) ks"
    unfolding built using assms
    by (simp only: scan_pieces scan_word [OF assms(3)] ended_pieces ended_simps(1) scan_where scan_forSelect) simp
  then show ?thesis
    using assms read_where [of ks tr] by (simp add: read_sql_def read_select_tokens)
qed

theorem load_text_read:
  assumes "struct_ok ks" "struct_ok ds" "ident t"
  shows "read_sql (load_text b ks ds t None) = Some (Select (map EColumn (names_of (ks @ ds))) t [])"
proof -
  have built: "load_text b ks ds t None = ''SELECT '' @ commaSeparatedFieldNames ks @ '', '' @ commaSeparatedFieldNames ds @ '' FROM '' @ t @ []"
    by (simp add: load_text_def)
  have "scan Blank (load_text b ks ds t None) =
      Word ''SELECT'' # (seq_tokens comma word_tokens (names_of ks) @ comma # seq_tokens comma word_tokens (names_of ds)) @ [Word ''FROM'', Word t]"
    unfolding built using assms
    by (simp only: scan_pieces scan_word [OF assms(3)] ended_pieces ended_simps(1) scan_commaSeparated) (simp add: comma_def)
  also have "seq_tokens comma word_tokens (names_of ks) @ comma # seq_tokens comma word_tokens (names_of ds) = seq_tokens comma word_tokens (names_of (ks @ ds))"
    using assms by (simp add: seq_tokens_append struct_ok_def)
  also have "seq_tokens comma word_tokens (names_of (ks @ ds)) = seq_tokens comma (select_tokens Sqlite3Traits) (plain (ks @ ds))"
    by (simp add: plain_def seq_tokens_map o_def word_tokens_def [abs_def] select_tokens_def is_time_def del: map_append)
  finally have s: "scan Blank (load_text b ks ds t None) = Word ''SELECT'' # seq_tokens comma (select_tokens Sqlite3Traits) (plain (ks @ ds)) @ Word ''FROM'' # Word t # []" .
  have "struct_ok (plain (ks @ ds))" "map (select_expr Sqlite3Traits) (plain (ks @ ds)) = map EColumn (names_of (ks @ ds))"
    using assms by (auto simp: struct_ok_def plain_def select_expr_def is_time_def)
  then show ?thesis
    using read_select_tokens [of "plain (ks @ ds)" Sqlite3Traits t "[]"] by (simp add: read_sql_def s read_conditions_def del: plain_simps)
qed

text \<open>The criterion a key based query is built with is the list of conditions on the key.\<close>

lemma sociWhereClause_separated: "sociWhereClause_internal ns i = fst (separated '' AND '' equal_param ns (i = 0))"
  by (induction ns arbitrary: i) (simp_all add: equal_param_def)

theorem where_clause_read:
  assumes "struct_ok ks"
  shows "read_conditions (scan Blank (''WHERE '' @ sociWhereClause ks)) = Some (map (\<lambda>n. (n, EParam n)) (names_of ks))"
proof -
  have "sociWhereClause ks = listed '' AND '' equal_param (names_of ks)"
    by (simp add: sociWhereClause_def sociWhereClause_separated listed_def)
  then have built: "''WHERE '' @ sociWhereClause ks = ''WHERE'' @ '' '' @ fst (addValueFieldsToWhereClauseValueList Sqlite3Traits (plain ks) True) @ []"
    by (simp add: plain_texts)
  have "ident ''WHERE''"
    by code_simp
  then have "scan Blank (''WHERE '' @ sociWhereClause ks) = Word ''WHERE'' # seq_tokens (Word ''AND'') (equation_tokens Sqlite3Traits) (plain ks)"
    unfolding built using assms by (simp only: scan_pieces scan_word ended_pieces ended_simps(1) scan_where plain_simps) simp
  then show ?thesis
    using assms read_where [of "plain ks" Sqlite3Traits] by (simp add: plain_exprs)
qed

end
