(* ===== verification/TableServers.thy ===== *)
theory TableServers
  imports SqlText "HOL-Library.Multiset" "HOL-Library.AList"
begin

text \<open>
  The servers that keep a table of a database: SingleTablePerItemTransactionServer.hpp, SingleTableAsCollectionTransactionServer.hpp,
  OnDemandReadonlyServer.hpp and PreloadAllReadonlyServer.hpp in complex_key_value_store_components.

  The database with the SOCI library is a parameter: \<open>exec\<close> prepares a text, binds the placeholders and executes it once for every binding. A
  function-local static is part of the process: all servers with the same types of keys and data share it.
\<close>

section \<open>The database\<close>

type_synonym ('d, 'x) binding = "(string \<times> ('d, 'x) bound) list"

type_synonym ('d, 'x, 'db) executor = "string \<Rightarrow> ('d, 'x) binding list \<Rightarrow> 'db \<Rightarrow> (soci_exception + 'd row list) \<times> 'db"

type_synonym ('d, 'x) fields = "('d, 'x) cpp_value list"

text \<open>The servers hand the fields themselves to \<open>soci::use\<close>.\<close>

definition sociBind :: "struct \<Rightarrow> ('d, 'x) fields \<Rightarrow> ('d, 'x) binding" where
  "sociBind fs vs = zip (names_of fs) (map UseField vs)"

datatype RequestDecision = Success | FailurePermission | FailureConsistency

datatype ('d, 'x) update_item = OneFullUpdateItem "('d, 'x) fields" "('d, 'x) fields option"

text \<open>The process: the database, the static templates, and what the callback of the data stream was given.\<close>

record ('d, 'x, 'db) per_item_process =
  database :: 'db
  insert_templ :: string
  update_templ :: string
  delete_templ :: string
  published :: "('d, 'x) update_item list list"

record ('d, 'x, 'db) server_types =
  exec_of :: "('d, 'x, 'db) executor"
  lib_of :: "('d, 'x) conversions"
  key_struct :: struct
  data_struct :: struct

record transaction_handler =
  has_session :: bool
  table_name :: string
  account_filter :: "(string \<Rightarrow> bool) option"

section \<open>One row for each item\<close>

definition with_database :: "('db \<Rightarrow> 'r \<times> 'db) \<Rightarrow> ('d, 'x, 'db) per_item_process \<Rightarrow> 'r \<times> ('d, 'x, 'db) per_item_process" where
  "with_database f w = (let (r, db) = f (database w) in (r, w\<lparr>database := db\<rparr>))"

definition per_item_triggerCallback ::
  "('d, 'x) fields \<Rightarrow> ('d, 'x) fields option \<Rightarrow> (('d, 'x, 'db) per_item_process, soci_exception, RequestDecision) call" where
  "per_item_triggerCallback key data w = (Inr Success, w\<lparr>published := published w @ [[OneFullUpdateItem key data]]\<rparr>)"

definition refused :: "transaction_handler \<Rightarrow> string \<Rightarrow> bool" where
  "refused th account \<longleftrightarrow> (case account_filter th of Some f \<Rightarrow> \<not> f account | None \<Rightarrow> False)"

definition per_item_handleInsert ::
  "('d, 'x, 'db) server_types \<Rightarrow> transaction_handler \<Rightarrow> string \<Rightarrow> ('d, 'x) fields \<Rightarrow> ('d, 'x) fields
    \<Rightarrow> (('d, 'x, 'db) per_item_process, soci_exception, RequestDecision) call" where
  "per_item_handleInsert sv th account key data w =
     (if refused th account then (Inr FailurePermission, w)
      else if has_session th then
        (let w1 = (if insert_templ w = '''' then w\<lparr>insert_templ := insertTemplate (key_struct sv) (data_struct sv) (table_name th)\<rparr> else w) in
         bindS (with_database (exec_of sv (insert_templ w1) [sociBind (key_struct sv) key @ sociBind (data_struct sv) data]))
           (\<lambda>_. per_item_triggerCallback key (Some data)) w1)
      else (Inr FailurePermission, w))"

definition per_item_handleUpdate ::
  "('d, 'x, 'db) server_types \<Rightarrow> transaction_handler \<Rightarrow> string \<Rightarrow> ('d, 'x) fields \<Rightarrow> ('d, 'x) fields
    \<Rightarrow> (('d, 'x, 'db) per_item_process, soci_exception, RequestDecision) call" where
  "per_item_handleUpdate sv th account key data w =
     (if refused th account then (Inr FailurePermission, w)
      else if has_session th then
        (let w1 = (if update_templ w = '''' then w\<lparr>update_templ := updateTemplate (key_struct sv) (data_struct sv) (table_name th)\<rparr> else w) in
         bindS (with_database (exec_of sv (update_templ w1) [sociBind (key_struct sv) key @ sociBind (data_struct sv) data]))
           (\<lambda>_. per_item_triggerCallback key (Some data)) w1)
      else (Inr FailurePermission, w))"

definition per_item_handleDelete ::
  "('d, 'x, 'db) server_types \<Rightarrow> transaction_handler \<Rightarrow> string \<Rightarrow> ('d, 'x) fields
    \<Rightarrow> (('d, 'x, 'db) per_item_process, soci_exception, RequestDecision) call" where
  "per_item_handleDelete sv th account key w =
     (if refused th account then (Inr FailurePermission, w)
      else if has_session th then
        (let w1 = (if delete_templ w = '''' then w\<lparr>delete_templ := deleteTemplate (key_struct sv) (table_name th)\<rparr> else w) in
         bindS (with_database (exec_of sv (delete_templ w1) [sociBind (key_struct sv) key])) (\<lambda>_. per_item_triggerCallback key None) w1)
      else (Inr FailurePermission, w))"

text \<open>The rows of a result as the loops over it read them: the first that cannot be read ends the loop with its exception.\<close>

fun read_rows :: "('d row \<Rightarrow> soci_exception + 'a) \<Rightarrow> 'd row list \<Rightarrow> soci_exception + 'a list" where
  "read_rows f [] = Inr []"
| "read_rows f (r # rs) = bindE (f r) (\<lambda>x. mapE (\<lambda>xs. x # xs) (read_rows f rs))"

definition key_and_data :: "('d, 'x, 'db) server_types \<Rightarrow> 'd row \<Rightarrow> soci_exception + ('d, 'x) fields \<times> ('d, 'x) fields" where
  "key_and_data sv r =
     bindE (retrieveData (lib_of sv) (map snd (key_struct sv)) r 0) (\<lambda>k.
       mapE (\<lambda>d. (k, d)) (retrieveData (lib_of sv) (map snd (data_struct sv)) r (length (key_struct sv))))"

definition per_item_initialize ::
  "boost \<Rightarrow> ('d, 'x, 'db) server_types \<Rightarrow> string \<Rightarrow> string option \<Rightarrow> (('d, 'x, 'db) per_item_process, soci_exception, unit) call" where
  "per_item_initialize b sv tableName whereClause =
     bindS (with_database (exec_of sv (load_text b (key_struct sv) (data_struct sv) tableName whereClause) [[]]))
       (\<lambda>res w. case read_rows (key_and_data sv) res of
          Inl e \<Rightarrow> (Inl e, w)
        | Inr items \<Rightarrow> (Inr (), w\<lparr>published := published w @ [map (\<lambda>(k, d). OneFullUpdateItem k (Some d)) items]\<rparr>))"

section \<open>The table as one collection\<close>

text \<open>
  A collection is the list of its entries. What is published is first the whole collection and then the changes as they were asked for. The order in which
  an unordered set or map is gone through is a parameter.
\<close>

record ('d, 'x) collection_delta =
  deletes :: "('d, 'x) fields list"
  inserts_updates :: "(('d, 'x) fields \<times> ('d, 'x) fields) list"

datatype ('d, 'x) collection_update =
  FullCollection "(('d, 'x) fields \<times> ('d, 'x) fields) list"
| DeltaUpdate "('d, 'x) collection_delta"

record ('d, 'x, 'db) collection_process =
  c_database :: 'db
  del_templ :: string
  ins_templ :: string
  c_published :: "('d, 'x) collection_update list"

definition with_c_database :: "('db \<Rightarrow> 'r \<times> 'db) \<Rightarrow> ('d, 'x, 'db) collection_process \<Rightarrow> 'r \<times> ('d, 'x, 'db) collection_process" where
  "with_c_database f w = (let (r, db) = f (c_database w) in (r, w\<lparr>c_database := db\<rparr>))"

definition as_collection_handleInsert :: "(('d, 'x, 'db) collection_process, soci_exception, RequestDecision) call" where
  "as_collection_handleInsert = returnS FailureConsistency"

definition as_collection_handleDelete :: "(('d, 'x, 'db) collection_process, soci_exception, RequestDecision) call" where
  "as_collection_handleDelete = returnS FailureConsistency"

definition keysToDelete :: "('d, 'x) collection_delta \<Rightarrow> ('d, 'x) fields list" where
  "keysToDelete u = remdups (deletes u @ map fst (inserts_updates u))"

definition valuesToInsert :: "('d, 'x) collection_delta \<Rightarrow> (('d, 'x) fields \<times> ('d, 'x) fields) list" where
  "valuesToInsert u = fold (\<lambda>(k, d) m. AList.update k d m) (inserts_updates u) []"

definition delete_keys ::
  "('d, 'x, 'db) server_types \<Rightarrow> transaction_handler \<Rightarrow> ('d, 'x) fields list \<Rightarrow> (('d, 'x, 'db) collection_process, soci_exception, unit) call" where
  "delete_keys sv th keys w =
     (if keys = [] then (Inr (), w)
      else (let w1 = (if del_templ w = '''' then w\<lparr>del_templ := deleteTemplate (key_struct sv) (table_name th)\<rparr> else w) in
        bindS (with_c_database (exec_of sv (del_templ w1) (map (sociBind (key_struct sv)) keys))) (\<lambda>_. returnS ()) w1))"

definition insert_items ::
  "('d, 'x, 'db) server_types \<Rightarrow> transaction_handler \<Rightarrow> (('d, 'x) fields \<times> ('d, 'x) fields) list
    \<Rightarrow> (('d, 'x, 'db) collection_process, soci_exception, unit) call" where
  "insert_items sv th items w =
     (if items = [] then (Inr (), w)
      else (let w1 = (if ins_templ w = '''' then w\<lparr>ins_templ := insertTemplate (key_struct sv) (data_struct sv) (table_name th)\<rparr> else w) in
        bindS (with_c_database (exec_of sv (ins_templ w1) (map (\<lambda>(k, d). sociBind (key_struct sv) k @ sociBind (data_struct sv) d) items))) (\<lambda>_. returnS ()) w1))"

definition as_collection_handleUpdate ::
  "('d, 'x, 'db) server_types \<Rightarrow> (('d, 'x) fields list \<Rightarrow> ('d, 'x) fields list)
    \<Rightarrow> ((('d, 'x) fields \<times> ('d, 'x) fields) list \<Rightarrow> (('d, 'x) fields \<times> ('d, 'x) fields) list)
    \<Rightarrow> transaction_handler \<Rightarrow> string \<Rightarrow> ('d, 'x) collection_delta
    \<Rightarrow> (('d, 'x, 'db) collection_process, soci_exception, RequestDecision) call" where
  "as_collection_handleUpdate sv key_order item_order th account u w =
     (if refused th account then (Inr FailurePermission, w)
      else if has_session th then
        bindS (delete_keys sv th (key_order (keysToDelete u))) (\<lambda>_.
          bindS (insert_items sv th (item_order (valuesToInsert u))) (\<lambda>_ w'.
            (Inr Success, w'\<lparr>c_published := c_published w' @ [DeltaUpdate u]\<rparr>))) w
      else (Inr FailurePermission, w))"

text \<open>\<open>insert\<close> of a map keeps the first value of a key.\<close>

definition collect :: "('k \<times> 'v) list \<Rightarrow> ('k \<times> 'v) list" where
  "collect items = fold (\<lambda>(k, d) m. if k \<in> set (map fst m) then m else m @ [(k, d)]) items []"

definition as_collection_initialize ::
  "boost \<Rightarrow> ('d, 'x, 'db) server_types \<Rightarrow> string \<Rightarrow> string option \<Rightarrow> (('d, 'x, 'db) collection_process, soci_exception, unit) call" where
  "as_collection_initialize b sv tableName whereClause =
     bindS (with_c_database (exec_of sv (load_text b (key_struct sv) (data_struct sv) tableName whereClause) [[]]))
       (\<lambda>res w. case read_rows (key_and_data sv) res of
          Inl e \<Rightarrow> (Inl e, w)
        | Inr items \<Rightarrow> (Inr (), w\<lparr>c_published := c_published w @ [FullCollection (collect items)]\<rparr>))"

section \<open>Read-only servers\<close>

text \<open>
  OnDemandReadonlyServer.hpp. The text is made when the facility is made. A query catches the exceptions of SOCI and no others.
\<close>

definition catch_soci :: "'a \<Rightarrow> (soci_exception + 'a) \<times> 'db \<Rightarrow> (soci_exception + 'a) \<times> 'db" where
  "catch_soci d r = (case r of (Inl SociError, db) \<Rightarrow> (Inr d, db) | _ \<Rightarrow> r)"

definition keyBasedQueryFunc ::
  "boost \<Rightarrow> ('d, 'x, 'db) server_types \<Rightarrow> (string \<Rightarrow> string) \<Rightarrow> ('d, 'x) fields \<Rightarrow> ('db, soci_exception, ('d, 'x) fields option) call" where
  "keyBasedQueryFunc b sv selectMainPartFromCriteria k db =
     catch_soci None (bindS (exec_of sv (keyBasedQuery_text b (key_struct sv) (data_struct sv) selectMainPartFromCriteria) [sociBind (key_struct sv) k])
       (\<lambda>res db. case res of [] \<Rightarrow> (Inr None, db) | r # _ \<Rightarrow> (mapE Some (retrieveData (lib_of sv) (map snd (data_struct sv)) r 0), db)) db)"

definition fullDataQueryFunc ::
  "boost \<Rightarrow> ('d, 'x, 'db) server_types \<Rightarrow> string \<Rightarrow> ('db, soci_exception, (('d, 'x) fields \<times> ('d, 'x) fields) list) call" where
  "fullDataQueryFunc b sv selectMainPart db =
     catch_soci [] (bindS (exec_of sv (fullDataQuery_text b (key_struct sv) (data_struct sv) selectMainPart) [[]])
       (\<lambda>res db. (mapE collect (read_rows (key_and_data sv) res), db)) db)"

definition dynamicDataQueryFunc ::
  "boost \<Rightarrow> ('d, 'x, 'db) server_types \<Rightarrow> string \<Rightarrow> ('q \<Rightarrow> string) \<Rightarrow> 'q \<Rightarrow> ('db, soci_exception, (('d, 'x) fields \<times> ('d, 'x) fields) list) call" where
  "dynamicDataQueryFunc b sv selectMainPart dynamicWhereFunc q db =
     catch_soci [] (bindS (exec_of sv (dynamicDataQuery_text b (key_struct sv) (data_struct sv) selectMainPart @ '' WHERE '' @ dynamicWhereFunc q) [[]])
       (\<lambda>res db. (mapE collect (read_rows (key_and_data sv) res), db)) db)"

definition dynamicDataQueryFunc_VectorVersion ::
  "boost \<Rightarrow> ('d, 'x, 'db) server_types \<Rightarrow> string \<Rightarrow> ('q \<Rightarrow> string) \<Rightarrow> 'q \<Rightarrow> ('db, soci_exception, ('d, 'x) fields list) call" where
  "dynamicDataQueryFunc_VectorVersion b sv selectMainPart dynamicWhereFunc q db =
     catch_soci [] (bindS (exec_of sv (dynamicDataQuery_VectorVersion_text b (data_struct sv) selectMainPart @ '' WHERE '' @ dynamicWhereFunc q) [[]])
       (\<lambda>res db. (read_rows (\<lambda>r. retrieveData (lib_of sv) (map snd (data_struct sv)) r 0) res, db)) db)"

text \<open>PreloadAllReadonlyServer.hpp: the table is read once, by a function that catches nothing; queries look into what it returned.\<close>

definition preload :: "boost \<Rightarrow> ('d, 'x, 'db) server_types \<Rightarrow> string \<Rightarrow> ('db, soci_exception, (('d, 'x) fields \<times> ('d, 'x) fields) list) call" where
  "preload b sv selectInput =
     bindS (exec_of sv (preload_selectStatement b (key_struct sv) (data_struct sv) selectInput) [[]])
       (\<lambda>res db. (mapE collect (read_rows (key_and_data sv) res), db))"

definition preloaded_query :: "(('d, 'x) fields \<times> ('d, 'x) fields) list \<Rightarrow> ('d, 'x) fields \<Rightarrow> ('d, 'x) fields option" where
  "preloaded_query storage key = map_of storage key"

section \<open>What the database promises\<close>

text \<open>
  A row of a table has a cell in each column. \<open>stored\<close> is what becomes of a bound value. A condition on a column that is null does not hold.
\<close>

type_synonym 'd table_row = "string \<Rightarrow> ('d cell \<times> indicator) option"

definition value_of :: "(('d, 'x) bound \<Rightarrow> 'd cell \<times> indicator) \<Rightarrow> ('d, 'x) binding \<Rightarrow> string \<Rightarrow> 'd cell \<times> indicator" where
  "value_of stored b n = stored (the (map_of b n))"

definition new_row :: "(('d, 'x) bound \<Rightarrow> 'd cell \<times> indicator) \<Rightarrow> string list \<Rightarrow> ('d, 'x) binding \<Rightarrow> 'd table_row" where
  "new_row stored ns b = map_of (zip ns (map (value_of stored b) ns))"

definition row_matches :: "(('d, 'x) bound \<Rightarrow> 'd cell \<times> indicator) \<Rightarrow> string list \<Rightarrow> ('d, 'x) binding \<Rightarrow> 'd table_row \<Rightarrow> bool" where
  "row_matches stored ns b r \<longleftrightarrow> (\<forall>n \<in> set ns. r n = Some (value_of stored b n) \<and> snd (value_of stored b n) \<noteq> i_null)"

definition changed_row :: "(('d, 'x) bound \<Rightarrow> 'd cell \<times> indicator) \<Rightarrow> string list \<Rightarrow> ('d, 'x) binding \<Rightarrow> 'd table_row \<Rightarrow> 'd table_row" where
  "changed_row stored ns b r = (\<lambda>c. if c \<in> set ns then Some (value_of stored b c) else r c)"

definition unique_key :: "string list \<Rightarrow> 'd table_row multiset \<Rightarrow> bool" where
  "unique_key kn R \<longleftrightarrow> (\<forall>k. size (filter_mset (\<lambda>r. map r kn = k) R) \<le> 1)"

text \<open>A table with a primary key, and what a statement that succeeds has done; a statement that fails has done nothing.\<close>

locale sql_database =
  fixes exec :: "('d, 'x, 'db) executor"
    and rows :: "'db \<Rightarrow> string \<Rightarrow> 'd table_row multiset"
    and stored :: "('d, 'x) bound \<Rightarrow> 'd cell \<times> indicator"
    and t :: string
    and kn :: "string list"
  assumes insert_done: "read_sql text = Some (Insert u ns (map EParam ns) []) \<Longrightarrow> exec text bs db = (Inr res, db') \<Longrightarrow>
      rows db' = (rows db)(u := rows db u + mset (map (new_row stored ns) bs))"
    and update_done: "read_sql text = Some (Update u (map (\<lambda>n. (n, EParam n)) ss) (map (\<lambda>n. (n, EParam n)) ns)) \<Longrightarrow> exec text [b] db = (Inr res, db') \<Longrightarrow>
      rows db' = (rows db)(u := image_mset (\<lambda>r. if row_matches stored ns b r then changed_row stored ss b r else r) (rows db u))"
    and delete_done: "read_sql text = Some (Delete u (map (\<lambda>n. (n, EParam n)) ns)) \<Longrightarrow> exec text bs db = (Inr res, db') \<Longrightarrow>
      rows db' = (rows db)(u := filter_mset (\<lambda>r. \<forall>b \<in> set bs. \<not> row_matches stored ns b r) (rows db u))"
    and select_done: "read_sql text = Some (Select (map EColumn ns) u []) \<Longrightarrow> exec text [[]] db = (Inr res, db') \<Longrightarrow>
      rows db' = rows db \<and> mset res = image_mset (\<lambda>r. map (\<lambda>n. the (r n)) ns) (rows db u)"
    and primary_key: "exec text bs db = (Inr res, db') \<Longrightarrow> unique_key kn (rows db' t)"
    and failed: "exec text [b] db = (Inl e, db') \<Longrightarrow> rows db' = rows db"

section \<open>The table holds a map\<close>

definition row_of :: "(('d, 'x) bound \<Rightarrow> 'd cell \<times> indicator) \<Rightarrow> ('d, 'x, 'db) server_types \<Rightarrow> ('d, 'x) fields \<Rightarrow> ('d, 'x) fields \<Rightarrow> 'd table_row" where
  "row_of stored sv k d = map_of (zip (names_of (key_struct sv @ data_struct sv)) (map (\<lambda>v. stored (UseField v)) (k @ d)))"

text \<open>Values that come back from the database as they were stored, and, for a key, are not null.\<close>

definition storable :: "(('d, 'x) bound \<Rightarrow> 'd cell \<times> indicator) \<Rightarrow> ('d, 'x) conversions \<Rightarrow> struct \<Rightarrow> ('d, 'x) fields \<Rightarrow> bool" where
  "storable stored lib fs vs \<longleftrightarrow> length vs = length fs \<and>
     (\<forall>j < length fs. extract_value lib (snd (fs ! j)) (stored (UseField (vs ! j))) = Inr (vs ! j))"

definition key_ok :: "(('d, 'x) bound \<Rightarrow> 'd cell \<times> indicator) \<Rightarrow> ('d, 'x, 'db) server_types \<Rightarrow> ('d, 'x) fields \<Rightarrow> bool" where
  "key_ok stored sv k \<longleftrightarrow> storable stored (lib_of sv) (key_struct sv) k \<and> (\<forall>v \<in> set k. snd (stored (UseField v)) \<noteq> i_null)"

definition data_ok :: "(('d, 'x) bound \<Rightarrow> 'd cell \<times> indicator) \<Rightarrow> ('d, 'x, 'db) server_types \<Rightarrow> ('d, 'x) fields \<Rightarrow> bool" where
  "data_ok stored sv d \<longleftrightarrow> storable stored (lib_of sv) (data_struct sv) d"

definition structs_ok :: "('d, 'x, 'db) server_types \<Rightarrow> bool" where
  "structs_ok sv \<longleftrightarrow> struct_ok (key_struct sv) \<and> struct_ok (data_struct sv) \<and> distinct (names_of (key_struct sv @ data_struct sv))"

definition map_ok :: "(('d, 'x) bound \<Rightarrow> 'd cell \<times> indicator) \<Rightarrow> ('d, 'x, 'db) server_types \<Rightarrow> (('d, 'x) fields \<rightharpoonup> ('d, 'x) fields) \<Rightarrow> bool" where
  "map_ok stored sv m \<longleftrightarrow> finite (dom m) \<and> (\<forall>k d. m k = Some d \<longrightarrow> key_ok stored sv k \<and> data_ok stored sv d)"

definition holds ::
  "(('d, 'x) bound \<Rightarrow> 'd cell \<times> indicator) \<Rightarrow> ('d, 'x, 'db) server_types \<Rightarrow> 'd table_row multiset \<Rightarrow> (('d, 'x) fields \<rightharpoonup> ('d, 'x) fields) \<Rightarrow> bool" where
  "holds stored sv R m \<longleftrightarrow> map_ok stored sv m \<and> R = image_mset (\<lambda>k. row_of stored sv k (the (m k))) (mset_set (dom m))"

lemma key_ok_length: "key_ok stored sv k \<Longrightarrow> length k = length (key_struct sv)" "data_ok stored sv d \<Longrightarrow> length d = length (data_struct sv)"
  by (simp_all add: key_ok_def data_ok_def storable_def)

lemma map_of_zip_nth_the: "distinct ns \<Longrightarrow> length ns = length vs \<Longrightarrow> i < length ns \<Longrightarrow> map_of (zip ns vs) (ns ! i) = Some (vs ! i)"
  by (simp add: map_of_zip_nth)

lemma map_through_zip: "distinct ns \<Longrightarrow> length ns = length vs \<Longrightarrow> map (\<lambda>n. the (map_of (zip ns vs) n)) ns = vs"
  by (rule nth_equalityI) (simp_all add: map_of_zip_nth_the)

lemma sociBind_append: "length k = length ks \<Longrightarrow> sociBind ks k @ sociBind ds d = sociBind (ks @ ds) (k @ d)"
  by (simp add: sociBind_def zip_append)

lemma value_of_nth: "distinct (names_of fs) \<Longrightarrow> length vs = length fs \<Longrightarrow> i < length fs \<Longrightarrow> value_of stored (sociBind fs vs) (fst (fs ! i)) = stored (UseField (vs ! i))"
  using map_of_zip_nth_the [of "names_of fs" "map UseField vs" i] by (simp add: value_of_def sociBind_def)

lemma new_row_row_of:
  assumes "structs_ok sv" "key_ok stored sv k" "data_ok stored sv d"
  shows "new_row stored (names_of (key_struct sv @ data_struct sv)) (sociBind (key_struct sv) k @ sociBind (data_struct sv) d) = row_of stored sv k d"
proof -
  let ?fs = "key_struct sv @ data_struct sv"
  have l: "length (k @ d) = length ?fs" "length k = length (key_struct sv)"
    using assms(2,3) by (simp_all add: key_ok_length)
  have "map (value_of stored (sociBind ?fs (k @ d))) (names_of ?fs) = map (\<lambda>v. stored (UseField v)) (k @ d)"
    using assms(1) l(1) by (intro nth_equalityI) (simp_all add: value_of_nth structs_ok_def del: map_append)
  then show ?thesis
    by (simp add: new_row_def row_of_def sociBind_append l(2) del: map_append)
qed

lemma row_of_nth:
  assumes "structs_ok sv" "key_ok stored sv k" "data_ok stored sv d"
  shows "i < length (key_struct sv) \<Longrightarrow> row_of stored sv k d (fst (key_struct sv ! i)) = Some (stored (UseField (k ! i)))"
    and "i < length (data_struct sv) \<Longrightarrow> row_of stored sv k d (fst (data_struct sv ! i)) = Some (stored (UseField (d ! i)))"
proof -
  let ?fs = "key_struct sv @ data_struct sv"
  have l: "length (k @ d) = length ?fs" "length k = length (key_struct sv)"
    using assms(2,3) by (simp_all add: key_ok_length)
  have n: "j < length ?fs \<Longrightarrow> row_of stored sv k d (fst (?fs ! j)) = Some (stored (UseField ((k @ d) ! j)))" for j
    using map_of_zip_nth_the [of "names_of ?fs" "map (\<lambda>v. stored (UseField v)) (k @ d)" j] assms(1) l(1)
    by (simp add: row_of_def structs_ok_def del: map_append)
  show "i < length (key_struct sv) \<Longrightarrow> row_of stored sv k d (fst (key_struct sv ! i)) = Some (stored (UseField (k ! i)))"
    using n [of i] l(2) by (simp add: nth_append)
  show "i < length (data_struct sv) \<Longrightarrow> row_of stored sv k d (fst (data_struct sv ! i)) = Some (stored (UseField (d ! i)))"
    using n [of "length (key_struct sv) + i"] l(2) by (simp add: nth_append)
qed

lemma storable_inj: "storable stored lib fs vs \<Longrightarrow> storable stored lib fs ws \<Longrightarrow> \<forall>i < length fs. stored (UseField (vs ! i)) = stored (UseField (ws ! i)) \<Longrightarrow> vs = ws"
proof (rule nth_equalityI)
  fix i
  assume s: "storable stored lib fs vs" "storable stored lib fs ws" "\<forall>i < length fs. stored (UseField (vs ! i)) = stored (UseField (ws ! i))" "i < length vs"
  then have "extract_value lib (snd (fs ! i)) (stored (UseField (ws ! i))) = Inr (vs ! i)" "extract_value lib (snd (fs ! i)) (stored (UseField (ws ! i))) = Inr (ws ! i)"
    by (metis storable_def)+
  then show "vs ! i = ws ! i"
    by simp
qed (simp add: storable_def)

lemma in_names: "c \<in> set (names_of fs) \<Longrightarrow> \<exists>i < length fs. c = fst (fs ! i)"
  by (metis in_set_conv_nth length_map nth_map)

lemma key_value:
  assumes "structs_ok sv" "key_ok stored sv k" "i < length (key_struct sv)"
  shows "value_of stored (sociBind (key_struct sv) k @ xs) (fst (key_struct sv ! i)) = stored (UseField (k ! i))"
proof -
  have "map_of (sociBind (key_struct sv) k) (fst (key_struct sv ! i)) = Some (UseField (k ! i))"
    using map_of_zip_nth_the [of "names_of (key_struct sv)" "map UseField k" i] assms by (simp add: sociBind_def structs_ok_def key_ok_length)
  then show ?thesis
    by (simp add: value_of_def map_of_append)
qed

lemma all_names: "(\<forall>n \<in> set (names_of fs). P n) \<longleftrightarrow> (\<forall>i < length fs. P (fst (fs ! i)))"
  by (metis (no_types, lifting) in_set_conv_nth length_map nth_map)

lemma row_matches_iff:
  assumes "structs_ok sv" "key_ok stored sv k" "key_ok stored sv k'" "data_ok stored sv d'"
  shows "row_matches stored (names_of (key_struct sv)) (sociBind (key_struct sv) k @ xs) (row_of stored sv k' d') \<longleftrightarrow> k = k'"
proof
  assume "row_matches stored (names_of (key_struct sv)) (sociBind (key_struct sv) k @ xs) (row_of stored sv k' d')"
  then have "\<forall>i < length (key_struct sv). stored (UseField (k' ! i)) = stored (UseField (k ! i))"
    using assms unfolding row_matches_def all_names by (simp add: row_of_nth key_value)
  then show "k = k'"
    using assms(2,3) storable_inj [of stored "lib_of sv" "key_struct sv" k' k] by (simp add: key_ok_def)
next
  assume "k = k'"
  moreover have "\<forall>i < length (key_struct sv). snd (stored (UseField (k ! i))) \<noteq> i_null"
    using assms(2) by (simp add: key_ok_def storable_def)
  ultimately show "row_matches stored (names_of (key_struct sv)) (sociBind (key_struct sv) k @ xs) (row_of stored sv k' d')"
    using assms unfolding row_matches_def all_names by (simp add: row_of_nth key_value)
qed

lemma row_of_other: "c \<notin> set (names_of (key_struct sv @ data_struct sv)) \<Longrightarrow> row_of stored sv k d c = None"
  by (auto simp: row_of_def map_of_eq_None_iff dest!: set_zip_leftD)

lemma changed_row_of:
  assumes "structs_ok sv" "key_ok stored sv k" "data_ok stored sv d" "data_ok stored sv d'"
  shows "changed_row stored (names_of (data_struct sv)) (sociBind (key_struct sv) k @ sociBind (data_struct sv) d) (row_of stored sv k d') = row_of stored sv k d"
proof
  fix c
  let ?fs = "key_struct sv @ data_struct sv"
  have l: "length (k @ d) = length ?fs" "length k = length (key_struct sv)"
    using assms(2,3) by (simp_all add: key_ok_length)
  consider (data) i where "i < length (data_struct sv)" "c = fst (data_struct sv ! i)"
    | (key) i where "i < length (key_struct sv)" "c = fst (key_struct sv ! i)" "c \<notin> set (names_of (data_struct sv))"
    | (other) "c \<notin> set (names_of ?fs)"
    using in_names [of c "data_struct sv"] in_names [of c "key_struct sv"] unfolding map_append set_append Un_iff by blast
  then show "changed_row stored (names_of (data_struct sv)) (sociBind (key_struct sv) k @ sociBind (data_struct sv) d) (row_of stored sv k d') c = row_of stored sv k d c"
  proof cases
    case data
    then have "value_of stored (sociBind ?fs (k @ d)) (fst (?fs ! (length (key_struct sv) + i))) = stored (UseField ((k @ d) ! (length (key_struct sv) + i)))"
      using assms(1) l by (intro value_of_nth) (simp_all add: structs_ok_def)
    moreover have "c \<in> set (names_of (data_struct sv))"
      using data by simp
    ultimately show ?thesis
      using data assms l by (simp add: changed_row_def row_of_nth sociBind_append nth_append)
  next
    case key
    then show ?thesis
      using assms by (simp add: changed_row_def row_of_nth)
  next
    case other
    then show ?thesis
      by (simp add: changed_row_def row_of_other)
  qed
qed

lemma key_columns:
  assumes "structs_ok sv" "key_ok stored sv k" "data_ok stored sv d"
  shows "map (row_of stored sv k d) (names_of (key_struct sv)) = map (\<lambda>v. Some (stored (UseField v))) k"
  using assms by (intro nth_equalityI) (simp_all add: key_ok_length row_of_nth)

lemma holds_unique:
  assumes "structs_ok sv" "holds stored sv R m" "key_ok stored sv k" "data_ok stored sv d"
    and "unique_key (names_of (key_struct sv)) (add_mset (row_of stored sv k d) R)"
  shows "m k = None"
proof (rule ccontr)
  assume "m k \<noteq> None"
  then obtain d' where d': "m k = Some d'" "key_ok stored sv k" "data_ok stored sv d'" and fin: "finite (dom m)"
    using assms(2) by (auto simp: holds_def map_ok_def)
  define P where "P = (\<lambda>r :: 'a table_row. map r (names_of (key_struct sv)) = map (\<lambda>v. Some (stored (UseField v))) k)"
  have "row_of stored sv k d' \<in># R"
    using assms(2) d'(1) fin by (force simp: holds_def)
  moreover have P: "P (row_of stored sv k d')" "P (row_of stored sv k d)"
    using assms(1,4) d' by (simp_all add: P_def key_columns del: map_map map_eq_conv)
  ultimately have "row_of stored sv k d' \<in># filter_mset P R"
    by simp
  then have "1 \<le> size (filter_mset P R)"
    by (metis One_nat_def Suc_leI empty_iff nonempty_has_size set_mset_empty)
  then have "2 \<le> size (filter_mset P (add_mset (row_of stored sv k d) R))"
    using P(2) by simp
  moreover have "size (filter_mset P (add_mset (row_of stored sv k d) R)) \<le> 1"
    using assms(5) unfolding unique_key_def P_def by blast
  ultimately show False
    by simp
qed

lemma holds_insert:
  assumes "holds stored sv R m" "key_ok stored sv k" "data_ok stored sv d" "m k = None"
  shows "holds stored sv (add_mset (row_of stored sv k d) R) (m(k \<mapsto> d))"
proof -
  have fin: "finite (dom m)" "k \<notin> dom m" and R: "R = image_mset (\<lambda>k'. row_of stored sv k' (the (m k'))) (mset_set (dom m))"
    and ok: "\<And>k' d'. m k' = Some d' \<Longrightarrow> key_ok stored sv k' \<and> data_ok stored sv d'"
    using assms(1,4) by (auto simp: holds_def map_ok_def)
  have "image_mset (\<lambda>k'. row_of stored sv k' (the ((m(k \<mapsto> d)) k'))) (mset_set (dom m)) = R"
    unfolding R using fin by (intro image_mset_cong) auto
  moreover have "dom (m(k \<mapsto> d)) = insert k (dom m)"
    by simp
  ultimately have "add_mset (row_of stored sv k d) R = image_mset (\<lambda>k'. row_of stored sv k' (the ((m(k \<mapsto> d)) k'))) (mset_set (dom (m(k \<mapsto> d))))"
    using fin by simp
  moreover have "map_ok stored sv (m(k \<mapsto> d))"
    using fin ok assms(2,3) by (simp add: map_ok_def)
  ultimately show ?thesis
    by (simp only: holds_def simp_thms)
qed

lemma holds_update:
  assumes "structs_ok sv" "holds stored sv R m" "key_ok stored sv k" "data_ok stored sv d" "m k = Some d0"
  shows "holds stored sv (image_mset (\<lambda>r. if row_matches stored (names_of (key_struct sv)) (sociBind (key_struct sv) k @ sociBind (data_struct sv) d) r
      then changed_row stored (names_of (data_struct sv)) (sociBind (key_struct sv) k @ sociBind (data_struct sv) d) r else r) R) (m(k \<mapsto> d))"
proof -
  let ?b = "sociBind (key_struct sv) k @ sociBind (data_struct sv) d"
  let ?f = "\<lambda>r. if row_matches stored (names_of (key_struct sv)) ?b r then changed_row stored (names_of (data_struct sv)) ?b r else r"
  have fin: "finite (dom m)" and R: "R = image_mset (\<lambda>k'. row_of stored sv k' (the (m k'))) (mset_set (dom m))"
    and ok: "\<And>k' d'. m k' = Some d' \<Longrightarrow> key_ok stored sv k' \<and> data_ok stored sv d'"
    using assms(2) by (auto simp: holds_def map_ok_def)
  have "?f (row_of stored sv k' (the (m k'))) = row_of stored sv k' (the ((m(k \<mapsto> d)) k'))" if "k' \<in> dom m" for k'
    using that ok assms by (auto simp: row_matches_iff changed_row_of)
  then have "image_mset ?f R = image_mset (\<lambda>k'. row_of stored sv k' (the ((m(k \<mapsto> d)) k'))) (mset_set (dom m))"
    unfolding R multiset.map_comp o_def using fin by (intro image_mset_cong) simp
  moreover have d: "dom (m(k \<mapsto> d)) = dom m"
    using assms(5) by auto
  moreover have "map_ok stored sv (m(k \<mapsto> d))"
    using fin ok assms(3,4) d by (simp add: map_ok_def)
  ultimately show ?thesis
    by (simp only: holds_def simp_thms)
qed

lemma holds_update_missing:
  assumes "structs_ok sv" "holds stored sv R m" "key_ok stored sv k" "m k = None"
  shows "holds stored sv (image_mset (\<lambda>r. if row_matches stored (names_of (key_struct sv)) (sociBind (key_struct sv) k @ b) r then f r else r) R) m"
proof -
  have "finite (dom m)" and R: "R = image_mset (\<lambda>k'. row_of stored sv k' (the (m k'))) (mset_set (dom m))"
    and ok: "\<And>k' d'. m k' = Some d' \<Longrightarrow> key_ok stored sv k' \<and> data_ok stored sv d'"
    using assms(2) by (auto simp: holds_def map_ok_def)
  then have "\<not> row_matches stored (names_of (key_struct sv)) (sociBind (key_struct sv) k @ b) r" if "r \<in># R" for r
    using that assms(1,3,4) by (auto simp: row_matches_iff)
  then have "image_mset (\<lambda>r. if row_matches stored (names_of (key_struct sv)) (sociBind (key_struct sv) k @ b) r then f r else r) R = image_mset id R"
    by (intro image_mset_cong) simp
  then show ?thesis
    using assms(2) by simp
qed

lemma holds_delete:
  assumes "structs_ok sv" "holds stored sv R m" "\<forall>k \<in> set keys. key_ok stored sv k"
  shows "holds stored sv (filter_mset (\<lambda>r. \<forall>b \<in> set (map (sociBind (key_struct sv)) keys). \<not> row_matches stored (names_of (key_struct sv)) b r) R) (m |` (- set keys))"
proof -
  have fin: "finite (dom m)" and R: "R = image_mset (\<lambda>k'. row_of stored sv k' (the (m k'))) (mset_set (dom m))"
    and ok: "\<And>k' d'. m k' = Some d' \<Longrightarrow> key_ok stored sv k' \<and> data_ok stored sv d'"
    using assms(2) by (auto simp: holds_def map_ok_def)
  have "(\<forall>b \<in> set (map (sociBind (key_struct sv)) keys). \<not> row_matches stored (names_of (key_struct sv)) b (row_of stored sv k' (the (m k')))) \<longleftrightarrow> k' \<notin> set keys"
    if "k' \<in> dom m" for k'
    using that ok assms(1,3) row_matches_iff [of sv stored _ k' "the (m k')" "[]"] by auto
  then have "filter_mset (\<lambda>r. \<forall>b \<in> set (map (sociBind (key_struct sv)) keys). \<not> row_matches stored (names_of (key_struct sv)) b r) R
      = image_mset (\<lambda>k'. row_of stored sv k' (the (m k'))) (filter_mset (\<lambda>k'. k' \<notin> set keys) (mset_set (dom m)))"
    unfolding R filter_mset_image_mset using fin by (intro arg_cong [where f = "image_mset _"] filter_mset_cong) simp_all
  also have "\<dots> = image_mset (\<lambda>k'. row_of stored sv k' (the (m k'))) (mset_set (dom (m |` (- set keys))))"
  proof -
    have "{k' \<in> dom m. k' \<notin> set keys} = dom (m |` (- set keys))"
      by (auto simp: restrict_map_def split: if_splits)
    then show ?thesis
      using fin by (simp add: filter_mset_mset_set)
  qed
  also have "\<dots> = image_mset (\<lambda>k'. row_of stored sv k' (the ((m |` (- set keys)) k'))) (mset_set (dom (m |` (- set keys))))"
    using fin by (intro image_mset_cong) simp
  moreover have "map_ok stored sv (m |` (- set keys))"
    using fin ok by (simp add: map_ok_def) (simp add: restrict_map_def)
  ultimately show ?thesis
    by (simp only: holds_def simp_thms)
qed

section \<open>The server of items agrees with its table\<close>

datatype ('d, 'x) item_request =
  InsertItem string "('d, 'x) fields" "('d, 'x) fields"
| UpdateItem string "('d, 'x) fields" "('d, 'x) fields"
| DeleteItem string "('d, 'x) fields"

fun per_item_handle ::
  "('d, 'x, 'db) server_types \<Rightarrow> transaction_handler \<Rightarrow> ('d, 'x) item_request \<Rightarrow> (('d, 'x, 'db) per_item_process, soci_exception, RequestDecision) call" where
  "per_item_handle sv th (InsertItem a k d) = per_item_handleInsert sv th a k d"
| "per_item_handle sv th (UpdateItem a k d) = per_item_handleUpdate sv th a k d"
| "per_item_handle sv th (DeleteItem a k) = per_item_handleDelete sv th a k"

fun apply_item :: "('d, 'x) update_item \<Rightarrow> (('d, 'x) fields \<rightharpoonup> ('d, 'x) fields) \<Rightarrow> (('d, 'x) fields \<rightharpoonup> ('d, 'x) fields)" where
  "apply_item (OneFullUpdateItem k od) m = m(k := od)"

fun request_item :: "('d, 'x) item_request \<Rightarrow> ('d, 'x) update_item" where
  "request_item (InsertItem a k d) = OneFullUpdateItem k (Some d)"
| "request_item (UpdateItem a k d) = OneFullUpdateItem k (Some d)"
| "request_item (DeleteItem a k) = OneFullUpdateItem k None"

text \<open>The values of a request can be stored, and those of its key are not null.\<close>

fun request_ok ::
  "(('d, 'x) bound \<Rightarrow> 'd cell \<times> indicator) \<Rightarrow> ('d, 'x, 'db) server_types \<Rightarrow> ('d, 'x) item_request \<Rightarrow> bool" where
  "request_ok stored sv (InsertItem a k d) \<longleftrightarrow> key_ok stored sv k \<and> data_ok stored sv d"
| "request_ok stored sv (UpdateItem a k d) \<longleftrightarrow> key_ok stored sv k \<and> data_ok stored sv d"
| "request_ok stored sv (DeleteItem a k) \<longleftrightarrow> key_ok stored sv k"

text \<open>An update that finds no row.\<close>

fun misses :: "('d, 'x) item_request \<Rightarrow> (('d, 'x) fields \<rightharpoonup> ('d, 'x) fields) \<Rightarrow> bool" where
  "misses (UpdateItem a k d) m \<longleftrightarrow> m k = None"
| "misses _ m \<longleftrightarrow> False"

text \<open>The static templates are still empty, or were made for this server's table.\<close>

definition own_templates :: "('d, 'x, 'db) server_types \<Rightarrow> string \<Rightarrow> ('d, 'x, 'db) per_item_process \<Rightarrow> bool" where
  "own_templates sv tn w \<longleftrightarrow> insert_templ w \<in> {'''', insertTemplate (key_struct sv) (data_struct sv) tn} \<and>
     update_templ w \<in> {'''', updateTemplate (key_struct sv) (data_struct sv) tn} \<and> delete_templ w \<in> {'''', deleteTemplate (key_struct sv) tn}"

lemma statement_cases:
  assumes "bindS (with_database (exec tx bs)) (\<lambda>_. per_item_triggerCallback key od) w = (r, w')"
  obtains (failed) e db' where "exec tx bs (database w) = (Inl e, db')" "r = Inl e" "w' = w\<lparr>database := db'\<rparr>"
    | (succeeded) res db' where "exec tx bs (database w) = (Inr res, db')" "r = Inr Success"
        "w' = w\<lparr>database := db', published := published w @ [[OneFullUpdateItem key od]]\<rparr>"
  using assms
  by (cases "exec tx bs (database w)"; cases "fst (exec tx bs (database w))") (auto simp: bindS_def with_database_def per_item_triggerCallback_def)

text \<open>A handler does nothing, or executes the statement of its table and publishes the change when that succeeds.\<close>

definition request_text :: "('d, 'x, 'db) server_types \<Rightarrow> string \<Rightarrow> ('d, 'x) item_request \<Rightarrow> string" where
  "request_text sv tn rq = (case rq of
      InsertItem _ _ _ \<Rightarrow> insertTemplate (key_struct sv) (data_struct sv) tn
    | UpdateItem _ _ _ \<Rightarrow> updateTemplate (key_struct sv) (data_struct sv) tn
    | DeleteItem _ _ \<Rightarrow> deleteTemplate (key_struct sv) tn)"

definition request_binding :: "('d, 'x, 'db) server_types \<Rightarrow> ('d, 'x) item_request \<Rightarrow> ('d, 'x) binding" where
  "request_binding sv rq = (case rq of
      InsertItem _ k d \<Rightarrow> sociBind (key_struct sv) k @ sociBind (data_struct sv) d
    | UpdateItem _ k d \<Rightarrow> sociBind (key_struct sv) k @ sociBind (data_struct sv) d
    | DeleteItem _ k \<Rightarrow> sociBind (key_struct sv) k)"

lemma handle_cases:
  assumes "per_item_handle sv th rq w = (r, w')" and "own_templates sv (table_name th) w"
  obtains (refused) "r = Inr FailurePermission" "w' = w"
    | (failed) e where "exec_of sv (request_text sv (table_name th) rq) [request_binding sv rq] (database w) = (Inl e, database w')" "r = Inl e"
        "published w' = published w" "own_templates sv (table_name th) w'"
    | (succeeded) res where "exec_of sv (request_text sv (table_name th) rq) [request_binding sv rq] (database w) = (Inr res, database w')" "r = Inr Success"
        "published w' = published w @ [[request_item rq]]" "own_templates sv (table_name th) w'"
proof (cases rq)
  case (InsertItem a k d)
  then show thesis
    using assms that
    by (auto simp: per_item_handleInsert_def own_templates_def request_text_def request_binding_def Let_def split: if_splits elim!: statement_cases)
next
  case (UpdateItem a k d)
  then show thesis
    using assms that
    by (auto simp: per_item_handleUpdate_def own_templates_def request_text_def request_binding_def Let_def split: if_splits elim!: statement_cases)
next
  case (DeleteItem a k)
  then show thesis
    using assms that
    by (auto simp: per_item_handleDelete_def own_templates_def request_text_def request_binding_def Let_def split: if_splits elim!: statement_cases)
qed

text \<open>
  C8: Whatever is asked of a server that keeps one row for each item, and however the database answers: a request is published exactly if it is answered with
  success, and the changes published, applied to the map the table held before, give the map the table holds afterwards; no other table is changed. There is one
  exception: an update of a key that is not there is answered with success and published, while the table stays as it was. The static templates are to be still empty or those
  of this server (\<open>own_templates\<close>: no other server of the same types came first), the values such as the database can store, those of the key not null (\<open>request_ok\<close>).
\<close>

theorem per_item_tracks_table:
  assumes db: "sql_database (exec_of sv) rows stored (table_name th) (names_of (key_struct sv))"
    and "structs_ok sv" and "ident (table_name th)" and own: "own_templates sv (table_name th) w"
    and "holds stored sv (rows (database w) (table_name th)) m" and "request_ok stored sv rq"
    and "per_item_handle sv th rq w = (r, w')"
  shows "\<exists>us. published w' = published w @ us \<and> (if r = Inr Success then us = [[request_item rq]] else us = [])
    \<and> holds stored sv (rows (database w') (table_name th)) (if misses rq m then m else fold apply_item (concat us) m)
    \<and> (\<forall>u. u \<noteq> table_name th \<longrightarrow> rows (database w') u = rows (database w) u) \<and> own_templates sv (table_name th) w'"
  using assms(7) own
proof (cases rule: handle_cases)
  case refused
  then show ?thesis
    using assms(5) own by auto
next
  case (failed e)
  then have "rows (database w') = rows (database w)"
    using sql_database.failed [OF db] by blast
  then show ?thesis
    using assms(5) failed by auto
next
  case (succeeded res)
  let ?t = "table_name th" and ?R = "rows (database w)"
  have ok: "struct_ok (key_struct sv)" "struct_ok (data_struct sv)"
    using assms(2) by (simp_all add: structs_ok_def)
  note ex = succeeded(1)
  have "holds stored sv (rows (database w') ?t) (if misses rq m then m else apply_item (request_item rq) m) \<and> (\<forall>u. u \<noteq> ?t \<longrightarrow> rows (database w') u = ?R u)"
  proof (cases rq)
    case (InsertItem a k d)
    then have k: "key_ok stored sv k" "data_ok stored sv d"
      using assms(6) by simp_all
    have "rows (database w') = ?R(?t := ?R ?t + {#row_of stored sv k d#})"
      using sql_database.insert_done [OF db server_insert_read [OF ok assms(3)], of "[sociBind (key_struct sv) k @ sociBind (data_struct sv) d]"] ex InsertItem
        new_row_row_of [OF assms(2) k] by (simp add: request_text_def request_binding_def)
    moreover have "unique_key (names_of (key_struct sv)) (rows (database w') ?t)"
      using sql_database.primary_key [OF db ex] .
    ultimately show ?thesis
      using holds_unique [OF assms(2,5) k] holds_insert [OF assms(5) k] InsertItem by simp
  next
    case (UpdateItem a k d)
    then have k: "key_ok stored sv k" "data_ok stored sv d"
      using assms(6) by simp_all
    have "rows (database w') = ?R(?t := image_mset (\<lambda>r. if row_matches stored (names_of (key_struct sv)) (sociBind (key_struct sv) k @ sociBind (data_struct sv) d) r
        then changed_row stored (names_of (data_struct sv)) (sociBind (key_struct sv) k @ sociBind (data_struct sv) d) r else r) (?R ?t))"
      using sql_database.update_done [OF db server_update_read [OF ok assms(3)]] ex UpdateItem by (simp add: request_text_def request_binding_def)
    then show ?thesis
      using holds_update [OF assms(2,5) k] holds_update_missing [OF assms(2,5) k(1)] UpdateItem by (cases "m k") simp_all
  next
    case (DeleteItem a k)
    then have k: "\<forall>k' \<in> set [k]. key_ok stored sv k'"
      using assms(6) by simp
    have "rows (database w') = ?R(?t := filter_mset (\<lambda>r. \<forall>b \<in> set (map (sociBind (key_struct sv)) [k]). \<not> row_matches stored (names_of (key_struct sv)) b r) (?R ?t))"
      using sql_database.delete_done [OF db server_delete_read [OF ok(1) assms(3)], of "[sociBind (key_struct sv) k]"] ex DeleteItem
      by (simp add: request_text_def request_binding_def)
    moreover have "m |` (- set [k]) = m(k := None)"
      by (auto simp: restrict_map_def)
    ultimately show ?thesis
      using holds_delete [OF assms(2,5) k] DeleteItem by simp
  qed
  then show ?thesis
    using succeeded by (cases "misses rq m") simp_all
qed

section \<open>Loading the table\<close>

lemma storable_stored_at:
  assumes "storable stored lib fs vs"
  shows "stored_at lib (map snd fs) (pre @ map (\<lambda>v. stored (UseField v)) vs @ post) (length pre) vs"
  using assms by (simp add: storable_def stored_at_def nth_append)

lemma key_and_data_row:
  assumes "structs_ok sv" "key_ok stored sv k" "data_ok stored sv d"
  shows "key_and_data sv (map (\<lambda>n. the (row_of stored sv k d n)) (names_of (key_struct sv @ data_struct sv))) = Inr (k, d)"
proof -
  have l: "length k = length (key_struct sv)" "length d = length (data_struct sv)"
    using assms(2,3) by (simp_all add: key_ok_length)
  have r: "map (\<lambda>n. the (row_of stored sv k d n)) (names_of (key_struct sv @ data_struct sv)) = map (\<lambda>v. stored (UseField v)) k @ map (\<lambda>v. stored (UseField v)) d"
    using map_through_zip [of "names_of (key_struct sv @ data_struct sv)" "map (\<lambda>v. stored (UseField v)) (k @ d)"] assms(1) l
    by (simp add: row_of_def structs_ok_def)
  have "stored_at (lib_of sv) (map snd (key_struct sv)) (map (\<lambda>v. stored (UseField v)) k @ map (\<lambda>v. stored (UseField v)) d) 0 k"
    using storable_stored_at [of stored "lib_of sv" "key_struct sv" k "[]"] assms(2) by (simp add: key_ok_def)
  moreover have "stored_at (lib_of sv) (map snd (data_struct sv)) (map (\<lambda>v. stored (UseField v)) k @ map (\<lambda>v. stored (UseField v)) d) (length (key_struct sv)) d"
    using storable_stored_at [of stored "lib_of sv" "data_struct sv" d "map (\<lambda>v. stored (UseField v)) k" "[]"] assms(3) l by (simp add: data_ok_def)
  ultimately show ?thesis
    unfolding r by (simp add: key_and_data_def retrieve_stored)
qed

lemma read_rows_ok: "\<forall>r \<in> set rs. f r = Inr (g r) \<Longrightarrow> read_rows f rs = Inr (map g rs)"
  by (induction rs) simp_all

lemma items_of_map:
  assumes "finite (dom m)" "mset items = image_mset (\<lambda>k. (k, the (m k))) (mset_set (dom m))"
  shows "distinct (map fst items)" "map_of items = m"
proof -
  have "mset (map fst items) = mset_set (dom m)"
    unfolding mset_map assms(2) multiset.map_comp by (simp add: o_def)
  then have "count (mset (map fst items)) a = (if a \<in> set (map fst items) then 1 else 0)" for a
    by (metis assms(1) count_mset_set(1,3) finite_set_mset_mset_set set_mset_mset)
  then show d: "distinct (map fst items)"
    unfolding distinct_count_atmost_1 by blast
  have s: "set items = (\<lambda>k. (k, the (m k))) ` dom m"
    using arg_cong [OF assms(2), of set_mset] assms(1) by simp
  show "map_of items = m"
  proof
    fix k
    show "map_of items k = m k"
    proof (cases "m k")
      case None
      then show ?thesis
        using s by (auto simp: map_of_eq_None_iff)
    next
      case (Some d')
      then have "(k, d') \<in> set items"
        using s by force
      then show ?thesis
        using d Some by simp
    qed
  qed
qed

lemma fold_apply_items: "distinct (map fst items) \<Longrightarrow> fold apply_item (map (\<lambda>(k, d). OneFullUpdateItem k (Some d)) items) m = m ++ map_of items"
proof (induction items arbitrary: m)
  case (Cons e items)
  obtain k d where e: "e = (k, d)"
    by (cases e)
  then have "map_of items k = None" "distinct (map fst items)"
    using Cons.prems by (simp_all add: map_of_eq_None_iff)
  then show ?case
    using Cons.IH by (auto simp: e map_add_def fun_eq_iff split: option.split)
qed simp

lemma loaded_items:
  assumes db: "sql_database (exec_of sv) rows stored t kn"
    and "structs_ok sv" and "ident t" and "holds stored sv (rows db t) m"
    and "exec_of sv (load_text b (key_struct sv) (data_struct sv) t None) [[]] db = (Inr res, db')"
  obtains items where "read_rows (key_and_data sv) res = Inr items" "distinct (map fst items)" "map_of items = m" "rows db' = rows db"
proof -
  let ?ns = "names_of (key_struct sv @ data_struct sv)" and ?row = "\<lambda>k. row_of stored sv k (the (m k))"
  define item where "item r = (case key_and_data sv r of Inr x \<Rightarrow> x)" for r
  have fin: "finite (dom m)" and R: "rows db t = image_mset ?row (mset_set (dom m))"
    and ok: "\<And>k. k \<in> dom m \<Longrightarrow> key_ok stored sv k \<and> data_ok stored sv (the (m k))"
    using assms(4) by (auto simp: holds_def map_ok_def)
  have kd: "key_and_data sv (map (\<lambda>n. the (?row k n)) ?ns) = Inr (k, the (m k))" if "k \<in> dom m" for k
    using key_and_data_row [OF assms(2)] ok [OF that] by blast
  have sel: "rows db' = rows db" "mset res = image_mset (\<lambda>r. map (\<lambda>n. the (r n)) ?ns) (rows db t)"
    using sql_database.select_done [OF db load_text_read assms(5)] assms(2,3) by (simp_all add: structs_ok_def)
  then have res: "mset res = image_mset (\<lambda>k. map (\<lambda>n. the (?row k n)) ?ns) (mset_set (dom m))"
    unfolding R multiset.map_comp by (simp add: o_def)
  then have "set res = (\<lambda>k. map (\<lambda>n. the (?row k n)) ?ns) ` dom m"
    using fin by (metis (no_types, lifting) finite_set_mset_mset_set set_image_mset set_mset_mset)
  then have "\<forall>r \<in> set res. key_and_data sv r = Inr (item r)"
    using kd by (auto simp: item_def)
  then have "read_rows (key_and_data sv) res = Inr (map item res)"
    by (rule read_rows_ok)
  moreover have "mset (map item res) = image_mset (\<lambda>k. (k, the (m k))) (mset_set (dom m))"
    unfolding mset_map res multiset.map_comp o_def using fin by (intro image_mset_cong) (simp add: item_def kd del: map_append map_map)
  ultimately show thesis
    using that items_of_map [OF fin] sel(1) by blast
qed

text \<open>
  C17: A server that loads its table publishes the map the table holds, whatever order the rows come in, and nothing is thrown unless the query fails.
\<close>

theorem per_item_loads_table:
  assumes db: "sql_database (exec_of sv) rows stored t kn"
    and "structs_ok sv" and "ident t" and "holds stored sv (rows (database w) t) m"
    and "exec_of sv (load_text b (key_struct sv) (data_struct sv) t None) [[]] (database w) = (Inr res, db')"
  shows "\<exists>us w'. per_item_initialize b sv t None w = (Inr (), w') \<and> published w' = published w @ [us] \<and> fold apply_item us Map.empty = m
    \<and> rows (database w') = rows (database w)"
proof -
  obtain items where i: "read_rows (key_and_data sv) res = Inr items" "distinct (map fst items)" "map_of items = m" "rows db' = rows (database w)"
    using loaded_items [OF assms] .
  then have "fold apply_item (map (\<lambda>(k, d). OneFullUpdateItem k (Some d)) items) Map.empty = m"
    by (simp add: fold_apply_items)
  then show ?thesis
    using i assms(5) by (simp add: per_item_initialize_def bindS_def with_database_def)
qed

section \<open>The server of a collection agrees with its table\<close>

lemma AList_update_fold: "map_of (fold (\<lambda>(k, d) m. AList.update k d m) xs al) = fold (\<lambda>(k, d) m. m(k \<mapsto> d)) xs (map_of al)"
  by (induction xs arbitrary: al) (auto simp: update_conv')

lemma AList_fold_keys: "distinct (map fst al) \<Longrightarrow> distinct (map fst (fold (\<lambda>(k, d) m. AList.update k d m) xs al))"
  by (induction xs arbitrary: al) (auto simp: distinct_update)

lemma AList_fold_dom: "fst ` set (fold (\<lambda>(k, d) m. AList.update k d m) xs al) = fst ` set al \<union> fst ` set xs"
  by (induction xs arbitrary: al) (simp_all add: split_beta dom_update)

lemma AList_fold_set: "set (fold (\<lambda>(k, d) m. AList.update k d m) xs al) \<subseteq> set al \<union> set xs"
proof (induction xs arbitrary: al)
  case (Cons e xs)
  obtain k d where e: "e = (k, d)"
    by (cases e)
  have "set (AList.update k d al) \<subseteq> insert (k, d) (set al)"
    by (induction al) auto
  then show ?case
    using Cons.IH [of "AList.update k d al"] by (auto simp: e)
qed simp

text \<open>What a change asks of a collection: its deletions first, then its insertions in order.\<close>

definition apply_delta :: "('d, 'x) collection_delta \<Rightarrow> (('d, 'x) fields \<rightharpoonup> ('d, 'x) fields) \<Rightarrow> (('d, 'x) fields \<rightharpoonup> ('d, 'x) fields)" where
  "apply_delta u m = fold (\<lambda>(k, d) m. m(k \<mapsto> d)) (inserts_updates u) (m |` (- set (deletes u)))"

lemma fold_updates: "fold (\<lambda>(k, d) m. m(k \<mapsto> d)) xs m = m ++ fold (\<lambda>(k, d) m. m(k \<mapsto> d)) xs Map.empty"
proof (induction xs rule: rev_induct)
  case (snoc e xs)
  then show ?case
    by (cases e) (auto simp: map_add_def fun_eq_iff)
qed simp

lemma apply_delta_parts: "apply_delta u m = (m |` (- set (keysToDelete u))) ++ map_of (valuesToInsert u)"
proof
  fix k
  have v: "map_of (valuesToInsert u) = fold (\<lambda>(k, d) m. m(k \<mapsto> d)) (inserts_updates u) Map.empty"
    by (simp add: valuesToInsert_def AList_update_fold)
  have "map_of (valuesToInsert u) k = None \<longleftrightarrow> k \<notin> fst ` set (inserts_updates u)"
    unfolding map_of_eq_None_iff valuesToInsert_def AList_fold_dom by simp
  then show "apply_delta u m k = ((m |` (- set (keysToDelete u))) ++ map_of (valuesToInsert u)) k"
    unfolding apply_delta_def fold_updates [of _ "m |` _"] v [symmetric]
    by (auto simp: map_add_def keysToDelete_def restrict_map_def split: option.split)
qed

lemma holds_insert_many:
  "holds stored sv R m \<Longrightarrow> distinct (map fst items) \<Longrightarrow> \<forall>(k, d) \<in> set items. key_ok stored sv k \<and> data_ok stored sv d \<and> m k = None \<Longrightarrow>
    holds stored sv (R + mset (map (\<lambda>(k, d). row_of stored sv k d) items)) (m ++ map_of items)"
proof (induction items arbitrary: R m)
  case (Cons e items)
  obtain k d where e: "e = (k, d)"
    by (cases e)
  have "holds stored sv (add_mset (row_of stored sv k d) R) (m(k \<mapsto> d))"
    using Cons.prems by (intro holds_insert) (simp_all add: e)
  moreover have "\<forall>(k', d') \<in> set items. key_ok stored sv k' \<and> data_ok stored sv d' \<and> (m(k \<mapsto> d)) k' = None"
  proof -
    have "k \<notin> fst ` set items"
      using Cons.prems(2) by (simp add: e)
    then have "\<forall>x \<in> set items. fst x \<noteq> k"
      by force
    then show ?thesis
      using Cons.prems(3) by (simp add: split_beta)
  qed
  ultimately have "holds stored sv (add_mset (row_of stored sv k d) R + mset (map (\<lambda>(k, d). row_of stored sv k d) items)) (m(k \<mapsto> d) ++ map_of items)"
    using Cons.IH [of "add_mset (row_of stored sv k d) R" "m(k \<mapsto> d)"] Cons.prems(2) by (simp only: list.simps distinct.simps simp_thms)
  moreover have "m(k \<mapsto> d) ++ map_of items = m ++ map_of (e # items)"
    using Cons.prems(2) by (simp add: e map_add_upd_left dom_map_of_conv_image_fst)
  ultimately have "holds stored sv (add_mset (row_of stored sv k d) R + mset (map (\<lambda>(k, d). row_of stored sv k d) items)) (m ++ map_of (e # items))"
    by (simp only:)
  then show ?case
    by (simp add: e del: map_of.simps)
qed simp

definition own_collection_templates :: "('d, 'x, 'db) server_types \<Rightarrow> string \<Rightarrow> ('d, 'x, 'db) collection_process \<Rightarrow> bool" where
  "own_collection_templates sv tn w \<longleftrightarrow> del_templ w \<in> {'''', deleteTemplate (key_struct sv) tn} \<and>
     ins_templ w \<in> {'''', insertTemplate (key_struct sv) (data_struct sv) tn}"

lemma delete_keys_done:
  assumes db: "sql_database (exec_of sv) rows stored (table_name th) kn"
    and "structs_ok sv" "ident (table_name th)" "own_collection_templates sv (table_name th) w" "holds stored sv (rows (c_database w) (table_name th)) m"
    and "\<forall>k \<in> set keys. key_ok stored sv k" and "delete_keys sv th keys w = (Inr (), w')"
  shows "holds stored sv (rows (c_database w') (table_name th)) (m |` (- set keys))" "c_published w' = c_published w" "own_collection_templates sv (table_name th) w'"
    "u \<noteq> table_name th \<Longrightarrow> rows (c_database w') u = rows (c_database w) u"
proof -
  have "holds stored sv (rows (c_database w') (table_name th)) (m |` (- set keys)) \<and> c_published w' = c_published w \<and> own_collection_templates sv (table_name th) w'
    \<and> (u \<noteq> table_name th \<longrightarrow> rows (c_database w') u = rows (c_database w) u)"
  proof (cases "keys = []")
    case True
    then show ?thesis
      using assms(4,5,7) by (simp add: delete_keys_def restrict_map_def)
  next
    case False
    have "struct_ok (key_struct sv)"
      using assms(2) by (simp add: structs_ok_def)
    note read = server_delete_read [OF this assms(3)]
    obtain res db' where ex: "exec_of sv (deleteTemplate (key_struct sv) (table_name th)) (map (sociBind (key_struct sv)) keys) (c_database w) = (Inr res, db')"
      and w': "c_database w' = db'" "c_published w' = c_published w" "own_collection_templates sv (table_name th) w'"
      using assms(4,7) False
      by (cases "exec_of sv (deleteTemplate (key_struct sv) (table_name th)) (map (sociBind (key_struct sv)) keys) (c_database w)")
        (auto simp: delete_keys_def own_collection_templates_def bindS_def with_c_database_def returnS_def Let_def split: if_splits sum.splits)
    show ?thesis
      using sql_database.delete_done [OF db read ex] holds_delete [OF assms(2,5,6)] w' by simp
  qed
  then show "holds stored sv (rows (c_database w') (table_name th)) (m |` (- set keys))" "c_published w' = c_published w" "own_collection_templates sv (table_name th) w'"
    "u \<noteq> table_name th \<Longrightarrow> rows (c_database w') u = rows (c_database w) u"
    by simp_all
qed

lemma insert_items_done:
  assumes db: "sql_database (exec_of sv) rows stored (table_name th) kn"
    and "structs_ok sv" "ident (table_name th)" "own_collection_templates sv (table_name th) w" "holds stored sv (rows (c_database w) (table_name th)) m"
    and items: "distinct (map fst items)" "\<forall>(k, d) \<in> set items. key_ok stored sv k \<and> data_ok stored sv d \<and> m k = None"
    and "insert_items sv th items w = (Inr (), w')"
  shows "holds stored sv (rows (c_database w') (table_name th)) (m ++ map_of items)" "c_published w' = c_published w"
    "own_collection_templates sv (table_name th) w'" "u \<noteq> table_name th \<Longrightarrow> rows (c_database w') u = rows (c_database w) u"
proof -
  have "holds stored sv (rows (c_database w') (table_name th)) (m ++ map_of items) \<and> c_published w' = c_published w \<and> own_collection_templates sv (table_name th) w'
    \<and> (u \<noteq> table_name th \<longrightarrow> rows (c_database w') u = rows (c_database w) u)"
  proof (cases "items = []")
    case True
    then show ?thesis
      using assms(4,5,8) by (simp add: insert_items_def)
  next
    case False
    let ?bs = "map (\<lambda>(k, d). sociBind (key_struct sv) k @ sociBind (data_struct sv) d) items"
    have "struct_ok (key_struct sv)" "struct_ok (data_struct sv)"
      using assms(2) by (simp_all add: structs_ok_def)
    note read = server_insert_read [OF this assms(3)]
    obtain res db' where ex: "exec_of sv (insertTemplate (key_struct sv) (data_struct sv) (table_name th)) ?bs (c_database w) = (Inr res, db')"
      and w': "c_database w' = db'" "c_published w' = c_published w" "own_collection_templates sv (table_name th) w'"
      using assms(4,8) False
      by (cases "exec_of sv (insertTemplate (key_struct sv) (data_struct sv) (table_name th)) ?bs (c_database w)")
        (auto simp: insert_items_def own_collection_templates_def bindS_def with_c_database_def returnS_def Let_def split: if_splits sum.splits)
    have "map (new_row stored (names_of (key_struct sv) @ names_of (data_struct sv))) ?bs = map (\<lambda>(k, d). row_of stored sv k d) items"
      using items(2) new_row_row_of [OF assms(2)] by auto
    then show ?thesis
      using sql_database.insert_done [OF db read ex] holds_insert_many [OF assms(5) items] w' by (simp del: map_map map_append)
  qed
  then show "holds stored sv (rows (c_database w') (table_name th)) (m ++ map_of items)" "c_published w' = c_published w"
    "own_collection_templates sv (table_name th) w'" "u \<noteq> table_name th \<Longrightarrow> rows (c_database w') u = rows (c_database w) u"
    by simp_all
qed

text \<open>
  C9: When a server that keeps its table as one collection answers a change with success, the change as it is published, deletions first and then
  insertions in order, takes the map the table held to the map it holds; no other table is changed. As above the static templates are to be still empty or those of
  this server (\<open>own_collection_templates\<close>), and the values such as the database can store. A second server of the same types does not have its own templates,
  and the property then fails, as the theorem on a second server shows.
\<close>

theorem as_collection_tracks_table:
  assumes db: "sql_database (exec_of sv) rows stored (table_name th) kn"
    and "structs_ok sv" and "ident (table_name th)" and "own_collection_templates sv (table_name th) w"
    and "holds stored sv (rows (c_database w) (table_name th)) m"
    and "\<forall>k \<in> set (deletes u). key_ok stored sv k" and "\<forall>(k, d) \<in> set (inserts_updates u). key_ok stored sv k \<and> data_ok stored sv d"
    and "\<forall>ks. set (key_order ks) = set ks" and "\<forall>ks. mset (item_order ks) = mset ks"
    and "as_collection_handleUpdate sv key_order item_order th account u w = (Inr Success, w')"
  shows "c_published w' = c_published w @ [DeltaUpdate u] \<and> holds stored sv (rows (c_database w') (table_name th)) (apply_delta u m)
    \<and> (\<forall>v. v \<noteq> table_name th \<longrightarrow> rows (c_database w') v = rows (c_database w) v) \<and> own_collection_templates sv (table_name th) w'"
proof -
  let ?keys = "key_order (keysToDelete u)" and ?items = "item_order (valuesToInsert u)"
  have go: "bindS (delete_keys sv th ?keys) (\<lambda>_. bindS (insert_items sv th ?items) (\<lambda>_ w'. (Inr Success, w'\<lparr>c_published := c_published w' @ [DeltaUpdate u]\<rparr>))) w = (Inr Success, w')"
    using assms(10) by (auto simp: as_collection_handleUpdate_def split: if_splits)
  then obtain w1 w2 where w1: "delete_keys sv th ?keys w = (Inr (), w1)" and w2: "insert_items sv th ?items w1 = (Inr (), w2)"
    and w': "w' = w2\<lparr>c_published := c_published w2 @ [DeltaUpdate u]\<rparr>"
    by (auto elim!: bindS_cases)
  have vs: "fst ` set (valuesToInsert u) = fst ` set (inserts_updates u)" "set (valuesToInsert u) \<subseteq> set (inserts_updates u)" "distinct (map fst (valuesToInsert u))"
    using AList_fold_set [of "inserts_updates u" "[]"] by (simp_all add: valuesToInsert_def AList_fold_dom AList_fold_keys)
  have o: "set ?items = set (valuesToInsert u)" "set ?keys = set (keysToDelete u)"
    using assms(8,9) by (metis set_mset_mset)+
  have "\<forall>k \<in> set ?keys. key_ok stored sv k"
    using assms(6,7) unfolding o by (auto simp: keysToDelete_def)
  note del = delete_keys_done [OF db assms(2-5) this w1]
  have "mset (map fst ?items) = mset (map fst (valuesToInsert u))"
    using assms(9) by simp
  then have d: "distinct (map fst ?items)"
    using vs(3) by (metis mset_eq_imp_distinct_iff)
  have "\<forall>(k, d) \<in> set ?items. key_ok stored sv k \<and> data_ok stored sv d \<and> (m |` (- set ?keys)) k = None"
  proof (clarify; intro conjI)
    fix k d assume kd: "(k, d) \<in> set ?items"
    then have "(k, d) \<in> set (inserts_updates u)"
      using vs(2) unfolding o by blast
    moreover from this have "k \<in> set ?keys"
      unfolding o by (force simp: keysToDelete_def)
    ultimately show "key_ok stored sv k" "data_ok stored sv d" "(m |` (- set ?keys)) k = None"
      using assms(7) by auto
  qed
  note ins = insert_items_done [OF db assms(2,3) del(3,1) d this w2]
  have "map_of ?items = map_of (valuesToInsert u)"
    using d vs(3) o(1) by (simp add: map_of_inject_set)
  then have "apply_delta u m = m |` (- set ?keys) ++ map_of ?items"
    by (simp add: apply_delta_parts o(2))
  then show ?thesis
    using ins del w' by (simp add: own_collection_templates_def)
qed

text \<open>
  The deletion and the insertion of a change are separate statements: if the insertion fails, an item that was only to be changed is gone from the table,
  and nothing is published.
\<close>

theorem failed_change_loses_item:
  assumes db: "sql_database (exec_of sv) rows stored (table_name th) kn"
    and "structs_ok sv" and "ident (table_name th)" and "own_collection_templates sv (table_name th) w"
    and "holds stored sv (rows (c_database w) (table_name th)) m" and "key_ok stored sv k" and "m k = Some d0"
    and "\<forall>ks. set (key_order ks) = set ks" and "\<forall>ks. mset (item_order ks) = mset ks"
    and "delete_keys sv th (key_order [k]) w = (Inr (), w1)" and "insert_items sv th [(k, d)] w1 = (Inl e, w')"
    and "\<not> refused th account" and "has_session th"
  shows "as_collection_handleUpdate sv key_order item_order th account \<lparr>deletes = [], inserts_updates = [(k, d)]\<rparr> w = (Inl e, w')
    \<and> holds stored sv (rows (c_database w') (table_name th)) (m(k := None)) \<and> c_published w' = c_published w"
proof -
  let ?u = "\<lparr>deletes = [], inserts_updates = [(k, d)]\<rparr>"
  have u: "keysToDelete ?u = [k]" "valuesToInsert ?u = [(k, d)]"
    by (simp_all add: keysToDelete_def valuesToInsert_def)
  have "item_order [(k, d)] = [(k, d)]"
    using assms(9) by (metis mset_single_iff mset.simps(1,2))
  then have h: "as_collection_handleUpdate sv key_order item_order th account ?u w = (Inl e, w')"
    using assms(10-13) by (simp add: as_collection_handleUpdate_def u bindS_def)
  have keys: "set (key_order [k]) = {k}"
    using assms(8) by simp
  then have "\<forall>k' \<in> set (key_order [k]). key_ok stored sv k'"
    using assms(6) by simp
  note del = delete_keys_done [OF db assms(2-5) this assms(10)]
  have "m |` (- {k}) = m(k := None)"
    by (auto simp: restrict_map_def)
  then have hold: "holds stored sv (rows (c_database w1) (table_name th)) (m(k := None))"
    using del(1) by (simp add: keys)
  obtain db' where ex: "exec_of sv (insertTemplate (key_struct sv) (data_struct sv) (table_name th)) [sociBind (key_struct sv) k @ sociBind (data_struct sv) d] (c_database w1) = (Inl e, db')"
    and w': "c_database w' = db'" "c_published w' = c_published w1"
    using assms(11) del(3)
    by (cases "exec_of sv (insertTemplate (key_struct sv) (data_struct sv) (table_name th)) [sociBind (key_struct sv) k @ sociBind (data_struct sv) d] (c_database w1)")
      (auto simp: insert_items_def own_collection_templates_def bindS_def with_c_database_def returnS_def Let_def split: if_splits sum.splits)
  then show ?thesis
    using h hold del(2) sql_database.failed [OF db ex] by simp
qed

text \<open>
  C33: The templates are static: after a server has inserted an item, another server with the same types of keys and data inserts its items into the table of the
  first. It answers with success and publishes them, while its own table does not get them.
\<close>

theorem second_server_writes_first_table:
  assumes db: "sql_database (exec_of sv) rows stored (table_name th) kn"
    and "structs_ok sv" and "ident (table_name th)" and "table_name other \<noteq> table_name th" and "insert_templ w = ''''"
    and "per_item_handleInsert sv th account k d w = (Inr Success, w1)"
    and "per_item_handleInsert sv other account' k' d' w1 = (Inr Success, w2)" and "key_ok stored sv k'" and "data_ok stored sv d'"
  shows "published w2 = published w1 @ [[OneFullUpdateItem k' (Some d')]] \<and> rows (database w2) (table_name other) = rows (database w1) (table_name other)
    \<and> rows (database w2) (table_name th) = add_mset (row_of stored sv k' d') (rows (database w1) (table_name th))"
proof -
  have ok: "struct_ok (key_struct sv)" "struct_ok (data_struct sv)"
    using assms(2) by (simp_all add: structs_ok_def)
  have nonempty: "insertTemplate (key_struct sv) (data_struct sv) (table_name th) \<noteq> ''''"
    by (simp add: insertTemplate_def)
  have "insert_templ w1 = insertTemplate (key_struct sv) (data_struct sv) (table_name th)"
    using assms(5,6) by (auto simp: per_item_handleInsert_def Let_def split: if_splits elim!: statement_cases)
  then obtain res where ex: "exec_of sv (insertTemplate (key_struct sv) (data_struct sv) (table_name th))
      [sociBind (key_struct sv) k' @ sociBind (data_struct sv) d'] (database w1) = (Inr res, database w2)"
    and p: "published w2 = published w1 @ [[OneFullUpdateItem k' (Some d')]]"
    using assms(7) nonempty by (auto simp: per_item_handleInsert_def Let_def split: if_splits elim!: statement_cases)
  have "rows (database w2) = (rows (database w1))(table_name th := rows (database w1) (table_name th) + {#row_of stored sv k' d'#})"
    using sql_database.insert_done [OF db server_insert_read [OF ok assms(3)] ex] new_row_row_of [OF assms(2,8,9)] by simp
  then show ?thesis
    using p assms(4) by simp
qed

section \<open>A database in memory\<close>

fun sample_stored :: "(nat, nat) bound \<Rightarrow> nat cell \<times> indicator" where
  "sample_stored (UseField (VInt i)) = (CInteger i, i_ok)"
| "sample_stored (UseField (VString s)) = (CString s, i_ok)"
| "sample_stored _ = (CBlob, i_null)"

type_synonym sample_db = "string \<Rightarrow> nat table_row list"

fun column_names :: "expr list \<Rightarrow> string list option" where
  "column_names [] = Some []"
| "column_names (EColumn c # es) = map_option (\<lambda>cs. c # cs) (column_names es)"
| "column_names _ = None"

definition same_names :: "(string \<times> expr) list \<Rightarrow> bool" where
  "same_names cs \<longleftrightarrow> cs = map (\<lambda>n. (n, EParam n)) (map fst cs)"

definition sample_run :: "stmt option \<Rightarrow> (nat, nat) binding list \<Rightarrow> sample_db \<Rightarrow> (nat row list \<times> sample_db) option" where
  "sample_run st bs db = (case st of
      Some (Insert u ns es []) \<Rightarrow> if es = map EParam ns then Some ([], db(u := db u @ map (new_row sample_stored ns) bs)) else None
    | Some (Update u sets cs) \<Rightarrow>
        if same_names sets \<and> same_names cs \<and> length bs = 1
        then Some ([], db(u := map (\<lambda>r. if row_matches sample_stored (map fst cs) (hd bs) r then changed_row sample_stored (map fst sets) (hd bs) r else r) (db u)))
        else None
    | Some (Delete u cs) \<Rightarrow>
        if same_names cs then Some ([], db(u := filter (\<lambda>r. \<forall>b \<in> set bs. \<not> row_matches sample_stored (map fst cs) b r) (db u))) else None
    | Some (Select es u []) \<Rightarrow> map_option (\<lambda>ns. (map (\<lambda>r. map (\<lambda>n. the (r n)) ns) (db u), db)) (column_names es)
    | _ \<Rightarrow> None)"

text \<open>A statement whose outcome violates the primary key fails.\<close>

definition sample_exec :: "(nat, nat, sample_db) executor" where
  "sample_exec tx bs db = (case sample_run (read_sql tx) bs db of
      Some (res, db') \<Rightarrow> if distinct (map (\<lambda>r. map r [''id'']) (db' ''items'')) then (Inr res, db') else (Inl SociError, db)
    | None \<Rightarrow> (Inl SociError, db))"

definition sample_sv :: "(nat, nat, sample_db) server_types" where
  "sample_sv = \<lparr>exec_of = sample_exec, lib_of = sample_conversions, key_struct = [(''id'', TIntegral cpp_int)], data_struct = [(''name'', TString)]\<rparr>"

definition sample_handler :: "string \<Rightarrow> transaction_handler" where
  "sample_handler t = \<lparr>has_session = True, table_name = t, account_filter = None\<rparr>"

lemma column_names_map: "column_names (map EColumn ns) = Some ns"
  by (induction ns) simp_all

lemma same_names_map: "same_names (map (\<lambda>n. (n, EParam n)) ns)"
  by (simp add: same_names_def o_def)

lemma names_through: "map fst (map (\<lambda>n. (n, EParam n)) ns) = ns"
  by (simp add: o_def)

lemma distinct_unique: "distinct (map (\<lambda>r. map r kn) l) \<Longrightarrow> unique_key kn (mset l)"
proof (unfold unique_key_def, rule allI)
  fix k
  show "distinct (map (\<lambda>r. map r kn) l) \<Longrightarrow> size (filter_mset (\<lambda>r. map r kn = k) (mset l)) \<le> 1"
  proof (induction l)
    case (Cons r l)
    show ?case
    proof (cases "map r kn = k")
      case True
      have "\<forall>r' \<in> set l. map r' kn \<noteq> map r kn"
        using Cons.prems unfolding list.map distinct.simps set_map image_iff by metis
      then have "\<forall>r' \<in> set l. map r' kn \<noteq> k"
        unfolding True .
      then have "filter (\<lambda>r. map r kn = k) l = []"
        by (simp add: filter_empty_conv)
      then show ?thesis
        using True by (simp flip: mset_filter)
    qed (use Cons in simp)
  qed simp
qed

interpretation sample_db: sql_database sample_exec "\<lambda>db u. mset (db u)" sample_stored "''items''" "[''id'']"
proof
  fix tx u ns bs db res db'
  assume "read_sql tx = Some (Insert u ns (map EParam ns) [])" "sample_exec tx bs db = (Inr res, db')"
  then show "(\<lambda>u. mset (db' u)) = (\<lambda>u. mset (db u))(u := mset (db u) + mset (map (new_row sample_stored ns) bs))"
    by (auto simp: sample_exec_def sample_run_def split: if_splits)
next
  fix tx u ss ns b db res db'
  assume "read_sql tx = Some (Update u (map (\<lambda>n. (n, EParam n)) ss) (map (\<lambda>n. (n, EParam n)) ns))" "sample_exec tx [b] db = (Inr res, db')"
  then show "(\<lambda>u. mset (db' u)) = (\<lambda>u. mset (db u))(u := image_mset (\<lambda>r. if row_matches sample_stored ns b r then changed_row sample_stored ss b r else r) (mset (db u)))"
    by (intro ext) (auto simp: sample_exec_def sample_run_def same_names_map names_through simp del: map_map cong: if_cong split: if_splits)
next
  fix tx u ns bs db res db'
  assume "read_sql tx = Some (Delete u (map (\<lambda>n. (n, EParam n)) ns))" "sample_exec tx bs db = (Inr res, db')"
  then show "(\<lambda>u. mset (db' u)) = (\<lambda>u. mset (db u))(u := filter_mset (\<lambda>r. \<forall>b \<in> set bs. \<not> row_matches sample_stored ns b r) (mset (db u)))"
    by (intro ext) (auto simp: sample_exec_def sample_run_def same_names_map names_through simp del: map_map cong: if_cong split: if_splits)
next
  fix tx ns u db res db'
  assume "read_sql tx = Some (Select (map EColumn ns) u [])" "sample_exec tx [[]] db = (Inr res, db')"
  then show "(\<lambda>u. mset (db' u)) = (\<lambda>u. mset (db u)) \<and> mset res = image_mset (\<lambda>r. map (\<lambda>n. the (r n)) ns) (mset (db u))"
    by (auto simp: sample_exec_def sample_run_def column_names_map split: if_splits)
next
  fix tx bs db res db'
  assume "sample_exec tx bs db = (Inr res, db')"
  then show "unique_key [''id''] (mset (db' ''items''))"
    by (intro distinct_unique) (auto simp: sample_exec_def split: option.splits if_splits)
next
  fix tx b db e db'
  assume "sample_exec tx [b] db = (Inl e, db')"
  then show "(\<lambda>u. mset (db' u)) = (\<lambda>u. mset (db u))"
    by (auto simp: sample_exec_def split: option.splits if_splits)
qed

definition sample_key :: "int \<Rightarrow> (nat, nat) fields" where "sample_key i = [VInt i]"
definition sample_data :: "string \<Rightarrow> (nat, nat) fields" where "sample_data s = [VString s]"

definition sample_tables :: sample_db where
  "sample_tables u = (if u = ''items'' then [row_of sample_stored sample_sv (sample_key 1) (sample_data ''one'')] else [])"

definition sample_process :: "(nat, nat, sample_db) per_item_process" where
  "sample_process = \<lparr>database = sample_tables, insert_templ = '''', update_templ = '''', delete_templ = '''', published = []\<rparr>"

definition sample_collection :: "(nat, nat, sample_db) collection_process" where
  "sample_collection = \<lparr>c_database = sample_tables, del_templ = '''', ins_templ = '''', c_published = []\<rparr>"

lemma sample_structs: "structs_ok sample_sv" "ident ''items''" "ident ''other''"
  by code_simp+

lemma sample_key_ok: "- (2 ^ 31) \<le> i \<Longrightarrow> i < 2 ^ 31 \<Longrightarrow> key_ok sample_stored sample_sv (sample_key i)"
  by (simp add: key_ok_def storable_def sample_sv_def sample_key_def extract_integral_def get_value_def extractInternal_def)

lemma sample_data_ok: "data_ok sample_stored sample_sv (sample_data s)"
  by (simp add: data_ok_def storable_def sample_sv_def sample_data_def extract_string_def get_value_def)

lemma sample_table_holds: "holds sample_stored sample_sv (mset (sample_tables ''items'')) [sample_key 1 \<mapsto> sample_data ''one'']"
  by (simp add: holds_def map_ok_def sample_tables_def sample_key_ok sample_data_ok)

lemma sample_law: "sql_database (exec_of sample_sv) (\<lambda>db u. mset (db u)) sample_stored (table_name (sample_handler ''items'')) (names_of (key_struct sample_sv))"
  using sample_db.sql_database_axioms by (simp add: sample_sv_def sample_handler_def)

theorem per_item_tracks_table_witness:
  "\<exists>w'. per_item_handle sample_sv (sample_handler ''items'') (InsertItem ''me'' (sample_key 2) (sample_data ''two'')) sample_process = (Inr Success, w')
    \<and> published w' = [[OneFullUpdateItem (sample_key 2) (Some (sample_data ''two''))]]
    \<and> holds sample_stored sample_sv (mset (database w' ''items'')) [sample_key 1 \<mapsto> sample_data ''one'', sample_key 2 \<mapsto> sample_data ''two'']"
proof -
  let ?rq = "InsertItem ''me'' (sample_key 2) (sample_data ''two'')"
  obtain r w' where run: "per_item_handle sample_sv (sample_handler ''items'') ?rq sample_process = (r, w')"
    by fastforce
  have "fst (per_item_handle sample_sv (sample_handler ''items'') ?rq sample_process) = Inr Success"
    by code_simp
  then have r: "r = Inr Success"
    unfolding run by simp
  have "own_templates sample_sv (table_name (sample_handler ''items'')) sample_process"
    by (simp add: own_templates_def sample_process_def)
  moreover have "holds sample_stored sample_sv (mset (database sample_process (table_name (sample_handler ''items'')))) [sample_key 1 \<mapsto> sample_data ''one'']"
    using sample_table_holds by (simp add: sample_process_def sample_handler_def)
  moreover have "request_ok sample_stored sample_sv ?rq"
    by (simp add: sample_key_ok sample_data_ok)
  ultimately have "published w' = published sample_process @ [[request_item ?rq]]"
    "holds sample_stored sample_sv (mset (database w' ''items'')) (fold apply_item (concat [[request_item ?rq]]) [sample_key 1 \<mapsto> sample_data ''one''])"
    using per_item_tracks_table [OF sample_law sample_structs(1) _ _ _ _ run] sample_structs(2) r by (auto simp: sample_handler_def)
  then show ?thesis
    using run r by (simp add: sample_process_def)
qed

theorem per_item_loads_table_witness:
  "\<exists>us w'. per_item_initialize boost_ref sample_sv ''items'' None sample_process = (Inr (), w') \<and> published w' = [us]
    \<and> fold apply_item us Map.empty = [sample_key 1 \<mapsto> sample_data ''one'']"
proof -
  obtain r db' where run: "exec_of sample_sv (load_text boost_ref (key_struct sample_sv) (data_struct sample_sv) ''items'' None) [[]] (database sample_process) = (r, db')"
    by fastforce
  have "isl (fst (exec_of sample_sv (load_text boost_ref (key_struct sample_sv) (data_struct sample_sv) ''items'' None) [[]] (database sample_process))) = False"
    by code_simp
  then obtain res where "r = Inr res"
    unfolding run by (cases r) simp_all
  moreover have "sql_database (exec_of sample_sv) (\<lambda>db u. mset (db u)) sample_stored ''items'' (names_of (key_struct sample_sv))"
    using sample_law by (simp add: sample_handler_def)
  moreover have "holds sample_stored sample_sv (mset (database sample_process ''items'')) [sample_key 1 \<mapsto> sample_data ''one'']"
    using sample_table_holds by (simp add: sample_process_def)
  ultimately show ?thesis
    using per_item_loads_table [OF _ sample_structs(1,2) _ run [unfolded \<open>r = Inr res\<close>]] by (force simp: sample_process_def)
qed

theorem second_server_writes_first_table_witness:
  "\<exists>w1 w2. per_item_handleInsert sample_sv (sample_handler ''items'') ''me'' (sample_key 2) (sample_data ''two'') sample_process = (Inr Success, w1)
    \<and> per_item_handleInsert sample_sv (sample_handler ''other'') ''me'' (sample_key 3) (sample_data ''three'') w1 = (Inr Success, w2)
    \<and> mset (database w2 ''items'') = add_mset (row_of sample_stored sample_sv (sample_key 3) (sample_data ''three'')) (mset (database w1 ''items''))"
proof -
  let ?first = "per_item_handleInsert sample_sv (sample_handler ''items'') ''me'' (sample_key 2) (sample_data ''two'')"
    and ?second = "per_item_handleInsert sample_sv (sample_handler ''other'') ''me'' (sample_key 3) (sample_data ''three'')"
  obtain r1 w1 where run1: "?first sample_process = (r1, w1)"
    by fastforce
  obtain r2 w2 where run2: "?second w1 = (r2, w2)"
    by fastforce
  have "fst (?first sample_process) = Inr Success" "fst (?second (snd (?first sample_process))) = Inr Success"
    by code_simp+
  then have r: "r1 = Inr Success" "r2 = Inr Success"
    unfolding run1 snd_conv run2 by simp_all
  have "mset (database w2 (table_name (sample_handler ''items''))) = add_mset (row_of sample_stored sample_sv (sample_key 3) (sample_data ''three''))
      (mset (database w1 (table_name (sample_handler ''items''))))"
    using second_server_writes_first_table [OF sample_law sample_structs(1) _ _ _ run1 [unfolded r] run2 [unfolded r] sample_key_ok sample_data_ok] sample_structs(2)
    by (simp add: sample_handler_def sample_process_def)
  then show ?thesis
    using run1 run2 r by (simp add: sample_handler_def)
qed

theorem as_collection_tracks_table_witness:
  "\<exists>w'. as_collection_handleUpdate sample_sv id id (sample_handler ''items'') ''me''
      \<lparr>deletes = [sample_key 1], inserts_updates = [(sample_key 2, sample_data ''two'')]\<rparr> sample_collection = (Inr Success, w')
    \<and> holds sample_stored sample_sv (mset (c_database w' ''items'')) [sample_key 2 \<mapsto> sample_data ''two'']"
proof -
  let ?u = "\<lparr>deletes = [sample_key 1], inserts_updates = [(sample_key 2, sample_data ''two'')]\<rparr>"
  let ?run = "as_collection_handleUpdate sample_sv id id (sample_handler ''items'') ''me'' ?u"
  obtain r w' where run: "?run sample_collection = (r, w')"
    by fastforce
  have "fst (?run sample_collection) = Inr Success"
    by code_simp
  then have r: "r = Inr Success"
    unfolding run by simp
  have "own_collection_templates sample_sv (table_name (sample_handler ''items'')) sample_collection"
    by (simp add: own_collection_templates_def sample_collection_def)
  moreover have "holds sample_stored sample_sv (mset (c_database sample_collection (table_name (sample_handler ''items'')))) [sample_key 1 \<mapsto> sample_data ''one'']"
    using sample_table_holds by (simp add: sample_collection_def sample_handler_def)
  moreover have "\<forall>k \<in> set (deletes ?u). key_ok sample_stored sample_sv k"
    "\<forall>(k, d) \<in> set (inserts_updates ?u). key_ok sample_stored sample_sv k \<and> data_ok sample_stored sample_sv d"
    by (simp_all add: sample_key_ok sample_data_ok)
  ultimately have "holds sample_stored sample_sv (mset (c_database w' ''items'')) (apply_delta ?u [sample_key 1 \<mapsto> sample_data ''one''])"
    using as_collection_tracks_table [OF sample_law sample_structs(1) _ _ _ _ _ _ _ run [unfolded r], of "[sample_key 1 \<mapsto> sample_data ''one'']"] sample_structs(2)
    by (simp add: sample_handler_def)
  moreover have "apply_delta ?u [sample_key 1 \<mapsto> sample_data ''one''] = [sample_key 2 \<mapsto> sample_data ''two'']"
    by (simp add: apply_delta_def fun_eq_iff restrict_map_def)
  ultimately show ?thesis
    using run r by auto
qed

end
