(* ===== verification/TableTransfer.thy ===== *)
theory TableTransfer
  imports TableServers
begin

text \<open>
  Writing structs to a table and reading them from one: DBTableExporterFactory.hpp and DBTableImporterFactory.hpp. The statements of the exporters and what
  the repeated importer has seen are function-local statics: all exporters or importers of the same types share them.
\<close>

section \<open>Backends\<close>

datatype backend = MysqlBackend | Sqlite3Backend | OtherBackend

definition traits_of :: "backend \<Rightarrow> db_traits" where
  "traits_of be = (case be of MysqlBackend \<Rightarrow> MysqlTraits | Sqlite3Backend \<Rightarrow> Sqlite3Traits | OtherBackend \<Rightarrow> NoTraits)"

definition exporter_insertTemplate :: "backend \<Rightarrow> struct \<Rightarrow> string \<Rightarrow> string" where
  "exporter_insertTemplate be fs tn = insertTemplate_internal (traits_of be) fs tn"

definition exporter_insertTemplateWithDuplicateCheck :: "backend \<Rightarrow> struct \<Rightarrow> struct \<Rightarrow> string \<Rightarrow> string" where
  "exporter_insertTemplateWithDuplicateCheck be ks ds tn = insertTemplateWithDuplicateCheck_internal (traits_of be) ks ds tn"

section \<open>Exporters\<close>

record ('d, 'x, 'db) transfer_types =
  t_exec :: "('d, 'x, 'db) executor"
  t_lib :: "('d, 'x) conversions"
  t_backend :: backend

record 'db exporter_process =
  x_database :: 'db
  single_stmt :: "string option"
  duplicate_stmt :: "string option"
  batch_stmt :: "string option"
  write_stmt :: "string option"

definition with_x_database :: "('db \<Rightarrow> 'r \<times> 'db) \<Rightarrow> 'db exporter_process \<Rightarrow> 'r \<times> 'db exporter_process" where
  "with_x_database f w = (let (r, db) = f (x_database w) in (r, w\<lparr>x_database := db\<rparr>))"

text \<open>A static is initialised by the first call that reaches it.\<close>

definition static_value :: "'a option \<Rightarrow> 'a \<Rightarrow> 'a" where
  "static_value s a = (case s of Some b \<Rightarrow> b | None \<Rightarrow> a)"

definition execute_static :: "('d, 'x, 'db) transfer_types \<Rightarrow> string \<Rightarrow> ('d, 'x) binding list \<Rightarrow> ('db exporter_process, soci_exception, unit) call" where
  "execute_static tt st bs = bindS (with_x_database (t_exec tt st bs)) (\<lambda>_. returnS ())"

definition createExporter ::
  "('d, 'x, 'db) transfer_types \<Rightarrow> struct \<Rightarrow> string \<Rightarrow> ('d, 'x) fields \<Rightarrow> ('db exporter_process, soci_exception, unit) call" where
  "createExporter tt fs tn data w =
     (let st = static_value (single_stmt w) (exporter_insertTemplate (t_backend tt) fs tn) in
      execute_static tt st [sociBindFields (t_lib tt) fs data] (w\<lparr>single_stmt := Some st\<rparr>))"

definition createExporterWithDuplicateCheck ::
  "('d, 'x, 'db) transfer_types \<Rightarrow> struct \<Rightarrow> struct \<Rightarrow> string \<Rightarrow> ('d, 'x) fields \<times> ('d, 'x) fields \<Rightarrow> ('db exporter_process, soci_exception, unit) call" where
  "createExporterWithDuplicateCheck tt ks ds tn data w =
     (let st = static_value (duplicate_stmt w) (exporter_insertTemplateWithDuplicateCheck (t_backend tt) ks ds tn) in
      execute_static tt st [sociBindFields (t_lib tt) ks (fst data) @ sociBindFields (t_lib tt) ds (snd data)] (w\<lparr>duplicate_stmt := Some st\<rparr>))"

text \<open>\<open>sociBindFieldsBatch\<close> binds a vector for each field: the statement is executed once for each struct.\<close>

definition sociBindFieldsBatch :: "('d, 'x) conversions \<Rightarrow> struct \<Rightarrow> ('d, 'x) fields list \<Rightarrow> ('d, 'x) binding list" where
  "sociBindFieldsBatch lib fs data = map (sociBindFields lib fs) data"

definition createBatchExporter ::
  "('d, 'x, 'db) transfer_types \<Rightarrow> struct \<Rightarrow> string \<Rightarrow> ('d, 'x) fields list \<Rightarrow> ('db exporter_process, soci_exception, unit) call" where
  "createBatchExporter tt fs tn data w =
     (if data = [] then (Inr (), w)
      else (let st = static_value (batch_stmt w) (exporter_insertTemplate (t_backend tt) fs tn) in
        execute_static tt st (sociBindFieldsBatch (t_lib tt) fs data) (w\<lparr>batch_stmt := Some st\<rparr>)))"

definition writeBatchToTable ::
  "('d, 'x, 'db) transfer_types \<Rightarrow> struct \<Rightarrow> string \<Rightarrow> ('d, 'x) fields list \<Rightarrow> ('db exporter_process, soci_exception, unit) call" where
  "writeBatchToTable tt fs tn batch w =
     (let st = static_value (write_stmt w) (exporter_insertTemplate (t_backend tt) fs tn); w1 = w\<lparr>write_stmt := Some st\<rparr> in
      if batch = [] then (Inr (), w1) else execute_static tt st (sociBindFieldsBatch (t_lib tt) fs batch) w1)"

definition deleteByKey :: "('d, 'x, 'db) transfer_types \<Rightarrow> struct \<Rightarrow> string \<Rightarrow> ('d, 'x) fields \<Rightarrow> ('db, soci_exception, unit) call" where
  "deleteByKey tt ks tn key =
     bindS (t_exec tt (deleteByKey_text (traits_of (t_backend tt)) ks tn) [sociBindFields (t_lib tt) ks key]) (\<lambda>_. returnS ())"

section \<open>Importers\<close>

definition selectStatement :: "boost \<Rightarrow> backend \<Rightarrow> struct \<Rightarrow> string \<Rightarrow> string" where
  "selectStatement b be fs input = selectStatement_internal b (traits_of be) fs input"

definition getTableData :: "boost \<Rightarrow> ('d, 'x, 'db) transfer_types \<Rightarrow> struct \<Rightarrow> string \<Rightarrow> ('db, soci_exception, ('d, 'x) fields list) call" where
  "getTableData b tt fs input =
     bindS (t_exec tt (selectStatement b (t_backend tt) fs input) [[]])
       (\<lambda>res db. (read_rows (\<lambda>r. retrieveData (t_lib tt) (map snd fs) r 0) res, db))"

definition selectStatementForCombined :: "boost \<Rightarrow> backend \<Rightarrow> struct list \<Rightarrow> string \<Rightarrow> string" where
  "selectStatementForCombined b be fss input = selectStatementForCombined_internal b (traits_of be) fss input"

definition getTableDataForCombined :: "boost \<Rightarrow> ('d, 'x, 'db) transfer_types \<Rightarrow> struct list \<Rightarrow> string \<Rightarrow> ('db, soci_exception, ('d, 'x) fields list list) call" where
  "getTableDataForCombined b tt fss input =
     bindS (t_exec tt (selectStatementForCombined b (t_backend tt) fss input) [[]])
       (\<lambda>res db. (read_rows (\<lambda>r. retrieveDataForCombined (t_lib tt) (map (map snd) fss) r 0) res, db))"

definition queryTableData ::
  "('d, 'x, 'db) transfer_types \<Rightarrow> struct \<Rightarrow> struct \<Rightarrow> string \<Rightarrow> ('d, 'x) fields \<Rightarrow> ('db, soci_exception, ('d, 'x) fields list) call" where
  "queryTableData tt ks ds tn key =
     bindS (t_exec tt (queryTableData_text (traits_of (t_backend tt)) ks ds tn) [sociBindFields (t_lib tt) ks key])
       (\<lambda>res db. (read_rows (\<lambda>r. retrieveData (t_lib tt) (map snd ds) r 0) res, db))"

text \<open>The importer delivers the table once, as its final value.\<close>

definition createImporter :: "boost \<Rightarrow> ('d, 'x, 'db) transfer_types \<Rightarrow> struct \<Rightarrow> string \<Rightarrow> ('db, soci_exception, bool \<times> ('d, 'x) fields list) call" where
  "createImporter b tt fs input = bindS (getTableData b tt fs input) (\<lambda>value. returnS (False, value))"

text \<open>The repeated importers go on for ever and deliver nothing when an exception is thrown.\<close>

definition createRepeatedImporter :: "boost \<Rightarrow> ('d, 'x, 'db) transfer_types \<Rightarrow> struct \<Rightarrow> string \<Rightarrow> 'db \<Rightarrow> (bool \<times> ('d, 'x) fields list option) \<times> 'db" where
  "createRepeatedImporter b tt fs input db =
     (case getTableData b tt fs input db of
        (Inr value, db') \<Rightarrow> ((True, Some value), db')
      | (Inl e, db') \<Rightarrow> ((True, None), db'))"

text \<open>
  The loop of the importer with a key check. The keys it has seen are kept where an exception ends it. A row that cannot be fetched in the middle of the
  result ends the loop in the same way as a row that cannot be read, and it appears as one: as the last row of the answer.
\<close>

fun check_rows :: "('r \<Rightarrow> 'e + 'a) \<Rightarrow> ('a \<Rightarrow> 'k) \<Rightarrow> 'r list \<Rightarrow> 'k set \<Rightarrow> ('e + 'a list) \<times> 'k set" where
  "check_rows f key [] seen = (Inr [], seen)"
| "check_rows f key (r # rs) seen = (case f r of
      Inl e \<Rightarrow> (Inl e, seen)
    | Inr d \<Rightarrow>
        if key d \<in> seen then check_rows f key rs seen
        else (let (res, seen') = check_rows f key rs (insert (key d) seen) in (mapE (\<lambda>ds. d # ds) res, seen')))"

definition createRepeatedImporterWithKeyCheck ::
  "boost \<Rightarrow> ('d, 'x, 'db) transfer_types \<Rightarrow> struct \<Rightarrow> string \<Rightarrow> (('d, 'x) fields \<Rightarrow> 'k) \<Rightarrow> 'db \<times> 'k set
    \<Rightarrow> (bool \<times> ('d, 'x) fields list option) \<times> ('db \<times> 'k set)" where
  "createRepeatedImporterWithKeyCheck b tt fs input keyExtractor w =
     (case t_exec tt (selectStatement b (t_backend tt) fs input) [[]] (fst w) of
        (Inl e, db') \<Rightarrow> ((True, None), (db', snd w))
      | (Inr res, db') \<Rightarrow>
          (case check_rows (\<lambda>r. retrieveData (t_lib tt) (map snd fs) r 0) keyExtractor res (snd w) of
             (Inl e, seen) \<Rightarrow> ((True, None), (db', seen))
           | (Inr value, seen) \<Rightarrow> ((True, Some value), (db', seen))))"

section \<open>What the key check delivers\<close>

text \<open>The reference: of a sequence of structs, the first with each key.\<close>

fun first_by_key :: "('a \<Rightarrow> 'k) \<Rightarrow> 'k set \<Rightarrow> 'a list \<Rightarrow> 'a list" where
  "first_by_key key seen [] = []"
| "first_by_key key seen (d # ds) = (if key d \<in> seen then first_by_key key seen ds else d # first_by_key key (insert (key d) seen) ds)"

lemma first_by_key_append: "first_by_key key seen (ds @ es) = first_by_key key seen ds @ first_by_key key (seen \<union> key ` set ds) es"
  by (induction ds arbitrary: seen) (auto simp: insert_absorb)

lemma check_rows_ok: "read_rows f rs = Inr ds \<Longrightarrow> check_rows f key rs seen = (Inr (first_by_key key seen ds), seen \<union> key ` set ds)"
proof (induction rs arbitrary: ds seen)
  case (Cons r rs)
  then obtain d es where d: "f r = Inr d" "read_rows f rs = Inr es" "ds = d # es"
    by (auto simp: bindE_eq_Inr mapE_def)
  then show ?case
    using Cons.IH by (auto simp: insert_absorb)
qed simp

lemma check_rows_keeps: "seen \<subseteq> snd (check_rows f key rs seen)"
proof (induction rs arbitrary: seen)
  case (Cons r rs)
  show ?case
  proof (cases "f r")
    case (Inr d)
    then show ?thesis
      using Cons.IH [of seen] Cons.IH [of "insert (key d) seen"] by (auto simp: split_beta Let_def)
  qed simp
qed simp

lemma check_rows_fresh: "check_rows f key rs seen = (Inr ds, seen') \<Longrightarrow> d \<in> set ds \<Longrightarrow> key d \<notin> seen"
proof (induction rs arbitrary: seen ds seen')
  case (Cons r rs)
  show ?case
  proof (cases "f r")
    case (Inl e)
    then show ?thesis
      using Cons.prems(1) by simp
  next
    case (Inr x)
    show ?thesis
    proof (cases "key x \<in> seen")
      case True
      then show ?thesis
        using Cons.IH Cons.prems Inr by simp
    next
      case False
      obtain res seen1 where rec: "check_rows f key rs (insert (key x) seen) = (res, seen1)"
        by fastforce
      then obtain es where "res = Inr es" "ds = x # es"
        using Cons.prems(1) Inr False by (auto simp: mapE_def bindE_eq_Inr)
      then show ?thesis
        using Cons.IH [of "insert (key x) seen" es seen1] rec Cons.prems(2) False by auto
    qed
  qed
qed simp

lemma check_rows_fails: "read_rows f rs = Inr ds \<Longrightarrow> f bad = Inl e \<Longrightarrow> check_rows f key (rs @ bad # rest) seen = (Inl e, seen \<union> key ` set ds)"
proof (induction rs arbitrary: ds seen)
  case (Cons r rs)
  then obtain d es where d: "f r = Inr d" "read_rows f rs = Inr es" "ds = d # es"
    by (auto simp: bindE_eq_Inr mapE_def)
  then show ?case
    using Cons.IH Cons.prems(2) by (auto simp: insert_absorb)
qed simp

lemma check_rows_distinct: "check_rows f key rs seen = (Inr ds, seen') \<Longrightarrow> distinct (map key ds) \<and> key ` set ds \<subseteq> seen'"
proof (induction rs arbitrary: seen ds seen')
  case (Cons r rs)
  show ?case
  proof (cases "f r")
    case (Inl e)
    then show ?thesis
      using Cons.prems(1) by simp
  next
    case (Inr x)
    show ?thesis
    proof (cases "key x \<in> seen")
      case True
      then show ?thesis
        using Cons.IH Cons.prems Inr by simp
    next
      case False
      obtain res seen1 where rec: "check_rows f key rs (insert (key x) seen) = (res, seen1)"
        by fastforce
      then obtain es where es: "res = Inr es" "ds = x # es" "seen' = seen1"
        using Cons.prems(1) Inr False by (auto simp: mapE_def bindE_eq_Inr)
      have "key x \<notin> key ` set es"
        using check_rows_fresh [of f key rs "insert (key x) seen" es seen1] rec es(1) by (metis imageE insertCI)
      moreover have "key x \<in> seen1"
        using check_rows_keeps [of "insert (key x) seen" f key rs] rec by auto
      ultimately show ?thesis
        using Cons.IH [of "insert (key x) seen" es seen1] rec es by simp
    qed
  qed
qed simp

definition delivered :: "bool \<times> 'a list option \<Rightarrow> 'a list" where
  "delivered r = (case snd r of Some ds \<Rightarrow> ds | None \<Rightarrow> [])"

lemma poll_step:
  assumes "createRepeatedImporterWithKeyCheck b tt fs input key w = (r, w')"
  shows "snd w \<subseteq> snd w'" "distinct (map key (delivered r))" "key ` set (delivered r) \<inter> snd w = {}" "key ` set (delivered r) \<subseteq> snd w'"
proof -
  let ?f = "\<lambda>r. retrieveData (t_lib tt) (map snd fs) r 0"
  obtain x db' where x: "t_exec tt (selectStatement b (t_backend tt) fs input) [[]] (fst w) = (x, db')"
    by fastforce
  have "snd w \<subseteq> snd w' \<and> distinct (map key (delivered r)) \<and> key ` set (delivered r) \<inter> snd w = {} \<and> key ` set (delivered r) \<subseteq> snd w'"
  proof (cases x)
    case (Inl e)
    then show ?thesis
      using assms x by (auto simp: createRepeatedImporterWithKeyCheck_def delivered_def)
  next
    case (Inr res)
    obtain v seen where v: "check_rows ?f key res (snd w) = (v, seen)"
      by fastforce
    have sub: "snd w \<subseteq> seen"
      using check_rows_keeps [of "snd w" ?f key res] v by simp
    show ?thesis
    proof (cases v)
      case (Inl e)
      then show ?thesis
        using assms x Inr v sub by (auto simp: createRepeatedImporterWithKeyCheck_def delivered_def)
    next
      case (Inr ds)
      then have "r = (True, Some ds)" "snd w' = seen"
        using assms x \<open>x = Inr res\<close> v by (auto simp: createRepeatedImporterWithKeyCheck_def)
      then show ?thesis
        using sub check_rows_fresh [OF v [unfolded Inr]] check_rows_distinct [OF v [unfolded Inr]] by (auto simp: delivered_def)
    qed
  qed
  then show "snd w \<subseteq> snd w'" "distinct (map key (delivered r))" "key ` set (delivered r) \<inter> snd w = {}" "key ` set (delivered r) \<subseteq> snd w'"
    by simp_all
qed

lemma run_delivers:
  assumes "run_calls (\<lambda>input. createRepeatedImporterWithKeyCheck b tt fs input key) inputs w = (rs, w')"
  shows "distinct (map key (concat (map delivered rs))) \<and> key ` set (concat (map delivered rs)) \<inter> snd w = {} \<and> snd w \<subseteq> snd w'"
  using assms
proof (induction inputs arbitrary: w rs)
  case (Cons input inputs)
  obtain r w1 where step: "createRepeatedImporterWithKeyCheck b tt fs input key w = (r, w1)"
    using prod.exhaust by blast
  obtain rs' where rest: "run_calls (\<lambda>input. createRepeatedImporterWithKeyCheck b tt fs input key) inputs w1 = (rs', w')" "rs = r # rs'"
    using Cons.prems step by (auto split: prod.splits)
  define es where "es = concat (map delivered rs')"
  have es: "concat (map delivered rs) = delivered r @ es"
    by (simp add: es_def rest(2))
  have "distinct (map key es)" "key ` set es \<inter> snd w1 = {}" "snd w1 \<subseteq> snd w'"
    using Cons.IH [OF rest(1)] by (simp_all add: es_def)
  moreover note poll_step [OF step]
  ultimately show ?case
    unfolding es map_append distinct_append set_append image_Un set_map by blast
qed simp

lemma run_delivers_fresh:
  "run_calls (\<lambda>input. createRepeatedImporterWithKeyCheck b tt fs input key) inputs w = (rs, w') \<Longrightarrow> key ` set (concat (map delivered rs)) \<inter> snd w = {}"
  using run_delivers by blast

text \<open>
  C21: However often the importers with a key check poll, whatever tables they read and whichever polls fail: no key is delivered that was seen before, and
  none is delivered twice.
\<close>

theorem polls_deliver_once:
  assumes "run_calls (\<lambda>input. createRepeatedImporterWithKeyCheck b tt fs input key) inputs w = (rs, w')"
  shows "distinct (map key (concat (map delivered rs))) \<and> key ` set (concat (map delivered rs)) \<inter> snd w = {} \<and> snd w \<subseteq> snd w'"
  using run_delivers [OF assms] .

text \<open>A poll whose rows can all be read delivers the first struct with each key that was not seen.\<close>

theorem good_poll:
  assumes "t_exec tt (selectStatement b (t_backend tt) fs input) [[]] db = (Inr res, db')"
    and "read_rows (\<lambda>r. retrieveData (t_lib tt) (map snd fs) r 0) res = Inr ds"
  shows "createRepeatedImporterWithKeyCheck b tt fs input key (db, seen) = ((True, Some (first_by_key key seen ds)), (db', seen \<union> key ` set ds))"
  using assms check_rows_ok [OF assms(2), of key seen] by (simp add: createRepeatedImporterWithKeyCheck_def)

text \<open>
  C34: A poll that fails at a row delivers nothing, but has marked the keys of the rows before it as seen: these rows are not delivered by any later poll.
\<close>

theorem failed_poll_loses_rows:
  assumes "t_exec tt (selectStatement b (t_backend tt) fs input) [[]] (fst w) = (Inr (good @ bad # rest), db')"
    and "read_rows (\<lambda>r. retrieveData (t_lib tt) (map snd fs) r 0) good = Inr ds" and "retrieveData (t_lib tt) (map snd fs) bad 0 = Inl e"
    and "run_calls (\<lambda>input. createRepeatedImporterWithKeyCheck b tt fs input key) (input # inputs) w = (rs, w')"
  shows "hd rs = (True, None) \<and> key ` set ds \<inter> key ` set (concat (map delivered rs)) = {}"
proof -
  let ?w1 = "(db', snd w \<union> key ` set ds)"
  have step: "createRepeatedImporterWithKeyCheck b tt fs input key w = ((True, None), ?w1)"
    using assms(1) check_rows_fails [where f = "\<lambda>r. retrieveData (t_lib tt) (map snd fs) r 0", OF assms(2,3), of key rest "snd w"]
    by (simp add: createRepeatedImporterWithKeyCheck_def)
  then obtain rs' where rest: "run_calls (\<lambda>input. createRepeatedImporterWithKeyCheck b tt fs input key) inputs ?w1 = (rs', w')" "rs = (True, None) # rs'"
    using assms(4) by (auto split: prod.splits)
  have "key ` set (concat (map delivered rs')) \<inter> (snd w \<union> key ` set ds) = {}"
    using run_delivers_fresh [OF rest(1)] by simp
  then show ?thesis
    using rest(2) by (auto simp: delivered_def)
qed

section \<open>Where the exporters write\<close>

text \<open>
  Once a batch was written to a table, even an empty one, every later batch of the same type is inserted into that table, whatever table it was meant for.
\<close>

theorem batch_goes_to_first_table:
  assumes "write_stmt w = None" and "writeBatchToTable tt fs tn batch w = (r, w1)" and "other_batch \<noteq> []"
  shows "writeBatchToTable tt fs other other_batch w1 =
    execute_static tt (exporter_insertTemplate (t_backend tt) fs tn) (sociBindFieldsBatch (t_lib tt) fs other_batch) w1"
proof -
  have "write_stmt w1 = Some (exporter_insertTemplate (t_backend tt) fs tn)"
    using assms(1,2) by (auto simp: writeBatchToTable_def static_value_def execute_static_def bindS_def with_x_database_def returnS_def Let_def
        split: if_splits prod.splits sum.splits)
  then show ?thesis
    using assms(3) by (cases w1) (simp add: writeBatchToTable_def static_value_def Let_def)
qed

text \<open>
  The first export of a type fixes the table for all exporters of that type: the statement that another exporter executes reads as an insertion into
  the table of the first, with the fields of the struct as columns and their placeholders as values.
\<close>

theorem exporter_keeps_first_table:
  assumes "struct_ok fs" and "ident tn" and "single_stmt w = None" and "createExporter tt fs tn data w = (r, w1)"
  shows "\<exists>st. createExporter tt fs other data' w1 = execute_static tt st [sociBindFields (t_lib tt) fs data'] w1
    \<and> read_sql st = Some (Insert tn (names_of fs) (map (value_expr (traits_of (t_backend tt))) fs) [])"
proof -
  have "single_stmt w1 = Some (exporter_insertTemplate (t_backend tt) fs tn)"
    using assms(3,4) by (auto simp: createExporter_def static_value_def execute_static_def bindS_def with_x_database_def returnS_def Let_def
        split: if_splits prod.splits sum.splits)
  then have "createExporter tt fs other data' w1 = execute_static tt (exporter_insertTemplate (t_backend tt) fs tn) [sociBindFields (t_lib tt) fs data'] w1"
    by (cases w1) (simp add: createExporter_def static_value_def Let_def)
  moreover have "read_sql (exporter_insertTemplate (t_backend tt) fs tn) = Some (Insert tn (names_of fs) (map (value_expr (traits_of (t_backend tt))) fs) [])"
    unfolding exporter_insertTemplate_def by (rule insert_text_read [OF assms(1,2)])
  ultimately show ?thesis
    by blast
qed

section \<open>Concrete runs\<close>

text \<open>The database is the list of answers to come.\<close>

definition answering :: "(nat, nat, (soci_exception + nat row list) list) executor" where
  "answering tx bs db = (case db of [] \<Rightarrow> (Inl SociError, []) | a # as \<Rightarrow> (a, as))"

definition sample_transfer :: "(nat, nat, (soci_exception + nat row list) list) transfer_types" where
  "sample_transfer = \<lparr>t_exec = answering, t_lib = sample_conversions, t_backend = Sqlite3Backend\<rparr>"

definition sample_fields :: struct where
  "sample_fields = [(''id'', TIntegral cpp_int), (''name'', TString)]"

definition sample_poll_row :: "int \<Rightarrow> string \<Rightarrow> nat row" where
  "sample_poll_row i s = [(CInteger i, i_ok), (CString s, i_ok)]"

theorem polls_deliver_once_witness:
  "\<exists>rs w'. run_calls (\<lambda>input. createRepeatedImporterWithKeyCheck boost_ref sample_transfer sample_fields input hd) [''items'', ''items'']
      ([Inr [sample_poll_row 1 ''a''], Inr [sample_poll_row 1 ''a'', sample_poll_row 2 ''b'']], {}) = (rs, w')
    \<and> rs = [(True, Some [[VInt 1, VString ''a'']]), (True, Some [[VInt 2, VString ''b'']])]
    \<and> distinct (map hd (concat (map delivered rs)))"
proof -
  let ?run = "run_calls (\<lambda>input. createRepeatedImporterWithKeyCheck boost_ref sample_transfer sample_fields input hd) [''items'', ''items'']
      ([Inr [sample_poll_row 1 ''a''], Inr [sample_poll_row 1 ''a'', sample_poll_row 2 ''b'']], {})"
  obtain rs w' where run: "?run = (rs, w')"
    using prod.exhaust by blast
  have "fst ?run = [(True, Some [[VInt 1, VString ''a'']]), (True, Some [[VInt 2, VString ''b'']])]"
    by code_simp
  then show ?thesis
    using polls_deliver_once [OF run] run by auto
qed

theorem failed_poll_loses_rows_witness:
  "\<exists>rs w'. run_calls (\<lambda>input. createRepeatedImporterWithKeyCheck boost_ref sample_transfer sample_fields input hd) [''items'', ''items'']
      ([Inr [sample_poll_row 1 ''a'', [(CInteger 2, i_ok), (CBlob, i_ok)]], Inr [sample_poll_row 1 ''a'', sample_poll_row 2 ''b'']], {}) = (rs, w')
    \<and> hd rs = (True, None) \<and> VInt 1 \<notin> hd ` set (concat (map delivered rs))"
proof -
  let ?w = "([Inr [sample_poll_row 1 ''a'', [(CInteger 2, i_ok), (CBlob, i_ok)]], Inr [sample_poll_row 1 ''a'', sample_poll_row 2 ''b'']], {})"
  let ?run = "run_calls (\<lambda>input. createRepeatedImporterWithKeyCheck boost_ref sample_transfer sample_fields input hd) [''items'', ''items''] ?w"
  obtain rs w' where run: "?run = (rs, w')"
    using prod.exhaust by blast
  have rows: "read_rows (\<lambda>r. retrieveData (t_lib sample_transfer) (map snd sample_fields) r 0) [sample_poll_row 1 ''a''] = Inr [[VInt 1, VString ''a'']]"
    by code_simp
  have bad: "retrieveData (t_lib sample_transfer) (map snd sample_fields) [(CInteger 2, i_ok), (CBlob, i_ok)] 0 = Inl (cannot_convert (CBlob :: nat cell) ''std::string'')"
    by code_simp
  have first: "t_exec sample_transfer (selectStatement boost_ref (t_backend sample_transfer) sample_fields ''items'') [[]] (fst ?w)
      = (Inr ([sample_poll_row 1 ''a''] @ [(CInteger 2, i_ok), (CBlob, i_ok)] # []), [Inr [sample_poll_row 1 ''a'', sample_poll_row 2 ''b'']])"
    by (simp add: sample_transfer_def answering_def)
  show ?thesis
    using failed_poll_loses_rows [OF first rows bad run] run by auto
qed

theorem exporter_keeps_first_table_witness:
  "\<exists>r w1 st. createExporter sample_transfer sample_fields ''items'' [VInt 1, VString ''a'']
      \<lparr>x_database = [Inr []], single_stmt = None, duplicate_stmt = None, batch_stmt = None, write_stmt = None\<rparr> = (r, w1)
    \<and> createExporter sample_transfer sample_fields ''other'' [VInt 2, VString ''b''] w1 = execute_static sample_transfer st
        [sociBindFields sample_conversions sample_fields [VInt 2, VString ''b'']] w1
    \<and> read_sql st = Some (Insert ''items'' [''id'', ''name''] [EParam ''id'', EParam ''name''] [])"
proof -
  let ?w = "\<lparr>x_database = [Inr []], single_stmt = None, duplicate_stmt = None, batch_stmt = None, write_stmt = None\<rparr>"
  obtain r w1 where run: "createExporter sample_transfer sample_fields ''items'' [VInt 1, VString ''a''] ?w = (r, w1)"
    using prod.exhaust by blast
  have "struct_ok sample_fields" "ident ''items''" "map (value_expr (traits_of (t_backend sample_transfer))) sample_fields = [EParam ''id'', EParam ''name'']"
    "names_of sample_fields = [''id'', ''name'']"
    by code_simp+
  moreover have "t_lib sample_transfer = sample_conversions"
    by (simp add: sample_transfer_def)
  ultimately show ?thesis
    using exporter_keeps_first_table [OF _ _ _ run, of "''other''" "[VInt 2, VString ''b'']"] run by simp
qed

end
