(* ===== verification/ChainGroup.thy ===== *)
theory ChainGroup
  imports Prelude "HOL-Library.Word"
begin

unbundle bit_operations_syntax

text \<open>
  ConvertChainIDStringToGroup.cpp: the group of a chain from a hash of its identifier. The hash is that of the sodium library, a parameter that returns its
  32 bytes. Several bytes are read as an integer the way they lie in memory.
\<close>

definition crypto_generichash_BYTES :: nat where
  "crypto_generichash_BYTES = 32"

text \<open>The pieces of a given size, one after the other.\<close>

fun pieces_of :: "nat \<Rightarrow> nat \<Rightarrow> string \<Rightarrow> string list" where
  "pieces_of k 0 s = []"
| "pieces_of k (Suc n) s = take k s # pieces_of k n (drop k s)"

definition fold_hash :: "nat \<Rightarrow> string \<Rightarrow> 32 word" where
  "fold_hash k h = fold (\<lambda>p ret. ret XOR of_nat (nat_of_bytes p)) (pieces_of k (crypto_generichash_BYTES div k) h) 0"

definition convertChainIDStringToGroup :: "(string \<Rightarrow> string) \<Rightarrow> string \<Rightarrow> 32 word \<Rightarrow> 32 word" where
  "convertChainIDStringToGroup crypto_generichash chain_id totalGroups =
     (if totalGroups = 0 then 0
      else (let h = crypto_generichash chain_id;
          ret = (if totalGroups \<le> 256 then fold_hash 1 h else if totalGroups \<le> 65536 then fold_hash 2 h else fold_hash 4 h) in
        ret mod totalGroups))"

section \<open>The group is in range, and any group can be the result\<close>

text \<open>A hash whose bytes are zero but for the first.\<close>

lemma fold_zero: "fold (\<lambda>p ret. ret XOR of_nat (nat_of_bytes p)) (pieces_of k n (replicate m (char_of (0 :: nat)))) r = (r :: 32 word)"
proof (induction n arbitrary: m r)
  case (Suc n)
  have "nat_of_bytes (replicate j (char_of (0 :: nat))) = 0" for j
    by (induction j) simp_all
  then show ?case
    using Suc by simp
qed simp

lemma fold_hash_first:
  assumes "0 < k" "k \<le> 32"
  shows "fold_hash k (bytes_of_nat k n @ replicate (32 - k) (char_of (0 :: nat))) = of_nat (n mod 256 ^ k)"
proof -
  obtain j where "32 div k = Suc j"
    using assms by (cases "32 div k") (auto simp: div_eq_0_iff)
  then show ?thesis
    by (simp add: fold_hash_def crypto_generichash_BYTES_def fold_zero nat_of_bytes_of_nat)
qed

text \<open>
  C35: With a number of groups the result is below it, and without it is 0; and each group is the result for some value of the hash, so no group is left
  empty by the way the bytes are combined.
\<close>

theorem group_in_range:
  shows "(totalGroups \<noteq> 0 \<longrightarrow> convertChainIDStringToGroup hash chain_id totalGroups < totalGroups)
    \<and> convertChainIDStringToGroup hash chain_id 0 = 0
    \<and> (g < totalGroups \<longrightarrow> (\<exists>h. length h = crypto_generichash_BYTES \<and> convertChainIDStringToGroup (\<lambda>_. h) chain_id totalGroups = g))"
proof (intro conjI impI)
  show "convertChainIDStringToGroup hash chain_id totalGroups < totalGroups" if "totalGroups \<noteq> 0"
    using that by (simp add: convertChainIDStringToGroup_def Let_def word_mod_less_divisor word_gt_0)
  show "convertChainIDStringToGroup hash chain_id 0 = 0"
    by (simp add: convertChainIDStringToGroup_def)
  assume g: "g < totalGroups"
  define k :: nat where "k = (if totalGroups \<le> 256 then 1 else if totalGroups \<le> 65536 then 2 else 4)"
  have k: "0 < k" "k \<le> 32"
    by (simp_all add: k_def)
  have "unat g < unat totalGroups"
    using g by (simp add: word_less_nat_alt)
  moreover have "unat totalGroups \<le> 256 ^ k"
  proof -
    have "unat totalGroups < 2 ^ LENGTH(32)"
      by (rule unsigned_less)
    then have "totalGroups \<le> 256 \<Longrightarrow> unat totalGroups \<le> 256" "totalGroups \<le> 65536 \<Longrightarrow> unat totalGroups \<le> 65536" "unat totalGroups < 4294967296"
      by (simp_all add: word_le_nat_alt)
    then show ?thesis
      by (auto simp: k_def)
  qed
  ultimately have "fold_hash k (bytes_of_nat k (unat g) @ replicate (32 - k) (char_of (0 :: nat))) = g"
    by (simp add: fold_hash_first [OF k])
  moreover have "convertChainIDStringToGroup (\<lambda>_. h) chain_id totalGroups = fold_hash k h mod totalGroups" for h
    using g by (auto simp: convertChainIDStringToGroup_def k_def Let_def)
  moreover have "g mod totalGroups = g"
    using g by (simp add: mod_word_less)
  ultimately show "\<exists>h. length h = crypto_generichash_BYTES \<and> convertChainIDStringToGroup (\<lambda>_. h) chain_id totalGroups = g"
    using k by (intro exI [of _ "bytes_of_nat k (unat g) @ replicate (32 - k) (char_of (0 :: nat))"]) (simp add: crypto_generichash_BYTES_def)
qed

theorem group_in_range_witness:
  "convertChainIDStringToGroup (\<lambda>s. bytes_of_nat 32 (length s)) ''chain'' 3 < 3
   \<and> (\<exists>h. length h = crypto_generichash_BYTES \<and> convertChainIDStringToGroup (\<lambda>_. h) ''chain'' 3 = 2)"
  using group_in_range [of 3 "\<lambda>s. bytes_of_nat 32 (length s)" "''chain''" 2] by simp

end
