(* ===== verification/Spec2Isabelle.thy ===== *)
theory Spec2Isabelle
  imports Locator Wire RedisAppend EtcdAppend Heartbeat HookFactory Listener UrlCodec RemoteFacility RedisRequests RedisSubscriptions ServerDiscovery SharedMemoryWriters SharedMemoryExtra SpinLock
    BclCompat TableTransfer ChainGroup
begin

text \<open>
  Verification of tm_transport, a C++ library that connects the nodes of an application over message transports. Paths below are
  relative to the repository; the C++ headers are in tm_kit/transport and the C++ sources in src.

  \<^bold>\<open>The program.\<close> A channel is named by a connection locator (ConnectionLocator.hpp). Broadcast transports (singlecast, multicast,
  ZeroMQ, NNG and others) keep a table of subscriptions and clients and deliver messages with a topic; a listener
  (MultiTransportBroadcastListener.hpp) opens and closes subscriptions on them on request. Bytes pass through a pair of hooks on
  their way out and in (ByteDataHook.hpp), which an environment may supply by data type (AbstractHookFactoryComponent.hpp).
  A node announces its channels in heartbeats (HeartbeatMessage.hpp, HeartbeatAndAlertComponent.hpp). Shared chains
  (redis_shared_chain, etcd_shared_chain, lock_free_in_memory_shared_chain) are linked lists in a server or in shared memory that
  several processes extend at the end without locks.

  \<^bold>\<open>The theories.\<close>
  \<^item> \<open>Prelude\<close> and \<open>CppStrings\<close>: calls with errors and state (\<open>call\<close>, \<open>bindS\<close>), \<open>std::map\<close> as a list sorted by key (\<open>stdmap\<close>),
    decimal numbers, and the string functions of the C++ library. Boost's are parameters with the locale \<open>boost_strings\<close>.
  \<^item> \<open>Wire\<close> and \<open>Codecs\<close>: hooks (ByteDataHook.hpp) and serializers. The serializers of tm_basic are parameters with the locales
    \<open>serializer_law\<close> and \<open>cbor_law\<close>; \<open>Codecs\<close> builds instances for the witnesses.
  \<^item> \<open>Locator\<close>: ConnectionLocator.cpp and .hpp: parsing, printing, comparison, hash, CBOR form, queries and modifiers.
  \<^item> \<open>ChainInterface\<close>, \<open>KvChain\<close>: what a shared chain promises (locales \<open>shared_chain\<close>, \<open>readable_chain\<close> and \<open>reliable_chain\<close>) and how a
    chain lies in a key-value store. \<open>RedisChain\<close> and \<open>EtcdChain\<close> model the two classes and interpret these locales; the servers are
    parameters with the locales \<open>redis_server\<close> and \<open>etcd_server\<close>, which let other processes work between any two
    commands and let a reply be lost. \<open>RedisAppend\<close> and \<open>EtcdAppend\<close>: appending as one step of the server.
  \<^item> \<open>SharedMemory\<close>, \<open>SharedMemoryChain\<close>, \<open>SharedMemoryWriters\<close>: LockFreeInBoostSharedMemoryChain.hpp, a chain of nodes in a
    segment of shared memory. The segment maps addresses to objects; the other processes work between any two accesses (locale
    \<open>shared_memory\<close>). The two forms of the class interpret \<open>readable_chain\<close>. \<open>SharedMemoryExtra\<close>: the extra data of the same class.
    \<open>SpinLock\<close>: its spin lock, as steps of threads on three registers.
  \<^item> \<open>Heartbeat\<close>: HeartbeatMessage.cpp, AlertMessage.cpp and HeartbeatAndAlertComponent.cpp.
  \<^item> \<open>HookFactory\<close>: \<open>DefaultHookFactory\<close> of AbstractHookFactoryComponent.hpp.
  \<^item> \<open>Channels\<close>: channel specifications, topic patterns and the listener's requests with their CBOR form
    (MultiTransportBroadcastListener.hpp). Regular expressions of the form the code generates are given their meaning.
  \<^item> \<open>Dispatch\<close>: one subscription of singlecast, multicast, ZeroMQ and NNG: its clients, its envelopes and what it does with received bytes. Who is to
    receive a message is specified from the requests to subscribe and unsubscribe (\<open>standing\<close>, \<open>selects\<close>, \<open>due\<close>).
  \<^item> \<open>ClientTable\<close>: the tables of these transports, one step per critical section, with the objects behind pointers in a heap.
  \<^item> \<open>Listener\<close>: the class \<open>MultiTransportBroadcastListener\<close> over the locale \<open>client_service\<close>, which is interpreted on the tables of
    \<open>ClientTable\<close>.
  \<^item> \<open>UrlCodec\<close>: how a JSON REST client writes a query string and the server reads it (JsonRESTClientFacilityUtils.hpp,
    JsonRESTComponent.cpp).
  \<^item> \<open>RemoteFacility\<close>: MultiTransportRemoteFacility.hpp: actions with their CBOR form, the facility's senders, dispatch and replies, over the
    locale \<open>rpc_components\<close> for the transports' request components.
  \<^item> \<open>RedisRpc\<close>: the request side of RedisComponent.cpp, on which \<open>rpc_components\<close> is interpreted. \<open>RedisRequests\<close>: what it
    promises, alone and under a remote facility. \<open>RedisSubscriptions\<close>: the publishing side of the same file.
  \<^item> \<open>BclCompat\<close>: Duration.hpp, DateTime.hpp, Guid.hpp and Decimal.hpp of bcl_compat: values of .NET's base class library.
  \<^item> \<open>ChainGroup\<close>: ConvertChainIDStringToGroup.cpp, which deals chains out to groups by a hash.
  \<^item> \<open>SociValues\<close>, \<open>SqlText\<close>, \<open>TableServers\<close>, \<open>TableTransfer\<close>: the components over a database (db_table_importer_exporter and
    complex_key_value_store_components): how cells are read and fields bound, the SQL texts with a reader for the SQL they use, the servers, and the exporters and importers. The
    database with the SOCI library is a parameter with the locale \<open>sql_database\<close>, which is interpreted on a database in memory.
  \<^item> \<open>ServerDiscovery\<close>: HeartbeatMessageToRemoteFacilityCommand.hpp, which makes registrations and deregistrations of heartbeats.

  \<^bold>\<open>State and effects.\<close> A method is a function from the object's state to its result and the new state; an exception is \<open>Inl\<close> of an
  error type of its component, with the state at that moment. A C++ integer that can overflow is a word of its width
  (client ids and lengths on the wire), the port of a locator an integer checked to be in range. A function-local static is part
  of the state of the process. What other threads and processes do is a step relation of the servers (\<open>chain_grows\<close>) or an
  explicit sequence of steps (\<open>getOrStartSubscription\<close> and \<open>register_client\<close>).

  \<^bold>\<open>What the lemmas show.\<close> Locators, messages, requests and hooked bytes come back from the wire as they were sent, and what is
  accepted by a parser is well formed. An append to a chain is one step of the server, all or nothing, under interference and lost replies:
  what the other clients do is an arbitrary relation on the stores (\<open>redis_rely\<close>, \<open>etcd_rely\<close>), and what the relation does not allow was done by the
  call. Two writers at one place never both succeed, and a reader obtains the whole chain. On etcd this is for data with keys of its own, and reading moreover without
  watch thread and Redis copies. In shared memory an append that fails frees what it constructed; extra data is read back while nobody else is at
  work; the spin lock excludes as long as no thread decides to take over, and a schedule shows that taking over can make two holders. A published message
  reaches exactly the callbacks of the standing requests that select it. The tables of a transport refine a registry of clients; the listener's
  table always agrees with its transports, through failures, stops and restarts. The properties are numbered C1, C2, and so on in the
  order of the project's manifest, and each states one of these claims next to its proof.

  A request over Redis and its replies make the round trip; a Redis connection refines a table of pending requests, and a remote
  facility over it sends each request to a client that is there. Fed with the commands that a converter for one facility makes of heartbeats, it
  reaches exactly the servers that are held to be good.

  A server over a database table publishes exactly the changes its table goes through, except for updates that find no row, and as long as the static
  templates are its own; the texts it builds are read as the statements it means.

  \<^bold>\<open>Bounds.\<close> Reading a chain is a loop with fuel; the length of the chain is enough (\<open>redis_read_all\<close>, \<open>etcd_read_all\<close>). The tables of
  subscriptions need client ids that are left: the counter has 32 bits, so fewer than \<open>2 ^ 32\<close> clients may have been added
  (\<open>room\<close>, \<open>transports_room\<close>); a Redis connection numbers its request clients in the same way (\<open>numbers_left\<close>). A random sender
  is in range for fewer than \<open>2 ^ 31\<close> senders. The binary envelope carries topics shorter than \<open>2 ^ 32\<close>. The numbers of the spin lock
  have 64 bits and do not wrap in fewer than \<open>2 ^ 64\<close> steps; bytes in shared memory are shorter than \<open>2 ^ 64\<close>. Durations of less than
  \<open>2 ^ 53\<close> units are converted without overflow of 64 bits.

  \<^bold>\<open>Not modelled.\<close> Sockets, threads and the event loops of boost::asio, hiredis, ZeroMQ, NNG and the AMQP and gRPC libraries: what they
  return is an argument of the model, and a datagram is taken to be sent when it is handed over. The components of RabbitMQ, WebSocket, shared memory broadcast and
  socket RPC, the HTTP part of JSON REST and the on-order facilities are not modelled.
  The etcd named value store and the transaction glue are code around libraries that are not in the repository.
\<close>

end
